(* ===== verification/KPrelude.thy ===== *)
theory KPrelude
  imports Complex_Main
    "HOL-Library.Char_ord"
    "HOL-Library.List_Lexorder"
    "HOL-Library.Multiset"
    "HOL-Library.Word"
begin

text \<open>
  What every component of the dashboard shares.

  \<^item> Numbers.  A C \<open>double\<close> or \<open>float\<close> is a rational number: every finite value of the
    type is one, so stored values, comparisons and the constants of the code are exact; the
    rounding of an arithmetic operation is not modelled (the differences of two time stamps the
    code takes are exact in floating point as well, when the stamps are within a factor of two).
    A conversion to an integer type truncates towards zero.
  \<^item> C strings.  A \<open>char[N]\<close> field that the code zero-fills and writes with
    \<open>strncpy(dst, src, N - 1)\<close> holds the first \<open>N - 1\<close> bytes of its source.  A string is the
    list of its bytes before the terminator.
  \<^item> Arrays with a count.  \<open>T a[MAX]; int n\<close> is the list of the first \<open>n\<close> elements; the
    compaction loops are \<open>remove_at\<close>; a scan for the first matching slot is \<open>find_index\<close>.
  \<^item> The insertion sort the code writes out six times, once, over the array
    (\<open>c_isort\<close>), with its functional meaning and its correctness for any order (locale
    \<open>isort_order\<close>).
  \<^item> The contract of a bounded table of keyed slots (locales \<open>slot_table\<close> and
    \<open>slot_table_remove\<close>), which the service, apartment-temperature and graph-host
    registries provide.
\<close>

named_theorems cstr_simps \<open>facts on the C string functions\<close>
named_theorems slot_simps \<open>facts on tables of slots\<close>

section \<open>Numbers\<close>

type_synonym double = rat

definition trunc_int :: "double \<Rightarrow> int" where
  "trunc_int x = (if 0 \<le> x then \<lfloor>x\<rfloor> else \<lceil>x\<rceil>)"

lemma trunc_int_of_int [simp]: "trunc_int (of_int i) = i"
  by (simp add: trunc_int_def)

lemma trunc_int_nonneg: "0 \<le> x \<Longrightarrow> 0 \<le> trunc_int x"
  by (simp add: trunc_int_def)

text \<open>A conversion of a floating-point number to \<open>int\<close> or \<open>long\<close> drops the fraction.  C leaves a value
  out of range undefined; the conversion instruction of the 64-bit ARM target gives the nearest bound, which
  is what the model takes.\<close>

definition cast_int :: "double \<Rightarrow> int" where
  "cast_int x = max (- (2 ^ 31)) (min (2 ^ 31 - 1) (trunc_int x))"

definition cast_long :: "double \<Rightarrow> int" where
  "cast_long x = max (- (2 ^ 63)) (min (2 ^ 63 - 1) (trunc_int x))"

lemma cast_int_id: "- (2 ^ 31) \<le> trunc_int x \<Longrightarrow> trunc_int x < 2 ^ 31 \<Longrightarrow> cast_int x = trunc_int x"
  by (simp add: cast_int_def)

lemma cast_long_nonneg: "0 \<le> x \<Longrightarrow> 0 \<le> cast_long x"
  using trunc_int_nonneg [of x] by (simp add: cast_long_def)

lemma trunc_int_mono: "x \<le> y \<Longrightarrow> trunc_int x \<le> trunc_int y"
  by (auto simp: trunc_int_def floor_mono ceiling_mono intro: order_trans [of _ 0])

lemma cast_int_mono: "x \<le> y \<Longrightarrow> cast_int x \<le> cast_int y"
  using trunc_int_mono [of x y] by (auto simp: cast_int_def)

text \<open>The \<open>float\<close> that a \<open>double\<close> of at least 0 becomes: rounding is left out, but a value that rounds past
  the greatest \<open>float\<close> is infinite.\<close>

datatype single = Finite double | Infinite

definition to_single :: "double \<Rightarrow> single" where
  "to_single x = (if x < 2 ^ 128 - 2 ^ 103 then Finite x else Infinite)"

text \<open>A conversion of an integer to \<open>int\<close> wraps to 32 bits.\<close>

definition c_int :: "int \<Rightarrow> int" where
  "c_int i = sint (word_of_int i :: 32 word)"

lemma c_int_id: "- (2 ^ 31) \<le> i \<Longrightarrow> i < 2 ^ 31 \<Longrightarrow> c_int i = i"
  by (simp add: c_int_def signed_of_int signed_take_bit_int_eq_self)

section \<open>C strings\<close>

text \<open>The bytes of a buffer before its terminator.\<close>

definition cstr :: "string \<Rightarrow> string" where
  "cstr s = takeWhile (\<lambda>c. c \<noteq> CHR 0x00) s"

text \<open>\<open>strncpy(dst, src, n - 1)\<close> into a zeroed \<open>char[n]\<close>, and \<open>snprintf(dst, n, \<dots>)\<close>.\<close>

definition buf_copy :: "nat \<Rightarrow> string \<Rightarrow> string" where
  "buf_copy n s = take (n - 1) s"

text \<open>The sign of \<open>strncmp\<close>: the end of a string sorts before every byte.\<close>

fun strncmp :: "nat \<Rightarrow> string \<Rightarrow> string \<Rightarrow> int" where
  "strncmp 0 a b = 0"
| "strncmp (Suc n) [] [] = 0"
| "strncmp (Suc n) [] (b # bs) = - 1"
| "strncmp (Suc n) (a # as) [] = 1"
| "strncmp (Suc n) (a # as) (b # bs) =
     (if a = b then strncmp n as bs else if a < b then - 1 else 1)"

definition streq :: "nat \<Rightarrow> string \<Rightarrow> string \<Rightarrow> bool" where
  "streq n a b \<longleftrightarrow> strncmp n a b = 0"

lemma strncmp_zero [cstr_simps]: "strncmp n a b = 0 \<longleftrightarrow> take n a = take n b"
  by (induction n a b rule: strncmp.induct) auto

lemma streq_iff [cstr_simps]: "streq n a b \<longleftrightarrow> take n a = take n b"
  by (simp add: streq_def strncmp_zero)

lemma streq_refl [simp]: "streq n a a"
  by (simp add: streq_iff)

lemma streq_short:
  "length a < n \<Longrightarrow> length b < n \<Longrightarrow> streq n a b \<longleftrightarrow> a = b"
  by (simp add: streq_iff)

text \<open>A name that fits its buffer equals exactly the names that are the same.\<close>

lemma streq_fits:
  assumes "length a < n" shows "streq n a b \<longleftrightarrow> a = b"
proof
  assume "streq n a b"
  then have eq: "a = take n b" using assms by (simp add: streq_iff)
  have "length b < n"
    using assms arg_cong [OF eq, of length] by auto
  with eq show "a = b" by simp
qed simp

lemma strncmp_pos [cstr_simps]: "0 < strncmp n a b \<longleftrightarrow> take n b < take n a"
  by (induction n a b rule: strncmp.induct) auto

lemma strncmp_neg [cstr_simps]: "strncmp n a b < 0 \<longleftrightarrow> take n a < take n b"
  by (induction n a b rule: strncmp.induct) auto

lemma length_buf_copy [simp]: "0 < n \<Longrightarrow> length (buf_copy n s) < n"
  by (simp add: buf_copy_def)

lemma buf_copy_id [simp]: "length s < n \<Longrightarrow> buf_copy n s = s"
  by (simp add: buf_copy_def)

lemma buf_copy_idem [simp]: "buf_copy n (buf_copy n s) = buf_copy n s"
  by (simp add: buf_copy_def)

lemma buf_copy_eq_Nil [simp]: "1 < n \<Longrightarrow> buf_copy n s = [] \<longleftrightarrow> s = []"
  by (simp add: buf_copy_def)

section \<open>Arrays with a count\<close>

text \<open>The index of the first element that satisfies a test: the scan loops of the registries.\<close>

fun find_index :: "('a \<Rightarrow> bool) \<Rightarrow> 'a list \<Rightarrow> nat option" where
  "find_index p [] = None"
| "find_index p (x # xs) = (if p x then Some 0 else map_option Suc (find_index p xs))"

lemma find_index_None: "find_index p xs = None \<longleftrightarrow> (\<forall>x \<in> set xs. \<not> p x)"
  by (induction xs) auto

lemma find_index_Some:
  "find_index p xs = Some i \<longleftrightarrow> i < length xs \<and> p (xs ! i) \<and> (\<forall>j < i. \<not> p (xs ! j))"
proof (induction xs arbitrary: i)
  case Nil
  then show ?case by simp
next
  case (Cons x xs)
  then show ?case
    by (cases i) (auto simp: less_Suc_eq_0_disj)
qed

lemma find_index_lt [dest]: "find_index p xs = Some i \<Longrightarrow> i < length xs"
  by (simp add: find_index_Some)

lemma find_index_sat: "find_index p xs = Some i \<Longrightarrow> p (xs ! i)"
  by (simp add: find_index_Some)

lemma find_index_append:
  "find_index p (xs @ ys) =
     (case find_index p xs of Some i \<Rightarrow> Some i
      | None \<Rightarrow> map_option (\<lambda>i. length xs + i) (find_index p ys))"
proof (induction xs)
  case Nil
  show ?case by (cases "find_index p ys") simp_all
next
  case (Cons x xs)
  then show ?case
    by (cases "find_index p xs"; cases "find_index p ys") simp_all
qed

lemma find_index_cong:
  "(\<And>x. x \<in> set xs \<Longrightarrow> p x = q x) \<Longrightarrow> find_index p xs = find_index q xs"
  by (induction xs) auto

text \<open>The first element of each key, in order: what a table keeps of a sequence of arrivals.\<close>

definition firsts :: "('a \<Rightarrow> 'k) \<Rightarrow> 'a list \<Rightarrow> 'a list" where
  "firsts f xs = fold (\<lambda>x acc. if f x \<in> f ` set acc then acc else acc @ [x]) xs []"

lemma firsts_Nil [simp]: "firsts f [] = []"
  by (simp add: firsts_def)

lemma firsts_snoc:
  "firsts f (xs @ [x]) = (if f x \<in> f ` set (firsts f xs) then firsts f xs else firsts f xs @ [x])"
  by (simp add: firsts_def)

lemma keys_firsts [simp]: "f ` set (firsts f xs) = f ` set xs"
  by (induction xs rule: rev_induct) (auto simp: firsts_snoc)

lemma set_firsts_subset: "set (firsts f xs) \<subseteq> set xs"
  by (induction xs rule: rev_induct) (auto simp: firsts_snoc)

lemma distinct_firsts [simp]: "distinct (map f (firsts f xs))"
proof (induction xs rule: rev_induct)
  case (snoc x xs)
  then show ?case by (auto simp: firsts_snoc)
qed simp

lemma set_firsts_id [simp]: "set (firsts id xs) = set xs"
  using keys_firsts [of id xs] by simp

lemma firsts_eq_Nil [simp]: "firsts f xs = [] \<longleftrightarrow> xs = []"
  using keys_firsts [of f xs] by (metis image_is_empty set_empty)

lemma take_snoc_if:
  "take n (xs @ [x]) = (if length xs < n then xs @ [x] else take n xs)"
  by simp

text \<open>The compaction loop \<open>for (k = i; k < n - 1; k++) a[k] = a[k + 1]; n--\<close>.\<close>

definition remove_at :: "nat \<Rightarrow> 'a list \<Rightarrow> 'a list" where
  "remove_at i xs = take i xs @ drop (Suc i) xs"

lemma length_remove_at [simp]: "i < length xs \<Longrightarrow> length (remove_at i xs) = length xs - 1"
  by (simp add: remove_at_def)

lemma mset_remove_at: "i < length xs \<Longrightarrow> mset xs = add_mset (xs ! i) (mset (remove_at i xs))"
proof -
  assume "i < length xs"
  then have "xs = take i xs @ xs ! i # drop (Suc i) xs" by (rule id_take_nth_drop)
  then have "mset xs = mset (take i xs @ xs ! i # drop (Suc i) xs)" by (rule arg_cong)
  then show ?thesis by (simp add: remove_at_def)
qed

lemma set_remove_at_subset: "set (remove_at i xs) \<subseteq> set xs"
  by (auto simp: remove_at_def dest: in_set_takeD in_set_dropD)

lemma remove_at_first:
  assumes "find_index p xs = Some i"
  shows "\<exists>ys x zs. xs = ys @ x # zs \<and> p x \<and> (\<forall>y \<in> set ys. \<not> p y) \<and> i = length ys \<and>
    remove_at i xs = ys @ zs"
proof -
  from assms have i: "i < length xs" "p (xs ! i)" "\<forall>j < i. \<not> p (xs ! j)"
    by (simp_all add: find_index_Some)
  have "xs = take i xs @ xs ! i # drop (Suc i) xs" using i(1) by (rule id_take_nth_drop)
  moreover have "\<forall>y \<in> set (take i xs). \<not> p y" using i by (auto simp: in_set_conv_nth)
  ultimately show ?thesis using i unfolding remove_at_def
    by (intro exI [of _ "take i xs"] exI [of _ "xs ! i"] exI [of _ "drop (Suc i) xs"]) auto
qed

lemma distinct_map_remove_at:
  assumes "distinct (map f xs)" shows "distinct (map f (remove_at i xs))"
proof (cases "i < length xs")
  case True
  then have "xs = take i xs @ xs ! i # drop (Suc i) xs" by (rule id_take_nth_drop)
  then have "distinct (map f (take i xs @ xs ! i # drop (Suc i) xs))" using assms by simp
  then show ?thesis by (auto simp: remove_at_def)
next
  case False
  then show ?thesis using assms by (simp add: remove_at_def)
qed

lemma filter_update_skip:
  "j < length xs \<Longrightarrow> \<not> P (xs ! j) \<Longrightarrow> \<not> P y \<Longrightarrow> filter P (xs[j := y]) = filter P xs"
  by (induction xs arbitrary: j) (auto split: nat.split)

section \<open>The insertion sort of the code\<close>

text \<open>
  \<^verbatim>\<open>
  for (int i = 1; i < n; i++) {
      T tmp = d[i];
      int j = i;
      while (j > 0 && gt(d[j - 1], tmp)) { d[j] = d[j - 1]; j--; }
      d[j] = tmp;
  }
  \<close>
  \<open>shift_in gt tmp j d\<close> is the inner loop from index \<open>j\<close> with the final store.
\<close>

fun shift_in :: "('a \<Rightarrow> 'a \<Rightarrow> bool) \<Rightarrow> 'a \<Rightarrow> nat \<Rightarrow> 'a list \<Rightarrow> 'a list" where
  "shift_in gt tmp 0 d = d[0 := tmp]"
| "shift_in gt tmp (Suc j) d =
     (if gt (d ! j) tmp then shift_in gt tmp j (d[Suc j := d ! j]) else d[Suc j := tmp])"

definition c_isort :: "('a \<Rightarrow> 'a \<Rightarrow> bool) \<Rightarrow> 'a list \<Rightarrow> 'a list" where
  "c_isort gt d = fold (\<lambda>i d. shift_in gt (d ! i) i d) [1..<length d] d"

text \<open>What one round means: the element goes after the last one that is not greater.\<close>

definition insert_right :: "('a \<Rightarrow> 'a \<Rightarrow> bool) \<Rightarrow> 'a \<Rightarrow> 'a list \<Rightarrow> 'a list" where
  "insert_right gt x xs =
     rev (dropWhile (\<lambda>y. gt y x) (rev xs)) @ x # rev (takeWhile (\<lambda>y. gt y x) (rev xs))"

lemma insert_right_Nil [simp]: "insert_right gt x [] = [x]"
  by (simp add: insert_right_def)

lemma insert_right_snoc:
  "insert_right gt x (xs @ [y]) = (if gt y x then insert_right gt x xs @ [y] else xs @ [y, x])"
  by (simp add: insert_right_def)

lemma length_shift_in [simp]: "length (shift_in gt x j d) = length d"
  by (induction gt x j d rule: shift_in.induct) auto

lemma shift_in_eq:
  "j < length d \<Longrightarrow> shift_in gt x j d = insert_right gt x (take j d) @ drop (Suc j) d"
proof (induction gt x j d rule: shift_in.induct)
  case (1 gt tmp d)
  then show ?case by (cases d) simp_all
next
  case (2 gt tmp j d)
  have take: "take (Suc j) d = take j d @ [d ! j]"
    using 2(2) by (simp add: take_Suc_conv_app_nth)
  show ?case
  proof (cases "gt (d ! j) tmp")
    case True
    have "shift_in gt tmp j (d[Suc j := d ! j])
        = insert_right gt tmp (take j (d[Suc j := d ! j])) @ drop (Suc j) (d[Suc j := d ! j])"
      using 2(1) [OF True] 2(2) by simp
    also have "drop (Suc j) (d[Suc j := d ! j]) = d ! j # drop (Suc (Suc j)) d"
      using 2(2) by (simp add: drop_update_swap Cons_nth_drop_Suc [symmetric])
    finally show ?thesis using True by (simp add: take insert_right_snoc)
  next
    case False
    have "d[Suc j := tmp] = take (Suc j) d @ tmp # drop (Suc (Suc j)) d"
      using 2(2) by (simp add: upd_conv_take_nth_drop)
    then show ?thesis using False by (simp add: take insert_right_snoc)
  qed
qed

lemma isort_rounds:
  "k \<le> length d \<Longrightarrow> 0 < k \<Longrightarrow>
     fold (\<lambda>i d. shift_in gt (d ! i) i d) [1..<k] d
       = fold (insert_right gt) (take k d) [] @ drop k d"
proof (induction k)
  case 0
  then show ?case by simp
next
  case (Suc k)
  show ?case
  proof (cases "k = 0")
    case True
    with Suc.prems show ?thesis by (cases d) simp_all
  next
    case False
    let ?p = "fold (insert_right gt) (take k d) []"
    have len: "length (fold (insert_right gt) xs ys) = length xs + length ys" for xs ys
    proof (induction xs arbitrary: ys)
      case (Cons x xs)
      have "length (insert_right gt x ys) = Suc (length ys)"
        by (induction ys rule: rev_induct) (auto simp: insert_right_snoc)
      with Cons show ?case by simp
    qed simp
    have IH: "fold (\<lambda>i d. shift_in gt (d ! i) i d) [1..<k] d = ?p @ drop k d"
      using Suc False by simp
    have k: "k < length d" using Suc.prems by simp
    have dk: "drop k d = d ! k # drop (Suc k) d" using k by (simp add: Cons_nth_drop_Suc)
    have lp: "length ?p = k" using k by (simp add: len)
    have "fold (\<lambda>i d. shift_in gt (d ! i) i d) [1..<Suc k] d
        = shift_in gt ((?p @ drop k d) ! k) k (?p @ drop k d)"
      using IH False by simp
    also have "\<dots> = insert_right gt (d ! k) ?p @ drop (Suc k) d"
      using lp k by (subst shift_in_eq) (simp_all add: dk nth_append)
    also have "\<dots> = fold (insert_right gt) (take (Suc k) d) [] @ drop (Suc k) d"
      using k by (simp add: take_Suc_conv_app_nth)
    finally show ?thesis .
  qed
qed

lemma c_isort_fold: "c_isort gt d = fold (insert_right gt) d []"
proof (cases "d = []")
  case True
  then show ?thesis by (simp add: c_isort_def)
next
  case False
  then show ?thesis
    using isort_rounds [of "length d" d gt] by (simp add: c_isort_def)
qed

lemma mset_insert_right: "mset (insert_right gt x xs) = add_mset x (mset xs)"
  by (induction xs rule: rev_induct) (auto simp: insert_right_snoc)

lemma mset_c_isort [simp]: "mset (c_isort gt d) = mset d"
proof -
  have "mset (fold (insert_right gt) d acc) = mset d + mset acc" for acc
    by (induction d arbitrary: acc) (auto simp: mset_insert_right)
  then show ?thesis by (simp add: c_isort_fold)
qed

lemma set_c_isort [simp]: "set (c_isort gt d) = set d"
  by (metis mset_c_isort set_mset_mset)

lemma length_c_isort [simp]: "length (c_isort gt d) = length d"
  by (metis mset_c_isort size_mset)

lemma distinct_c_isort [simp]: "distinct (c_isort gt d) = distinct d"
  by (metis mset_c_isort mset_eq_imp_distinct_iff)

lemma distinct_map_c_isort [simp]: "distinct (map f (c_isort gt d)) = distinct (map f d)"
  by (metis mset_c_isort mset_eq_imp_distinct_iff mset_map)


text \<open>
  Two facts hold for any comparison the code sorts with: the result is sorted when \<open>gt\<close> is the
  strict part of a total preorder, and elements that compare equal keep their order, whatever
  the comparison.  The comparisons of the registries interpret this locale.
\<close>

locale isort_order =
  fixes gt :: "'a \<Rightarrow> 'a \<Rightarrow> bool"
  assumes asym: "gt a b \<Longrightarrow> \<not> gt b a"
    and neg_trans: "\<not> gt a b \<Longrightarrow> \<not> gt b c \<Longrightarrow> \<not> gt a c"
begin

lemma sorted_insert_right:
  "sorted_wrt (\<lambda>a b. \<not> gt a b) xs \<Longrightarrow> sorted_wrt (\<lambda>a b. \<not> gt a b) (insert_right gt x xs)"
proof (induction xs rule: rev_induct)
  case Nil
  then show ?case by simp
next
  case (snoc y xs)
  have set: "set (insert_right gt x xs) = insert x (set xs)"
    by (metis mset_insert_right set_mset_add_mset_insert set_mset_mset)
  show ?case
  proof (cases "gt y x")
    case True
    with snoc show ?thesis
      by (auto simp: insert_right_snoc sorted_wrt_append set dest: asym)
  next
    case False
    with snoc.prems show ?thesis
      by (auto simp: insert_right_snoc sorted_wrt_append) (metis neg_trans)
  qed
qed

lemma sorted_isort: "sorted_wrt (\<lambda>a b. \<not> gt a b) (c_isort gt d)"
proof -
  have "sorted_wrt (\<lambda>a b. \<not> gt a b) acc \<Longrightarrow>
      sorted_wrt (\<lambda>a b. \<not> gt a b) (fold (insert_right gt) d acc)" for acc
    by (induction d arbitrary: acc) (auto intro: sorted_insert_right)
  then show ?thesis by (simp add: c_isort_fold)
qed

lemma filter_insert_right:
  assumes cls: "\<And>a b. P a \<Longrightarrow> P b \<Longrightarrow> \<not> gt a b"
  shows "filter P (insert_right gt x xs) = filter P xs @ (if P x then [x] else [])"
proof (induction xs rule: rev_induct)
  case Nil
  then show ?case by simp
next
  case (snoc y xs)
  then show ?case using cls [of y x] by (auto simp: insert_right_snoc)
qed

text \<open>Stability: a class of elements none of which exceeds another keeps its order.\<close>

lemma isort_stable:
  assumes cls: "\<And>a b. P a \<Longrightarrow> P b \<Longrightarrow> \<not> gt a b"
  shows "filter P (c_isort gt d) = filter P d"
proof -
  have "filter P (fold (insert_right gt) d acc) = filter P acc @ filter P d" for acc
    by (induction d arbitrary: acc) (auto simp: filter_insert_right [OF cls])
  then show ?thesis by (simp add: c_isort_fold)
qed

lemma isort_idem:
  assumes "sorted_wrt (\<lambda>a b. \<not> gt a b) d" shows "c_isort gt d = d"
proof -
  have "sorted_wrt (\<lambda>a b. \<not> gt a b) (acc @ d) \<Longrightarrow> fold (insert_right gt) d acc = acc @ d" for acc
  proof (induction d arbitrary: acc)
    case Nil
    then show ?case by simp
  next
    case (Cons x d)
    have "insert_right gt x acc = acc @ [x]"
      using Cons.prems by (cases acc rule: rev_cases)
        (auto simp: insert_right_snoc sorted_wrt_append)
    with Cons show ?case by simp
  qed
  with assms show ?thesis by (simp add: c_isort_fold)
qed

end

text \<open>The order by the first \<open>n\<close> bytes of a name, which four of the six sorts use.\<close>

lemma isort_order_strncmp: "isort_order (\<lambda>a b. 0 < strncmp n (key a) (key b))"
  by unfold_locales (auto simp: strncmp_pos)

interpretation by_name: isort_order "\<lambda>a b :: string. 0 < strncmp n a b" for n
  by (rule isort_order_strncmp)

section \<open>Bounded tables of keyed slots\<close>

text \<open>
  The contract between a registry and its clients: \<open>find_or_create\<close> answers the slot of a
  key, creating it while there is room and answering NULL (\<open>None\<close>) when there is none;
  entries that exist are never moved or changed by it.  \<open>ok\<close> is the set of keys that fit the
  slot's name buffers.
\<close>

locale slot_table =
  fixes matches :: "'k \<Rightarrow> 'e \<Rightarrow> bool"
    and fresh :: "'k \<Rightarrow> 'e"
    and ok :: "'k \<Rightarrow> bool"
    and cap :: nat
    and find_or_create :: "'k \<Rightarrow> 'e list \<Rightarrow> nat option \<times> 'e list"
  assumes hit: "ok k \<Longrightarrow> find_index (matches k) t = Some i \<Longrightarrow> find_or_create k t = (Some i, t)"
    and full: "ok k \<Longrightarrow> find_index (matches k) t = None \<Longrightarrow> cap \<le> length t \<Longrightarrow>
      find_or_create k t = (None, t)"
    and alloc: "ok k \<Longrightarrow> find_index (matches k) t = None \<Longrightarrow> length t < cap \<Longrightarrow>
      find_or_create k t = (Some (length t), t @ [fresh k])"
    and matches_key: "ok k \<Longrightarrow> ok k' \<Longrightarrow> matches k e \<Longrightarrow> matches k' e \<Longrightarrow> k' = k"
    and fresh_matches: "ok k \<Longrightarrow> matches k (fresh k)"
begin

lemma cases_foc:
  assumes "ok k"
  obtains (found) i where "find_index (matches k) t = Some i" "find_or_create k t = (Some i, t)"
  | (no_room) "find_index (matches k) t = None" "cap \<le> length t" "find_or_create k t = (None, t)"
  | (new) "find_index (matches k) t = None" "length t < cap"
      "find_or_create k t = (Some (length t), t @ [fresh k])"
proof (cases "find_index (matches k) t")
  case None
  show ?thesis
  proof (cases "length t < cap")
    case True
    then show ?thesis using new None alloc [OF assms None] by blast
  next
    case False
    then show ?thesis using that(2) None full [OF assms None] by simp
  qed
next
  case (Some i)
  then show ?thesis using that(1) hit [OF assms Some] by blast
qed

lemma foc_bounded: "ok k \<Longrightarrow> length t \<le> cap \<Longrightarrow> length (snd (find_or_create k t)) \<le> cap"
  by (rule cases_foc [of k t]) auto

lemma foc_prefix: "ok k \<Longrightarrow> \<exists>u. snd (find_or_create k t) = t @ u"
  by (rule cases_foc [of k t]) auto

lemma foc_found:
  assumes "ok k" "find_or_create k t = (Some i, t')"
  shows "i < length t' \<and> matches k (t' ! i)"
  using assms(1)
proof (rule cases_foc [of k t])
  fix j assume "find_index (matches k) t = Some j" "find_or_create k t = (Some j, t)"
  with assms(2) show ?thesis by (auto dest: find_index_sat)
next
  assume "find_or_create k t = (Some (length t), t @ [fresh k])"
  with assms show ?thesis by (auto simp: fresh_matches)
qed (use assms(2) in auto)

lemma foc_lookup:
  assumes "ok k" "find_or_create k t = (Some i, t')"
  shows "find_index (matches k) t' = Some i"
  using assms(1)
proof (rule cases_foc [of k t])
  assume "find_index (matches k) t = None" "find_or_create k t = (Some (length t), t @ [fresh k])"
  with assms show ?thesis
    by (auto simp: find_index_append fresh_matches)
qed (use assms(2) in auto)

text \<open>Asking again changes nothing: the second call finds what the first one made.\<close>

lemma foc_idem:
  assumes "ok k" "find_or_create k t = (Some i, t')"
  shows "find_or_create k t' = (Some i, t')"
  using assms hit foc_lookup by blast

lemma foc_other:
  assumes "ok k" "ok k'" "k \<noteq> k'"
  shows "find_index (matches k') (snd (find_or_create k t)) = find_index (matches k') t"
  using assms(1)
proof (rule cases_foc [of k t])
  assume "find_or_create k t = (Some (length t), t @ [fresh k])"
  moreover have "\<not> matches k' (fresh k)"
    using fresh_matches [OF assms(1)] matches_key [OF assms(1,2)] assms(3) by blast
  ultimately show ?thesis by (simp add: find_index_append split: option.split)
qed auto

end


text \<open>The slots of a table have different keys: no key matches two of them.\<close>

definition slots_unique :: "('k \<Rightarrow> 'e \<Rightarrow> bool) \<Rightarrow> ('k \<Rightarrow> bool) \<Rightarrow> 'e list \<Rightarrow> bool" where
  "slots_unique matches ok t \<longleftrightarrow>
     (\<forall>k i j. ok k \<longrightarrow> i < length t \<longrightarrow> j < length t \<longrightarrow> matches k (t ! i) \<longrightarrow> matches k (t ! j) \<longrightarrow> i = j)"

lemma slots_unique_Nil [simp]: "slots_unique m ok []"
  by (simp add: slots_unique_def)

lemma slots_uniqueD:
  "slots_unique m ok t \<Longrightarrow> ok k \<Longrightarrow> i < length t \<Longrightarrow> j < length t \<Longrightarrow> m k (t ! i) \<Longrightarrow> m k (t ! j) \<Longrightarrow>
     i = j"
  by (simp add: slots_unique_def)

lemma slots_unique_split:
  assumes "slots_unique m ok (ys @ x # zs)" "ok k" "m k x"
  shows "\<forall>e \<in> set (ys @ zs). \<not> m k e"
proof
  fix e assume "e \<in> set (ys @ zs)"
  then obtain i where i: "i < length (ys @ zs)" "(ys @ zs) ! i = e"
    by (metis in_set_conv_nth)
  define j where "j = (if i < length ys then i else Suc i)"
  have j: "j < length (ys @ x # zs)" "(ys @ x # zs) ! j = e" "j \<noteq> length ys"
    using i by (auto simp: j_def nth_append Suc_diff_le not_less)
  show "\<not> m k e"
  proof
    assume "m k e"
    then have "j = length ys"
      using slots_uniqueD [OF assms(1,2), of j "length ys"] j assms(3) by simp
    with j show False by simp
  qed
qed

lemma slots_unique_remove_at:
  assumes "slots_unique m ok t" shows "slots_unique m ok (remove_at i t)"
proof (cases "i < length t")
  case True
  define sk where "sk j = (if j < i then j else Suc j)" for j
  have sk: "remove_at i t ! j = t ! sk j" "sk j < length t" if "j < length (remove_at i t)" for j
    using that True by (auto simp: sk_def remove_at_def nth_append min_def)
  show ?thesis
    unfolding slots_unique_def
  proof (intro allI impI)
    fix k j j'
    assume "ok k" and j: "j < length (remove_at i t)" "j' < length (remove_at i t)"
      and "m k (remove_at i t ! j)" "m k (remove_at i t ! j')"
    then have "sk j = sk j'"
      using slots_uniqueD [OF assms, of k "sk j" "sk j'"] sk by simp
    then show "j = j'" by (auto simp: sk_def split: if_splits)
  qed
next
  case False
  then show ?thesis using assms by (simp add: remove_at_def)
qed

context slot_table
begin

lemma foc_unique:
  assumes "ok k" "slots_unique matches ok t"
  shows "slots_unique matches ok (snd (find_or_create k t))"
  using assms(1)
proof (rule cases_foc [of k t])
  assume none: "find_index (matches k) t = None"
    and new: "find_or_create k t = (Some (length t), t @ [fresh k])"
  have no: "\<not> matches k' (t ! i)" if "matches k' (fresh k)" "ok k'" "i < length t" for k' i
    using matches_key [OF assms(1) that(2) fresh_matches [OF assms(1)] that(1)] none that(3)
    by (auto simp: find_index_None)
  show ?thesis
    unfolding new slots_unique_def snd_conv
    using slots_uniqueD [OF assms(2)] no
    by (auto simp: nth_append less_Suc_eq split: if_splits)
qed (use assms(2) in auto)

end

text \<open>A table whose cards can be evicted as well: the entry goes, the others stay in order.\<close>

locale slot_table_remove = slot_table +
  fixes remove :: "'a \<Rightarrow> 'b list \<Rightarrow> 'b list"
  assumes remove_hit: "ok k \<Longrightarrow> find_index (matches k) t = Some i \<Longrightarrow> remove k t = remove_at i t"
    and remove_miss: "ok k \<Longrightarrow> find_index (matches k) t = None \<Longrightarrow> remove k t = t"
begin

lemma remove_gone:
  assumes "ok k" "slots_unique matches ok t"
  shows "find_index (matches k) (remove k t) = None"
proof (cases "find_index (matches k) t")
  case None
  then show ?thesis using assms remove_miss by simp
next
  case (Some i)
  obtain ys x zs where t: "t = ys @ x # zs" "matches k x" "remove_at i t = ys @ zs"
    using remove_at_first [OF Some] by blast
  have "\<forall>e \<in> set (ys @ zs). \<not> matches k e"
    using assms t by (intro slots_unique_split [of matches ok]) auto
  then show ?thesis by (simp add: remove_hit [OF assms(1) Some] find_index_None t(3))
qed

lemma remove_others:
  assumes "ok k"
  shows "filter (\<lambda>e. \<not> matches k e) (remove k t) = filter (\<lambda>e. \<not> matches k e) t"
proof (cases "find_index (matches k) t")
  case None
  then show ?thesis using assms remove_miss by simp
next
  case (Some i)
  then show ?thesis
    using remove_at_first [OF Some] by (auto simp: remove_hit [OF assms Some])
qed

lemma remove_unique:
  "ok k \<Longrightarrow> slots_unique matches ok t \<Longrightarrow> slots_unique matches ok (remove k t)"
  by (cases "find_index (matches k) t")
    (simp_all add: remove_hit remove_miss slots_unique_remove_at)

lemma remove_length: "ok k \<Longrightarrow> length (remove k t) \<le> length t"
  using remove_hit remove_miss
  by (cases "find_index (matches k) t") (auto dest: find_index_lt)

end

section \<open>Printing numbers\<close>

definition digit :: "nat \<Rightarrow> char" where
  "digit d = char_of (48 + d)"

fun dec :: "nat \<Rightarrow> string" where
  "dec n = (if n < 10 then [digit n] else dec (n div 10) @ [digit (n mod 10)])"

declare dec.simps [simp del]

text \<open>\<open>%d\<close> and \<open>%ld\<close>.\<close>

definition dec_int :: "int \<Rightarrow> string" where
  "dec_int i = (if i < 0 then ''-'' @ dec (nat (- i)) else dec (nat i))"

text \<open>\<open>%.0f\<close>: to the nearest integer, ties to the even one.\<close>

definition round_even :: "double \<Rightarrow> int" where
  "round_even x =
     (let f = \<lfloor>x\<rfloor>; d = x - of_int f
      in if d < 1 / 2 then f else if 1 / 2 < d then f + 1 else if even f then f else f + 1)"

lemma dec_not_Nil [simp]: "dec n \<noteq> []"
  by (subst dec.simps) simp

lemma length_dec: "n < 10 ^ k \<Longrightarrow> 0 < k \<Longrightarrow> length (dec n) \<le> k"
proof (induction k arbitrary: n)
  case (Suc k)
  show ?case
  proof (cases "n < 10")
    case True
    then show ?thesis by (subst dec.simps) simp
  next
    case False
    then have "0 < k" using Suc.prems(1) by (cases k) auto
    moreover have "n div 10 < 10 ^ k" using Suc.prems(1) by (simp add: less_mult_imp_div_less)
    ultimately have "length (dec (n div 10)) \<le> k" by (rule Suc.IH [rotated])
    then show ?thesis using False by (subst dec.simps) simp
  qed
qed simp

lemma length_dec_int: "\<bar>i\<bar> < 10 ^ k \<Longrightarrow> 0 < k \<Longrightarrow> length (dec_int i) \<le> Suc k"
  using length_dec [of "nat \<bar>i\<bar>" k] by (auto simp: dec_int_def nat_less_iff)

text \<open>A detailed loop that does what a coarser one does to the first component.\<close>

lemma fold_fst: "(\<And>x p. fst (f x p) = g x (fst p)) \<Longrightarrow> fst (fold f xs p) = fold g xs (fst p)"
  by (induction xs arbitrary: p) simp_all

end
