(* ===== verification/Client_Registry.thy ===== *)
theory Client_Registry
  imports KPrelude
begin

text \<open>
  The client registry of \<open>src/src/registry.c\<close>: one slot per client card, the admitted set
  that survives a restart, and the priority list.  A pointer into \<open>g_clients\<close> is an index; NULL
  is \<open>None\<close>.  NULL and empty host names take the same branch everywhere, so the empty string
  stands for both.
\<close>

abbreviation "HOSTNAME_LEN \<equiv> 64 :: nat"
abbreviation "MAX_CLIENTS \<equiv> 16 :: nat"
abbreviation "MAX_DISKS \<equiv> 8 :: nat"

section \<open>Data\<close>

datatype disk_type = DISK_NVME | DISK_SSD | DISK_HDD | DISK_OTHER

record disk_entry =
  dk_label :: string
  dk_type :: disk_type
  dk_used_gb :: double
  dk_total_gb :: double
  dk_pct :: double

record gpu_info =
  gpu_present :: bool
  gpu_name :: string
  gpu_vram_used_mb :: "32 word"
  gpu_vram_total_mb :: "32 word"
  gpu_compute_pct :: double

record client_info =
  ci_hostname :: string
  ci_online :: bool
  ci_last_seen_ts :: double
  ci_uptime_seconds :: double
  ci_os_name :: string
  ci_intermittent :: bool
  ci_cpu_pct :: double
  ci_top_core_pct :: double
  ci_ram_used_mb :: "32 word"
  ci_ram_total_mb :: "32 word"
  ci_gpu :: gpu_info
  ci_disks :: "disk_entry list"
  ci_telemetry_ts :: double

definition blank_gpu :: gpu_info where
  "blank_gpu = \<lparr>gpu_present = False, gpu_name = [], gpu_vram_used_mb = 0, gpu_vram_total_mb = 0,
     gpu_compute_pct = 0\<rparr>"

text \<open>A zero-filled slot with its host name copied in.\<close>

definition new_client :: "string \<Rightarrow> client_info" where
  "new_client h =
     \<lparr>ci_hostname = buf_copy HOSTNAME_LEN h, ci_online = False, ci_last_seen_ts = 0,
      ci_uptime_seconds = 0, ci_os_name = [], ci_intermittent = False, ci_cpu_pct = 0,
      ci_top_core_pct = 0, ci_ram_used_mb = 0, ci_ram_total_mb = 0, ci_gpu = blank_gpu,
      ci_disks = [], ci_telemetry_ts = 0\<rparr>"

record registry =
  reg_clients :: "client_info list"
  reg_admitted :: "string list"
  reg_dirty :: bool
  reg_priority :: "string list"

datatype client_presence = CLIENT_PRESENCE_ONLINE | CLIENT_PRESENCE_OFFLINE | CLIENT_PRESENCE_ASLEEP

section \<open>Operations\<close>

definition registry_init :: "registry \<Rightarrow> registry" where
  "registry_init r = r\<lparr>reg_clients := [], reg_admitted := [], reg_dirty := False\<rparr>"

definition registry_set_priority_clients :: "string list \<Rightarrow> registry \<Rightarrow> registry" where
  "registry_set_priority_clients hosts r =
     r\<lparr>reg_priority := map (buf_copy HOSTNAME_LEN) (take MAX_CLIENTS hosts)\<rparr>"

definition registry_priority_index :: "string \<Rightarrow> registry \<Rightarrow> nat option" where
  "registry_priority_index h r = find_index (\<lambda>p. streq HOSTNAME_LEN p h) (reg_priority r)"

definition is_priority :: "string \<Rightarrow> registry \<Rightarrow> bool" where
  "is_priority h r = list_ex (\<lambda>p. streq HOSTNAME_LEN p h) (reg_priority r)"

definition client_presence_of :: "client_info \<Rightarrow> client_presence" where
  "client_presence_of c =
     (if ci_online c then CLIENT_PRESENCE_ONLINE
      else if ci_intermittent c then CLIENT_PRESENCE_ASLEEP else CLIENT_PRESENCE_OFFLINE)"

definition registry_find :: "string \<Rightarrow> registry \<Rightarrow> nat option" where
  "registry_find h r =
     (if h = [] then None
      else find_index (\<lambda>c. streq HOSTNAME_LEN (ci_hostname c) h) (reg_clients r))"

definition is_admitted :: "string \<Rightarrow> registry \<Rightarrow> bool" where
  "is_admitted h r = list_ex (\<lambda>a. streq HOSTNAME_LEN a h) (reg_admitted r)"

text \<open>The first component is the result: whether the set grew.\<close>

definition remember_admitted :: "string \<Rightarrow> registry \<Rightarrow> bool \<times> registry" where
  "remember_admitted h r =
     (if is_admitted h r then (False, r)
      else if MAX_CLIENTS \<le> length (reg_admitted r) then (False, r)
      else (True, r\<lparr>reg_admitted := reg_admitted r @ [buf_copy HOSTNAME_LEN h]\<rparr>))"

text \<open>
  The eviction scan: the first slot with the oldest \<open>last_seen_ts\<close> among the clients that are
  not priority.  \<open>best\<close> is \<open>evict_idx\<close> with \<open>oldest_ts\<close>, \<open>None\<close> while it is \<open>-1\<close>.
\<close>

fun evict_scan ::
  "(string \<Rightarrow> bool) \<Rightarrow> nat \<Rightarrow> (nat \<times> double) option \<Rightarrow> client_info list \<Rightarrow> (nat \<times> double) option" where
  "evict_scan prio i best [] = best"
| "evict_scan prio i best (c # cs) =
     evict_scan prio (Suc i)
       (if \<not> prio (ci_hostname c)
        then (case best of
                None \<Rightarrow> Some (i, ci_last_seen_ts c)
              | Some (b, oldest) \<Rightarrow>
                  if ci_last_seen_ts c < oldest then Some (i, ci_last_seen_ts c) else best)
        else best)
       cs"

definition registry_find_or_create :: "string \<Rightarrow> registry \<Rightarrow> nat option \<times> registry" where
  "registry_find_or_create h r =
     (case registry_find h r of
        Some i \<Rightarrow> (Some i, r)
      | None \<Rightarrow>
          if h = [] then (None, r)
          else if length (reg_clients r) < MAX_CLIENTS
          then (Some (length (reg_clients r)), r\<lparr>reg_clients := reg_clients r @ [new_client h]\<rparr>)
          else (case evict_scan (\<lambda>x. is_priority x r) 0 None (reg_clients r) of
                  None \<Rightarrow> (None, r)
                | Some (i, _) \<Rightarrow> (Some i, r\<lparr>reg_clients := (reg_clients r)[i := new_client h]\<rparr>)))"

definition registry_admit :: "string \<Rightarrow> bool \<Rightarrow> registry \<Rightarrow> nat option \<times> registry" where
  "registry_admit h has_client_data r =
     (case registry_find h r of
        Some i \<Rightarrow> (Some i, r)
      | None \<Rightarrow>
          if h = [] then (None, r)
          else if has_client_data
          then (let (grew, r') = remember_admitted h r;
                    r'' = (if grew then r'\<lparr>reg_dirty := True\<rparr> else r')
                in registry_find_or_create h r'')
          else if is_admitted h r then registry_find_or_create h r
          else (None, r))"

definition registry_seed_admitted :: "string list \<Rightarrow> registry \<Rightarrow> nat \<times> registry" where
  "registry_seed_admitted hosts r =
     (let r' = fold (\<lambda>h r. if h = [] then r else snd (remember_admitted h r)) hosts r
      in (length (reg_admitted r') - length (reg_admitted r), r'))"

definition registry_admitted_snapshot :: "nat \<Rightarrow> registry \<Rightarrow> string list" where
  "registry_admitted_snapshot m r = take m (reg_admitted r)"

definition registry_admitted_take_dirty :: "registry \<Rightarrow> bool \<times> registry" where
  "registry_admitted_take_dirty r = (reg_dirty r, r\<lparr>reg_dirty := False\<rparr>)"

definition registry_remove_absent :: "string list \<Rightarrow> registry \<Rightarrow> registry" where
  "registry_remove_absent hosts r =
     r\<lparr>reg_clients :=
         filter (\<lambda>c. list_ex (\<lambda>h. streq HOSTNAME_LEN (ci_hostname c) h) hosts) (reg_clients r)\<rparr>"

definition registry_snapshot :: "nat \<Rightarrow> registry \<Rightarrow> client_info list" where
  "registry_snapshot m r = take m (reg_clients r)"

definition registry_count :: "registry \<Rightarrow> nat" where
  "registry_count r = length (reg_clients r)"


section \<open>The registry invariant\<close>

abbreviation card_hosts :: "registry \<Rightarrow> string list" where
  "card_hosts r \<equiv> map ci_hostname (reg_clients r)"

text \<open>A name the fixed-size buffers hold whole.\<close>

definition fits :: "string \<Rightarrow> bool" where
  "fits h \<longleftrightarrow> h \<noteq> [] \<and> length h < HOSTNAME_LEN"

definition registry_inv :: "registry \<Rightarrow> bool" where
  "registry_inv r \<longleftrightarrow>
     length (reg_clients r) \<le> MAX_CLIENTS \<and> distinct (card_hosts r) \<and> (\<forall>h \<in> set (card_hosts r). fits h) \<and>
     length (reg_admitted r) \<le> MAX_CLIENTS \<and> distinct (reg_admitted r) \<and> (\<forall>h \<in> set (reg_admitted r). fits h)"

lemma new_client_host [simp]: "ci_hostname (new_client h) = buf_copy 64 h"
  by (simp add: new_client_def)

lemma registry_inv_parts:
  assumes "registry_inv r"
  shows "length (reg_clients r) \<le> 16" "distinct (card_hosts r)" "\<And>h. h \<in> set (card_hosts r) \<Longrightarrow> fits h"
    "length (reg_admitted r) \<le> 16" "distinct (reg_admitted r)" "\<And>h. h \<in> set (reg_admitted r) \<Longrightarrow> fits h"
  using assms by (auto simp: registry_inv_def)

lemma is_admitted_iff: "registry_inv r \<Longrightarrow> is_admitted h r \<longleftrightarrow> h \<in> set (reg_admitted r)"
  by (auto simp: is_admitted_def list_ex_iff registry_inv_def fits_def streq_fits)

lemma registry_find_None_iff:
  "registry_inv r \<Longrightarrow> h \<noteq> [] \<Longrightarrow> registry_find h r = None \<longleftrightarrow> h \<notin> set (card_hosts r)"
  by (auto simp: registry_find_def find_index_None registry_inv_def fits_def streq_fits image_iff)

lemma registry_find_SomeD:
  assumes "registry_inv r" "registry_find h r = Some i"
  shows "i < length (reg_clients r)" "ci_hostname (reg_clients r ! i) = h"
proof -
  from assms(2) have i: "i < length (reg_clients r)"
      "streq 64 (ci_hostname (reg_clients r ! i)) h"
    by (auto simp: registry_find_def find_index_Some split: if_splits)
  then show "i < length (reg_clients r)" by simp
  have "ci_hostname (reg_clients r ! i) \<in> set (card_hosts r)" using i by simp
  then have "fits (ci_hostname (reg_clients r ! i))" by (rule registry_inv_parts(3) [OF assms(1)])
  then show "ci_hostname (reg_clients r ! i) = h" using i(2) by (simp add: fits_def streq_fits)
qed

subsection \<open>The eviction scan\<close>

lemma evict_scan_append:
  "evict_scan prio i best (xs @ ys) = evict_scan prio (i + length xs) (evict_scan prio i best xs) ys"
  by (induction xs arbitrary: i best) auto

lemma evict_scan_None: "evict_scan prio i None cs = None \<longleftrightarrow> (\<forall>c \<in> set cs. prio (ci_hostname c))"
  by (induction cs rule: rev_induct) (auto simp: evict_scan_append split: option.splits prod.splits)

lemma evict_scan_min:
  "evict_scan prio 0 None cs = Some (i, t) \<Longrightarrow>
     i < length cs \<and> \<not> prio (ci_hostname (cs ! i)) \<and> t = ci_last_seen_ts (cs ! i) \<and>
     (\<forall>j < length cs. \<not> prio (ci_hostname (cs ! j)) \<longrightarrow> t \<le> ci_last_seen_ts (cs ! j))"
proof (induction cs arbitrary: i t rule: rev_induct)
  case Nil
  then show ?case by simp
next
  case (snoc c cs)
  show ?case
  proof (cases "evict_scan prio 0 None cs")
    case None
    then have "\<forall>j < length cs. prio (ci_hostname (cs ! j))"
      using evict_scan_None [of prio 0 cs] by simp
    with None snoc.prems show ?thesis
      by (auto simp: evict_scan_append nth_append less_Suc_eq split: if_splits)
  next
    case (Some bt)
    obtain b u where bt: "bt = (b, u)" by (cases bt)
    note IH = snoc.IH [OF Some [unfolded bt]]
    from snoc.prems Some bt IH show ?thesis
      by (auto simp: evict_scan_append nth_append less_Suc_eq split: if_splits)
  qed
qed

subsection \<open>Every operation keeps the invariant\<close>

lemma registry_init_inv [simp]: "registry_inv (registry_init r)"
  by (simp add: registry_init_def registry_inv_def)

lemma set_priority_inv [simp]:
  "registry_inv (registry_set_priority_clients ps r) = registry_inv r"
  by (simp add: registry_set_priority_clients_def registry_inv_def)

lemma take_dirty_inv [simp]: "registry_inv (snd (registry_admitted_take_dirty r)) = registry_inv r"
  by (simp add: registry_admitted_take_dirty_def registry_inv_def)

lemma remember_admitted_effect:
  assumes "registry_inv r" "fits h" "remember_admitted h r = (g, r')"
  shows "registry_inv r'" "reg_clients r' = reg_clients r"
    "reg_admitted r' = reg_admitted r @ (if g then [h] else [])"
    "g \<longleftrightarrow> h \<notin> set (reg_admitted r) \<and> length (reg_admitted r) < 16"
  using assms is_admitted_iff [OF assms(1), of h]
  by (auto simp: remember_admitted_def registry_inv_def fits_def split: if_splits)

lemma find_or_create_inv:
  assumes inv: "registry_inv r" and h: "fits h"
  shows "registry_inv (snd (registry_find_or_create h r))"
proof (cases "registry_find h r")
  case (Some i)
  with inv show ?thesis by (simp add: registry_find_or_create_def)
next
  case None
  have new: "h \<notin> set (card_hosts r)"
    using None registry_find_None_iff [OF inv] h by (simp add: fits_def)
  have hb: "buf_copy 64 h = h" using h by (simp add: fits_def)
  show ?thesis
  proof (cases "length (reg_clients r) < 16")
    case True
    with None h inv new hb show ?thesis
      by (auto simp: registry_find_or_create_def registry_inv_def fits_def)
  next
    case False
    show ?thesis
    proof (cases "evict_scan (\<lambda>x. is_priority x r) 0 None (reg_clients r)")
      case None
      with False \<open>registry_find h r = None\<close> inv show ?thesis
        by (simp add: registry_find_or_create_def)
    next
      case (Some it)
      obtain i t where it: "it = (i, t)" by (cases it)
      have i: "i < length (reg_clients r)" using evict_scan_min [OF Some [unfolded it]] by simp
      let ?hs = "(card_hosts r)[i := h]"
      have "distinct ?hs" using inv new by (auto simp: registry_inv_def intro: distinct_list_update)
      moreover have "\<forall>x \<in> set ?hs. fits x"
        using set_update_subset_insert [of "card_hosts r" i h] inv h
        by (auto simp: registry_inv_def)
      ultimately show ?thesis
        using False \<open>registry_find h r = None\<close> Some it h inv hb
        by (simp add: registry_find_or_create_def registry_inv_def map_update fits_def)
    qed
  qed
qed

lemma admit_inv:
  assumes inv: "registry_inv r" and h: "h = [] \<or> fits h"
  shows "registry_inv (snd (registry_admit h d r))"
proof (cases "h = [] \<or> registry_find h r \<noteq> None")
  case True
  with inv show ?thesis by (auto simp: registry_admit_def split: option.splits)
next
  case False
  with h have h: "fits h" by simp
  obtain g r' where rem: "remember_admitted h r = (g, r')" by (cases "remember_admitted h r")
  have "registry_inv r'" by (rule remember_admitted_effect(1) [OF inv h rem])
  then have "registry_inv (if g then r'\<lparr>reg_dirty := True\<rparr> else r')" by (simp add: registry_inv_def)
  then have "registry_inv (snd (registry_find_or_create h (if g then r'\<lparr>reg_dirty := True\<rparr> else r')))"
    using h by (rule find_or_create_inv)
  with False inv h rem show ?thesis
    by (auto simp: registry_admit_def Let_def find_or_create_inv)
qed

lemma seed_fold_effect:
  assumes "registry_inv r" "\<forall>h \<in> set hs. h = [] \<or> fits h"
  shows "registry_inv (fold (\<lambda>h r. if h = [] then r else snd (remember_admitted h r)) hs r) \<and>
    reg_clients (fold (\<lambda>h r. if h = [] then r else snd (remember_admitted h r)) hs r) = reg_clients r \<and>
    (\<exists>new. reg_admitted (fold (\<lambda>h r. if h = [] then r else snd (remember_admitted h r)) hs r)
         = reg_admitted r @ new \<and> set new \<subseteq> set hs)"
  using assms
proof (induction hs arbitrary: r)
  case Nil
  then show ?case by simp
next
  case (Cons h hs)
  show ?case
  proof (cases "h = []")
    case True
    with Cons.IH [of r] Cons.prems show ?thesis by auto
  next
    case False
    with Cons.prems have h: "fits h" by auto
    obtain g r' where rem: "remember_admitted h r = (g, r')" by (cases "remember_admitted h r")
    note eff = remember_admitted_effect [OF Cons.prems(1) h rem]
    have "set hs \<subseteq> set (h # hs)" by auto
    with Cons.IH [of r'] Cons.prems eff False rem show ?thesis by auto
  qed
qed

lemma seed_inv:
  "registry_inv r \<Longrightarrow> \<forall>h \<in> set hs. h = [] \<or> fits h \<Longrightarrow> registry_inv (snd (registry_seed_admitted hs r))"
  using seed_fold_effect [of r hs] by (simp add: registry_seed_admitted_def Let_def)

lemma remove_absent_inv: "registry_inv r \<Longrightarrow> registry_inv (registry_remove_absent hs r)"
  by (auto simp: registry_inv_def registry_remove_absent_def distinct_map inj_on_def
      intro: le_trans [OF length_filter_le])

lemma remove_absent_cards:
  assumes "registry_inv r"
  shows "card_hosts (registry_remove_absent hs r) = filter (\<lambda>h. h \<in> set hs) (card_hosts r)"
proof -
  have "list_ex (\<lambda>h. streq 64 (ci_hostname c) h) hs \<longleftrightarrow> ci_hostname c \<in> set hs"
    if "c \<in> set (reg_clients r)" for c
  proof -
    have "fits (ci_hostname c)" using registry_inv_parts(3) [OF assms] that by simp
    then show ?thesis by (auto simp: list_ex_iff fits_def streq_fits)
  qed
  then show ?thesis
    by (simp add: registry_remove_absent_def filter_map comp_def cong: filter_cong)
qed

text \<open>Writing a client through its pointer, the host name apart.\<close>

definition update_client :: "nat \<Rightarrow> (client_info \<Rightarrow> client_info) \<Rightarrow> registry \<Rightarrow> registry" where
  "update_client i f r = r\<lparr>reg_clients := (reg_clients r)[i := f (reg_clients r ! i)]\<rparr>"

lemma update_client_cards:
  assumes "\<And>c. ci_hostname (f c) = ci_hostname c"
  shows "card_hosts (update_client i f r) = card_hosts r"
proof (cases "i < length (reg_clients r)")
  case True
  then show ?thesis
    by (simp add: update_client_def map_update assms list_update_id [symmetric])
      (metis list_update_id nth_map)
next
  case False
  then show ?thesis by (simp add: update_client_def list_update_beyond not_less)
qed

lemma update_client_rest [simp]:
  "reg_admitted (update_client i f r) = reg_admitted r"
  "reg_dirty (update_client i f r) = reg_dirty r"
  "reg_priority (update_client i f r) = reg_priority r"
  "length (reg_clients (update_client i f r)) = length (reg_clients r)"
  by (simp_all add: update_client_def)

lemma update_client_inv:
  "(\<And>c. ci_hostname (f c) = ci_hostname c) \<Longrightarrow> registry_inv (update_client i f r) = registry_inv r"
  by (simp add: registry_inv_def update_client_cards)


section \<open>Admission on data\<close>

text \<open>
  What \<open>registry_admit\<close> does when there is a free slot or the host has one: the whole
  effect on the cards, the admitted set and the dirty flag.
\<close>

lemma find_or_create_room:
  assumes inv: "registry_inv r" and h: "fits h"
    and room: "h \<in> set (card_hosts r) \<or> length (reg_clients r) < 16"
  obtains i r' where "registry_find_or_create h r = (Some i, r')"
    "card_hosts r' = card_hosts r @ (if h \<in> set (card_hosts r) then [] else [h])"
    "reg_admitted r' = reg_admitted r" "reg_dirty r' = reg_dirty r"
    "i < length (reg_clients r')" "ci_hostname (reg_clients r' ! i) = h"
proof (cases "registry_find h r")
  case (Some i)
  have "h \<in> set (card_hosts r)"
    using registry_find_SomeD [OF inv Some] nth_mem by fastforce
  then show ?thesis
    using that [of i r] Some registry_find_SomeD [OF inv Some] by (simp add: registry_find_or_create_def)
next
  case None
  have "h \<notin> set (card_hosts r)" using None registry_find_None_iff [OF inv] h by (simp add: fits_def)
  then show ?thesis
    using that [of "length (reg_clients r)" "r\<lparr>reg_clients := reg_clients r @ [new_client h]\<rparr>"]
      None room h
    by (auto simp: registry_find_or_create_def fits_def)
qed

lemma admit_effect:
  assumes inv: "registry_inv r" and h: "fits h"
    and room: "h \<in> set (card_hosts r) \<or> length (reg_clients r) < 16"
    and adm: "registry_admit h d r = (i, r')"
  defines "known \<equiv> h \<in> set (card_hosts r)"
  shows "card_hosts r' = card_hosts r @
      (if \<not> known \<and> (d \<or> h \<in> set (reg_admitted r)) then [h] else [])" (is ?cards)
    and "reg_admitted r' = reg_admitted r @
      (if \<not> known \<and> d \<and> h \<notin> set (reg_admitted r) \<and> length (reg_admitted r) < 16 then [h] else [])"
      (is ?admitted)
    and "reg_dirty r' \<longleftrightarrow> reg_dirty r \<or> reg_admitted r' \<noteq> reg_admitted r" (is ?dirty)
    and "case i of None \<Rightarrow> \<not> known \<and> \<not> d \<and> h \<notin> set (reg_admitted r)
       | Some k \<Rightarrow> k < length (reg_clients r') \<and> ci_hostname (reg_clients r' ! k) = h" (is ?slot)
proof -
  have hne: "h \<noteq> []" using h by (simp add: fits_def)
  have "?cards \<and> ?admitted \<and> ?dirty \<and> ?slot"
  proof (cases "registry_find h r")
    case (Some k)
    then have known using registry_find_SomeD [OF inv Some] nth_mem unfolding known_def by fastforce
    moreover have "i = Some k" "r' = r" using Some adm by (simp_all add: registry_admit_def)
    ultimately show ?thesis using registry_find_SomeD [OF inv Some] by simp
  next
    case None
    then have nk: "h \<notin> set (card_hosts r)" using registry_find_None_iff [OF inv hne] by simp
    with room have room': "length (reg_clients r) < 16" by simp
    show ?thesis
    proof (cases d)
      case True
      obtain g r1 where rem: "remember_admitted h r = (g, r1)" by (cases "remember_admitted h r")
      note eff = remember_admitted_effect [OF inv h rem]
      let ?r2 = "if g then r1\<lparr>reg_dirty := True\<rparr> else r1"
      have inv2: "registry_inv ?r2" using eff(1) by (simp add: registry_inv_def)
      have dirty1: "reg_dirty r1 = reg_dirty r" using rem by (auto simp: remember_admitted_def split: if_splits)
      obtain k r3 where foc: "registry_find_or_create h ?r2 = (Some k, r3)"
        "card_hosts r3 = card_hosts ?r2 @ (if h \<in> set (card_hosts ?r2) then [] else [h])"
        "reg_admitted r3 = reg_admitted ?r2" "reg_dirty r3 = reg_dirty ?r2"
        "k < length (reg_clients r3)" "ci_hostname (reg_clients r3 ! k) = h"
        by (rule find_or_create_room [OF inv2 h]) (use eff(2) room' in auto)
      have "(i, r') = (Some k, r3)"
        using adm None hne True rem foc(1) by (simp add: registry_admit_def)
      then show ?thesis using foc eff nk dirty1 True by (auto simp: known_def)
    next
      case False
      show ?thesis
      proof (cases "h \<in> set (reg_admitted r)")
        case True
        obtain k r3 where foc: "registry_find_or_create h r = (Some k, r3)"
          "card_hosts r3 = card_hosts r @ (if h \<in> set (card_hosts r) then [] else [h])"
          "reg_admitted r3 = reg_admitted r" "reg_dirty r3 = reg_dirty r"
          "k < length (reg_clients r3)" "ci_hostname (reg_clients r3 ! k) = h"
          by (rule find_or_create_room [OF inv h room])
        have "(i, r') = (Some k, r3)"
          using adm None hne True False foc(1) is_admitted_iff [OF inv, of h] by (simp add: registry_admit_def)
        then show ?thesis using foc nk True False by (auto simp: known_def)
      next
        case False': False
        have "(i, r') = (None, r)"
          using adm None hne False False' is_admitted_iff [OF inv, of h] by (simp add: registry_admit_def)
        then show ?thesis using nk False False' by (auto simp: known_def)
      qed
    qed
  qed
  then show ?cards ?admitted ?dirty ?slot by blast+
qed

section \<open>One poll over the members of the client set\<close>

text \<open>
  The loop of step 2 of \<open>redis_poll\<close>, with each member's replies already read: \<open>(h, d, f)\<close> is a
  member, whether a health or telemetry payload was found for it, and what those payloads
  write into its slot.
\<close>

definition poll_client :: "string \<times> bool \<times> (client_info \<Rightarrow> client_info) \<Rightarrow> registry \<Rightarrow> registry" where
  "poll_client e r =
     (case e of (h, d, f) \<Rightarrow>
        (case registry_admit h d r of
           (None, r') \<Rightarrow> r'
         | (Some i, r') \<Rightarrow> update_client i f r'))"

definition keeps_name :: "(client_info \<Rightarrow> client_info) \<Rightarrow> bool" where
  "keeps_name f \<longleftrightarrow> (\<forall>c. ci_hostname (f c) = ci_hostname c)"

lemma poll_client_effect:
  assumes inv: "registry_inv r" and h: "fits h" and f: "keeps_name f"
    and room: "h \<in> set (card_hosts r) \<or> length (reg_clients r) < 16"
  shows "registry_inv (poll_client (h, d, f) r)"
    "card_hosts (poll_client (h, d, f) r) = card_hosts r @
       (if h \<notin> set (card_hosts r) \<and> (d \<or> h \<in> set (reg_admitted r)) then [h] else [])"
    "reg_admitted (poll_client (h, d, f) r) = reg_admitted r @
       (if h \<notin> set (card_hosts r) \<and> d \<and> h \<notin> set (reg_admitted r) \<and> length (reg_admitted r) < 16
        then [h] else [])"
    "reg_dirty (poll_client (h, d, f) r) \<longleftrightarrow>
       reg_dirty r \<or> reg_admitted (poll_client (h, d, f) r) \<noteq> reg_admitted r"
proof -
  obtain i r' where adm: "registry_admit h d r = (i, r')" by (cases "registry_admit h d r")
  have f': "\<And>c. ci_hostname (f c) = ci_hostname c" using f by (simp add: keeps_name_def)
  note eff = admit_effect [OF inv h room adm]
  have inv': "registry_inv r'" using admit_inv [OF inv, of h d] h adm by simp
  have P: "poll_client (h, d, f) r = (case i of None \<Rightarrow> r' | Some k \<Rightarrow> update_client k f r')"
    by (simp add: poll_client_def adm split: option.split)
  show "registry_inv (poll_client (h, d, f) r)"
    using inv' by (simp add: P update_client_inv [OF f'] split: option.split)
  show "card_hosts (poll_client (h, d, f) r) = card_hosts r @
       (if h \<notin> set (card_hosts r) \<and> (d \<or> h \<in> set (reg_admitted r)) then [h] else [])"
    using eff(1) by (simp add: P update_client_cards [OF f'] split: option.split)
  show "reg_admitted (poll_client (h, d, f) r) = reg_admitted r @
       (if h \<notin> set (card_hosts r) \<and> d \<and> h \<notin> set (reg_admitted r) \<and> length (reg_admitted r) < 16
        then [h] else [])"
    using eff(2) by (simp add: P split: option.split)
  show "reg_dirty (poll_client (h, d, f) r) \<longleftrightarrow>
       reg_dirty r \<or> reg_admitted (poll_client (h, d, f) r) \<noteq> reg_admitted r"
    using eff(3) by (simp add: P split: option.split)
qed

lemma poll_room:
  assumes "registry_inv r" "set (card_hosts r) \<subseteq> A" "finite A" "card A \<le> 16" "h \<in> A"
  shows "h \<in> set (card_hosts r) \<or> length (reg_clients r) < 16"
proof (rule disjCI)
  assume "\<not> length (reg_clients r) < 16"
  moreover have "card (set (card_hosts r)) = length (card_hosts r)"
    by (rule distinct_card) (rule registry_inv_parts(2) [OF assms(1)])
  ultimately have "card (set (card_hosts r)) = 16"
    using registry_inv_parts(1) [OF assms(1)] by simp
  with assms(2,3,4) have "set (card_hosts r) = A"
    by (intro card_subset_eq) (auto dest: card_mono)
  with assms(5) show "h \<in> set (card_hosts r)" by simp
qed

text \<open>
  The whole loop.  With at most \<open>MAX_CLIENTS\<close> members and the absent hosts removed there is
  always room: no poll ever evicts.
\<close>

text \<open>The members that have a payload this poll or were admitted before it.\<close>

definition polled :: "string set \<Rightarrow> (string \<times> bool \<times> (client_info \<Rightarrow> client_info)) list \<Rightarrow> string set" where
  "polled adm es = fst ` set (filter (\<lambda>(h, d, f). d \<or> h \<in> adm) es)"

definition published :: "(string \<times> bool \<times> (client_info \<Rightarrow> client_info)) list \<Rightarrow> string set" where
  "published es = fst ` set (filter (\<lambda>(h, d, f). d) es)"

lemma polled_Nil [simp]: "polled adm [] = {}"
  by (simp add: polled_def)

lemma polled_Cons [simp]:
  "polled adm ((h, d, f) # es) = (if d \<or> h \<in> adm then insert h (polled adm es) else polled adm es)"
  by (simp add: polled_def)

lemma polled_insert: "insert h (polled (insert h adm) es) = insert h (polled adm es)"
  by (auto simp: polled_def image_iff)

lemma published_Nil [simp]: "published [] = {}"
  by (simp add: published_def)

lemma published_Cons [simp]:
  "published ((h, d, f) # es) = (if d then insert h (published es) else published es)"
  by (simp add: published_def)

lemma poll_fold_effect:
  assumes "registry_inv r" "set (card_hosts r) \<subseteq> A" "finite A" "card A \<le> 16"
    and "\<forall>(h, d, f) \<in> set es. h \<in> A \<and> fits h \<and> keeps_name f"
  shows "registry_inv (fold poll_client es r) \<and>
    set (card_hosts (fold poll_client es r)) = set (card_hosts r) \<union> polled (set (reg_admitted r)) es \<and>
    (\<exists>new. reg_admitted (fold poll_client es r) = reg_admitted r @ new \<and> set new \<subseteq> published es) \<and>
    (\<exists>new. card_hosts (fold poll_client es r) = card_hosts r @ new) \<and>
    (reg_dirty (fold poll_client es r) \<longleftrightarrow>
       reg_dirty r \<or> reg_admitted (fold poll_client es r) \<noteq> reg_admitted r)"
  using assms(1,2,5)
proof (induction es arbitrary: r)
  case Nil
  then show ?case by simp
next
  case (Cons e es)
  obtain h d f where e: "e = (h, d, f)" by (cases e)
  have h: "h \<in> A" "fits h" "keeps_name f" using Cons.prems(3) e by auto
  note eff = poll_client_effect [OF Cons.prems(1) h(2,3) poll_room [OF Cons.prems(1,2) assms(3,4) h(1)], of d]
  let ?r = "poll_client (h, d, f) r" and ?new = "h \<notin> set (card_hosts r)"
  have sub: "set (card_hosts ?r) \<subseteq> A" unfolding eff(2) using Cons.prems(2) h(1) by auto
  have es: "\<forall>(h, d, f) \<in> set es. h \<in> A \<and> fits h \<and> keeps_name f" using Cons.prems(3) by auto
  note IH = Cons.IH [OF eff(1) sub es]
  let ?out = "fold poll_client es ?r"
  obtain n1 where n1: "reg_admitted ?out = reg_admitted ?r @ n1" "set n1 \<subseteq> published es"
    using IH by blast
  obtain n2 where n2: "card_hosts ?out = card_hosts ?r @ n2" using IH by blast
  have "\<exists>new. reg_admitted ?out = reg_admitted r @ new \<and> set new \<subseteq> published (e # es)"
    using n1(2) unfolding n1(1) eff(3) append_assoc e by auto
  moreover have "\<exists>new. card_hosts ?out = card_hosts r @ new"
    unfolding n2 eff(2) append_assoc by blast
  moreover have "set (card_hosts ?out) = set (card_hosts r) \<union> polled (set (reg_admitted r)) (e # es)"
  proof -
    have "set (card_hosts ?out) = set (card_hosts ?r) \<union> polled (set (reg_admitted ?r)) es"
      using IH by blast
    also have "\<dots> = set (card_hosts r) \<union> polled (set (reg_admitted r)) (e # es)"
      unfolding eff(2,3) e
      using polled_insert [of h "set (reg_admitted r)" es]
      by (cases "h \<notin> set (card_hosts r) \<and> d \<and> h \<notin> set (reg_admitted r) \<and> length (reg_admitted r) < 16")
        auto
    finally show ?thesis .
  qed
  moreover have "reg_dirty ?out \<longleftrightarrow> reg_dirty r \<or> reg_admitted ?out \<noteq> reg_admitted r"
  proof -
    have "reg_admitted ?out = reg_admitted r \<longleftrightarrow>
        reg_admitted ?out = reg_admitted ?r \<and> reg_admitted ?r = reg_admitted r"
      unfolding n1(1) eff(3) by simp
    moreover have "reg_dirty ?out \<longleftrightarrow> reg_dirty ?r \<or> reg_admitted ?out \<noteq> reg_admitted ?r"
      using IH by blast
    ultimately show ?thesis using eff(4) by blast
  qed
  ultimately show ?case using IH e by simp
qed


section \<open>Runs of the registry\<close>

text \<open>
  Any interleaving of the operations the dashboard performs.  \<open>P\<close> collects the hosts that have
  published in this run or were seeded from the file, so membership in \<open>kpidash:clients\<close> alone
  adds nothing to it.
\<close>

inductive registry_run :: "string set \<Rightarrow> registry \<Rightarrow> bool" where
  run_init: "registry_run {} (registry_init r)"
| run_priority: "registry_run P r \<Longrightarrow> registry_run P (registry_set_priority_clients ps r)"
| run_seed: "registry_run P r \<Longrightarrow> registry_run (P \<union> set hs) (snd (registry_seed_admitted hs r))"
| run_admit: "registry_run P r \<Longrightarrow> registry_run (if d then insert h P else P) (snd (registry_admit h d r))"
| run_update: "registry_run P r \<Longrightarrow> keeps_name f \<Longrightarrow> registry_run P (update_client i f r)"
| run_remove: "registry_run P r \<Longrightarrow> registry_run P (registry_remove_absent hs r)"
| run_saved: "registry_run P r \<Longrightarrow> registry_run P (snd (registry_admitted_take_dirty r))"

text \<open>A name of 64 bytes or more is stored cut to 63, and then not found again; no other name can have two
  cards.\<close>

definition cut_names :: "string set \<Rightarrow> string set" where
  "cut_names P = take 63 ` {h \<in> P. HOSTNAME_LEN \<le> length h}"

definition once :: "string set \<Rightarrow> string list \<Rightarrow> bool" where
  "once P xs \<longleftrightarrow> distinct (filter (\<lambda>x. x \<notin> cut_names P) xs)"

lemma once_Cons: "once P (y # ys) \<longleftrightarrow> (y \<in> cut_names P \<or> y \<notin> set ys) \<and> once P ys"
  by (auto simp: once_def)

lemma once_mono: "once P xs \<Longrightarrow> P \<subseteq> Q \<Longrightarrow> once Q xs"
proof -
  assume "P \<subseteq> Q"
  then have "filter (\<lambda>x. x \<notin> cut_names Q) xs = filter (\<lambda>x. x \<notin> cut_names Q) (filter (\<lambda>x. x \<notin> cut_names P) xs)"
    by (auto simp: cut_names_def intro!: filter_cong)
  then show "once P xs \<Longrightarrow> once Q xs" by (metis once_def distinct_filter)
qed

lemma once_filter: "once P xs \<Longrightarrow> once P (filter Q xs)"
  by (induction xs) (auto simp: once_Cons)

lemma once_append: "once P xs \<Longrightarrow> x \<in> cut_names P \<or> x \<notin> set xs \<Longrightarrow> once P (xs @ [x])"
  by (auto simp: once_def)

lemma once_update: "once P xs \<Longrightarrow> x \<in> cut_names P \<or> x \<notin> set xs \<Longrightarrow> once P (xs[i := x])"
proof (induction xs arbitrary: i)
  case (Cons y ys)
  show ?case
  proof (cases i)
    case 0
    then show ?thesis using Cons.prems by (auto simp: once_Cons)
  next
    case (Suc j)
    have "set (ys[j := x]) \<subseteq> insert x (set ys)" by (rule set_update_subset_insert)
    then show ?thesis using Cons.prems Cons.IH [of j] unfolding Suc list_update.simps nat.case once_Cons by auto
  qed
qed simp

lemma stored_cut: "h \<noteq> [] \<Longrightarrow> fits (buf_copy 64 h)"
  by (simp add: fits_def)

lemma stored_new:
  assumes "h \<in> P \<or> length h < 64" "\<forall>x \<in> set xs. length x < 64 \<longrightarrow> x \<noteq> h"
  shows "buf_copy 64 h \<in> cut_names P \<or> buf_copy 64 h \<notin> set xs"
proof (cases "length h < 64")
  case True
  then show ?thesis using assms(2) by auto
next
  case False
  then have "h \<in> P" "64 \<le> length h" using assms(1) by simp_all
  then show ?thesis unfolding cut_names_def buf_copy_def by force
qed

text \<open>What every run keeps: every card was earned, and is on record unless the record is full.\<close>

definition earned :: "string set \<Rightarrow> registry \<Rightarrow> bool" where
  "earned P r \<longleftrightarrow> length (reg_clients r) \<le> MAX_CLIENTS \<and> length (reg_admitted r) \<le> MAX_CLIENTS \<and>
     (\<forall>x \<in> set (card_hosts r). fits x) \<and> (\<forall>x \<in> set (reg_admitted r). fits x) \<and> once P (card_hosts r) \<and>
     set (card_hosts r) \<subseteq> buf_copy 64 ` P \<and> set (reg_admitted r) \<subseteq> buf_copy 64 ` P \<and>
     (length (reg_admitted r) = MAX_CLIENTS \<or> set (card_hosts r) \<subseteq> set (reg_admitted r))"

lemma earned_mono: "earned P r \<Longrightarrow> P \<subseteq> Q \<Longrightarrow> earned Q r"
  unfolding earned_def using once_mono image_mono [of P Q "buf_copy 64"] by (meson order_trans)

lemma earned_found:
  assumes "earned P r"
  shows "registry_find h r = None \<longleftrightarrow> h = [] \<or> h \<notin> set (card_hosts r)" "is_admitted h r \<longleftrightarrow> h \<in> set (reg_admitted r)"
  using assms by (auto simp: earned_def fits_def streq_fits registry_find_def find_index_None is_admitted_def list_ex_iff image_iff)

text \<open>A new card of a host that is on record, or for which the record has no room.\<close>

lemma find_or_create_earned:
  assumes "earned P r" "h \<noteq> []" "h \<in> P \<or> h \<in> set (reg_admitted r)"
    and "length (reg_admitted r) = MAX_CLIENTS \<or> buf_copy 64 h \<in> set (reg_admitted r)"
  shows "earned P (snd (registry_find_or_create h r))"
proof (cases "registry_find h r")
  case (Some i)
  then show ?thesis using assms(1) by (simp add: registry_find_or_create_def)
next
  case None
  then have "h \<notin> set (card_hosts r)" using earned_found(1) [OF assms(1)] assms(2) by simp
  moreover have "h \<in> P \<or> length h < 64" using assms(1,3) by (auto simp: earned_def fits_def)
  ultimately have new: "buf_copy 64 h \<in> cut_names P \<or> buf_copy 64 h \<notin> set (card_hosts r)"
    by (intro stored_new) auto
  have here: "buf_copy 64 h \<in> buf_copy 64 ` P"
  proof (cases "h \<in> P")
    case False
    then have a: "h \<in> set (reg_admitted r)" using assms(3) by simp
    then have "buf_copy 64 h = h" "h \<in> buf_copy 64 ` P" using assms(1) by (auto simp: earned_def fits_def)
    then show ?thesis by simp
  qed simp
  have step: "earned P (r\<lparr>reg_clients := cs\<rparr>)"
    if "length cs \<le> 16" "once P (map ci_hostname cs)" "set (map ci_hostname cs) \<subseteq> insert (buf_copy 64 h) (set (card_hosts r))" for cs
  proof -
    note e = assms(1) [unfolded earned_def]
    have "\<forall>x \<in> set (map ci_hostname cs). fits x" "set (map ci_hostname cs) \<subseteq> buf_copy 64 ` P"
      "length (reg_admitted r) = 16 \<or> set (map ci_hostname cs) \<subseteq> set (reg_admitted r)"
      using that(3) e here assms(4) stored_cut [OF assms(2)] by blast+
    then show ?thesis using that(1,2) e by (simp add: earned_def)
  qed
  show ?thesis
  proof (cases "length (reg_clients r) < 16")
    case True
    have "earned P (r\<lparr>reg_clients := reg_clients r @ [new_client h]\<rparr>)"
      by (rule step) (use True once_append [OF _ new] assms(1) in \<open>auto simp: earned_def\<close>)
    then show ?thesis using True None assms(2) by (simp add: registry_find_or_create_def)
  next
    case False
    have "earned P (r\<lparr>reg_clients := (reg_clients r)[i := new_client h]\<rparr>)" for i
      by (rule step) (use once_update [OF _ new] assms(1) set_update_subset_insert [of "card_hosts r" i "buf_copy 64 h"]
        in \<open>simp_all add: earned_def map_update\<close>)
    then show ?thesis using False None assms(1,2) by (simp add: registry_find_or_create_def split: option.split prod.split)
  qed
qed

lemma remember_earned:
  assumes "earned P r" "h \<noteq> []"
  shows "earned (insert h P) (snd (remember_admitted h r))"
    "length (reg_admitted (snd (remember_admitted h r))) = MAX_CLIENTS \<or>
       buf_copy 64 h \<in> set (reg_admitted (snd (remember_admitted h r)))"
proof -
  have "earned (insert h P) r" by (rule earned_mono [OF assms(1)]) auto
  then show "earned (insert h P) (snd (remember_admitted h r))"
    using stored_cut [OF assms(2)] by (auto simp: remember_admitted_def earned_def)
  show "length (reg_admitted (snd (remember_admitted h r))) = MAX_CLIENTS \<or>
       buf_copy 64 h \<in> set (reg_admitted (snd (remember_admitted h r)))"
    using assms(1) earned_found(2) [OF assms(1)] by (auto simp: remember_admitted_def earned_def fits_def)
qed

lemma admit_keeps_earned:
  assumes "earned P r"
  shows "earned (if d then insert h P else P) (snd (registry_admit h d r))"
proof (cases "h = [] \<or> registry_find h r \<noteq> None")
  case True
  have "earned (if d then insert h P else P) r" by (rule earned_mono [OF assms]) auto
  then show ?thesis using True by (auto simp: registry_admit_def split: option.split)
next
  case False
  then have h: "h \<noteq> []" by simp
  show ?thesis
  proof (cases d)
    case True
    obtain g r' where rem: "remember_admitted h r = (g, r')" by (cases "remember_admitted h r")
    let ?r = "if g then r'\<lparr>reg_dirty := True\<rparr> else r'"
    have "earned (insert h P) ?r" "length (reg_admitted ?r) = 16 \<or> buf_copy 64 h \<in> set (reg_admitted ?r)"
      using remember_earned [OF assms h] by (auto simp: rem earned_def)
    then have "earned (insert h P) (snd (registry_find_or_create h ?r))" by (intro find_or_create_earned [OF _ h]) auto
    then show ?thesis using True False rem by (simp add: registry_admit_def)
  next
    case nd: False
    show ?thesis
    proof (cases "h \<in> set (reg_admitted r)")
      case a: True
      then have "buf_copy 64 h = h" using assms by (auto simp: earned_def fits_def)
      then have "earned P (snd (registry_find_or_create h r))" using a by (intro find_or_create_earned [OF assms h]) auto
      then show ?thesis using nd False earned_found(2) [OF assms] a by (simp add: registry_admit_def)
    qed (use nd False earned_found(2) [OF assms] assms in \<open>auto simp: registry_admit_def\<close>)
  qed
qed

lemma seed_keeps_earned:
  "earned P r \<Longrightarrow> earned (P \<union> set hs) (fold (\<lambda>h r. if h = [] then r else snd (remember_admitted h r)) hs r)"
proof (induction hs arbitrary: P r)
  case (Cons h hs)
  have "earned (insert h P) (if h = [] then r else snd (remember_admitted h r))"
    using remember_earned(1) [OF Cons.prems, of h] earned_mono [OF Cons.prems, of "insert h P"] by auto
  from Cons.IH [OF this] show ?case by simp
qed simp

lemma run_earned: "registry_run P r \<Longrightarrow> earned P r"
proof (induction rule: registry_run.induct)
  case (run_init r)
  then show ?case by (simp add: earned_def registry_init_def once_def)
next
  case (run_priority P r ps)
  then show ?case by (simp add: earned_def registry_set_priority_clients_def)
next
  case (run_seed P r hs)
  then show ?case using seed_keeps_earned by (simp add: registry_seed_admitted_def Let_def)
next
  case (run_admit P r d h)
  then show ?case by (simp only: admit_keeps_earned)
next
  case (run_update P r f i)
  then have "\<And>c. ci_hostname (f c) = ci_hostname c" by (simp add: keeps_name_def)
  then have "card_hosts (update_client i f r) = card_hosts r" by (simp add: update_client_cards)
  moreover have "length (reg_clients (update_client i f r)) = length (reg_clients r)"
    "reg_admitted (update_client i f r) = reg_admitted r" by (simp_all add: update_client_def)
  ultimately show ?case using run_update.IH unfolding earned_def by simp
next
  case (run_remove P r hs)
  have cards: "\<exists>Q. card_hosts (registry_remove_absent hs r) = filter Q (card_hosts r)"
  proof
    show "card_hosts (registry_remove_absent hs r) = filter (\<lambda>x. list_ex (\<lambda>h. streq HOSTNAME_LEN x h) hs) (card_hosts r)"
      by (simp add: registry_remove_absent_def filter_map comp_def)
  qed
  then obtain Q where Q: "card_hosts (registry_remove_absent hs r) = filter Q (card_hosts r)" by blast
  have "length (reg_clients (registry_remove_absent hs r)) \<le> length (reg_clients r)"
    "reg_admitted (registry_remove_absent hs r) = reg_admitted r" by (simp_all add: registry_remove_absent_def)
  then show ?case using run_remove.IH once_filter [of P "card_hosts r" Q] unfolding earned_def Q by auto
next
  case (run_saved P r)
  then show ?case by (simp add: earned_def registry_admitted_take_dirty_def)
qed


section \<open>Properties\<close>

text \<open>The admission rule of a whole poll, exactly: after a poll over at most
  \<open>MAX_CLIENTS\<close> members, a host has a card if and only if it is a member and it already had a
  card, or published in this poll, or was admitted before; members with neither stay without,
  and a host that was up and fell silent keeps its card.  No member is ever evicted for
  another, and the cards that stay keep their order.\<close>

theorem poll_cards_exact:
  assumes "registry_inv r" "length es \<le> MAX_CLIENTS"
    and "\<forall>(h, d, f) \<in> set es. fits h \<and> keeps_name f"
  defines "r' \<equiv> fold poll_client es (registry_remove_absent (map fst es) r)"
  shows "set (card_hosts r') =
      {h \<in> fst ` set es. h \<in> set (card_hosts r) \<or> h \<in> set (reg_admitted r) \<or> h \<in> published es} \<and>
    (\<exists>new. card_hosts r' = filter (\<lambda>h. h \<in> fst ` set es) (card_hosts r) @ new) \<and>
    registry_inv r' \<and>
    (reg_dirty r' \<longleftrightarrow> reg_dirty r \<or> reg_admitted r' \<noteq> reg_admitted r)"
proof -
  let ?r = "registry_remove_absent (map fst es) r" and ?A = "fst ` set es"
  have cards: "card_hosts ?r = filter (\<lambda>h. h \<in> ?A) (card_hosts r)"
    using remove_absent_cards [OF assms(1), of "map fst es"] by simp
  have rest: "reg_admitted ?r = reg_admitted r" "reg_dirty ?r = reg_dirty r"
    by (simp_all add: registry_remove_absent_def)
  have "card ?A \<le> 16"
    using card_image_le [of "set es" fst] card_length [of es] assms(2) by simp
  moreover have "\<forall>(h, d, f) \<in> set es. h \<in> ?A \<and> fits h \<and> keeps_name f"
    using assms(3) by force
  ultimately have "registry_inv r' \<and> set (card_hosts r') = set (card_hosts ?r) \<union> polled (set (reg_admitted ?r)) es \<and>
    (\<exists>new. card_hosts r' = card_hosts ?r @ new) \<and>
    (reg_dirty r' \<longleftrightarrow> reg_dirty ?r \<or> reg_admitted r' \<noteq> reg_admitted ?r)"
    unfolding r'_def
    using poll_fold_effect [OF remove_absent_inv [OF assms(1)], of "map fst es" ?A es] cards by auto
  moreover have "set (filter (\<lambda>h. h \<in> ?A) (card_hosts r)) \<union> polled (set (reg_admitted r)) es =
      {h \<in> ?A. h \<in> set (card_hosts r) \<or> h \<in> set (reg_admitted r) \<or> h \<in> published es}"
    by (force simp: polled_def published_def)
  ultimately show ?thesis unfolding cards rest by simp
qed

text \<open>The clients the witnesses run on: one host that was up, and one that was never seen.\<close>

definition kai :: "registry" where
  "kai = \<lparr>reg_clients = [new_client ''kai''], reg_admitted = [''kai''], reg_dirty = False,
     reg_priority = []\<rparr>"

lemma kai_inv: "registry_inv kai"
  by (simp add: kai_def registry_inv_def fits_def)

definition two_silent_members :: "(string \<times> bool \<times> (client_info \<Rightarrow> client_info)) list" where
  "two_silent_members = [(''kai'', False, id), (''kwork'', False, id)]"

theorem poll_cards_exact_witness:
  "set (card_hosts (fold poll_client two_silent_members
     (registry_remove_absent (map fst two_silent_members) kai))) = {''kai''}"
proof -
  have "length two_silent_members \<le> 16" "\<forall>(h, d, f) \<in> set two_silent_members. fits h \<and> keeps_name f"
    by (simp_all add: two_silent_members_def fits_def keeps_name_def)
  note * = poll_cards_exact [OF kai_inv this, THEN conjunct1]
  show ?thesis
    by (rule trans [OF *]) (auto simp: kai_def published_def two_silent_members_def)
qed



text \<open>C15: when all slots are taken, an unknown host takes the slot of the non-priority client
  that was seen longest ago and nothing else changes; a priority client is never evicted, and
  when every client is a priority client the registry answers NULL unchanged.\<close>

theorem evict_oldest_non_priority:
  assumes "registry_inv r" "fits h" "h \<notin> set (card_hosts r)" "length (reg_clients r) = MAX_CLIENTS"
    and "registry_find_or_create h r = (i, r')"
  shows "case i of
      None \<Rightarrow> r' = r \<and> (\<forall>c \<in> set (reg_clients r). is_priority (ci_hostname c) r)
    | Some k \<Rightarrow> k < MAX_CLIENTS \<and> \<not> is_priority (ci_hostname (reg_clients r ! k)) r \<and>
        (\<forall>j < MAX_CLIENTS. is_priority (ci_hostname (reg_clients r ! j)) r \<or>
           ci_last_seen_ts (reg_clients r ! k) \<le> ci_last_seen_ts (reg_clients r ! j)) \<and>
        r' = r\<lparr>reg_clients := (reg_clients r)[k := new_client h]\<rparr>"
proof -
  let ?scan = "evict_scan (\<lambda>x. is_priority x r) 0 None (reg_clients r)"
  have "registry_find h r = None" using registry_find_None_iff [OF assms(1)] assms(2,3) by (simp add: fits_def)
  then have foc: "(i, r') = (case ?scan of None \<Rightarrow> (None, r)
      | Some (k, _) \<Rightarrow> (Some k, r\<lparr>reg_clients := (reg_clients r)[k := new_client h]\<rparr>))"
    using assms(2,4,5) by (simp add: registry_find_or_create_def fits_def)
  show ?thesis
  proof (cases ?scan)
    case None
    with foc evict_scan_None [of _ 0 "reg_clients r"] show ?thesis by auto
  next
    case (Some kt)
    obtain k t where kt: "kt = (k, t)" by (cases kt)
    with foc Some evict_scan_min [OF Some [unfolded kt]] assms(4) show ?thesis by auto
  qed
qed

text \<open>A host name of 64 bytes or more is never found again: each payload of such a member
  takes another slot, under the same truncated name, as long as there is room, and the same
  name is appended to the admitted set again.\<close>

theorem overlong_name_duplicates:
  assumes "registry_inv r" "HOSTNAME_LEN \<le> length h"
    and "length (reg_clients r) + 1 < MAX_CLIENTS" "length (reg_admitted r) + 1 < MAX_CLIENTS"
  defines "r2 \<equiv> snd (registry_admit h True (snd (registry_admit h True r)))"
  shows "card_hosts r2 = card_hosts r @ [take 63 h, take 63 h] \<and>
    reg_admitted r2 = reg_admitted r @ [take 63 h, take 63 h]"
proof -
  have h: "h \<noteq> []" "buf_copy 64 h = take 63 h" using assms(2) by (auto simp: buf_copy_def)
  have long: "\<not> streq 64 x h" if "length x < 64" for x
    using that streq_fits [OF that, of h] assms(2) by auto
  have step: "registry_admit h True s = (Some (length (reg_clients s)),
      s\<lparr>reg_admitted := reg_admitted s @ [take 63 h], reg_dirty := True,
        reg_clients := reg_clients s @ [new_client h]\<rparr>)"
    if s: "\<forall>c \<in> set (reg_clients s). length (ci_hostname c) < 64" "\<forall>a \<in> set (reg_admitted s). length a < 64"
      "length (reg_clients s) < 16" "length (reg_admitted s) < 16" for s
  proof -
    have "registry_find h s = None" using s(1) long h by (auto simp: registry_find_def find_index_None)
    moreover have "\<not> is_admitted h s" using s(2) long by (auto simp: is_admitted_def list_ex_iff)
    ultimately show ?thesis using s(3,4) h
      by (simp add: registry_admit_def remember_admitted_def registry_find_or_create_def registry_find_def)
  qed
  have fit: "\<forall>c \<in> set (reg_clients r). length (ci_hostname c) < 64" "\<forall>a \<in> set (reg_admitted r). length a < 64"
    using registry_inv_parts(3,6) [OF assms(1)] by (auto simp: fits_def)
  show ?thesis
    unfolding r2_def using step [of r] step [of "snd (registry_admit h True r)"] fit assms(3,4) h
    by (simp add: buf_copy_def)
qed

theorem overlong_name_duplicates_witness:
  "card_hosts (snd (registry_admit (replicate 70 CHR ''a'') True
     (snd (registry_admit (replicate 70 CHR ''a'') True kai)))) =
   [''kai'', replicate 63 CHR ''a'', replicate 63 CHR ''a'']"
  using overlong_name_duplicates [OF kai_inv, of "replicate 70 CHR ''a''"]
  by (simp add: kai_def)

definition full_house :: registry where
  "full_house = \<lparr>reg_clients = map (\<lambda>i. (new_client [char_of i])\<lparr>ci_last_seen_ts := of_nat i\<rparr>) [97..<113],
     reg_admitted = [], reg_dirty = False, reg_priority = [''a'']\<rparr>"

theorem evict_oldest_non_priority_witness:
  "\<exists>r'. registry_find_or_create ''kai'' full_house = (Some 1, r') \<and>
     \<not> is_priority (ci_hostname (reg_clients full_house ! 1)) full_house"
proof -
  have up: "[97..<113] = [97, 98, 99, 100, 101, 102, 103, 104, 105, 106, 107, 108, 109, 110, 111, 112 :: nat]"
    by (simp add: upt_rec)
  have inv: "registry_inv full_house"
    by (simp add: full_house_def registry_inv_def fits_def up)
  have new: "''kai'' \<notin> set (card_hosts full_house)" "length (reg_clients full_house) = 16"
    by (simp_all add: full_house_def)
  have "fst (registry_find_or_create ''kai'' full_house) = Some 1"
    by code_simp
  then obtain r' where "registry_find_or_create ''kai'' full_house = (Some 1, r')"
    by (cases "registry_find_or_create ''kai'' full_house") auto
  with evict_oldest_non_priority [OF inv _ new this] show ?thesis by (simp add: fits_def)
qed

end
