(* ===== verification/Service_Registry.thy ===== *)
theory Service_Registry
  imports KPrelude
begin

text \<open>
  Service cards (\<open>src/src/registry.c\<close>, service helpers and service registry): the state
  string of a payload, the border colour with its freshness window, and the table of cards
  keyed by (name, host).  A table is the list of its first \<open>g_service_count\<close> slots, a pointer
  to a slot its index, and the LVGL card of a slot an optional number.
\<close>

abbreviation "SERVICE_REGISTRY_MAX \<equiv> 32 :: nat"
abbreviation "SERVICE_FRESH_SECONDS \<equiv> 75 :: double"
abbreviation "SERVICE_DAILY_FRESH_SECONDS \<equiv> 93600 :: double"

datatype service_state = SERVICE_STATE_UNKNOWN | SERVICE_STATE_OK | SERVICE_STATE_UNHEALTHY
  | SERVICE_STATE_MAINTENANCE | SERVICE_STATE_DOWN

datatype service_color_t = SERVICE_COLOR_GRAY | SERVICE_COLOR_GREEN | SERVICE_COLOR_YELLOW
  | SERVICE_COLOR_BLUE | SERVICE_COLOR_RED

record service_entry =
  se_name :: string
  se_host :: string
  se_text :: string
  se_icon_index :: int
  se_last_payload_ts :: double
  se_last_valid_state :: service_state
  se_container :: "nat option"

section \<open>The state string\<close>

definition tolower :: "char \<Rightarrow> char" where
  "tolower c = (if CHR ''A'' \<le> c \<and> c \<le> CHR ''Z'' then char_of ((of_char c :: nat) + 32) else c)"

fun strcaseeq :: "string \<Rightarrow> string \<Rightarrow> bool" where
  "strcaseeq [] [] = True"
| "strcaseeq (a # as) (b # bs) = (if tolower a \<noteq> tolower b then False else strcaseeq as bs)"
| "strcaseeq _ _ = False"

definition service_parse_state :: "string \<Rightarrow> service_state" where
  "service_parse_state s =
     (if s = [] then SERVICE_STATE_UNKNOWN
      else if strcaseeq s ''ok'' then SERVICE_STATE_OK
      else if strcaseeq s ''unhealthy'' then SERVICE_STATE_UNHEALTHY
      else if strcaseeq s ''maintenance'' then SERVICE_STATE_MAINTENANCE
      else if strcaseeq s ''down'' then SERVICE_STATE_DOWN
      else SERVICE_STATE_UNKNOWN)"

lemma strcaseeq_iff: "strcaseeq a b \<longleftrightarrow> map tolower a = map tolower b"
  by (induction a b rule: strcaseeq.induct) auto

section \<open>The border colour\<close>

definition g_service_windows :: "(string \<times> double) list" where
  "g_service_windows = [(''kmon'', SERVICE_DAILY_FRESH_SECONDS)]"

definition service_fresh_window :: "string \<Rightarrow> double" where
  "service_fresh_window name =
     (case find_index (\<lambda>(n, w). name = n) g_service_windows of
        Some i \<Rightarrow> snd (g_service_windows ! i)
      | None \<Rightarrow> SERVICE_FRESH_SECONDS)"

definition service_color :: "service_entry \<Rightarrow> double \<Rightarrow> service_color_t" where
  "service_color e now =
     (if se_last_valid_state e = SERVICE_STATE_DOWN then SERVICE_COLOR_GRAY
      else if se_last_valid_state e = SERVICE_STATE_UNKNOWN then SERVICE_COLOR_GRAY
      else if \<not> (now - se_last_payload_ts e < service_fresh_window (se_name e))
      then SERVICE_COLOR_RED
      else (case se_last_valid_state e of
              SERVICE_STATE_OK \<Rightarrow> SERVICE_COLOR_GREEN
            | SERVICE_STATE_UNHEALTHY \<Rightarrow> SERVICE_COLOR_YELLOW
            | SERVICE_STATE_MAINTENANCE \<Rightarrow> SERVICE_COLOR_BLUE
            | _ \<Rightarrow> SERVICE_COLOR_GRAY))"

section \<open>The table\<close>

definition new_service :: "string \<times> string \<Rightarrow> service_entry" where
  "new_service k =
     \<lparr>se_name = buf_copy 64 (fst k), se_host = buf_copy 64 (snd k), se_text = [],
      se_icon_index = -1, se_last_payload_ts = 0, se_last_valid_state = SERVICE_STATE_UNKNOWN,
      se_container = None\<rparr>"

definition service_matches :: "string \<times> string \<Rightarrow> service_entry \<Rightarrow> bool" where
  "service_matches k e \<longleftrightarrow> streq 64 (se_name e) (fst k) \<and> streq 64 (se_host e) (snd k)"

definition service_registry_find_or_create ::
  "string \<times> string \<Rightarrow> service_entry list \<Rightarrow> nat option \<times> service_entry list" where
  "service_registry_find_or_create k t =
     (if fst k = [] \<or> snd k = [] then (None, t)
      else case find_index (service_matches k) t of
          Some i \<Rightarrow> (Some i, t)
        | None \<Rightarrow>
            if SERVICE_REGISTRY_MAX \<le> length t then (None, t)
            else (Some (length t), t @ [new_service k]))"

definition service_registry_apply_payload ::
  "nat \<Rightarrow> service_entry \<Rightarrow> service_entry list \<Rightarrow> service_entry list" where
  "service_registry_apply_payload i p t =
     t[i := (t ! i)\<lparr>se_last_valid_state := se_last_valid_state p,
        se_last_payload_ts := se_last_payload_ts p, se_text := se_text p,
        se_icon_index := se_icon_index p\<rparr>]"

definition service_registry_snapshot :: "nat \<Rightarrow> service_entry list \<Rightarrow> service_entry list" where
  "service_registry_snapshot m t = take m t"

text \<open>The card's container, for the caller to destroy, and the table without the entry.\<close>

definition service_registry_remove ::
  "string \<times> string \<Rightarrow> service_entry list \<Rightarrow> nat option \<times> service_entry list" where
  "service_registry_remove k t =
     (case find_index (service_matches k) t of
        None \<Rightarrow> (None, t)
      | Some i \<Rightarrow> (se_container (t ! i), remove_at i t))"

definition service_key_ok :: "string \<times> string \<Rightarrow> bool" where
  "service_key_ok k \<longleftrightarrow> fst k \<noteq> [] \<and> snd k \<noteq> [] \<and> length (fst k) < 64 \<and> length (snd k) < 64"

text \<open>The table of services is a table of slots, with removal.\<close>

interpretation svc: slot_table_remove service_matches new_service service_key_ok SERVICE_REGISTRY_MAX
  service_registry_find_or_create "\<lambda>k t. snd (service_registry_remove k t)"
proof unfold_locales
  fix k k' e
  assume "service_key_ok k" "service_key_ok k'" "service_matches k e" "service_matches k' e"
  then have "take 64 (fst k) = take 64 (fst k')" "take 64 (snd k) = take 64 (snd k')"
    by (simp_all add: service_matches_def streq_iff)
  with \<open>service_key_ok k\<close> \<open>service_key_ok k'\<close> show "k' = k"
    by (simp add: service_key_ok_def prod_eq_iff)
qed (auto simp: service_registry_find_or_create_def service_registry_remove_def service_key_ok_def
    service_matches_def new_service_def)

lemma apply_payload_names:
  "map (\<lambda>e. (se_name e, se_host e)) (service_registry_apply_payload i p t) =
     map (\<lambda>e. (se_name e, se_host e)) t"
  by (simp add: service_registry_apply_payload_def map_update)
    (metis (mono_tags, lifting) list_update_beyond list_update_id nth_map not_less length_map)

lemma length_apply_payload [simp]: "length (service_registry_apply_payload i p t) = length t"
  by (simp add: service_registry_apply_payload_def)

lemma find_index_names:
  assumes "map (\<lambda>e. (se_name e, se_host e)) t = map (\<lambda>e. (se_name e, se_host e)) u"
  shows "find_index (service_matches k) t = find_index (service_matches k) u"
  using assms
proof (induction t arbitrary: u)
  case (Cons e t)
  then obtain e' u' where "u = e' # u'" by (cases u) auto
  with Cons show ?case by (auto simp: service_matches_def)
qed simp

text \<open>One good payload: find the card's slot, or make one, and store the payload in it.\<close>

definition service_observe ::
  "string \<times> string \<Rightarrow> service_entry \<Rightarrow> service_entry list \<Rightarrow> service_entry list" where
  "service_observe k p t =
     (case service_registry_find_or_create k t of
        (None, t') \<Rightarrow> t'
      | (Some i, t') \<Rightarrow> service_registry_apply_payload i p t')"

lemma observe_cases:
  assumes "service_key_ok k" "service_registry_find_or_create k t = (Some i, u)"
  shows "i < length u" "service_matches k (u ! i)" "service_observe k p t = service_registry_apply_payload i p u"
    "find_index (service_matches k) u = Some i"
  using svc.foc_found [OF assms] svc.foc_lookup [OF assms] assms(2) by (simp_all add: service_observe_def)

lemma slots_unique_names:
  assumes "map (\<lambda>e. (se_name e, se_host e)) t = map (\<lambda>e. (se_name e, se_host e)) u"
  shows "slots_unique service_matches ok t = slots_unique service_matches ok u"
proof -
  have len: "length t = length u" using assms by (metis length_map)
  moreover have "service_matches k (t ! i) = service_matches k (u ! i)" if "i < length t" for k i
    using arg_cong [OF assms, of "\<lambda>l. l ! i"] that len by (simp add: service_matches_def)
  ultimately show ?thesis by (auto simp: slots_unique_def)
qed

section \<open>Properties\<close>

text \<open>The colour of a service card, for every state and age: green, yellow and blue mean a
  payload of that state younger than the feed's window, red means a state other than DOWN whose
  payload is older, gray means DOWN (whatever its age) or no valid payload yet.\<close>

theorem service_color_table:
  "(service_color e now = SERVICE_COLOR_GREEN \<longleftrightarrow> se_last_valid_state e = SERVICE_STATE_OK \<and>
      now - se_last_payload_ts e < service_fresh_window (se_name e)) \<and>
   (service_color e now = SERVICE_COLOR_YELLOW \<longleftrightarrow> se_last_valid_state e = SERVICE_STATE_UNHEALTHY \<and>
      now - se_last_payload_ts e < service_fresh_window (se_name e)) \<and>
   (service_color e now = SERVICE_COLOR_BLUE \<longleftrightarrow> se_last_valid_state e = SERVICE_STATE_MAINTENANCE \<and>
      now - se_last_payload_ts e < service_fresh_window (se_name e)) \<and>
   (service_color e now = SERVICE_COLOR_RED \<longleftrightarrow>
      se_last_valid_state e \<in> {SERVICE_STATE_OK, SERVICE_STATE_UNHEALTHY, SERVICE_STATE_MAINTENANCE} \<and>
      service_fresh_window (se_name e) \<le> now - se_last_payload_ts e) \<and>
   (service_color e now = SERVICE_COLOR_GRAY \<longleftrightarrow>
      se_last_valid_state e \<in> {SERVICE_STATE_DOWN, SERVICE_STATE_UNKNOWN}) \<and>
   service_fresh_window (se_name e) =
     (if se_name e = ''kmon'' then 26 * 3600 else SERVICE_FRESH_SECONDS)"
  by (cases "se_last_valid_state e")
    (auto simp: service_color_def service_fresh_window_def g_service_windows_def not_less)

text \<open>A good payload of a service updates exactly that service's card: the entry of its
  (name, host) holds the payload under the key's own name and host, every other card is
  found with the contents it had, no card is lost or duplicated, and the table never exceeds
  its capacity.\<close>

theorem service_observe_effect:
  fixes p :: service_entry
  assumes "service_key_ok k" "slots_unique service_matches service_key_ok t"
    and "length t < SERVICE_REGISTRY_MAX"
  defines "t' \<equiv> service_observe k p t"
  shows "(\<exists>i e. find_index (service_matches k) t' = Some i \<and> t' ! i = e \<and>
      (se_name e, se_host e) = k \<and> se_text e = se_text p \<and>
      se_last_valid_state e = se_last_valid_state p \<and> se_last_payload_ts e = se_last_payload_ts p \<and>
      se_icon_index e = se_icon_index p) \<and>
    filter (\<lambda>e. \<not> service_matches k e) t' = filter (\<lambda>e. \<not> service_matches k e) t \<and>
    length t' \<le> SERVICE_REGISTRY_MAX \<and> slots_unique service_matches service_key_ok t'"
proof -
  obtain i u where foc: "service_registry_find_or_create k t = (Some i, u)"
    using svc.cases_foc [OF assms(1), of t] assms(3) by (metis not_less)
  note i = observe_cases [OF assms(1) foc]
  have name: "(se_name (u ! i), se_host (u ! i)) = k"
    using i(2) assms(1) streq_fits [of "se_name (u ! i)" 64] streq_fits [of "fst k" 64 "se_name (u ! i)"]
      streq_fits [of "snd k" 64 "se_host (u ! i)"]
    by (simp add: service_matches_def service_key_ok_def streq_iff prod_eq_iff)
  have t': "t' = u[i := (u ! i)\<lparr>se_last_valid_state := se_last_valid_state p,
        se_last_payload_ts := se_last_payload_ts p, se_text := se_text p, se_icon_index := se_icon_index p\<rparr>]"
    unfolding t'_def i(3) by (simp add: service_registry_apply_payload_def)
  have idx: "find_index (service_matches k) t' = Some i"
    using find_index_names [of t' u k] apply_payload_names [of i p u] i(3,4) by (simp add: t'_def)
  have "filter (\<lambda>e. \<not> service_matches k e) t' = filter (\<lambda>e. \<not> service_matches k e) u"
    unfolding t' using i(1,2) by (intro filter_update_skip) (simp_all add: service_matches_def)
  also have "\<dots> = filter (\<lambda>e. \<not> service_matches k e) t"
    using svc.cases_foc [OF assms(1), of t] foc svc.fresh_matches [OF assms(1)] by (metis (no_types, lifting)
      append.right_neutral filter.simps filter_append snd_conv)
  finally have "filter (\<lambda>e. \<not> service_matches k e) t' = filter (\<lambda>e. \<not> service_matches k e) t" .
  moreover have "length t' \<le> 32"
    using svc.foc_bounded [OF assms(1), of t] assms(3) foc by (simp add: t')
  moreover have "t' ! i = (u ! i)\<lparr>se_last_valid_state := se_last_valid_state p,
        se_last_payload_ts := se_last_payload_ts p, se_text := se_text p, se_icon_index := se_icon_index p\<rparr>"
    unfolding t' using i(1) by simp
  moreover have "slots_unique service_matches service_key_ok t'"
    using svc.foc_unique [OF assms(1,2)] foc slots_unique_names [OF apply_payload_names] i(3)
    by (simp add: t'_def)
  ultimately show ?thesis using idx name by auto
qed


definition ok_payload :: service_entry where
  "ok_payload = (new_service ([], []))\<lparr>se_text := ''v1.2'', se_last_valid_state := SERVICE_STATE_OK,
     se_last_payload_ts := 1000, se_icon_index := 20\<rparr>"

theorem service_observe_effect_witness:
  "length (service_observe (''kmon'', ''kubs0'') ok_payload [new_service (''db'', ''kai'')]) \<le> SERVICE_REGISTRY_MAX
   \<and> slots_unique service_matches service_key_ok
       (service_observe (''kmon'', ''kubs0'') ok_payload [new_service (''db'', ''kai'')])"
proof -
  have k: "service_key_ok (''kmon'', ''kubs0'')" by (simp add: service_key_ok_def)
  have u: "slots_unique service_matches service_key_ok [new_service (''db'', ''kai'')]"
    by (simp add: slots_unique_def)
  show ?thesis using service_observe_effect [OF k u, of ok_payload] by simp
qed

text \<open>Evicting a service removes exactly its card: afterwards the key is not found, every
  other card is kept in order, and the container handed back to be destroyed is the one the
  removed card held.\<close>

theorem service_remove_effect:
  assumes "service_key_ok k" "slots_unique service_matches service_key_ok t"
    and "service_registry_remove k t = (c, t')"
  shows "find_index (service_matches k) t' = None \<and>
    filter (\<lambda>e. \<not> service_matches k e) t' = filter (\<lambda>e. \<not> service_matches k e) t \<and>
    slots_unique service_matches service_key_ok t' \<and>
    c = (case find_index (service_matches k) t of None \<Rightarrow> None | Some i \<Rightarrow> se_container (t ! i))"
proof -
  have t': "t' = snd (service_registry_remove k t)" using assms(3) by simp
  have "c = fst (service_registry_remove k t)" using assms(3) by simp
  then have "c = (case find_index (service_matches k) t of None \<Rightarrow> None | Some i \<Rightarrow> se_container (t ! i))"
    by (simp add: service_registry_remove_def split: option.split)
  then show ?thesis
    unfolding t' using svc.remove_gone [OF assms(1,2)] svc.remove_others [OF assms(1), of t]
      svc.remove_unique [OF assms(1,2)] by blast
qed

theorem service_remove_effect_witness:
  "find_index (service_matches (''db'', ''kai'')) (snd (service_registry_remove (''db'', ''kai'')
     [(new_service (''db'', ''kai''))\<lparr>se_container := Some 7\<rparr>])) = None \<and>
   fst (service_registry_remove (''db'', ''kai'')
     [(new_service (''db'', ''kai''))\<lparr>se_container := Some 7\<rparr>]) = Some 7"
proof -
  let ?t = "[(new_service (''db'', ''kai''))\<lparr>se_container := Some 7\<rparr>]"
  have k: "service_key_ok (''db'', ''kai'')" by (simp add: service_key_ok_def)
  have u: "slots_unique service_matches service_key_ok ?t" by (simp add: slots_unique_def)
  obtain c t' where r: "service_registry_remove (''db'', ''kai'') ?t = (c, t')" by (rule prod.exhaust)
  show ?thesis using service_remove_effect [OF k u r] r
    by (simp add: service_matches_def new_service_def)
qed

end
