(* ===== verification/AptTemps_Registry.thy ===== *)
theory AptTemps_Registry
  imports KPrelude
begin

text \<open>
  Apartment-temperature cards (\<open>src/src/registry.c\<close>): the colour of a reading and the table of
  zones, keyed by slug.  The band classifier and its thresholds belong to kdashdata, which is
  not in the repository: they are the record \<open>kdash\<close>, whose bands are named as the switch of
  \<open>apttemps_color\<close> names them.
\<close>

abbreviation "APTTEMPS_REGISTRY_MAX \<equiv> 16 :: nat"
abbreviation "APTTEMPS_FRESH_SECONDS \<equiv> 300 :: double"

datatype kdash_temp = KDASH_TEMP_STALE | KDASH_TEMP_COLD | KDASH_TEMP_OK | KDASH_TEMP_WARM
  | KDASH_TEMP_HOT

record kdash =
  kd_apttemps_band :: "double \<Rightarrow> bool \<Rightarrow> double \<Rightarrow> double \<Rightarrow> double \<Rightarrow> kdash_temp"
  kd_COLD_F :: double
  kd_OK_F :: double
  kd_HOT_F :: double

datatype apttemps_color_t = APTTEMPS_COLOR_GRAY | APTTEMPS_COLOR_BLUE | APTTEMPS_COLOR_GREEN
  | APTTEMPS_COLOR_ORANGE | APTTEMPS_COLOR_RED

record apttemps_entry =
  at_slug :: string
  at_zone :: string
  at_temp_f :: double
  at_humidity_pct :: int
  at_last_payload_ts :: double
  at_valid :: bool
  at_container :: "nat option"

definition apttemps_color :: "kdash \<Rightarrow> apttemps_entry \<Rightarrow> double \<Rightarrow> apttemps_color_t" where
  "apttemps_color K e now =
     (let stale = (\<not> at_valid e \<or> APTTEMPS_FRESH_SECONDS \<le> now - at_last_payload_ts e)
      in case kd_apttemps_band K (at_temp_f e) stale (kd_COLD_F K) (kd_OK_F K) (kd_HOT_F K) of
          KDASH_TEMP_COLD \<Rightarrow> APTTEMPS_COLOR_BLUE
        | KDASH_TEMP_OK \<Rightarrow> APTTEMPS_COLOR_GREEN
        | KDASH_TEMP_WARM \<Rightarrow> APTTEMPS_COLOR_ORANGE
        | KDASH_TEMP_HOT \<Rightarrow> APTTEMPS_COLOR_RED
        | KDASH_TEMP_STALE \<Rightarrow> APTTEMPS_COLOR_GRAY)"

section \<open>The table\<close>

definition new_apttemps :: "string \<Rightarrow> apttemps_entry" where
  "new_apttemps slug =
     \<lparr>at_slug = buf_copy 64 slug, at_zone = [], at_temp_f = 0, at_humidity_pct = 0,
      at_last_payload_ts = 0, at_valid = False, at_container = None\<rparr>"

definition apttemps_matches :: "string \<Rightarrow> apttemps_entry \<Rightarrow> bool" where
  "apttemps_matches slug e \<longleftrightarrow> streq 64 (at_slug e) slug"

definition apttemps_registry_find_or_create ::
  "string \<Rightarrow> apttemps_entry list \<Rightarrow> nat option \<times> apttemps_entry list" where
  "apttemps_registry_find_or_create slug t =
     (if slug = [] then (None, t)
      else case find_index (apttemps_matches slug) t of
          Some i \<Rightarrow> (Some i, t)
        | None \<Rightarrow>
            if APTTEMPS_REGISTRY_MAX \<le> length t then (None, t)
            else (Some (length t), t @ [new_apttemps slug]))"

definition apttemps_registry_apply_payload ::
  "nat \<Rightarrow> apttemps_entry \<Rightarrow> apttemps_entry list \<Rightarrow> apttemps_entry list" where
  "apttemps_registry_apply_payload i p t =
     t[i := (t ! i)\<lparr>at_temp_f := at_temp_f p, at_humidity_pct := at_humidity_pct p,
        at_last_payload_ts := at_last_payload_ts p, at_valid := True, at_zone := at_zone p\<rparr>]"

definition apttemps_registry_snapshot :: "nat \<Rightarrow> apttemps_entry list \<Rightarrow> apttemps_entry list" where
  "apttemps_registry_snapshot m t = take m t"

definition apttemps_registry_remove ::
  "string \<Rightarrow> apttemps_entry list \<Rightarrow> nat option \<times> apttemps_entry list" where
  "apttemps_registry_remove slug t =
     (case find_index (apttemps_matches slug) t of
        None \<Rightarrow> (None, t)
      | Some i \<Rightarrow> (at_container (t ! i), remove_at i t))"

definition slug_ok :: "string \<Rightarrow> bool" where
  "slug_ok s \<longleftrightarrow> s \<noteq> [] \<and> length s < 64"

interpretation apt: slot_table_remove apttemps_matches new_apttemps slug_ok APTTEMPS_REGISTRY_MAX
  apttemps_registry_find_or_create "\<lambda>k t. snd (apttemps_registry_remove k t)"
proof unfold_locales
  fix k k' e
  assume "slug_ok k" "slug_ok k'" "apttemps_matches k e" "apttemps_matches k' e"
  then have "take 64 k = take 64 k'" by (simp add: apttemps_matches_def streq_iff)
  with \<open>slug_ok k\<close> \<open>slug_ok k'\<close> show "k' = k" by (simp add: slug_ok_def)
qed (auto simp: apttemps_registry_find_or_create_def apttemps_registry_remove_def slug_ok_def
    apttemps_matches_def new_apttemps_def)

section \<open>Properties\<close>

text \<open>Whatever bands kdashdata defines, as long as a stale reading is in its stale band, a
  zone that never took a payload or whose payload is 300 seconds old or older is gray, and a
  fresh zone gets exactly the colour of the band of its temperature.\<close>

theorem apttemps_color_stale:
  assumes "\<And>t c ok hot. kd_apttemps_band K t True c ok hot = KDASH_TEMP_STALE"
  shows "(\<not> at_valid e \<or> APTTEMPS_FRESH_SECONDS \<le> now - at_last_payload_ts e \<longrightarrow>
      apttemps_color K e now = APTTEMPS_COLOR_GRAY) \<and>
    (at_valid e \<and> now - at_last_payload_ts e < APTTEMPS_FRESH_SECONDS \<longrightarrow>
      (apttemps_color K e now = APTTEMPS_COLOR_RED \<longleftrightarrow>
         kd_apttemps_band K (at_temp_f e) False (kd_COLD_F K) (kd_OK_F K) (kd_HOT_F K) = KDASH_TEMP_HOT) \<and>
      (apttemps_color K e now = APTTEMPS_COLOR_BLUE \<longleftrightarrow>
         kd_apttemps_band K (at_temp_f e) False (kd_COLD_F K) (kd_OK_F K) (kd_HOT_F K) = KDASH_TEMP_COLD))"
  using assms by (auto simp: apttemps_color_def Let_def not_le split: kdash_temp.split)

definition plain_kdash :: kdash where
  "plain_kdash = \<lparr>kd_apttemps_band = (\<lambda>t stale c ok hot. if stale then KDASH_TEMP_STALE
       else if t < c then KDASH_TEMP_COLD else if t \<le> ok then KDASH_TEMP_OK
       else if t < hot then KDASH_TEMP_WARM else KDASH_TEMP_HOT),
     kd_COLD_F = 65, kd_OK_F = 75, kd_HOT_F = 80\<rparr>"

theorem apttemps_color_stale_witness:
  "apttemps_color plain_kdash (new_apttemps ''attic'') 100 = APTTEMPS_COLOR_GRAY \<and>
   apttemps_color plain_kdash ((new_apttemps ''attic'')\<lparr>at_valid := True, at_temp_f := 90\<rparr>) 100
     = APTTEMPS_COLOR_RED"
proof -
  have stale: "kd_apttemps_band plain_kdash t True c ok hot = KDASH_TEMP_STALE" for t c ok hot
    by (simp add: plain_kdash_def)
  let ?e = "(new_apttemps ''attic'')\<lparr>at_valid := True, at_temp_f := 90\<rparr>"
  show ?thesis
    using apttemps_color_stale [OF stale, of "new_apttemps ''attic''" 100]
      apttemps_color_stale [OF stale, of ?e 100]
    by (simp add: new_apttemps_def plain_kdash_def)
qed

end
