(* ===== verification/Graph_Hosts.thy ===== *)
theory Graph_Hosts
  imports KPrelude
begin

text \<open>
  The graph-host series (\<open>src/src/registry.c\<close>): one slot per host that publishes developer
  telemetry, with the time of its last sample, and the eviction of series that have been
  silent for \<open>GRAPH_HOST_EVICT_SECONDS\<close>, which \<open>ui_refresh\<close> performs before it places the
  graphs.
\<close>

abbreviation "GRAPH_HOST_MAX \<equiv> 8 :: nat"
abbreviation "GRAPH_HOST_STALE_SECONDS \<equiv> 30 :: double"
abbreviation "GRAPH_HOST_EVICT_SECONDS \<equiv> 300 :: double"

record dev_telemetry =
  dt_valid :: bool
  dt_host :: string
  dt_cpu_pct :: double
  dt_top_core_pct :: double
  dt_ram_used_mb :: "32 word"
  dt_ram_total_mb :: "32 word"
  dt_gpu_present :: bool
  dt_gpu_compute_pct :: double
  dt_gpu_vram_used_mb :: "32 word"
  dt_gpu_vram_total_mb :: "32 word"

definition blank_dev_telemetry :: dev_telemetry where
  "blank_dev_telemetry =
     \<lparr>dt_valid = False, dt_host = [], dt_cpu_pct = 0, dt_top_core_pct = 0, dt_ram_used_mb = 0,
      dt_ram_total_mb = 0, dt_gpu_present = False, dt_gpu_compute_pct = 0, dt_gpu_vram_used_mb = 0,
      dt_gpu_vram_total_mb = 0\<rparr>"

record graph_host_series =
  gh_host :: string
  gh_last_sample_ts :: double
  gh_widget :: "nat option"
  gh_telemetry :: dev_telemetry

definition new_graph_host :: "string \<Rightarrow> graph_host_series" where
  "new_graph_host h = \<lparr>gh_host = buf_copy 64 h, gh_last_sample_ts = 0, gh_widget = None,
     gh_telemetry = blank_dev_telemetry\<rparr>"

definition graph_matches :: "string \<Rightarrow> graph_host_series \<Rightarrow> bool" where
  "graph_matches h s \<longleftrightarrow> streq 64 (gh_host s) h"

definition graph_host_find_or_create ::
  "string \<Rightarrow> graph_host_series list \<Rightarrow> nat option \<times> graph_host_series list" where
  "graph_host_find_or_create h t =
     (if h = [] then (None, t)
      else case find_index (graph_matches h) t of
          Some i \<Rightarrow> (Some i, t)
        | None \<Rightarrow>
            if GRAPH_HOST_MAX \<le> length t then (None, t)
            else (Some (length t), t @ [new_graph_host h]))"

definition graph_host_touch :: "string \<Rightarrow> double \<Rightarrow> graph_host_series list \<Rightarrow> graph_host_series list" where
  "graph_host_touch h ts t =
     (if h = [] then t
      else case find_index (graph_matches h) t of
          None \<Rightarrow> t
        | Some i \<Rightarrow> t[i := (t ! i)\<lparr>gh_last_sample_ts := ts\<rparr>])"

definition graph_host_is_stale :: "graph_host_series \<Rightarrow> double \<Rightarrow> bool" where
  "graph_host_is_stale s now \<longleftrightarrow> GRAPH_HOST_STALE_SECONDS \<le> now - gh_last_sample_ts s"

definition graph_host_snapshot :: "nat \<Rightarrow> graph_host_series list \<Rightarrow> graph_host_series list" where
  "graph_host_snapshot m t = take m t"

definition graph_host_remove :: "string \<Rightarrow> graph_host_series list \<Rightarrow> bool \<times> graph_host_series list" where
  "graph_host_remove h t =
     (if h = [] then (False, t)
      else case find_index (graph_matches h) t of
          None \<Rightarrow> (False, t)
        | Some i \<Rightarrow> (True, remove_at i t))"

text \<open>The eviction block of \<open>ui_refresh\<close>: over a snapshot, one removal per silent series.\<close>

definition evict_silent :: "double \<Rightarrow> graph_host_series list \<Rightarrow> graph_host_series list" where
  "evict_silent now t =
     fold (\<lambda>s t. if now - gh_last_sample_ts s < GRAPH_HOST_EVICT_SECONDS then t
                else snd (graph_host_remove (gh_host s) t))
       (graph_host_snapshot GRAPH_HOST_MAX t) t"

definition graph_key_ok :: "string \<Rightarrow> bool" where
  "graph_key_ok h \<longleftrightarrow> h \<noteq> [] \<and> length h < 64"

interpretation graph: slot_table_remove graph_matches new_graph_host graph_key_ok GRAPH_HOST_MAX
  graph_host_find_or_create "\<lambda>k t. snd (graph_host_remove k t)"
proof unfold_locales
  fix k k' e
  assume "graph_key_ok k" "graph_key_ok k'" "graph_matches k e" "graph_matches k' e"
  then have "take 64 k = take 64 k'" by (simp add: graph_matches_def streq_iff)
  with \<open>graph_key_ok k\<close> \<open>graph_key_ok k'\<close> show "k' = k" by (simp add: graph_key_ok_def)
qed (auto simp: graph_host_find_or_create_def graph_host_remove_def graph_key_ok_def
    graph_matches_def new_graph_host_def)

text \<open>The series keep names that fit, each once.\<close>

definition graph_inv :: "graph_host_series list \<Rightarrow> bool" where
  "graph_inv t \<longleftrightarrow> length t \<le> GRAPH_HOST_MAX \<and> distinct (map gh_host t) \<and>
     (\<forall>s \<in> set t. graph_key_ok (gh_host s))"

lemma graph_matches_key: "graph_key_ok (gh_host s) \<Longrightarrow> graph_matches h s \<longleftrightarrow> gh_host s = h"
  by (auto simp: graph_matches_def graph_key_ok_def streq_fits)

lemma remove_in_inv:
  assumes inv: "graph_inv t" and s: "s \<in> set t"
  shows "snd (graph_host_remove (gh_host s) t) = filter (\<lambda>x. gh_host x \<noteq> gh_host s) t"
proof -
  have m: "graph_matches (gh_host s) x \<longleftrightarrow> gh_host x = gh_host s" if "x \<in> set t" for x
    using inv that by (simp add: graph_inv_def graph_matches_key)
  obtain i where i: "find_index (graph_matches (gh_host s)) t = Some i"
    using s m by (cases "find_index (graph_matches (gh_host s)) t") (auto simp: find_index_None)
  obtain ys x zs where t: "t = ys @ x # zs" "graph_matches (gh_host s) x"
      "\<forall>y \<in> set ys. \<not> graph_matches (gh_host s) y" "remove_at i t = ys @ zs"
    using remove_at_first [OF i] by blast
  have x: "gh_host x = gh_host s" using t(1,2) m by simp
  have "\<forall>z \<in> set zs. gh_host z \<noteq> gh_host s"
    using inv t(1) x by (auto simp: graph_inv_def image_iff)
  moreover have "\<forall>y \<in> set ys. gh_host y \<noteq> gh_host s" using t(1,3) m by auto
  moreover have "gh_host s \<noteq> []" using inv s by (auto simp: graph_inv_def graph_key_ok_def)
  ultimately show ?thesis using i t x
    by (simp add: graph_host_remove_def filter_id_conv [THEN iffD2])
qed

lemma graph_inv_create:
  assumes inv: "graph_inv t" and h: "graph_key_ok h"
  shows "graph_inv (snd (graph_host_find_or_create h t))"
  using h
proof (rule graph.cases_foc [of h t])
  assume none: "find_index (graph_matches h) t = None" and room: "length t < GRAPH_HOST_MAX"
    and new: "graph_host_find_or_create h t = (Some (length t), t @ [new_graph_host h])"
  have "\<forall>s \<in> set t. gh_host s \<noteq> h"
    using none h by (auto simp: find_index_None graph_matches_def)
  then show ?thesis using inv room h new by (auto simp: graph_inv_def new_graph_host_def graph_key_ok_def)
qed (use inv in auto)

lemma graph_inv_update:
  assumes "graph_inv t" "\<And>s. gh_host (f s) = gh_host s"
  shows "graph_inv (t[i := f (t ! i)])"
proof (cases "i < length t")
  case True
  have "map gh_host (t[i := f (t ! i)]) = map gh_host t"
    using True by (simp add: map_update assms(2)) (metis list_update_id nth_map)
  moreover have "graph_key_ok (gh_host s)" if "s \<in> set (t[i := f (t ! i)])" for s
  proof -
    have "s \<in> set t \<or> s = f (t ! i)" using that set_update_subset_insert [of t i "f (t ! i)"] by auto
    then show ?thesis using assms True by (auto simp: graph_inv_def)
  qed
  ultimately show ?thesis using assms(1) unfolding graph_inv_def by (simp del: set_map)
next
  case False
  then show ?thesis using assms(1) by (simp add: list_update_beyond not_less)
qed

lemma graph_inv_touch: "graph_inv t \<Longrightarrow> graph_inv (graph_host_touch h ts t)"
  using graph_inv_update [of t "\<lambda>s. s\<lparr>gh_last_sample_ts := ts\<rparr>"]
  by (simp add: graph_host_touch_def split: option.split)

lemma graph_inv_filter: "graph_inv t \<Longrightarrow> graph_inv (filter P t)"
  by (auto simp: graph_inv_def distinct_map inj_on_def intro: le_trans [OF length_filter_le])

lemma evict_fold:
  assumes "graph_inv t" "set ss \<subseteq> set u" "graph_inv u"
    and "\<forall>s \<in> set ss. s \<in> set t \<or> (\<forall>x \<in> set t. gh_host x \<noteq> gh_host s)" "distinct (map gh_host ss)"
  shows "fold (\<lambda>s t. if now - gh_last_sample_ts s < 300 then t else snd (graph_host_remove (gh_host s) t)) ss t
    = filter (\<lambda>x. \<not> (\<exists>s \<in> set ss. gh_host s = gh_host x \<and> 300 \<le> now - gh_last_sample_ts s)) t"
  using assms
proof (induction ss arbitrary: t)
  case Nil
  then show ?case by simp
next
  case (Cons s ss)
  show ?case
  proof (cases "now - gh_last_sample_ts s < 300")
    case True
    with Cons show ?thesis by (auto intro!: filter_cong)
  next
    case False
    have miss: "snd (graph_host_remove (gh_host s) t) = filter (\<lambda>x. gh_host x \<noteq> gh_host s) t"
    proof (cases "s \<in> set t")
      case True
      then show ?thesis by (rule remove_in_inv [OF Cons.prems(1)])
    next
      case no: False
      then have no: "\<forall>x \<in> set t. gh_host x \<noteq> gh_host s" using Cons.prems(4) by auto
      moreover have "\<not> graph_matches (gh_host s) x" if "x \<in> set t" for x
        using no that Cons.prems(1) by (auto simp: graph_inv_def graph_matches_key)
      then have "find_index (graph_matches (gh_host s)) t = None" by (simp add: find_index_None)
      ultimately show ?thesis by (simp add: graph_host_remove_def filter_id_conv [THEN iffD2])
    qed
    let ?t = "filter (\<lambda>x. gh_host x \<noteq> gh_host s) t"
    have "\<forall>s' \<in> set ss. s' \<in> set ?t \<or> (\<forall>x \<in> set ?t. gh_host x \<noteq> gh_host s')"
      using Cons.prems(4,5) by auto
    with Cons.IH [OF graph_inv_filter [OF Cons.prems(1)]] Cons.prems False miss show ?thesis
      by (auto intro!: filter_cong)
  qed
qed

section \<open>Properties\<close>

text \<open>Before the graphs are placed, exactly the series that have been silent for 300
  seconds or more are dropped, in one pass over a snapshot while the table shrinks, and the
  others keep their order; a series younger than that is never dropped.\<close>

theorem evict_silent_exact:
  assumes "graph_inv t"
  shows "evict_silent now t = filter (\<lambda>s. now - gh_last_sample_ts s < GRAPH_HOST_EVICT_SECONDS) t"
proof -
  have snap: "graph_host_snapshot 8 t = t" using assms by (simp add: graph_inv_def graph_host_snapshot_def)
  have "(\<not> (\<exists>s \<in> set t. gh_host s = gh_host x \<and> 300 \<le> now - gh_last_sample_ts s)) \<longleftrightarrow>
      now - gh_last_sample_ts x < 300" if "x \<in> set t" for x
    using assms that by (auto simp: graph_inv_def distinct_map inj_on_def not_less)
  then show ?thesis
    unfolding evict_silent_def snap
    using evict_fold [OF assms subset_refl assms, of now] assms
    by (auto simp: graph_inv_def intro!: filter_cong)
qed

theorem evict_silent_exact_witness:
  "evict_silent 1000 [(new_graph_host ''kai'')\<lparr>gh_last_sample_ts := 990\<rparr>, new_graph_host ''old'']
     = [(new_graph_host ''kai'')\<lparr>gh_last_sample_ts := 990\<rparr>]"
proof -
  have "graph_inv [(new_graph_host ''kai'')\<lparr>gh_last_sample_ts := 990\<rparr>, new_graph_host ''old'']"
    by (simp add: graph_inv_def new_graph_host_def graph_key_ok_def)
  from evict_silent_exact [OF this, of 1000] show ?thesis by (simp add: new_graph_host_def)
qed

end
