(* ===== verification/Stale_Registry.thy ===== *)
theory Stale_Registry
  imports KPrelude
begin

text \<open>
  The host staleness registry (\<open>src/src/registry.c\<close>, "host staleness registry"): a cycle of
  observations collects a pending set, which \<open>commit\<close> promotes to the live set the cards are
  built from and \<open>abort\<close> throws away.  \<open>stale_state\<close> holds the file's statics: the live
  entries, the pending ones and the hosts that sleep or travel by design.  The three LVGL
  handles of a live entry move together; the card's container stands for them.
\<close>

abbreviation "STALE_REGISTRY_MAX \<equiv> 8 :: nat"
abbreviation "STALE_DEPLOYERS_MAX \<equiv> 8 :: nat"
abbreviation "INTERMITTENT_HOSTS_MAX \<equiv> 8 :: nat"
abbreviation "STALE_INTERMITTENT_GRACE_S \<equiv> 604800 :: double"

definition STALE_EXCLUDED_HOST :: string where "STALE_EXCLUDED_HOST = ''rpi53''"
definition STALE_DEPLOYER_UNKNOWN :: string where "STALE_DEPLOYER_UNKNOWN = ''(unknown)''"

section \<open>Data\<close>

record stale_deployer =
  sd_name :: string
  sd_since :: double
  sd_known :: bool

record stale_pending =
  sp_host :: string
  sp_deployers :: "stale_deployer list"

record stale_entry =
  sx_host :: string
  sx_deployers :: "stale_deployer list"
  sx_container :: "nat option"

record stale_state =
  st_live :: "stale_entry list"
  st_pending :: "stale_pending list"
  st_intermittent :: "string list"

section \<open>Operations\<close>

definition stale_registry_begin_cycle :: "stale_state \<Rightarrow> stale_state" where
  "stale_registry_begin_cycle s = s\<lparr>st_pending := []\<rparr>"

definition stale_registry_abort_cycle :: "stale_state \<Rightarrow> stale_state" where
  "stale_registry_abort_cycle s = s\<lparr>st_pending := []\<rparr>"

text \<open>The second half of \<open>observe\<close>: a deployer the host does not list yet, while there is room.\<close>

definition add_deployer :: "string \<Rightarrow> double \<Rightarrow> bool \<Rightarrow> stale_pending \<Rightarrow> stale_pending" where
  "add_deployer d since known p =
     (if list_ex (\<lambda>x. streq 64 (sd_name x) d) (sp_deployers p) then p
      else if STALE_DEPLOYERS_MAX \<le> length (sp_deployers p) then p
      else p\<lparr>sp_deployers := sp_deployers p @
               [\<lparr>sd_name = buf_copy 64 d, sd_since = since, sd_known = known\<rparr>]\<rparr>)"

definition stale_registry_observe ::
  "string \<Rightarrow> string \<Rightarrow> double \<Rightarrow> bool \<Rightarrow> stale_state \<Rightarrow> stale_state" where
  "stale_registry_observe host deployer since known s =
     (if host = [] then s
      else if host = STALE_EXCLUDED_HOST then s
      else let d = (if deployer = [] then STALE_DEPLOYER_UNKNOWN else deployer) in
        case find_index (\<lambda>p. streq 64 (sp_host p) host) (st_pending s) of
          Some i \<Rightarrow> s\<lparr>st_pending := (st_pending s)[i := add_deployer d since known (st_pending s ! i)]\<rparr>
        | None \<Rightarrow>
            if STALE_REGISTRY_MAX \<le> length (st_pending s) then s
            else s\<lparr>st_pending := st_pending s @
                     [add_deployer d since known \<lparr>sp_host = buf_copy 64 host, sp_deployers = []\<rparr>]\<rparr>)"

definition stale_deployer_cmp :: "stale_deployer \<Rightarrow> stale_deployer \<Rightarrow> int" where
  "stale_deployer_cmp a b =
     (if sd_known a \<noteq> sd_known b then (if sd_known a then - 1 else 1)
      else if sd_known a \<and> sd_since a < sd_since b then - 1
      else if sd_known a \<and> sd_since b < sd_since a then 1
      else strncmp 64 (sd_name a) (sd_name b))"

definition stale_sort_deployers :: "stale_deployer list \<Rightarrow> stale_deployer list" where
  "stale_sort_deployers d = c_isort (\<lambda>a b. 0 < stale_deployer_cmp a b) d"

definition stale_registry_set_intermittent :: "string list \<Rightarrow> stale_state \<Rightarrow> stale_state" where
  "stale_registry_set_intermittent hosts s =
     s\<lparr>st_intermittent := map (buf_copy 64) (take INTERMITTENT_HOSTS_MAX hosts)\<rparr>"

definition stale_pending_in_grace :: "string list \<Rightarrow> double \<Rightarrow> stale_pending \<Rightarrow> bool" where
  "stale_pending_in_grace intermittent now p \<longleftrightarrow>
     list_ex (\<lambda>h. streq 64 h (sp_host p)) intermittent \<and>
     list_all (\<lambda>d. sd_known d \<and> \<not> (STALE_INTERMITTENT_GRACE_S < now - sd_since d)) (sp_deployers p)"

text \<open>An existing entry adopts the pending deployers of its host, or is emptied.\<close>

definition adopt_pending :: "stale_pending list \<Rightarrow> stale_entry \<Rightarrow> stale_entry" where
  "adopt_pending ps e =
     e\<lparr>sx_deployers :=
         (case find_index (\<lambda>p. streq 64 (sp_host p) (sx_host e)) ps of
            Some k \<Rightarrow> sp_deployers (ps ! k)
          | None \<Rightarrow> [])\<rparr>"

text \<open>The last loop of \<open>commit\<close>: hosts that are newly stale, until the table is full.\<close>

fun raise_new :: "stale_pending list \<Rightarrow> stale_entry list \<Rightarrow> stale_entry list" where
  "raise_new [] live = live"
| "raise_new (p # ps) live =
     (if list_ex (\<lambda>e. streq 64 (sx_host e) (sp_host p)) live then raise_new ps live
      else if STALE_REGISTRY_MAX \<le> length live then live
      else raise_new ps (live @ [\<lparr>sx_host = sp_host p, sx_deployers = sp_deployers p, sx_container = None\<rparr>]))"

text \<open>The pending set as it is promoted: without the hosts in grace, by host, each host's
  deployers sorted.\<close>

definition promoted :: "double \<Rightarrow> stale_state \<Rightarrow> stale_pending list" where
  "promoted now s =
     map (\<lambda>p. p\<lparr>sp_deployers := stale_sort_deployers (sp_deployers p)\<rparr>)
       (c_isort (\<lambda>a b. 0 < strncmp 64 (sp_host a) (sp_host b))
         (filter (\<lambda>p. \<not> stale_pending_in_grace (st_intermittent s) now p) (st_pending s)))"

definition stale_registry_commit_cycle_at :: "double \<Rightarrow> stale_state \<Rightarrow> stale_state" where
  "stale_registry_commit_cycle_at now s =
     (let ps = promoted now s
      in s\<lparr>st_live := raise_new ps (map (adopt_pending ps) (st_live s)), st_pending := []\<rparr>)"

definition stale_registry_snapshot :: "nat \<Rightarrow> stale_state \<Rightarrow> stale_entry list" where
  "stale_registry_snapshot m s = take m (st_live s)"

definition stale_registry_find :: "string \<Rightarrow> stale_state \<Rightarrow> nat option" where
  "stale_registry_find host s =
     (if host = [] then None else find_index (\<lambda>e. streq 64 (sx_host e) host) (st_live s))"

text \<open>The reap loop over the entries from the current index on; \<open>n\<close> containers are written.\<close>

fun reap_scan :: "nat \<Rightarrow> nat \<Rightarrow> stale_entry list \<Rightarrow> nat option list \<times> stale_entry list" where
  "reap_scan n m [] = ([], [])"
| "reap_scan n m (e # es) =
     (if sx_deployers e = [] \<and> n < m
      then (let (cs, es') = reap_scan (Suc n) m es in (sx_container e # cs, es'))
      else (let (cs, es') = reap_scan n m es in (cs, e # es')))"

definition stale_registry_reap :: "nat \<Rightarrow> stale_state \<Rightarrow> nat option list \<times> stale_state" where
  "stale_registry_reap m s =
     (let (cs, live) = reap_scan 0 m (st_live s) in (cs, s\<lparr>st_live := live\<rparr>))"

text \<open>The texts of a card; the last argument is the size of the buffer.\<close>

definition stale_format_title :: "stale_entry \<Rightarrow> nat \<Rightarrow> string" where
  "stale_format_title e n = buf_copy n (sx_host e @ '' stale'')"

fun format_body_from :: "bool \<Rightarrow> string \<Rightarrow> stale_deployer list \<Rightarrow> nat \<Rightarrow> string" where
  "format_body_from nl buf [] n = buf"
| "format_body_from nl buf (d # ds) n =
     (let w = (if nl then ''\<newline>'' else []) @ sd_name d
      in if n - length buf \<le> length w then buf @ buf_copy (n - length buf) w
         else format_body_from True (buf @ w) ds n)"

definition stale_format_body :: "stale_entry \<Rightarrow> nat \<Rightarrow> string" where
  "stale_format_body e n = (if n = 0 then [] else format_body_from False [] (sx_deployers e) n)"

section \<open>The orders of the two sorts\<close>

lemma deployer_gt:
  "0 < stale_deployer_cmp a b \<longleftrightarrow>
     sd_known b \<and> \<not> sd_known a \<or>
     sd_known a = sd_known b \<and>
       (sd_known a \<and> sd_since b < sd_since a \<or>
        (\<not> sd_known a \<or> sd_since a = sd_since b) \<and> take 64 (sd_name b) < take 64 (sd_name a))"
  by (auto simp: stale_deployer_cmp_def strncmp_pos)

interpretation by_age: isort_order "\<lambda>a b. 0 < stale_deployer_cmp a b"
proof unfold_locales
  fix a b
  assume "0 < stale_deployer_cmp a b"
  then show "\<not> 0 < stale_deployer_cmp b a" by (auto simp: deployer_gt)
next
  fix a b c
  assume "\<not> 0 < stale_deployer_cmp a b" "\<not> 0 < stale_deployer_cmp b c"
  then show "\<not> 0 < stale_deployer_cmp a c"
    unfolding deployer_gt by (auto simp: not_less)
qed

interpretation by_host: isort_order "\<lambda>a b. 0 < strncmp 64 (sp_host a) (sp_host b)"
  by (rule isort_order_strncmp)

section \<open>A cycle of observations\<close>

type_synonym observation = "string \<times> string \<times> double \<times> bool"

definition observe_feed :: "observation list \<Rightarrow> stale_state \<Rightarrow> stale_state" where
  "observe_feed feed s = fold (\<lambda>(h, d, since, known). stale_registry_observe h d since known) feed s"

definition feed_ok :: "observation list \<Rightarrow> bool" where
  "feed_ok feed \<longleftrightarrow> (\<forall>(h, d, since, known) \<in> set feed. h \<noteq> [] \<and> length h < 64 \<and> length d < 64)"

text \<open>What the pending set should hold after a feed: the first eight hosts, each with its first
  eight deployers.\<close>

definition flagged :: "observation list \<Rightarrow> string list" where
  "flagged feed = filter (\<lambda>h. h \<noteq> STALE_EXCLUDED_HOST) (map fst feed)"

definition deployer_of :: "observation \<Rightarrow> stale_deployer" where
  "deployer_of ob = (case ob of (h, d, since, known) \<Rightarrow>
     \<lparr>sd_name = (if d = [] then STALE_DEPLOYER_UNKNOWN else d), sd_since = since, sd_known = known\<rparr>)"

definition deployers_of :: "string \<Rightarrow> observation list \<Rightarrow> stale_deployer list" where
  "deployers_of h feed = take STALE_DEPLOYERS_MAX
     (firsts sd_name (map deployer_of (filter (\<lambda>ob. fst ob = h) feed)))"

definition expected_pending :: "observation list \<Rightarrow> stale_pending list" where
  "expected_pending feed =
     map (\<lambda>h. \<lparr>sp_host = h, sp_deployers = deployers_of h feed\<rparr>)
       (take STALE_REGISTRY_MAX (firsts id (flagged feed)))"

lemma unknown_fits [simp]: "length STALE_DEPLOYER_UNKNOWN < 64" "STALE_DEPLOYER_UNKNOWN \<noteq> []"
  by (simp_all add: STALE_DEPLOYER_UNKNOWN_def)

lemma name_deployer_of:
  "sd_name (deployer_of (h, d, since, known)) = (if d = [] then STALE_DEPLOYER_UNKNOWN else d)"
  by (simp add: deployer_of_def)

lemma feed_ok_snoc [simp]:
  "feed_ok (feed @ [(h, d, since, known)]) \<longleftrightarrow>
     feed_ok feed \<and> h \<noteq> [] \<and> length h < 64 \<and> length d < 64"
  by (auto simp: feed_ok_def)

lemma deployer_names_fit:
  "feed_ok feed \<Longrightarrow> ob \<in> set feed \<Longrightarrow> length (sd_name (deployer_of ob)) < 64"
  by (auto simp: feed_ok_def deployer_of_def)

lemma deployers_of_fit:
  "feed_ok feed \<Longrightarrow> x \<in> set (deployers_of h feed) \<Longrightarrow> length (sd_name x) < 64"
  using set_firsts_subset deployer_names_fit
  by (fastforce simp: deployers_of_def dest: in_set_takeD)

lemma deployers_of_snoc:
  "deployers_of h (feed @ [ob]) =
     (if fst ob = h
      then take 8 (let F = firsts sd_name (map deployer_of (filter (\<lambda>ob. fst ob = h) feed))
        in if sd_name (deployer_of ob) \<in> sd_name ` set F then F else F @ [deployer_of ob])
      else deployers_of h feed)"
  by (simp add: deployers_of_def firsts_snoc Let_def del: keys_firsts)

lemma add_deployer_spec:
  assumes ok: "feed_ok feed" and h: "length d < 64" and p: "sp_deployers p = deployers_of h feed"
  shows "add_deployer (if d = [] then STALE_DEPLOYER_UNKNOWN else d) since known p
    = p\<lparr>sp_deployers := deployers_of h (feed @ [(h, d, since, known)])\<rparr>"
proof -
  let ?x = "deployer_of (h, d, since, known)"
  let ?F = "firsts sd_name (map deployer_of (filter (\<lambda>ob. fst ob = h) feed))"
  have fit: "length (if d = [] then STALE_DEPLOYER_UNKNOWN else d) < 64" using h by simp
  have dup: "list_ex (\<lambda>x. streq 64 (sd_name x) (sd_name ?x)) (sp_deployers p) \<longleftrightarrow>
      sd_name ?x \<in> sd_name ` set (take 8 ?F)"
  proof -
    have "streq 64 (sd_name x) (sd_name ?x) \<longleftrightarrow> sd_name x = sd_name ?x" if "x \<in> set (sp_deployers p)" for x
      by (rule streq_fits, rule deployers_of_fit [OF ok]) (use that p in simp)
    then have "list_ex (\<lambda>x. streq 64 (sd_name x) (sd_name ?x)) (sp_deployers p) \<longleftrightarrow>
        sd_name ?x \<in> sd_name ` set (sp_deployers p)"
      unfolding list_ex_iff image_iff by (intro bex_cong refl) auto
    then show ?thesis by (simp add: p deployers_of_def)
  qed
  have in_take: "sd_name ?x \<in> sd_name ` set (take 8 ?F) \<Longrightarrow> sd_name ?x \<in> sd_name ` set ?F"
    by (blast dest: in_set_takeD)
  have D: "deployers_of h (feed @ [(h, d, since, known)]) =
      take 8 (if sd_name ?x \<in> sd_name ` set ?F then ?F else ?F @ [?x])"
    by (simp add: deployers_of_snoc Let_def del: keys_firsts)
  have P: "sp_deployers p = take 8 ?F" by (simp add: p deployers_of_def)
  have x: "\<lparr>sd_name = buf_copy 64 (sd_name ?x), sd_since = since, sd_known = known\<rparr> = ?x"
    using fit by (simp add: deployer_of_def)
  have "add_deployer (sd_name ?x) since known p
    = p\<lparr>sp_deployers := deployers_of h (feed @ [(h, d, since, known)])\<rparr>"
  proof (cases "sd_name ?x \<in> sd_name ` set (take 8 ?F)")
    case True
    then show ?thesis using in_take dup unfolding D by (simp add: add_deployer_def P)
  next
    case no: False
    then have "\<not> list_ex (\<lambda>x. streq 64 (sd_name x) (sd_name ?x)) (sp_deployers p)" using dup by simp
    then have add: "add_deployer (sd_name ?x) since known p =
        (if 8 \<le> length (take 8 ?F) then p else p\<lparr>sp_deployers := take 8 ?F @ [?x]\<rparr>)"
      by (simp add: add_deployer_def P x)
    show ?thesis
    proof (cases "length ?F < 8")
      case True
      with no have "sd_name ?x \<notin> sd_name ` set ?F" by simp
      with True show ?thesis unfolding add D by simp
    next
      case False
      then have "take 8 (if sd_name ?x \<in> sd_name ` set ?F then ?F else ?F @ [?x]) = sp_deployers p"
          "8 \<le> length (take 8 ?F)"
        by (simp_all add: P)
      then show ?thesis unfolding add D by simp
    qed
  qed
  then show ?thesis by (simp add: name_deployer_of)
qed

lemma deployers_of_other: "fst ob \<noteq> h \<Longrightarrow> deployers_of h (feed @ [ob]) = deployers_of h feed"
  by (simp add: deployers_of_snoc)

lemma flagged_snoc:
  "flagged (feed @ [ob]) = flagged feed @ (if fst ob = STALE_EXCLUDED_HOST then [] else [fst ob])"
  by (simp add: flagged_def)

lemma expected_pending_other:
  assumes "fst ob \<notin> set (take 8 (firsts id (flagged feed)))"
  shows "map (\<lambda>h. \<lparr>sp_host = h, sp_deployers = deployers_of h (feed @ [ob])\<rparr>)
      (take 8 (firsts id (flagged feed))) = expected_pending feed"
proof -
  have "deployers_of x (feed @ [ob]) = deployers_of x feed"
    if "x \<in> set (take 8 (firsts id (flagged feed)))" for x
    using that assms by (intro deployers_of_other) auto
  then show ?thesis by (simp add: expected_pending_def)
qed

lemma pending_index:
  assumes "feed_ok feed" "length h < 64"
  shows "find_index (\<lambda>p. streq 64 (sp_host p) h) (expected_pending feed)
    = find_index (\<lambda>x. x = h) (take 8 (firsts id (flagged feed)))"
proof -
  have map: "find_index p (map f xs) = find_index (\<lambda>x. p (f x)) xs" for p and f :: "string \<Rightarrow> stale_pending" and xs
    by (induction xs) auto
  show ?thesis
    unfolding expected_pending_def map
  proof (rule find_index_cong)
    fix x assume "x \<in> set (take 8 (firsts id (flagged feed)))"
    then have "x \<in> set (flagged feed)" by (metis in_set_takeD set_firsts_id)
    then have "length x < 64" using assms(1) by (auto simp: flagged_def feed_ok_def)
    then show "streq 64 (sp_host \<lparr>sp_host = x, sp_deployers = deployers_of x feed\<rparr>) h = (x = h)"
      by (simp add: streq_fits)
  qed
qed

lemma deployers_of_new:
  assumes "h \<notin> set (flagged feed)" "h \<noteq> STALE_EXCLUDED_HOST"
  shows "deployers_of h feed = []"
proof -
  have "filter (\<lambda>ob. fst ob = h) feed = []" using assms by (auto simp: flagged_def filter_empty_conv)
  then show ?thesis by (simp add: deployers_of_def)
qed

text \<open>One more observation keeps the pending set what it should be.\<close>

lemma observe_step:
  assumes ok: "feed_ok (feed @ [(h, d, since, known)])" and p: "st_pending s = expected_pending feed"
  shows "stale_registry_observe h d since known s =
    s\<lparr>st_pending := expected_pending (feed @ [(h, d, since, known)])\<rparr>"
proof -
  let ?ob = "(h, d, since, known)" and ?F = "firsts id (flagged feed)"
  have fok: "feed_ok feed" and h: "h \<noteq> []" "length h < 64" and d: "length d < 64" using ok by auto
  note add = add_deployer_spec [OF fok d, of _ h since known]
  show ?thesis
  proof (cases "h = STALE_EXCLUDED_HOST")
    case True
    moreover have "STALE_EXCLUDED_HOST \<notin> set (take 8 ?F)"
      by (auto simp: flagged_def dest!: in_set_takeD)
    ultimately have "expected_pending (feed @ [?ob]) = expected_pending feed"
      using expected_pending_other [of ?ob feed] by (simp add: expected_pending_def flagged_snoc)
    then show ?thesis using True p by (simp add: stale_registry_observe_def)
  next
    case host: False
    have snoc: "take 8 (firsts id (flagged (feed @ [?ob]))) =
        (if h \<in> set ?F then take 8 ?F else if length ?F < 8 then ?F @ [h] else take 8 ?F)"
      using host by (simp add: flagged_snoc firsts_snoc)
    show ?thesis
    proof (cases "find_index (\<lambda>x. x = h) (take 8 ?F)")
      case (Some i)
      then have i: "i < length (take 8 ?F)" "take 8 ?F ! i = h" by (simp_all add: find_index_Some)
      then have "h \<in> set (take 8 ?F)" by (metis nth_mem)
      then have inF: "h \<in> set ?F" by (rule in_set_takeD)
      have dist: "distinct (take 8 ?F)"
        using distinct_firsts [of id "flagged feed"] by (simp add: distinct_take)
      have "(expected_pending feed)[i := add_deployer (if d = [] then STALE_DEPLOYER_UNKNOWN else d) since known
          (expected_pending feed ! i)] = expected_pending (feed @ [?ob])"
      proof (rule nth_equalityI)
        fix j assume "j < length ((expected_pending feed)[i := add_deployer (if d = [] then STALE_DEPLOYER_UNKNOWN else d)
            since known (expected_pending feed ! i)])"
        then have j: "j < length (take 8 ?F)" by (simp add: expected_pending_def)
        have "take 8 ?F ! j \<noteq> h" if "j \<noteq> i"
          using that i j dist nth_eq_iff_index_eq by metis
        with i j inF add [of "expected_pending feed ! i"] snoc show
          "(expected_pending feed)[i := add_deployer (if d = [] then STALE_DEPLOYER_UNKNOWN else d)
            since known (expected_pending feed ! i)] ! j = expected_pending (feed @ [?ob]) ! j"
          by (cases "j = i") (simp_all add: expected_pending_def deployers_of_other)
      qed (use inF snoc in \<open>simp add: expected_pending_def\<close>)
      with Some host h p show ?thesis
        by (simp add: stale_registry_observe_def pending_index [OF fok h(2)])
    next
      case None
      then have no: "h \<notin> set (take 8 ?F)" by (auto simp: find_index_None)
      have none: "find_index (\<lambda>p. streq 64 (sp_host p) h) (st_pending s) = None"
        using None by (simp add: p pending_index [OF fok h(2)])
      have len: "length (st_pending s) = min 8 (length ?F)" by (simp add: p expected_pending_def)
      show ?thesis
      proof (cases "length ?F < 8")
        case True
        then have notin: "h \<notin> set ?F" using no by simp
        then have "deployers_of h feed = []"
          using deployers_of_new [OF _ host] by simp
        with add [of "\<lparr>sp_host = buf_copy 64 h, sp_deployers = []\<rparr>"] h
        have "expected_pending (feed @ [?ob]) = st_pending s @
            [add_deployer (if d = [] then STALE_DEPLOYER_UNKNOWN else d) since known
              \<lparr>sp_host = buf_copy 64 h, sp_deployers = []\<rparr>]"
          using expected_pending_other [of ?ob feed] no notin True snoc
          by (simp add: p expected_pending_def)
        with none len host h True show ?thesis
          by (simp add: stale_registry_observe_def)
      next
        case False
        then have "expected_pending (feed @ [?ob]) = st_pending s"
          using snoc expected_pending_other [of ?ob feed] no by (simp add: p expected_pending_def)
        with False none len host h show ?thesis by (simp add: stale_registry_observe_def)
      qed
    qed
  qed
qed

lemma observe_feed_pending:
  assumes "feed_ok feed"
  shows "observe_feed feed (stale_registry_begin_cycle s) = s\<lparr>st_pending := expected_pending feed\<rparr>"
  using assms
proof (induction feed rule: rev_induct)
  case Nil
  then show ?case
    by (simp add: observe_feed_def stale_registry_begin_cycle_def expected_pending_def flagged_def)
next
  case (snoc ob feed)
  obtain h d since known where ob: "ob = (h, d, since, known)" by (cases ob)
  with snoc have "observe_feed feed (stale_registry_begin_cycle s) = s\<lparr>st_pending := expected_pending feed\<rparr>"
    by simp
  with observe_step [OF snoc.prems [unfolded ob], of "s\<lparr>st_pending := expected_pending feed\<rparr>"]
  show ?case by (simp add: observe_feed_def ob)
qed

section \<open>What commit and reap do\<close>

definition stale_inv :: "stale_state \<Rightarrow> bool" where
  "stale_inv s \<longleftrightarrow>
     length (st_live s) \<le> STALE_REGISTRY_MAX \<and> distinct (map sx_host (st_live s)) \<and>
     (\<forall>e \<in> set (st_live s). sx_host e \<noteq> [] \<and> length (sx_host e) < 64 \<and> sx_host e \<noteq> STALE_EXCLUDED_HOST) \<and>
     (\<forall>h \<in> set (st_intermittent s). length h < 64)"

text \<open>A pending set as a feed leaves it.\<close>

definition pending_ok :: "stale_pending list \<Rightarrow> bool" where
  "pending_ok ps \<longleftrightarrow> distinct (map sp_host ps) \<and>
     (\<forall>p \<in> set ps. sp_host p \<noteq> [] \<and> length (sp_host p) < 64 \<and> sp_host p \<noteq> STALE_EXCLUDED_HOST \<and> sp_deployers p \<noteq> [])"

definition entry_of :: "stale_pending \<Rightarrow> stale_entry" where
  "entry_of p = \<lparr>sx_host = sp_host p, sx_deployers = sp_deployers p, sx_container = None\<rparr>"

lemma expected_pending_ok:
  assumes "feed_ok feed" shows "pending_ok (expected_pending feed)"
proof -
  have dist: "distinct (take 8 (firsts id (flagged feed)))"
    using distinct_firsts [of id "flagged feed"] by (simp add: distinct_take)
  have host: "h \<noteq> [] \<and> length h < 64 \<and> h \<noteq> STALE_EXCLUDED_HOST \<and> deployers_of h feed \<noteq> []"
    if "h \<in> set (take 8 (firsts id (flagged feed)))" for h
  proof -
    have "h \<in> set (flagged feed)" using that by (metis in_set_takeD set_firsts_id)
    then obtain ob where ob: "ob \<in> set feed" "fst ob = h" "h \<noteq> STALE_EXCLUDED_HOST"
      by (auto simp: flagged_def)
    then have "filter (\<lambda>ob. fst ob = h) feed \<noteq> []" by (auto simp: filter_empty_conv)
    with ob assms show ?thesis by (auto simp: deployers_of_def feed_ok_def)
  qed
  have "map sp_host (expected_pending feed) = take 8 (firsts id (flagged feed))"
    by (simp add: expected_pending_def comp_def)
  with dist host show ?thesis by (auto simp: pending_ok_def expected_pending_def)
qed

lemma promoted_host: "set (map sp_host (promoted now s)) =
    sp_host ` {p \<in> set (st_pending s). \<not> stale_pending_in_grace (st_intermittent s) now p}"
  by (auto simp: promoted_def image_iff)

lemma promoted_ok: assumes "pending_ok (st_pending s)" shows "pending_ok (promoted now s)"
proof -
  let ?q = "filter (\<lambda>p. \<not> stale_pending_in_grace (st_intermittent s) now p) (st_pending s)"
  have "map sp_host (promoted now s) = map sp_host (c_isort (\<lambda>a b. 0 < strncmp 64 (sp_host a) (sp_host b)) ?q)"
    by (simp add: promoted_def comp_def)
  moreover have "distinct (map sp_host ?q)" using assms by (simp add: pending_ok_def distinct_map_filter)
  ultimately have "distinct (map sp_host (promoted now s))" by simp
  moreover have "stale_sort_deployers d = [] \<longleftrightarrow> d = []" for d
    unfolding stale_sort_deployers_def by (metis length_0_conv length_c_isort)
  ultimately have "\<forall>p \<in> set (promoted now s). sp_host p \<noteq> [] \<and> length (sp_host p) < 64 \<and>
      sp_host p \<noteq> STALE_EXCLUDED_HOST \<and> sp_deployers p \<noteq> []"
    using assms by (auto simp: pending_ok_def promoted_def)
  with \<open>distinct (map sp_host (promoted now s))\<close> show ?thesis by (simp add: pending_ok_def)
qed

lemma promoted_entry:
  assumes "p \<in> set (promoted now s)"
  obtains q where "q \<in> set (st_pending s)" "\<not> stale_pending_in_grace (st_intermittent s) now q"
    "sp_host p = sp_host q" "sp_deployers p = stale_sort_deployers (sp_deployers q)"
  using assms by (auto simp: promoted_def)

lemma raise_new_exact:
  assumes "\<forall>e \<in> set live. length (sx_host e) < 64" "\<forall>p \<in> set ps. length (sp_host p) < 64"
    and "distinct (map sp_host ps)" "length live \<le> 8"
  shows "raise_new ps live = live @ map entry_of
    (take (8 - length live) (filter (\<lambda>p. sp_host p \<notin> sx_host ` set live) ps))"
  using assms
proof (induction ps arbitrary: live)
  case Nil
  then show ?case by simp
next
  case (Cons p ps)
  have known: "list_ex (\<lambda>e. streq 64 (sx_host e) (sp_host p)) live \<longleftrightarrow> sp_host p \<in> sx_host ` set live"
    using Cons.prems(1) by (force simp: list_ex_iff streq_fits)
  show ?case
  proof (cases "sp_host p \<in> sx_host ` set live")
    case True
    with known Cons show ?thesis by simp
  next
    case False
    show ?thesis
    proof (cases "length live < 8")
      case True
      then obtain m where m: "8 - length live = Suc m" "8 - length (live @ [entry_of p]) = m"
        by (cases "8 - length live") auto
      have "sp_host q \<noteq> sp_host p" if "q \<in> set ps" for q
        using that Cons.prems(3) by (metis distinct.simps(2) image_eqI list.map(2) list.set_map)
      then have "filter (\<lambda>q. sp_host q \<notin> sx_host ` set (live @ [entry_of p])) ps =
          filter (\<lambda>q. sp_host q \<notin> sx_host ` set live) ps"
        by (auto simp: entry_of_def intro!: filter_cong)
      with Cons.IH [of "live @ [entry_of p]"] Cons.prems False known True m show ?thesis
        by (simp add: entry_of_def)
    next
      case full: False
      with Cons.prems(4) have "length live = 8" by simp
      with False known show ?thesis by simp
    qed
  qed
qed

lemma adopt_pending_deployers:
  assumes "pending_ok ps" "length (sx_host e) < 64"
  shows "sx_host (adopt_pending ps e) = sx_host e" "sx_container (adopt_pending ps e) = sx_container e"
    "sx_deployers (adopt_pending ps e) \<noteq> [] \<longleftrightarrow> sx_host e \<in> sp_host ` set ps"
    "\<And>p. p \<in> set ps \<Longrightarrow> sp_host p = sx_host e \<Longrightarrow> sx_deployers (adopt_pending ps e) = sp_deployers p"
proof -
  let ?f = "find_index (\<lambda>p. streq 64 (sp_host p) (sx_host e)) ps"
  show "sx_host (adopt_pending ps e) = sx_host e" "sx_container (adopt_pending ps e) = sx_container e"
    by (simp_all add: adopt_pending_def)
  have eq: "streq 64 (sp_host p) (sx_host e) \<longleftrightarrow> sp_host p = sx_host e" if "p \<in> set ps" for p
    using that assms(1) by (auto simp: pending_ok_def streq_fits)
  have ne: "sp_deployers p \<noteq> []" if "p \<in> set ps" for p
    using that assms(1) by (auto simp: pending_ok_def)
  have uniq: "p = q" if "p \<in> set ps" "q \<in> set ps" "sp_host p = sp_host q" for p q
    using that assms(1) by (auto simp: pending_ok_def distinct_map inj_on_def)
  show "sx_deployers (adopt_pending ps e) \<noteq> [] \<longleftrightarrow> sx_host e \<in> sp_host ` set ps"
  proof (cases ?f)
    case None
    then have "sx_host e \<notin> sp_host ` set ps" using eq by (metis find_index_None image_iff)
    with None show ?thesis by (simp add: adopt_pending_def)
  next
    case (Some k)
    then have "ps ! k \<in> set ps" "streq 64 (sp_host (ps ! k)) (sx_host e)"
      by (simp_all add: find_index_Some)
    moreover from this have "sx_host e \<in> sp_host ` set ps" using eq by (metis image_eqI)
    ultimately show ?thesis using Some ne by (simp add: adopt_pending_def)
  qed
  show "sx_deployers (adopt_pending ps e) = sp_deployers p" if p: "p \<in> set ps" "sp_host p = sx_host e" for p
  proof (cases ?f)
    case None
    then show ?thesis using eq p by (auto simp: find_index_None)
  next
    case (Some k)
    then have "ps ! k \<in> set ps" "streq 64 (sp_host (ps ! k)) (sx_host e)"
      by (simp_all add: find_index_Some)
    then have "ps ! k = p" using uniq eq p by metis
    with Some show ?thesis by (simp add: adopt_pending_def)
  qed
qed

text \<open>The hosts whose card is up: entries with a deployer.\<close>

definition shown :: "stale_state \<Rightarrow> string set" where
  "shown s = sx_host ` {e \<in> set (st_live s). sx_deployers e \<noteq> []}"

lemma commit_live:
  assumes "stale_inv s" "pending_ok (st_pending s)"
  shows "st_live (stale_registry_commit_cycle_at now s) = map (adopt_pending (promoted now s)) (st_live s) @
    map entry_of (take (8 - length (st_live s))
      (filter (\<lambda>p. sp_host p \<notin> sx_host ` set (st_live s)) (promoted now s)))"
proof -
  let ?ps = "promoted now s"
  have ok: "pending_ok ?ps" by (rule promoted_ok [OF assms(2)])
  have host: "sx_host ` adopt_pending ?ps ` set (st_live s) = sx_host ` set (st_live s)"
    by (auto simp: image_image adopt_pending_def)
  have "raise_new ?ps (map (adopt_pending ?ps) (st_live s)) = map (adopt_pending ?ps) (st_live s) @
    map entry_of (take (8 - length (map (adopt_pending ?ps) (st_live s)))
      (filter (\<lambda>p. sp_host p \<notin> sx_host ` set (map (adopt_pending ?ps) (st_live s))) ?ps))"
    using assms(1) ok by (intro raise_new_exact) (auto simp: stale_inv_def pending_ok_def adopt_pending_def)
  then show ?thesis by (simp add: stale_registry_commit_cycle_at_def Let_def host)
qed

lemma commit_rest [simp]:
  "st_pending (stale_registry_commit_cycle_at now s) = []"
  "st_intermittent (stale_registry_commit_cycle_at now s) = st_intermittent s"
  by (simp_all add: stale_registry_commit_cycle_at_def Let_def)

lemma shown_eq:
  assumes "st_live s = map (adopt_pending ps) es @ map entry_of qs" "pending_ok ps"
    and "\<forall>e \<in> set es. length (sx_host e) < 64" "set qs \<subseteq> set ps"
  shows "shown s = {h \<in> sx_host ` set es. h \<in> sp_host ` set ps} \<union> sp_host ` set qs"
proof -
  have "{e \<in> set (st_live s). sx_deployers e \<noteq> []} =
      adopt_pending ps ` {e \<in> set es. sx_host e \<in> sp_host ` set ps} \<union> entry_of ` set qs"
    using adopt_pending_deployers(3) [OF assms(2)] assms by (auto simp: entry_of_def pending_ok_def subset_iff)
  then show ?thesis
    unfolding shown_def by (auto simp: image_Un image_image adopt_pending_def entry_of_def)
qed

lemma image_disjointI: "\<forall>p \<in> B. g p \<notin> f ` A \<Longrightarrow> f ` A \<inter> g ` B = {}"
  unfolding disjoint_iff by (intro allI impI notI, erule imageE [of _ g]) simp

lemma commit_inv:
  assumes "stale_inv s" "pending_ok (st_pending s)"
  shows "stale_inv (stale_registry_commit_cycle_at now s)"
proof -
  let ?ps = "promoted now s"
  let ?new = "take (8 - length (st_live s)) (filter (\<lambda>p. sp_host p \<notin> sx_host ` set (st_live s)) ?ps)"
  note live = commit_live [OF assms, of now]
  have ok: "pending_ok ?ps" by (rule promoted_ok [OF assms(2)])
  have new: "set ?new \<subseteq> set ?ps" by (auto dest: in_set_takeD)
  have "\<forall>p \<in> set ?new. sp_host p \<notin> sx_host ` set (st_live s)" by (auto dest: in_set_takeD)
  then have disj: "sx_host ` set (st_live s) \<inter> sp_host ` set ?new = {}" by (rule image_disjointI)
  have hosts: "map sx_host (st_live (stale_registry_commit_cycle_at now s)) =
      map sx_host (st_live s) @ map sp_host ?new"
    by (simp add: live adopt_pending_def entry_of_def comp_def)
  have "distinct (map sp_host ?new)"
    using ok by (simp add: pending_ok_def distinct_map_filter take_map [symmetric] distinct_take)
  then have "distinct (map sx_host (st_live (stale_registry_commit_cycle_at now s)))"
    unfolding hosts using assms(1) disj by (simp add: stale_inv_def)
  moreover have "length (st_live (stale_registry_commit_cycle_at now s)) \<le> 8"
    using assms(1) by (auto simp: live stale_inv_def)
  moreover have "sx_host e \<noteq> [] \<and> length (sx_host e) < 64 \<and> sx_host e \<noteq> STALE_EXCLUDED_HOST"
    if "e \<in> set (st_live (stale_registry_commit_cycle_at now s))" for e
  proof -
    have "sx_host e \<in> sx_host ` set (st_live s) \<union> sp_host ` set ?ps"
      using that new unfolding live by (auto simp: adopt_pending_def entry_of_def dest: in_set_takeD)
    then show ?thesis using assms(1) ok by (auto simp: stale_inv_def pending_ok_def)
  qed
  ultimately show ?thesis using assms(1) by (simp add: stale_inv_def)
qed

lemma commit_shown:
  assumes "stale_inv s" "pending_ok (st_pending s)"
    and room: "card (sx_host ` set (st_live s) \<union> sp_host ` set (promoted now s)) \<le> 8"
  shows "shown (stale_registry_commit_cycle_at now s) = sp_host ` set (promoted now s)"
proof -
  let ?ps = "promoted now s" and ?L = "sx_host ` set (st_live s)"
  let ?new = "filter (\<lambda>p. sp_host p \<notin> ?L) ?ps"
  have ok: "pending_ok ?ps" by (rule promoted_ok [OF assms(2)])
  have "\<forall>p \<in> set ?new. sp_host p \<notin> ?L" by simp
  then have "?L \<inter> sp_host ` set ?new = {}" by (rule image_disjointI)
  then have "distinct (map sx_host (st_live s) @ map sp_host ?new)"
    using assms(1) ok by (simp add: stale_inv_def pending_ok_def distinct_map_filter)
  then have "card (set (map sx_host (st_live s) @ map sp_host ?new)) = length (st_live s) + length ?new"
    by (subst distinct_card) simp_all
  moreover have "set (map sx_host (st_live s) @ map sp_host ?new) = ?L \<union> sp_host ` set ?ps" by auto
  ultimately have "length (st_live s) + length ?new \<le> 8" using room by simp
  then have "take (8 - length (st_live s)) ?new = ?new" by simp
  with commit_live [OF assms(1,2), of now]
  have "st_live (stale_registry_commit_cycle_at now s) =
      map (adopt_pending ?ps) (st_live s) @ map entry_of ?new" by simp
  from shown_eq [OF this ok] assms(1) show ?thesis by (auto simp: stale_inv_def)
qed

lemma reap_scan_all:
  "length (filter (\<lambda>e. sx_deployers e = []) es) + n \<le> m \<Longrightarrow>
     reap_scan n m es = (map sx_container (filter (\<lambda>e. sx_deployers e = []) es),
       filter (\<lambda>e. sx_deployers e \<noteq> []) es)"
  by (induction es arbitrary: n) (auto simp: Let_def)

lemma reap_scan_subset: "set (snd (reap_scan n m es)) \<subseteq> set es \<and> length (snd (reap_scan n m es)) \<le> length es \<and>
    (distinct (map f es) \<longrightarrow> distinct (map f (snd (reap_scan n m es))))"
proof (induction n m es rule: reap_scan.induct)
  case (2 n m e es)
  show ?case
  proof (cases "sx_deployers e = [] \<and> n < m")
    case True
    then show ?thesis using 2(1) [OF True] by (auto split: prod.splits)
  next
    case False
    have "snd (reap_scan n m (e # es)) = e # snd (reap_scan n m es)"
      using False by (auto split: prod.split)
    then show ?thesis using 2(2) [OF False] by auto
  qed
qed simp

lemma reap_inv: "stale_inv s \<Longrightarrow> stale_inv (snd (stale_registry_reap m s))"
proof -
  assume "stale_inv s"
  then show ?thesis
    using reap_scan_subset [of 0 m "st_live s" sx_host]
    by (auto simp: stale_inv_def stale_registry_reap_def split: prod.split)
qed

lemma deployers_of_nonempty: "h \<in> set (flagged feed) \<Longrightarrow> deployers_of h feed \<noteq> []"
  by (auto simp: flagged_def deployers_of_def filter_empty_conv)

section \<open>A whole cycle\<close>

definition stale_cycle :: "double \<Rightarrow> observation list \<Rightarrow> stale_state \<Rightarrow> stale_state" where
  "stale_cycle now feed s =
     stale_registry_commit_cycle_at now (observe_feed feed (stale_registry_begin_cycle s))"

text \<open>The grace of a host that sleeps by design, in terms of the feed.\<close>

definition graced :: "string list \<Rightarrow> double \<Rightarrow> observation list \<Rightarrow> string \<Rightarrow> bool" where
  "graced intermittent now feed h \<longleftrightarrow> h \<in> set intermittent \<and>
     (\<forall>d \<in> set (deployers_of h feed). sd_known d \<and> now - sd_since d \<le> STALE_INTERMITTENT_GRACE_S)"

lemma flagged_all:
  assumes "card (set (flagged feed)) \<le> 8"
  shows "take 8 (firsts id (flagged feed)) = firsts id (flagged feed)"
proof -
  have "length (firsts id (flagged feed)) = card (set (firsts id (flagged feed)))"
    by (rule distinct_card [symmetric]) (use distinct_firsts [of id "flagged feed"] in simp)
  with assms show ?thesis by simp
qed

lemma image_of_Collect: "(\<And>h. g (f h) = h) \<Longrightarrow> g ` {p \<in> f ` A. Q p} = {h \<in> A. Q (f h)}"
proof -
  assume gf: "\<And>h. g (f h) = h"
  have "g ` {p \<in> f ` A. Q p} = (\<lambda>h. g (f h)) ` {h \<in> A. Q (f h)}" by blast
  then show ?thesis by (simp add: gf)
qed

lemma cycle_promoted:
  assumes "stale_inv s" "feed_ok feed" "card (set (flagged feed)) \<le> 8"
  shows "sp_host ` set (promoted now (s\<lparr>st_pending := expected_pending feed\<rparr>)) =
    {h \<in> set (flagged feed). \<not> graced (st_intermittent s) now feed h}"
proof -
  have grace: "stale_pending_in_grace (st_intermittent s) now \<lparr>sp_host = h, sp_deployers = deployers_of h feed\<rparr>
      \<longleftrightarrow> graced (st_intermittent s) now feed h" if "h \<in> set (flagged feed)" for h
  proof -
    have "streq 64 x h \<longleftrightarrow> x = h" if "x \<in> set (st_intermittent s)" for x
      using that assms(1) by (auto simp: stale_inv_def streq_fits)
    then have "list_ex (\<lambda>x. streq 64 x h) (st_intermittent s) \<longleftrightarrow> h \<in> set (st_intermittent s)"
      by (auto simp: list_ex_iff)
    then show ?thesis by (auto simp: stale_pending_in_grace_def graced_def list_all_iff not_less)
  qed
  have "sp_host ` set (promoted now (s\<lparr>st_pending := expected_pending feed\<rparr>)) =
      sp_host ` {p \<in> set (expected_pending feed). \<not> stale_pending_in_grace (st_intermittent s) now p}"
    using promoted_host [of now "s\<lparr>st_pending := expected_pending feed\<rparr>"] by simp
  also have "\<dots> = {h \<in> set (flagged feed). \<not> graced (st_intermittent s) now feed h}"
    unfolding expected_pending_def flagged_all [OF assms(3)] set_map set_firsts_id
    using grace by (subst image_of_Collect) auto
  finally show ?thesis .
qed

lemma cycle_eq:
  "feed_ok feed \<Longrightarrow> stale_cycle now feed s = stale_registry_commit_cycle_at now (s\<lparr>st_pending := expected_pending feed\<rparr>)"
  by (simp add: stale_cycle_def observe_feed_pending)

lemma pending_inv [simp]: "stale_inv (s\<lparr>st_pending := x\<rparr>) = stale_inv s"
  by (simp add: stale_inv_def)

lemma cycle_inv: "stale_inv s \<Longrightarrow> feed_ok feed \<Longrightarrow> stale_inv (stale_cycle now feed s)"
  by (simp add: cycle_eq commit_inv expected_pending_ok)

lemma cycle_shown:
  assumes "stale_inv s" "feed_ok feed" "card (set (flagged feed)) \<le> 8"
    and "card (sx_host ` set (st_live s) \<union> set (flagged feed)) \<le> 8"
  shows "shown (stale_cycle now feed s) = {h \<in> set (flagged feed). \<not> graced (st_intermittent s) now feed h}"
proof -
  let ?s = "s\<lparr>st_pending := expected_pending feed\<rparr>"
  note prom = cycle_promoted [OF assms(1,2,3), of now]
  have "card (sx_host ` set (st_live s) \<union> sp_host ` set (promoted now ?s)) \<le>
      card (sx_host ` set (st_live s) \<union> set (flagged feed))"
    unfolding prom by (rule card_mono) auto
  with assms(4) have "card (sx_host ` set (st_live ?s) \<union> sp_host ` set (promoted now ?s)) \<le> 8" by simp
  with commit_shown [of ?s now] assms(1,2) prom show ?thesis
    by (simp add: cycle_eq expected_pending_ok)
qed

lemma reap_live:
  assumes "stale_inv s"
  shows "st_live (snd (stale_registry_reap 8 s)) = filter (\<lambda>e. sx_deployers e \<noteq> []) (st_live s)"
    "fst (stale_registry_reap 8 s) = map sx_container (filter (\<lambda>e. sx_deployers e = []) (st_live s))"
    "st_intermittent (snd (stale_registry_reap 8 s)) = st_intermittent s"
proof -
  have "length (filter (\<lambda>e. sx_deployers e = []) (st_live s)) \<le> length (st_live s)"
    by (rule length_filter_le)
  then have "length (filter (\<lambda>e. sx_deployers e = []) (st_live s)) + 0 \<le> 8"
    using assms unfolding stale_inv_def by linarith
  note all = reap_scan_all [OF this]
  show "st_live (snd (stale_registry_reap 8 s)) = filter (\<lambda>e. sx_deployers e \<noteq> []) (st_live s)"
    "fst (stale_registry_reap 8 s) = map sx_container (filter (\<lambda>e. sx_deployers e = []) (st_live s))"
    "st_intermittent (snd (stale_registry_reap 8 s)) = st_intermittent s"
    by (simp_all add: stale_registry_reap_def all)
qed

lemma promoted_shown_subset:
  assumes "stale_inv s" "pending_ok (st_pending s)"
  shows "shown (stale_registry_commit_cycle_at now s) \<subseteq> sp_host ` set (promoted now s)"
proof -
  have "\<forall>e \<in> set (st_live s). length (sx_host e) < 64" using assms(1) by (simp add: stale_inv_def)
  moreover have "set (take n (filter P xs)) \<subseteq> set xs" for n P and xs :: "stale_pending list"
    by (auto dest: in_set_takeD)
  ultimately show ?thesis
    using shown_eq [OF commit_live [OF assms] promoted_ok [OF assms(2)]] by (auto dest: in_set_takeD)
qed

text \<open>Every entry that is up after a cycle lists its host's deployers.\<close>

lemma cycle_deployers:
  assumes "stale_inv s" "feed_ok feed" "e \<in> set (st_live (stale_cycle now feed s))" "sx_deployers e \<noteq> []"
  shows "sx_deployers e = stale_sort_deployers (deployers_of (sx_host e) feed)"
proof -
  let ?s = "s\<lparr>st_pending := expected_pending feed\<rparr>"
  let ?ps = "promoted now ?s"
  have ok: "pending_ok ?ps" using promoted_ok [of ?s] assms(2) by (simp add: expected_pending_ok)
  have live: "st_live (stale_cycle now feed s) = map (adopt_pending ?ps) (st_live s) @
    map entry_of (take (8 - length (st_live s)) (filter (\<lambda>p. sp_host p \<notin> sx_host ` set (st_live s)) ?ps))"
    using commit_live [of ?s now] assms(1,2) by (simp add: cycle_eq expected_pending_ok)
  have "\<exists>p \<in> set ?ps. sp_host p = sx_host e \<and> sx_deployers e = sp_deployers p"
    using assms(3) unfolding live set_append set_map
  proof (elim UnE imageE)
    fix x assume x: "x \<in> set (st_live s)" "e = adopt_pending ?ps x"
    have len: "length (sx_host x) < 64" using x(1) assms(1) by (simp add: stale_inv_def)
    note a = adopt_pending_deployers [OF ok len]
    from assms(4) x(2) a(3) obtain p where "p \<in> set ?ps" "sp_host p = sx_host x" by auto
    with a x(2) show ?thesis by auto
  next
    fix p assume e: "e = entry_of p" and "p \<in> set (take (8 - length (st_live s))
        (filter (\<lambda>p. sp_host p \<notin> sx_host ` set (st_live s)) ?ps))"
    then have "p \<in> set (filter (\<lambda>p. sp_host p \<notin> sx_host ` set (st_live s)) ?ps)" by (blast dest: in_set_takeD)
    with e show ?thesis by (auto simp: entry_of_def)
  qed
  then obtain p where p: "p \<in> set ?ps" "sp_host p = sx_host e" "sx_deployers e = sp_deployers p" by blast
  obtain q where "q \<in> set (st_pending ?s)" "sp_host p = sp_host q"
      "sp_deployers p = stale_sort_deployers (sp_deployers q)"
    by (rule promoted_entry [OF p(1)])
  with p show ?thesis by (auto simp: expected_pending_def)
qed

text \<open>The operations in any order.  \<open>run_attach\<close> is the UI hanging a card on a live entry.\<close>

inductive stale_run :: "stale_state \<Rightarrow> bool" where
  run_start: "stale_run \<lparr>st_live = [], st_pending = [], st_intermittent = []\<rparr>"
| run_begin: "stale_run s \<Longrightarrow> stale_run (stale_registry_begin_cycle s)"
| run_observe: "stale_run s \<Longrightarrow> length h < 64 \<Longrightarrow> length d < 64 \<Longrightarrow>
    stale_run (stale_registry_observe h d since known s)"
| run_commit: "stale_run s \<Longrightarrow> stale_run (stale_registry_commit_cycle_at now s)"
| run_abort: "stale_run s \<Longrightarrow> stale_run (stale_registry_abort_cycle s)"
| run_reap: "stale_run s \<Longrightarrow> stale_run (snd (stale_registry_reap m s))"
| run_intermittent: "stale_run s \<Longrightarrow> stale_run (stale_registry_set_intermittent hs s)"
| run_attach: "stale_run s \<Longrightarrow> i < length (st_live s) \<Longrightarrow>
    stale_run (s\<lparr>st_live := (st_live s)[i := (st_live s ! i)\<lparr>sx_container := c\<rparr>]\<rparr>)"

lemma add_deployer_host: "sp_host (add_deployer d since known p) = sp_host p"
  by (simp add: add_deployer_def)

lemma add_deployer_nonempty: "sp_deployers (add_deployer d since known p) \<noteq> []"
  by (auto simp: add_deployer_def)

lemma pending_ok_hosts: "pending_ok ps \<longleftrightarrow> distinct (map sp_host ps) \<and>
     (\<forall>h \<in> set (map sp_host ps). h \<noteq> [] \<and> length h < 64 \<and> h \<noteq> STALE_EXCLUDED_HOST) \<and>
     (\<forall>p \<in> set ps. sp_deployers p \<noteq> [])"
  by (auto simp: pending_ok_def)

lemma observe_pending_ok:
  assumes "pending_ok (st_pending s)" "length h < 64"
  shows "pending_ok (st_pending (stale_registry_observe h d since known s))"
proof (cases "h = [] \<or> h = STALE_EXCLUDED_HOST")
  case True
  then show ?thesis using assms by (auto simp: stale_registry_observe_def)
next
  case False
  let ?ps = "st_pending s"
  show ?thesis
  proof (cases "find_index (\<lambda>p. streq 64 (sp_host p) h) ?ps")
    case None
    then have "h \<notin> sp_host ` set ?ps" by (auto simp: find_index_None)
    with None False assms show ?thesis
      by (auto simp: stale_registry_observe_def Let_def pending_ok_def add_deployer_host add_deployer_nonempty)
  next
    case (Some i)
    then have i: "i < length ?ps" by auto
    let ?e = "if d = [] then STALE_DEPLOYER_UNKNOWN else d"
    let ?qs = "?ps[i := add_deployer ?e since known (?ps ! i)]"
    have new: "st_pending (stale_registry_observe h d since known s) = ?qs"
      using Some False by (simp add: stale_registry_observe_def Let_def)
    have hosts: "map sp_host ?qs = map sp_host ?ps"
      using i by (simp add: map_update add_deployer_host) (metis list_update_id nth_map)
    have "sp_deployers x \<noteq> []" if "x \<in> set ?qs" for x
      using that set_update_subset_insert [of ?ps i] assms(1) add_deployer_nonempty
      unfolding pending_ok_def by blast
    with assms(1) hosts show ?thesis
      unfolding new pending_ok_hosts by (simp del: set_map)
  qed
qed

lemma observe_rest [simp]:
  "st_live (stale_registry_observe h d since known s) = st_live s"
  "st_intermittent (stale_registry_observe h d since known s) = st_intermittent s"
  by (simp_all add: stale_registry_observe_def Let_def split: option.split)

lemma stale_inv_hosts: "stale_inv s \<longleftrightarrow>
     length (st_live s) \<le> 8 \<and> distinct (map sx_host (st_live s)) \<and>
     (\<forall>h \<in> set (map sx_host (st_live s)). h \<noteq> [] \<and> length h < 64 \<and> h \<noteq> STALE_EXCLUDED_HOST) \<and>
     (\<forall>h \<in> set (st_intermittent s). length h < 64)"
  by (simp add: stale_inv_def)

lemma stale_inv_cong: "st_live s = st_live t \<Longrightarrow> st_intermittent s = st_intermittent t \<Longrightarrow> stale_inv s = stale_inv t"
  by (simp add: stale_inv_def)

lemma run_inv: "stale_run s \<Longrightarrow> stale_inv s \<and> pending_ok (st_pending s)"
proof (induction rule: stale_run.induct)
  case run_start
  show ?case by (simp add: stale_inv_def pending_ok_def)
next
  case (run_begin s)
  then show ?case by (simp add: stale_registry_begin_cycle_def pending_ok_def)
next
  case (run_observe s h d since known)
  then show ?case using observe_pending_ok [of s h d since known]
    stale_inv_cong [of "stale_registry_observe h d since known s" s] by simp
next
  case (run_commit s now)
  then show ?case using commit_inv [of s now] by (simp add: pending_ok_def)
next
  case (run_abort s)
  then show ?case by (simp add: stale_registry_abort_cycle_def pending_ok_def)
next
  case (run_reap s m)
  then show ?case using reap_inv [of s m] by (simp add: stale_registry_reap_def split: prod.split)
next
  case (run_intermittent s hs)
  then show ?case by (auto simp: stale_registry_set_intermittent_def stale_inv_def)
next
  case (run_attach s i c)
  have "map sx_host ((st_live s)[i := (st_live s ! i)\<lparr>sx_container := c\<rparr>]) = map sx_host (st_live s)"
    using run_attach.hyps(2) by (simp add: map_update) (metis list_update_id nth_map)
  with run_attach.IH show ?case by (simp add: stale_inv_hosts del: set_map)
qed

lemma body_from_exact:
  "length buf < n \<Longrightarrow>
     format_body_from nl buf ds n =
       take (n - 1) (buf @ concat (map (\<lambda>d. ''\<newline>'' @ sd_name d) (if nl then ds else [])) @
         (if nl then [] else case ds of [] \<Rightarrow> [] | d # ds \<Rightarrow> sd_name d @ concat (map (\<lambda>d. ''\<newline>'' @ sd_name d) ds)))"
proof (induction nl buf ds n rule: format_body_from.induct)
  case (1 nl buf n)
  then show ?case by simp
next
  case (2 nl buf d ds n)
  let ?w = "(if nl then ''\<newline>'' else []) @ sd_name d"
  show ?case
  proof (cases "n - length buf \<le> length ?w")
    case True
    then have "n - 1 - length buf \<le> length ?w" by linarith
    then have "take (n - 1) (buf @ ?w @ r) = buf @ buf_copy (n - length buf) ?w" for r
      using 2(2) by (simp add: buf_copy_def diff_commute del: append_assoc)
    note cut = this [of "concat (map (\<lambda>d. ''\<newline>'' @ sd_name d) ds)", symmetric]
    have "format_body_from nl buf (d # ds) n = buf @ buf_copy (n - length buf) ?w"
      using True by (simp add: Let_def)
    also note cut
    finally show ?thesis by (cases nl) (simp_all only: if_True if_False append_assoc append_Nil append_Nil2 concat.simps list.map list.case)
  next
    case False
    then have "length (buf @ ?w) < n" by simp
    note IH = 2(1) [OF refl False this]
    have "format_body_from nl buf (d # ds) n = format_body_from True (buf @ ?w) ds n"
      using False by (simp add: Let_def)
    also note IH
    finally show ?thesis by (cases nl) (simp_all only: if_True if_False append_assoc append_Nil append_Nil2 concat.simps list.map list.case)
  qed
qed

section \<open>Properties\<close>

text \<open>C14: absence is the only all-clear and presence always shows.  After a cycle whose scan
  completed, the hosts with a card are exactly the hosts that were flagged (the panel's own
  host apart), except a host that sleeps by design whose every flag has a readable time no
  more than a week old.  It needs room for the flagged hosts beside the entries still live.\<close>

theorem stale_cycle_exact:
  assumes "stale_inv s" "feed_ok feed"
    and "card (sx_host ` set (st_live s) \<union> set (flagged feed)) \<le> STALE_REGISTRY_MAX"
  shows "shown (stale_cycle now feed s) =
    {h \<in> set (flagged feed). \<not> graced (st_intermittent s) now feed h}"
proof -
  have "card (set (flagged feed)) \<le> card (sx_host ` set (st_live s) \<union> set (flagged feed))"
    by (rule card_mono) auto
  with cycle_shown [OF assms(1,2)] assms(3) show ?thesis by simp
qed

definition two_flags :: "observation list" where
  "two_flags = [(''kai'', ''ansible'', 100, True), (''rpi53'', ''ansible'', 100, True),
     (''kai'', '''', 0, False), (''roam'', ''nix'', 900, True)]"

definition roaming :: stale_state where
  "roaming = \<lparr>st_live = [], st_pending = [], st_intermittent = [''roam'']\<rparr>"

lemma flagged_two_flags: "flagged two_flags = [''kai'', ''kai'', ''roam'']"
  by (simp add: flagged_def two_flags_def STALE_EXCLUDED_HOST_def)

lemma two_flags_ok: "stale_inv roaming" "feed_ok two_flags" "card (set (flagged two_flags)) \<le> 8"
    "card (sx_host ` set (st_live roaming) \<union> set (flagged two_flags)) \<le> 8"
  by (simp_all add: flagged_two_flags roaming_def stale_inv_def) (simp add: feed_ok_def two_flags_def)

lemma two_flags_shown: "now \<le> 1001 \<Longrightarrow>
    {h \<in> set (flagged two_flags). \<not> graced (st_intermittent roaming) now two_flags h} = {''kai''}"
proof -
  assume now: "now \<le> 1001"
  have "deployers_of ''roam'' two_flags = [\<lparr>sd_name = ''nix'', sd_since = 900, sd_known = True\<rparr>]"
    by (simp add: deployers_of_def two_flags_def deployer_of_def firsts_def)
  with now show ?thesis by (auto simp: flagged_two_flags graced_def roaming_def)
qed

theorem stale_cycle_exact_witness: "shown (stale_cycle 1000 two_flags roaming) = {''kai''}"
  unfolding stale_cycle_exact [OF two_flags_ok(1,2,4), of 1000] by (rule two_flags_shown) simp

text \<open>No flag is lost for more than one cycle: whatever entries were live, once the emptied
  ones are reaped a second cycle with the same flags shows every flagged host that is not in
  its grace, provided they are at most eight.\<close>

theorem stale_second_cycle:
  assumes "stale_inv s" "feed_ok feed" "card (set (flagged feed)) \<le> STALE_REGISTRY_MAX"
  shows "shown (stale_cycle later feed (snd (stale_registry_reap STALE_REGISTRY_MAX (stale_cycle now feed s)))) =
    {h \<in> set (flagged feed). \<not> graced (st_intermittent s) later feed h}"
proof -
  let ?t = "stale_cycle now feed s" and ?P = "s\<lparr>st_pending := expected_pending feed\<rparr>"
  let ?u = "snd (stale_registry_reap 8 ?t)"
  have inv: "stale_inv ?t" by (rule cycle_inv [OF assms(1,2)])
  have int: "st_intermittent ?u = st_intermittent s"
    using reap_live(3) [OF inv] assms(2) by (simp add: cycle_eq)
  have "sx_host ` set (st_live ?u) = shown ?t"
    unfolding reap_live(1) [OF inv] by (simp add: shown_def)
  also have "\<dots> \<subseteq> set (flagged feed)"
    using promoted_shown_subset [of ?P now] cycle_promoted [OF assms, of now] assms(1,2)
    by (auto simp: cycle_eq expected_pending_ok)
  finally have "sx_host ` set (st_live ?u) \<union> set (flagged feed) = set (flagged feed)" by blast
  with cycle_shown [OF reap_inv [OF inv], of feed 8 later] assms(2,3) int show ?thesis by simp
qed

theorem stale_second_cycle_witness:
  "shown (stale_cycle 1001 two_flags (snd (stale_registry_reap 8 (stale_cycle 1000 two_flags roaming)))) = {''kai''}"
  unfolding stale_second_cycle [OF two_flags_ok(1,2,3), of 1001 1000] by (rule two_flags_shown) simp

text \<open>The body of a card lists its host's deployers, each once, those with a known time
  first and the oldest of them on top, and those without a known time last.\<close>

theorem stale_deployers_ordered:
  assumes "stale_inv s" "feed_ok feed" "e \<in> set (st_live (stale_cycle now feed s))" "sx_deployers e \<noteq> []"
  shows "mset (sx_deployers e) = mset (deployers_of (sx_host e) feed) \<and>
    sorted_wrt (\<lambda>a b. sd_known b \<longrightarrow> sd_known a \<and> sd_since a \<le> sd_since b) (sx_deployers e) \<and>
    distinct (map sd_name (sx_deployers e))"
proof -
  have d: "sx_deployers e = c_isort (\<lambda>a b. 0 < stale_deployer_cmp a b) (deployers_of (sx_host e) feed)"
    using cycle_deployers [OF assms] by (simp add: stale_sort_deployers_def)
  have "sorted_wrt (\<lambda>a b. \<not> 0 < stale_deployer_cmp a b) (sx_deployers e)"
    unfolding d by (rule by_age.sorted_isort)
  then have "sorted_wrt (\<lambda>a b. sd_known b \<longrightarrow> sd_known a \<and> sd_since a \<le> sd_since b) (sx_deployers e)"
    by (rule sorted_wrt_mono_rel [rotated]) (auto simp: deployer_gt)
  moreover have "distinct (map sd_name (deployers_of (sx_host e) feed))"
    unfolding deployers_of_def take_map [symmetric] by (rule distinct_take) simp
  ultimately show ?thesis by (simp add: d)
qed

theorem stale_deployers_ordered_witness:
  "\<exists>e \<in> set (st_live (stale_cycle 1000 two_flags roaming)).
     sx_host e = ''kai'' \<and> map sd_name (sx_deployers e) = [''ansible'', ''(unknown)''] \<and>
     distinct (map sd_name (sx_deployers e))"
proof -
  have live: "st_live (stale_cycle 1000 two_flags roaming) =
    [\<lparr>sx_host = ''kai'', sx_deployers = [\<lparr>sd_name = ''ansible'', sd_since = 100, sd_known = True\<rparr>,
        \<lparr>sd_name = ''(unknown)'', sd_since = 0, sd_known = False\<rparr>], sx_container = None\<rparr>]"
    by code_simp
  then show ?thesis using stale_deployers_ordered [OF two_flags_ok(1,2), of _ 1000] by simp
qed

text \<open>In every run of the staleness registry, whatever the order of its operations, at most
  eight hosts are live, none twice, and never the panel's own host; and the pending set lists
  no host twice and no host without a deployer.\<close>

theorem stale_run_safe:
  "stale_run s \<Longrightarrow> length (st_live s) \<le> STALE_REGISTRY_MAX \<and> distinct (map sx_host (st_live s)) \<and>
     STALE_EXCLUDED_HOST \<notin> set (map sx_host (st_live s)) \<and>
     distinct (map sp_host (st_pending s)) \<and> (\<forall>p \<in> set (st_pending s). sp_deployers p \<noteq> [])"
  using run_inv [of s] by (auto simp: stale_inv_def pending_ok_def)

theorem stale_run_safe_witness:
  "\<exists>s. stale_run s \<and> map sx_host (st_live s) = [''kai''] \<and>
     STALE_EXCLUDED_HOST \<notin> set (map sx_host (st_live s))"
proof -
  let ?s = "stale_registry_commit_cycle_at 5 (stale_registry_observe ''rpi53'' ''d'' 1 True
    (stale_registry_observe ''kai'' ''d'' 1 True
      (stale_registry_begin_cycle \<lparr>st_live = [], st_pending = [], st_intermittent = []\<rparr>)))"
  have run: "stale_run ?s"
    by (intro run_commit run_observe run_begin run_start) simp_all
  moreover have "map sx_host (st_live ?s) = [''kai'']" by code_simp
  ultimately show ?thesis using stale_run_safe [OF run] by metis
qed

lemma stale_body_exact:
  "0 < n \<Longrightarrow> stale_format_body e n = take (n - 1)
     (case sx_deployers e of [] \<Rightarrow> [] | d # ds \<Rightarrow> sd_name d @ concat (map (\<lambda>d. ''\<newline>'' @ sd_name d) ds))"
  by (simp add: stale_format_body_def body_from_exact)

text \<open>Eight hosts are up, all of them are cleared and another one is flagged in the same scan.\<close>

definition eight_hosts :: "observation list" where
  "eight_hosts = map (\<lambda>i. ([char_of i], ''d'', 1, True)) [97..<105]"

definition eight_up :: stale_state where
  "eight_up = stale_cycle 2 eight_hosts \<lparr>st_live = [], st_pending = [], st_intermittent = []\<rparr>"

text \<open>An entry that is emptied keeps its slot until the reap, so when all eight slots were
  taken and cleared, a host flagged in that same scan shows no card that cycle, although no
  host is shown at all.\<close>

theorem emptied_entries_hold_slots:
  "card (shown eight_up) = STALE_REGISTRY_MAX \<and> shown (stale_cycle 3 [(''kai'', ''d'', 1, True)] eight_up) = {}"
proof -
  have "card (set (map sx_host (filter (\<lambda>e. sx_deployers e \<noteq> []) (st_live eight_up)))) = 8"
    by code_simp
  moreover have "map sx_host (filter (\<lambda>e. sx_deployers e \<noteq> [])
      (st_live (stale_cycle 3 [(''kai'', ''d'', 1, True)] eight_up))) = []"
    by code_simp
  ultimately show ?thesis unfolding shown_def by (metis list.set(1) list.set_map set_filter)
qed

text \<open>A host that goes stale while another one already is comes after it, whatever their names: the hosts
  of one commit are sorted, the table is not.\<close>

theorem late_stale_host_unsorted:
  "map sx_host (st_live (stale_cycle 2 [(''kwork'', ''d'', 1, True), (''kai'', ''d'', 1, True)]
     (stale_cycle 1 [(''kwork'', ''d'', 1, True)] \<lparr>st_live = [], st_pending = [], st_intermittent = []\<rparr>))) =
   [''kwork'', ''kai'']"
  by code_simp

end
