(* ===== verification/KLibs.thy ===== *)
theory KLibs
  imports KPrelude
begin

text \<open>
  The two libraries the dashboard links that are not part of the repository, as parameters.

  \<^item> cJSON.  A document is a value of an unknown type \<open>'j\<close>; what the code asks of it are the
    fields of the record \<open>cjson\<close>, one per family of library calls.  A test and the value it
    guards are one field (\<open>cJSON_IsNumber(o)\<close> with \<open>o->valuedouble\<close> is an optional
    number).  Every call of the library accepts the NULL item, for which each test is false: the
    helpers \<open>item_number\<close> and the like.
  \<^item> hiredis.  A command takes the state \<open>'w\<close> of the connection and everything behind it to
    a reply, or to NULL when the connection failed, and a new state; \<open>hr_err\<close> is the context's
    \<open>err\<close> field.

  \<open>jv\<close>, \<open>tree_cjson\<close> and \<open>scripted\<close> are concrete libraries for the witnesses only.
\<close>

section \<open>cJSON\<close>

record 'j cjson =
  cj_parse :: "string \<Rightarrow> 'j option"
  cj_get :: "'j \<Rightarrow> string \<Rightarrow> 'j option"
  cj_number :: "'j \<Rightarrow> double option"
  cj_valueint :: "'j \<Rightarrow> int"
  cj_string :: "'j \<Rightarrow> string option"
  cj_bool :: "'j \<Rightarrow> bool option"
  cj_null :: "'j \<Rightarrow> bool"
  cj_object :: "'j \<Rightarrow> bool"
  cj_array :: "'j \<Rightarrow> 'j list option"

definition item_number :: "'j cjson \<Rightarrow> 'j \<Rightarrow> string \<Rightarrow> double option" where
  "item_number J v k = Option.bind (cj_get J v k) (cj_number J)"

definition item_int :: "'j cjson \<Rightarrow> 'j \<Rightarrow> string \<Rightarrow> int option" where
  "item_int J v k =
     (case cj_get J v k of
        None \<Rightarrow> None
      | Some x \<Rightarrow> (if cj_number J x = None then None else Some (cj_valueint J x)))"

definition item_string :: "'j cjson \<Rightarrow> 'j \<Rightarrow> string \<Rightarrow> string option" where
  "item_string J v k = Option.bind (cj_get J v k) (cj_string J)"

definition item_bool :: "'j cjson \<Rightarrow> 'j \<Rightarrow> string \<Rightarrow> bool option" where
  "item_bool J v k = Option.bind (cj_get J v k) (cj_bool J)"

definition item_null :: "'j cjson \<Rightarrow> 'j \<Rightarrow> string \<Rightarrow> bool" where
  "item_null J v k = (case cj_get J v k of None \<Rightarrow> False | Some x \<Rightarrow> cj_null J x)"

definition item_array :: "'j cjson \<Rightarrow> 'j \<Rightarrow> string \<Rightarrow> 'j list option" where
  "item_array J v k = Option.bind (cj_get J v k) (cj_array J)"

definition item_object :: "'j cjson \<Rightarrow> 'j \<Rightarrow> string \<Rightarrow> 'j option" where
  "item_object J v k =
     (case cj_get J v k of None \<Rightarrow> None | Some x \<Rightarrow> (if cj_object J x then Some x else None))"

lemmas item_defs = item_number_def item_int_def item_string_def item_bool_def item_null_def
  item_array_def item_object_def

text \<open>\<open>if (test(o)) field = value;\<close> leaves the field as it was when the test fails.\<close>

definition set_if :: "'a option \<Rightarrow> 'a \<Rightarrow> 'a" where
  "set_if v old = (case v of None \<Rightarrow> old | Some x \<Rightarrow> x)"

lemma set_if_simps [simp]: "set_if None old = old" "set_if (Some x) old = x"
  by (simp_all add: set_if_def)

text \<open>A concrete library for the witnesses: a tree of values, and a parser given as a table.\<close>

datatype jv = JNull | JBool bool | JNum double | JStr string | JArr "jv list"
  | JObj "(string \<times> jv) list"

definition tree_cjson :: "(string \<Rightarrow> jv option) \<Rightarrow> jv cjson" where
  "tree_cjson p =
     \<lparr>cj_parse = p,
      cj_get = (\<lambda>v k. case v of JObj kvs \<Rightarrow> map_of kvs k | _ \<Rightarrow> None),
      cj_number = (\<lambda>v. case v of JNum d \<Rightarrow> Some d | _ \<Rightarrow> None),
      cj_valueint = (\<lambda>v. case v of JNum d \<Rightarrow> trunc_int d | _ \<Rightarrow> 0),
      cj_string = (\<lambda>v. case v of JStr s \<Rightarrow> Some s | _ \<Rightarrow> None),
      cj_bool = (\<lambda>v. case v of JBool b \<Rightarrow> Some b | _ \<Rightarrow> None),
      cj_null = (\<lambda>v. v = JNull),
      cj_object = (\<lambda>v. case v of JObj _ \<Rightarrow> True | _ \<Rightarrow> False),
      cj_array = (\<lambda>v. case v of JArr vs \<Rightarrow> Some vs | _ \<Rightarrow> None)\<rparr>"

section \<open>hiredis\<close>

text \<open>The types of a reply, as the library's header names them; \<open>reply_str\<close> is \<open>->str\<close>.\<close>

datatype reply = RString string | RArray "reply list" | RInteger int | RNil | RStatus string
  | RError string

fun reply_str :: "reply \<Rightarrow> string option" where
  "reply_str (RString s) = Some s"
| "reply_str (RStatus s) = Some s"
| "reply_str (RError s) = Some s"
| "reply_str _ = None"

text \<open>\<open>(r && r->type == REDIS_REPLY_STRING) ? r->str : NULL\<close>\<close>

fun string_reply :: "reply option \<Rightarrow> string option" where
  "string_reply (Some (RString s)) = Some s"
| "string_reply _ = None"

record 'w hiredis =
  hr_command :: "'w \<Rightarrow> string list \<Rightarrow> reply option \<times> 'w"
  hr_err :: "'w \<Rightarrow> bool"

text \<open>A server that answers from a list of replies, then with NULL.\<close>

definition scripted :: "reply option list hiredis" where
  "scripted = \<lparr>hr_command = (\<lambda>w _. case w of [] \<Rightarrow> (None, []) | r # rs \<Rightarrow> (r, rs)),
     hr_err = (\<lambda>_. False)\<rparr>"

end
