(* ===== verification/Netstate.thy ===== *)
theory Netstate
  imports KLibs "HOL-Library.Monad_Syntax"
begin

text \<open>
  The model behind the network-health card (\<open>src/src/netstate.c\<close>), first half: decoding a
  \<open>kdash:net\<close> record and an acknowledgement, applying the acknowledgement, the net-admitted
  set, and what one poll does to a column.  \<open>net_state\<close> holds the file's statics.  The
  nullable counters are \<open>-1\<close> for null, as in the code.
\<close>

abbreviation "NET_HOSTS_MAX \<equiv> 5 :: nat"
abbreviation "NET_HIST_N \<equiv> 60 :: nat"
abbreviation "NET_DROPS_MAX \<equiv> 64 :: nat"
abbreviation "NET_ADMITTED_MAX \<equiv> 16 :: nat"

section \<open>Data\<close>

datatype net_leg = NET_LEG_10G | NET_LEG_5G | NET_LEG_1G | NET_LEG_DOWN

record net_record =
  nr_leg :: net_leg
  nr_speed_mbps :: int
  nr_bond :: bool
  nr_lfc :: int
  nr_lfc_delta_24h :: int
  nr_rx_errors :: int
  nr_rx_errors_delta_24h :: int
  nr_reach_udm :: bool
  nr_reach_peers :: bool
  nr_reach_wan :: bool
  nr_rtt_udm :: double
  nr_rtt_wan :: double
  nr_bytes_per_s :: double
  nr_drops :: "double list"
  nr_ts :: double
  nr_nic :: string

record net_ack =
  na_lfc :: int
  na_rx_errors :: int
  na_ts :: double
  na_by :: string

datatype net_col_state = NET_COL_NOFEED | NET_COL_LIVE | NET_COL_STALE
datatype net_attn = NET_ATTN_NONE | NET_ATTN_WARN | NET_ATTN_CRIT

record net_host =
  nh_host :: string
  nh_state :: net_col_state
  nh_has_rec :: bool
  nh_rec :: net_record
  nh_has_ack :: bool
  nh_ack :: net_ack
  nh_hist :: "single list"
  nh_minute_start :: double
  nh_acc_sum :: double
  nh_acc_n :: int

record net_state =
  ns_hosts :: "net_host list"
  ns_admitted :: "string list"
  ns_dirty :: bool

definition blank_record :: net_record where
  "blank_record = \<lparr>nr_leg = NET_LEG_10G, nr_speed_mbps = 0, nr_bond = False, nr_lfc = 0,
     nr_lfc_delta_24h = 0, nr_rx_errors = 0, nr_rx_errors_delta_24h = 0, nr_reach_udm = False,
     nr_reach_peers = False, nr_reach_wan = False, nr_rtt_udm = 0, nr_rtt_wan = 0,
     nr_bytes_per_s = 0, nr_drops = [], nr_ts = 0, nr_nic = []\<rparr>"

definition blank_host :: "string \<Rightarrow> net_host" where
  "blank_host h = \<lparr>nh_host = buf_copy 64 h, nh_state = NET_COL_NOFEED, nh_has_rec = False,
     nh_rec = blank_record, nh_has_ack = False,
     nh_ack = \<lparr>na_lfc = 0, na_rx_errors = 0, na_ts = 0, na_by = []\<rparr>,
     nh_hist = [], nh_minute_start = 0, nh_acc_sum = 0, nh_acc_n = 0\<rparr>"

section \<open>Decoding\<close>

definition get_nullable_long :: "'j cjson \<Rightarrow> 'j \<Rightarrow> string \<Rightarrow> int option" where
  "get_nullable_long J v k =
     (if item_null J v k then Some (- 1)
      else case item_number J v k of
          None \<Rightarrow> None
        | Some d \<Rightarrow> (if d < 0 then None else Some (cast_long d)))"

definition get_nullable_double :: "'j cjson \<Rightarrow> 'j \<Rightarrow> string \<Rightarrow> double option" where
  "get_nullable_double J v k =
     (if item_null J v k then Some (- 1)
      else case item_number J v k of
          None \<Rightarrow> None
        | Some d \<Rightarrow> (if d < 0 then None else Some d))"

definition net_get_bool :: "'j cjson \<Rightarrow> 'j \<Rightarrow> string \<Rightarrow> bool option" where
  "net_get_bool J v k = item_bool J v k"

text \<open>A number the guard accepts; the guards of the parsers are the code's \<open>goto done\<close>.\<close>

definition checked :: "('a \<Rightarrow> bool) \<Rightarrow> 'a option \<Rightarrow> 'a option" where
  "checked ok v = (case v of Some x \<Rightarrow> if ok x then Some x else None | None \<Rightarrow> None)"

definition good_stamp :: "double \<Rightarrow> bool" where
  "good_stamp d \<longleftrightarrow> 0 < d \<and> d \<le> 100000000000"

definition parse_leg :: "string \<Rightarrow> net_leg option" where
  "parse_leg s =
     (if s = ''10g'' then Some NET_LEG_10G
      else if s = ''5g'' then Some NET_LEG_5G
      else if s = ''1g'' then Some NET_LEG_1G
      else if s = ''down'' then Some NET_LEG_DOWN
      else None)"

text \<open>The loop over the array: every element is checked, the first \<open>NET_DROPS_MAX\<close> are kept.\<close>

fun parse_drops :: "'j cjson \<Rightarrow> 'j list \<Rightarrow> double list \<Rightarrow> double list option" where
  "parse_drops J [] acc = Some acc"
| "parse_drops J (d # ds) acc =
     (case checked good_stamp (cj_number J d) of
        None \<Rightarrow> None
      | Some x \<Rightarrow> parse_drops J ds (if length acc < NET_DROPS_MAX then acc @ [x] else acc))"

definition net_parse_json :: "'j cjson \<Rightarrow> string \<Rightarrow> net_record option" where
  "net_parse_json J json = do {
     v \<leftarrow> cj_parse J json;
     leg_s \<leftarrow> item_string J v ''leg'';
     leg \<leftarrow> parse_leg leg_s;
     speed \<leftarrow> get_nullable_long J v ''speed_mbps'';
     bond \<leftarrow> net_get_bool J v ''bond'';
     lfc \<leftarrow> get_nullable_long J v ''lfc'';
     lfc_delta \<leftarrow> get_nullable_long J v ''lfc_delta_24h'';
     rx \<leftarrow> get_nullable_long J v ''rx_errors'';
     rx_delta \<leftarrow> get_nullable_long J v ''rx_errors_delta_24h'';
     reach \<leftarrow> item_object J v ''reach'';
     udm \<leftarrow> net_get_bool J reach ''udm'';
     peers \<leftarrow> net_get_bool J reach ''peers'';
     wan \<leftarrow> net_get_bool J reach ''wan'';
     rtt \<leftarrow> item_object J v ''rtt_ms'';
     rtt_udm \<leftarrow> get_nullable_double J rtt ''udm'';
     rtt_wan \<leftarrow> get_nullable_double J rtt ''wan'';
     bps \<leftarrow> checked (\<lambda>d. 0 \<le> d) (item_number J v ''bytes_per_s'');
     drop_items \<leftarrow> item_array J v ''drops'';
     drops \<leftarrow> parse_drops J drop_items [];
     ts \<leftarrow> checked good_stamp (item_number J v ''ts'');
     Some \<lparr>nr_leg = leg, nr_speed_mbps = c_int speed, nr_bond = bond,
       nr_lfc = lfc, nr_lfc_delta_24h = lfc_delta, nr_rx_errors = rx,
       nr_rx_errors_delta_24h = rx_delta, nr_reach_udm = udm, nr_reach_peers = peers,
       nr_reach_wan = wan, nr_rtt_udm = rtt_udm, nr_rtt_wan = rtt_wan, nr_bytes_per_s = bps,
       nr_drops = drops, nr_ts = ts,
       nr_nic = (case item_string J v ''nic'' of Some s \<Rightarrow> buf_copy 17 s | None \<Rightarrow> [])\<rparr>
   }"

definition net_parse_ack_json :: "'j cjson \<Rightarrow> string \<Rightarrow> net_ack option" where
  "net_parse_ack_json J json = do {
     v \<leftarrow> cj_parse J json;
     lfc \<leftarrow> get_nullable_long J v ''lfc'';
     rx \<leftarrow> get_nullable_long J v ''rx_errors'';
     by_s \<leftarrow> checked (\<lambda>s. s \<noteq> [] \<and> length s < 65) (item_string J v ''by'');
     ts \<leftarrow> checked good_stamp (item_number J v ''ts'');
     Some \<lparr>na_lfc = lfc, na_rx_errors = rx, na_ts = ts, na_by = by_s\<rparr>
   }"

section \<open>Acknowledgements\<close>

definition effective_delta :: "int \<Rightarrow> int \<Rightarrow> int \<Rightarrow> int" where
  "effective_delta delta counter base =
     (if delta < 0 \<or> counter < 0 \<or> base < 0 then delta
      else let since = (if base \<le> counter then counter - base else counter)
           in if since < delta then since else delta)"

definition net_apply_ack :: "net_record \<Rightarrow> net_ack \<Rightarrow> net_record" where
  "net_apply_ack r a =
     r\<lparr>nr_lfc_delta_24h := effective_delta (nr_lfc_delta_24h r) (nr_lfc r) (na_lfc a),
       nr_rx_errors_delta_24h :=
         effective_delta (nr_rx_errors_delta_24h r) (nr_rx_errors r) (na_rx_errors a),
       nr_drops := filter (\<lambda>d. na_ts a < d) (nr_drops r)\<rparr>"

section \<open>Hosts and the net-admitted set\<close>

definition net_set_hosts :: "string list \<Rightarrow> net_state \<Rightarrow> net_state" where
  "net_set_hosts hosts s =
     s\<lparr>ns_hosts := map blank_host (take NET_HOSTS_MAX (filter (\<lambda>h. h \<noteq> []) hosts)),
       ns_admitted := [], ns_dirty := False\<rparr>"

definition net_host_count :: "net_state \<Rightarrow> nat" where
  "net_host_count s = length (ns_hosts s)"

definition net_host_at :: "int \<Rightarrow> net_state \<Rightarrow> net_host option" where
  "net_host_at i s = (if 0 \<le> i \<and> i < int (length (ns_hosts s)) then Some (ns_hosts s ! nat i) else None)"

definition net_is_admitted :: "string \<Rightarrow> net_state \<Rightarrow> bool" where
  "net_is_admitted h s = list_ex (\<lambda>a. streq 64 a h) (ns_admitted s)"

definition net_admit :: "string \<Rightarrow> net_state \<Rightarrow> net_state" where
  "net_admit h s =
     (if net_is_admitted h s \<or> NET_ADMITTED_MAX \<le> length (ns_admitted s) then s
      else s\<lparr>ns_admitted := ns_admitted s @ [buf_copy 64 h]\<rparr>)"

definition net_seed_admitted :: "string list \<Rightarrow> net_state \<Rightarrow> net_state" where
  "net_seed_admitted hosts s =
     (let s' = (fold (\<lambda>h s. if h = [] then s else net_admit h s) hosts s)\<lparr>ns_dirty := False\<rparr>
      in s'\<lparr>ns_hosts := map (\<lambda>h. if nh_state h = NET_COL_NOFEED \<and> net_is_admitted (nh_host h) s'
                                then h\<lparr>nh_state := NET_COL_STALE\<rparr> else h) (ns_hosts s')\<rparr>)"

definition net_admitted_snapshot :: "nat \<Rightarrow> net_state \<Rightarrow> string list" where
  "net_admitted_snapshot m s = take m (ns_admitted s)"

definition net_admitted_take_dirty :: "net_state \<Rightarrow> bool \<times> net_state" where
  "net_admitted_take_dirty s = (ns_dirty s, s\<lparr>ns_dirty := False\<rparr>)"

definition find_host :: "string \<Rightarrow> net_state \<Rightarrow> nat option" where
  "find_host h s = find_index (\<lambda>x. streq 64 (nh_host x) h) (ns_hosts s)"

section \<open>One poll of one host\<close>

definition update_host :: "nat \<Rightarrow> (net_host \<Rightarrow> net_host) \<Rightarrow> net_state \<Rightarrow> net_state" where
  "update_host i f s = s\<lparr>ns_hosts := (ns_hosts s)[i := f (ns_hosts s ! i)]\<rparr>"

definition net_observe_ack :: "'j cjson \<Rightarrow> string \<Rightarrow> string option \<Rightarrow> net_state \<Rightarrow> net_state" where
  "net_observe_ack J host json s =
     (case find_host host s of
        None \<Rightarrow> s
      | Some i \<Rightarrow>
          (case Option.bind json (net_parse_ack_json J) of
             Some a \<Rightarrow> update_host i (\<lambda>h. h\<lparr>nh_has_ack := True, nh_ack := a\<rparr>) s
           | None \<Rightarrow> update_host i (\<lambda>h. h\<lparr>nh_has_ack := False\<rparr>) s))"

definition hist_push :: "single \<Rightarrow> single list \<Rightarrow> single list" where
  "hist_push v hist = (if length hist = NET_HIST_N then drop 1 hist else hist) @ [v]"

text \<open>The per-minute means: the last block of \<open>net_observe\<close>.\<close>

definition accumulate :: "double \<Rightarrow> double \<Rightarrow> net_host \<Rightarrow> net_host" where
  "accumulate bps now h =
     (let start = (if nh_acc_n h = 0 \<and> nh_minute_start h \<le> 0 then now else nh_minute_start h);
          sum = nh_acc_sum h + bps * 8 / 1000000;
          n = nh_acc_n h + 1
      in if 60 \<le> now - start
         then h\<lparr>nh_hist := hist_push (to_single (sum / of_int n)) (nh_hist h), nh_acc_sum := 0, nh_acc_n := 0,
                nh_minute_start := now\<rparr>
         else h\<lparr>nh_acc_sum := sum, nh_acc_n := n, nh_minute_start := start\<rparr>)"

definition net_observe :: "'j cjson \<Rightarrow> string \<Rightarrow> string option \<Rightarrow> double \<Rightarrow> net_state \<Rightarrow> net_state" where
  "net_observe J host json now s =
     (case find_host host s of
        None \<Rightarrow> s
      | Some i \<Rightarrow>
          let h = ns_hosts s ! i in
          (case Option.bind json (net_parse_json J) of
             None \<Rightarrow>
               if nh_state h = NET_COL_LIVE \<or> net_is_admitted (nh_host h) s
               then update_host i (\<lambda>h. h\<lparr>nh_state := NET_COL_STALE\<rparr>) s
               else s
           | Some r0 \<Rightarrow>
               let r = (if nh_has_ack h then net_apply_ack r0 (nh_ack h) else r0);
                   s1 = update_host i (\<lambda>h. h\<lparr>nh_rec := r, nh_has_rec := True, nh_state := NET_COL_LIVE\<rparr>) s;
                   s2 = (if net_is_admitted (nh_host h) s1 then s1
                         else (net_admit (nh_host h) s1)\<lparr>ns_dirty := True\<rparr>)
               in update_host i (accumulate (nr_bytes_per_s r) now) s2))"

section \<open>Attention\<close>

definition net_is_flapping :: "net_host \<Rightarrow> bool" where
  "net_is_flapping h \<longleftrightarrow>
     \<not> (\<not> nh_has_rec h \<or> nr_leg (nh_rec h) = NET_LEG_1G \<or> nr_leg (nh_rec h) = NET_LEG_DOWN) \<and>
     (2 \<le> length (nr_drops (nh_rec h)) \<or> 2 \<le> nr_lfc_delta_24h (nh_rec h))"

definition net_column_attn :: "net_host \<Rightarrow> net_attn" where
  "net_column_attn h =
     (if nh_state h = NET_COL_NOFEED then NET_ATTN_NONE
      else if nh_state h = NET_COL_STALE then NET_ATTN_CRIT
      else let r = nh_rec h in
        if nr_leg r = NET_LEG_DOWN \<or> \<not> nr_reach_udm r \<or> \<not> nr_reach_peers r \<or> \<not> nr_reach_wan r
        then NET_ATTN_CRIT
        else if nr_leg r = NET_LEG_1G \<and> nr_bond r then NET_ATTN_WARN
        else if 0 < nr_lfc_delta_24h r \<or> nr_drops r \<noteq> [] \<or> 0 < nr_rx_errors_delta_24h r
        then NET_ATTN_WARN
        else NET_ATTN_NONE)"

section \<open>What a decoded record satisfies\<close>

definition record_ok :: "net_record \<Rightarrow> bool" where
  "record_ok r \<longleftrightarrow>
     - 1 \<le> nr_lfc r \<and> - 1 \<le> nr_lfc_delta_24h r \<and> - 1 \<le> nr_rx_errors r \<and>
     - 1 \<le> nr_rx_errors_delta_24h r \<and> - 1 \<le> nr_rtt_udm r \<and> - 1 \<le> nr_rtt_wan r \<and>
     0 \<le> nr_bytes_per_s r \<and> length (nr_drops r) \<le> NET_DROPS_MAX \<and>
     (\<forall>d \<in> set (nr_drops r). good_stamp d) \<and> good_stamp (nr_ts r) \<and> length (nr_nic r) \<le> 16"

lemma nullable_long_range: "get_nullable_long J v k = Some i \<Longrightarrow> - 1 \<le> i"
  using cast_long_nonneg [of "the (item_number J v k)"]
  by (auto simp: get_nullable_long_def split: if_splits option.splits)

lemma nullable_double_range: "get_nullable_double J v k = Some d \<Longrightarrow> - 1 \<le> d"
  by (auto simp: get_nullable_double_def split: if_splits option.splits)

lemma checked_Some: "checked ok v = Some x \<longleftrightarrow> v = Some x \<and> ok x"
  by (auto simp: checked_def split: option.split)

lemma parse_drops_ok:
  "parse_drops J ds acc = Some out \<Longrightarrow> length acc \<le> 64 \<Longrightarrow> \<forall>d \<in> set acc. good_stamp d \<Longrightarrow>
     length out \<le> 64 \<and> (\<forall>d \<in> set out. good_stamp d)"
proof (induction ds arbitrary: acc)
  case Nil
  then show ?case by simp
next
  case (Cons d ds)
  from Cons.prems(1) obtain x where x: "checked good_stamp (cj_number J d) = Some x"
    by (simp split: option.splits)
  then have "good_stamp x" by (simp add: checked_Some)
  let ?acc = "if length acc < 64 then acc @ [x] else acc"
  have "parse_drops J ds ?acc = Some out" using Cons.prems(1) x by simp
  moreover have "length ?acc \<le> 64" "\<forall>d \<in> set ?acc. good_stamp d"
    using Cons.prems(2,3) \<open>good_stamp x\<close> by auto
  ultimately show ?case by (rule Cons.IH)
qed

lemma parse_drops_exact:
  assumes "list_all (\<lambda>d. \<exists>x. cj_number J d = Some x \<and> good_stamp x) ds"
  shows "parse_drops J ds acc = Some (acc @ take (64 - length acc) (map (\<lambda>d. the (cj_number J d)) ds))"
  using assms
proof (induction ds arbitrary: acc)
  case Nil
  then show ?case by simp
next
  case (Cons d ds)
  then obtain x where x: "cj_number J d = Some x" "good_stamp x" by auto
  show ?case
  proof (cases "length acc < 64")
    case True
    then obtain m where "64 - length acc = Suc m" "64 - length (acc @ [x]) = m"
      by (cases "64 - length acc") auto
    with x Cons True show ?thesis by (simp add: checked_def)
  next
    case False
    with x Cons show ?thesis by (simp add: checked_def)
  qed
qed

lemma net_parse_ok: assumes "net_parse_json J s = Some r" shows "record_ok r"
proof -
  from assms show ?thesis
    unfolding net_parse_json_def record_ok_def bind_eq_Some_conv
    by (auto simp: checked_Some nullable_long_range nullable_double_range buf_copy_def
        dest: parse_drops_ok [where acc = "[]"] split: option.split)
qed

section \<open>Acknowledgements only lower\<close>

lemma effective_delta_le: "effective_delta d c b \<le> d"
  by (simp add: effective_delta_def Let_def)

lemma effective_delta_neg: "effective_delta d c b < 0 \<longleftrightarrow> d < 0"
  by (auto simp: effective_delta_def Let_def)

lemma effective_delta_reviewed: "0 \<le> c \<Longrightarrow> effective_delta d c c \<le> 0"
  by (auto simp: effective_delta_def)

lemma apply_ack_fields [simp]:
  "nr_leg (net_apply_ack r a) = nr_leg r" "nr_bond (net_apply_ack r a) = nr_bond r"
  "nr_reach_udm (net_apply_ack r a) = nr_reach_udm r" "nr_reach_peers (net_apply_ack r a) = nr_reach_peers r"
  "nr_reach_wan (net_apply_ack r a) = nr_reach_wan r" "nr_bytes_per_s (net_apply_ack r a) = nr_bytes_per_s r"
  "nr_ts (net_apply_ack r a) = nr_ts r" "nr_rtt_udm (net_apply_ack r a) = nr_rtt_udm r"
  "nr_rtt_wan (net_apply_ack r a) = nr_rtt_wan r"
  by (simp_all add: net_apply_ack_def)

lemma apply_ack_ok: "record_ok r \<Longrightarrow> record_ok (net_apply_ack r a)"
  by (auto simp: record_ok_def net_apply_ack_def effective_delta_def Let_def
      intro: le_trans [OF length_filter_le])

section \<open>Columns of every poll\<close>

lemma find_host_Some: "find_host h s = Some i \<Longrightarrow> i < length (ns_hosts s) \<and> streq 64 (nh_host (ns_hosts s ! i)) h"
  by (simp add: find_host_def find_index_Some)

lemma admit_hosts [simp]: "ns_hosts (net_admit h s) = ns_hosts s"
  by (simp add: net_admit_def)

lemma update_host_fields [simp]:
  "ns_admitted (update_host i f s) = ns_admitted s" "ns_dirty (update_host i f s) = ns_dirty s"
  "length (ns_hosts (update_host i f s)) = length (ns_hosts s)"
  by (simp_all add: update_host_def)

lemma is_admitted_update [simp]: "net_is_admitted h (update_host i f s) = net_is_admitted h s"
  by (simp add: net_is_admitted_def)

lemma accumulate_fields [simp]:
  "nh_host (accumulate b now h) = nh_host h" "nh_state (accumulate b now h) = nh_state h"
  "nh_has_rec (accumulate b now h) = nh_has_rec h" "nh_rec (accumulate b now h) = nh_rec h"
  "nh_has_ack (accumulate b now h) = nh_has_ack h" "nh_ack (accumulate b now h) = nh_ack h"
  by (simp_all add: accumulate_def Let_def)

lemma length_hist_push: "length hist \<le> 60 \<Longrightarrow> length (hist_push v hist) \<le> 60 \<and> length (hist_push v hist) = min 60 (Suc (length hist))"
  by (auto simp: hist_push_def)

lemma accumulate_hist: "length (nh_hist h) \<le> 60 \<Longrightarrow> length (nh_hist (accumulate b now h)) \<le> 60"
  using length_hist_push by (simp add: accumulate_def Let_def)

text \<open>The effect of one good payload on the column that takes it.\<close>

lemma observe_good:
  assumes i: "find_host host s = Some i" and r: "Option.bind json (net_parse_json J) = Some r0"
  defines "h \<equiv> ns_hosts s ! i"
  defines "r \<equiv> if nh_has_ack h then net_apply_ack r0 (nh_ack h) else r0"
  shows "ns_hosts (net_observe J host json now s) = (ns_hosts s)[i :=
      accumulate (nr_bytes_per_s r) now (h\<lparr>nh_rec := r, nh_has_rec := True, nh_state := NET_COL_LIVE\<rparr>)]"
    "ns_admitted (net_observe J host json now s) = ns_admitted (net_admit (nh_host h) s)"
    "ns_dirty (net_observe J host json now s) \<longleftrightarrow> ns_dirty s \<or> \<not> net_is_admitted (nh_host h) s"
proof -
  have len: "i < length (ns_hosts s)" using find_host_Some [OF i] by simp
  let ?f = "\<lambda>h. h\<lparr>nh_rec := r, nh_has_rec := True, nh_state := NET_COL_LIVE\<rparr>"
  let ?s1 = "update_host i ?f s"
  let ?s2 = "if net_is_admitted (nh_host h) ?s1 then ?s1 else (net_admit (nh_host h) ?s1)\<lparr>ns_dirty := True\<rparr>"
  have obs: "net_observe J host json now s = update_host i (accumulate (nr_bytes_per_s r) now) ?s2"
    by (simp add: net_observe_def i r Let_def h_def [symmetric] r_def [symmetric])
  have s2: "ns_hosts ?s2 = (ns_hosts s)[i := ?f h]"
    by (simp add: update_host_def h_def)
  show "ns_hosts (net_observe J host json now s) = (ns_hosts s)[i :=
      accumulate (nr_bytes_per_s r) now (h\<lparr>nh_rec := r, nh_has_rec := True, nh_state := NET_COL_LIVE\<rparr>)]"
    unfolding obs using len s2 by (simp add: update_host_def split del: if_split)
  have adm: "net_is_admitted x ?s1 = net_is_admitted x s" for x by (rule is_admitted_update)
  show "ns_admitted (net_observe J host json now s) = ns_admitted (net_admit (nh_host h) s)"
    unfolding obs by (simp add: net_admit_def adm)
  show "ns_dirty (net_observe J host json now s) \<longleftrightarrow> ns_dirty s \<or> \<not> net_is_admitted (nh_host h) s"
    unfolding obs by (simp add: adm)
qed

lemma observe_absent:
  assumes i: "find_host host s = Some i" and "Option.bind json (net_parse_json J) = None"
  shows "net_observe J host json now s =
    (if nh_state (ns_hosts s ! i) = NET_COL_LIVE \<or> net_is_admitted (nh_host (ns_hosts s ! i)) s
     then update_host i (\<lambda>h. h\<lparr>nh_state := NET_COL_STALE\<rparr>) s else s)"
  by (simp add: net_observe_def assms Let_def)

section \<open>Runs\<close>

definition net_host_inv :: "string list \<Rightarrow> net_host \<Rightarrow> bool" where
  "net_host_inv adm h \<longleftrightarrow>
     length (nh_hist h) \<le> NET_HIST_N \<and> 0 \<le> nh_acc_n h \<and>
     (nh_has_rec h \<longrightarrow> record_ok (nh_rec h) \<and> nh_state h \<noteq> NET_COL_NOFEED) \<and>
     (nh_state h = NET_COL_LIVE \<longrightarrow> nh_has_rec h) \<and>
     (nh_state h = NET_COL_STALE \<longrightarrow> nh_has_rec h \<or> list_ex (\<lambda>a. streq 64 a (nh_host h)) adm)"

definition net_inv :: "net_state \<Rightarrow> bool" where
  "net_inv s \<longleftrightarrow> length (ns_hosts s) \<le> NET_HOSTS_MAX \<and> length (ns_admitted s) \<le> NET_ADMITTED_MAX \<and>
     (\<forall>h \<in> set (ns_hosts s). net_host_inv (ns_admitted s) h)"

inductive net_run :: "'j cjson \<Rightarrow> net_state \<Rightarrow> bool" for J where
  net_start: "net_run J (net_set_hosts hosts s)"
| net_seed: "net_run J s \<Longrightarrow> net_run J (net_seed_admitted hosts s)"
| net_poll_ack: "net_run J s \<Longrightarrow> net_run J (net_observe_ack J host json s)"
| net_poll: "net_run J s \<Longrightarrow> net_run J (net_observe J host json now s)"
| net_saved: "net_run J s \<Longrightarrow> net_run J (snd (net_admitted_take_dirty s))"

lemma net_host_inv_mono:
  "net_host_inv adm h \<Longrightarrow> set adm \<subseteq> set adm' \<Longrightarrow> net_host_inv adm' h"
  by (auto simp: net_host_inv_def list_ex_iff)

lemma admit_admitted: "\<exists>new. ns_admitted (net_admit h s) = ns_admitted s @ new"
  by (simp add: net_admit_def)

lemma admit_bounded: "length (ns_admitted s) \<le> 16 \<Longrightarrow> length (ns_admitted (net_admit h s)) \<le> 16"
  by (simp add: net_admit_def)

lemma seed_fold:
  "ns_hosts (fold (\<lambda>h s. if h = [] then s else net_admit h s) hs s) = ns_hosts s \<and>
   (length (ns_admitted s) \<le> 16 \<longrightarrow>
      length (ns_admitted (fold (\<lambda>h s. if h = [] then s else net_admit h s) hs s)) \<le> 16) \<and>
   (\<exists>new. ns_admitted (fold (\<lambda>h s. if h = [] then s else net_admit h s) hs s) = ns_admitted s @ new)"
proof (induction hs arbitrary: s)
  case (Cons h hs)
  let ?s = "if h = [] then s else net_admit h s"
  have "\<exists>new. ns_admitted ?s = ns_admitted s @ new" using admit_admitted [of h s] by simp
  with Cons.IH [of ?s] admit_bounded [of s h] show ?case by auto
qed simp

lemma update_mem: "x \<in> set (xs[i := y]) \<Longrightarrow> x \<in> set xs \<or> x = y"
  using set_update_subset_insert [of xs i y] by auto

lemma net_inv_update:
  assumes "net_inv s" "i < length (ns_hosts s)" "net_host_inv (ns_admitted s) (f (ns_hosts s ! i))"
  shows "net_inv (update_host i f s)"
  using assms by (auto simp: net_inv_def update_host_def dest: update_mem)

lemma observe_inv:
  assumes inv: "net_inv s" shows "net_inv (net_observe J host json now s)"
proof (cases "find_host host s")
  case None
  then show ?thesis using inv by (simp add: net_observe_def)
next
  case (Some i)
  have i: "i < length (ns_hosts s)" using find_host_Some [OF Some] by simp
  let ?h = "ns_hosts s ! i"
  have h: "net_host_inv (ns_admitted s) ?h" using inv i by (simp add: net_inv_def)
  show ?thesis
  proof (cases "Option.bind json (net_parse_json J)")
    case None
    have "net_host_inv (ns_admitted s) (?h\<lparr>nh_state := NET_COL_STALE\<rparr>)"
      if "nh_state ?h = NET_COL_LIVE \<or> net_is_admitted (nh_host ?h) s"
      using h that by (auto simp: net_host_inv_def net_is_admitted_def)
    with observe_absent [OF Some None] inv i show ?thesis by (auto intro!: net_inv_update)
  next
    case good: (Some r0)
    note eff = observe_good [OF Some good, where now = now]
    let ?r = "if nh_has_ack ?h then net_apply_ack r0 (nh_ack ?h) else r0"
    let ?new = "accumulate (nr_bytes_per_s ?r) now (?h\<lparr>nh_rec := ?r, nh_has_rec := True, nh_state := NET_COL_LIVE\<rparr>)"
    let ?adm = "ns_admitted (net_admit (nh_host ?h) s)"
    have "record_ok r0" using good net_parse_ok by (cases json) auto
    then have "record_ok ?r" by (simp add: apply_ack_ok)
    moreover have "0 \<le> nh_acc_n ?new" using h by (simp add: accumulate_def Let_def net_host_inv_def)
    moreover have "length (nh_hist ?new) \<le> 60" using h by (intro accumulate_hist) (simp add: net_host_inv_def)
    ultimately have "net_host_inv ?adm ?new" by (simp add: net_host_inv_def)
    moreover have "set (ns_admitted s) \<subseteq> set ?adm" using admit_admitted [of "nh_host ?h" s] by auto
    ultimately show ?thesis
      using inv admit_bounded [of s "nh_host ?h"] net_host_inv_mono [of "ns_admitted s" _ ?adm]
      unfolding net_inv_def eff by (auto dest!: update_mem)
  qed
qed

lemma seed_inv_net: assumes inv: "net_inv s" shows "net_inv (net_seed_admitted hosts s)"
proof -
  let ?t = "fold (\<lambda>h s. if h = [] then s else net_admit h s) hosts s"
  note f = seed_fold [of hosts s]
  then have sub: "set (ns_admitted s) \<subseteq> set (ns_admitted ?t)" by auto
  have "net_host_inv (ns_admitted ?t) h" if "h \<in> set (ns_hosts s)" for h
    using inv that net_host_inv_mono [OF _ sub] by (simp add: net_inv_def)
  then show ?thesis using f inv
    by (auto simp: net_seed_admitted_def Let_def net_inv_def net_host_inv_def net_is_admitted_def)
qed

lemma observe_ack_inv: assumes inv: "net_inv s" shows "net_inv (net_observe_ack J host json s)"
proof (cases "find_host host s")
  case None
  with inv show ?thesis by (simp add: net_observe_ack_def)
next
  case (Some i)
  then have i: "i < length (ns_hosts s)" by (simp add: find_host_Some)
  have h: "net_host_inv (ns_admitted s) (ns_hosts s ! i)" using inv i by (simp add: net_inv_def)
  show ?thesis unfolding net_observe_ack_def Some
    using net_inv_update [OF inv i] h by (simp add: net_host_inv_def split: option.split)
qed

lemma net_run_inv: "net_run J s \<Longrightarrow> net_inv s"
proof (induction rule: net_run.induct)
  case (net_start hosts s)
  show ?case by (auto simp: net_set_hosts_def net_inv_def net_host_inv_def blank_host_def dest: in_set_takeD)
next
  case (net_seed s hosts)
  show ?case by (rule seed_inv_net [OF net_seed.IH])
next
  case (net_poll_ack s host json)
  show ?case by (rule observe_ack_inv [OF net_poll_ack.IH])
next
  case (net_poll s host json now)
  show ?case by (rule observe_inv [OF net_poll.IH])
next
  case (net_saved s)
  then show ?case by (simp add: net_admitted_take_dirty_def net_inv_def)
qed

section \<open>Properties\<close>

text \<open>What a document must have to be a record, field by field.\<close>

definition counter_field :: "'j cjson \<Rightarrow> 'j \<Rightarrow> string \<Rightarrow> bool" where
  "counter_field J v k \<longleftrightarrow> item_null J v k \<or> (\<exists>d. item_number J v k = Some d \<and> 0 \<le> d)"

definition flag_field :: "'j cjson \<Rightarrow> 'j \<Rightarrow> string \<Rightarrow> bool" where
  "flag_field J v k \<longleftrightarrow> (\<exists>b. item_bool J v k = Some b)"

definition stamp_value :: "'j cjson \<Rightarrow> 'j \<Rightarrow> bool" where
  "stamp_value J d \<longleftrightarrow> (\<exists>x. cj_number J d = Some x \<and> good_stamp x)"

definition net_contract :: "'j cjson \<Rightarrow> 'j \<Rightarrow> bool" where
  "net_contract J v \<longleftrightarrow>
     (\<exists>l. item_string J v ''leg'' = Some l \<and> (l = ''10g'' \<or> l = ''5g'' \<or> l = ''1g'' \<or> l = ''down'')) \<and>
     counter_field J v ''speed_mbps'' \<and> flag_field J v ''bond'' \<and> counter_field J v ''lfc'' \<and>
     counter_field J v ''lfc_delta_24h'' \<and> counter_field J v ''rx_errors'' \<and> counter_field J v ''rx_errors_delta_24h'' \<and>
     (\<exists>u. item_object J v ''reach'' = Some u \<and> flag_field J u ''udm'' \<and> flag_field J u ''peers'' \<and> flag_field J u ''wan'') \<and>
     (\<exists>u. item_object J v ''rtt_ms'' = Some u \<and> counter_field J u ''udm'' \<and> counter_field J u ''wan'') \<and>
     (\<exists>d. item_number J v ''bytes_per_s'' = Some d \<and> 0 \<le> d) \<and>
     (\<exists>ds. item_array J v ''drops'' = Some ds \<and> list_all (stamp_value J) ds) \<and>
     (\<exists>t. item_number J v ''ts'' = Some t \<and> good_stamp t)"

lemma nullable_accepts:
  "(\<exists>i. get_nullable_long J v k = Some i) \<longleftrightarrow> counter_field J v k"
  "(\<exists>d. get_nullable_double J v k = Some d) \<longleftrightarrow> counter_field J v k"
  by (auto simp: get_nullable_long_def get_nullable_double_def counter_field_def split: option.split)

lemma flag_accepts: "(\<exists>b. net_get_bool J v k = Some b) \<longleftrightarrow> flag_field J v k"
  by (simp add: net_get_bool_def flag_field_def)

lemma leg_accepts: "(\<exists>x. parse_leg l = Some x) \<longleftrightarrow> l = ''10g'' \<or> l = ''5g'' \<or> l = ''1g'' \<or> l = ''down''"
  by (simp add: parse_leg_def)

lemma drops_accept: "(\<exists>out. parse_drops J ds acc = Some out) \<longleftrightarrow> list_all (stamp_value J) ds"
proof (induction ds arbitrary: acc)
  case (Cons d ds)
  show ?case
  proof (cases "stamp_value J d")
    case True
    then obtain x where "cj_number J d = Some x" "good_stamp x" by (auto simp: stamp_value_def)
    then show ?thesis using Cons True by (simp add: checked_def)
  next
    case False
    then have "checked good_stamp (cj_number J d) = None" by (auto simp: checked_def stamp_value_def split: option.split)
    then show ?thesis using False by simp
  qed
qed simp

lemma bind_defined: "(\<exists>r. Option.bind x f = Some r) \<longleftrightarrow> (\<exists>y. x = Some y \<and> (\<exists>r. f y = Some r))"
  by (cases x) simp_all

lemma net_parse_accepts:
  "(\<exists>r. net_parse_json J s = Some r) \<longleftrightarrow> (\<exists>v. cj_parse J s = Some v \<and> net_contract J v)"
  unfolding net_parse_json_def bind_defined checked_Some net_contract_def
  by (simp only: ex_simps option.inject simp_thms nullable_accepts flag_accepts leg_accepts drops_accept) blast


definition good_doc :: jv where
  "good_doc = JObj [(''leg'', JStr ''1g''), (''speed_mbps'', JNum 1000), (''bond'', JBool True),
     (''lfc'', JNum 7), (''lfc_delta_24h'', JNum 2), (''rx_errors'', JNull),
     (''rx_errors_delta_24h'', JNull),
     (''reach'', JObj [(''udm'', JBool True), (''peers'', JBool True), (''wan'', JBool True)]),
     (''rtt_ms'', JObj [(''udm'', JNum (1/2)), (''wan'', JNull)]), (''bytes_per_s'', JNum 1000000),
     (''drops'', JArr [JNum 1700000000]), (''ts'', JNum 1700000100), (''nic'', JStr ''eno1'')]"

definition net_doc :: "jv cjson" where
  "net_doc = tree_cjson (\<lambda>s. if s = ''good'' then Some good_doc else None)"

definition good_record :: net_record where
  "good_record = \<lparr>nr_leg = NET_LEG_1G, nr_speed_mbps = 1000, nr_bond = True, nr_lfc = 7,
     nr_lfc_delta_24h = 2, nr_rx_errors = - 1, nr_rx_errors_delta_24h = - 1, nr_reach_udm = True,
     nr_reach_peers = True, nr_reach_wan = True, nr_rtt_udm = 1/2, nr_rtt_wan = - 1,
     nr_bytes_per_s = 1000000, nr_drops = [1700000000], nr_ts = 1700000100, nr_nic = ''eno1''\<rparr>"

lemma parse_good: "net_parse_json net_doc ''good'' = Some good_record"
  by code_simp


text \<open>C18: an acknowledgement never hides a red state and never raises anything: the attention
  with it is the attention without it, except that a warning may become none, and a bond that
  runs on its 1G backup stays a warning.\<close>

theorem ack_never_hides:
  assumes "h' = h\<lparr>nh_rec := net_apply_ack (nh_rec h) a\<rparr>"
  shows "(net_column_attn h' = NET_ATTN_CRIT \<longleftrightarrow> net_column_attn h = NET_ATTN_CRIT) \<and>
    (net_column_attn h' \<noteq> NET_ATTN_NONE \<longrightarrow> net_column_attn h' = net_column_attn h) \<and>
    (nr_leg (nh_rec h) = NET_LEG_1G \<and> nr_bond (nh_rec h) \<longrightarrow> net_column_attn h' = net_column_attn h)"
proof -
  have lower: "0 < effective_delta d c b \<Longrightarrow> 0 < d" for d c b
    using effective_delta_le [of d c b] by linarith
  show ?thesis
    unfolding assms net_column_attn_def
    by (auto simp: Let_def net_apply_ack_def filter_empty_conv dest: lower)
qed

definition on_backup :: net_host where
  "on_backup = (blank_host ''kai'')\<lparr>nh_state := NET_COL_LIVE, nh_has_rec := True, nh_rec := good_record\<rparr>"

theorem ack_never_hides_witness:
  "net_column_attn (on_backup\<lparr>nh_rec := net_apply_ack good_record
     \<lparr>na_lfc = 7, na_rx_errors = - 1, na_ts = 1700000200, na_by = ''ken''\<rparr>\<rparr>) = NET_ATTN_WARN"
proof -
  have h: "nh_rec on_backup = good_record" "net_column_attn on_backup = NET_ATTN_WARN"
    by (simp_all add: on_backup_def net_column_attn_def good_record_def)
  show ?thesis
    using ack_never_hides [OF refl, of on_backup "\<lparr>na_lfc = 7, na_rx_errors = - 1, na_ts = 1700000200, na_by = ''ken''\<rparr>"]
    by (simp add: h) (simp add: good_record_def)
qed

text \<open>Some of a count of the last day is newer than an acknowledgement: unless the counter stands at the
  baseline that was acknowledged, or was reset and is at 0.\<close>

definition newer :: "int \<Rightarrow> int \<Rightarrow> int \<Rightarrow> bool" where
  "newer delta counter base \<longleftrightarrow> 0 < delta \<and> \<not> (0 \<le> base \<and> (counter = base \<or> counter = 0))"

lemma effective_delta_newer: "0 < effective_delta delta counter base \<longleftrightarrow> newer delta counter base"
  by (auto simp: effective_delta_def newer_def Let_def)

text \<open>C19: an acknowledgement clears what it reviewed and nothing newer: under it a live column warns exactly
  when its bond is on the backup, a counter has moved on from the acknowledged baseline, or a link drop is
  later than the acknowledgement; those drops are kept, in order, and a counter that has grown shows its
  growth since the baseline, at most the count of the day.\<close>

theorem ack_clears_reviewed:
  assumes "nh_state h = NET_COL_LIVE" "nh_rec h = net_apply_ack r a"
  shows "net_column_attn h =
    (if nr_leg r = NET_LEG_DOWN \<or> \<not> nr_reach_udm r \<or> \<not> nr_reach_peers r \<or> \<not> nr_reach_wan r then NET_ATTN_CRIT
     else if nr_leg r = NET_LEG_1G \<and> nr_bond r \<or> newer (nr_lfc_delta_24h r) (nr_lfc r) (na_lfc a) \<or>
       newer (nr_rx_errors_delta_24h r) (nr_rx_errors r) (na_rx_errors a) \<or> (\<exists>d \<in> set (nr_drops r). na_ts a < d)
     then NET_ATTN_WARN else NET_ATTN_NONE) \<and>
    nr_drops (nh_rec h) = filter (\<lambda>d. na_ts a < d) (nr_drops r) \<and>
    (0 \<le> na_lfc a \<and> na_lfc a \<le> nr_lfc r \<and> 0 \<le> nr_lfc_delta_24h r \<longrightarrow>
       nr_lfc_delta_24h (nh_rec h) = min (nr_lfc_delta_24h r) (nr_lfc r - na_lfc a)) \<and>
    (0 \<le> na_rx_errors a \<and> na_rx_errors a \<le> nr_rx_errors r \<and> 0 \<le> nr_rx_errors_delta_24h r \<longrightarrow>
       nr_rx_errors_delta_24h (nh_rec h) = min (nr_rx_errors_delta_24h r) (nr_rx_errors r - na_rx_errors a))"
proof -
  have m: "0 \<le> b \<and> b \<le> c \<and> 0 \<le> d \<longrightarrow> effective_delta d c b = min d (c - b)" for b c d
    by (auto simp: effective_delta_def Let_def)
  have drops: "filter (\<lambda>d. na_ts a < d) (nr_drops r) \<noteq> [] \<longleftrightarrow> (\<exists>d \<in> set (nr_drops r). na_ts a < d)"
    by (simp add: filter_empty_conv)
  show ?thesis
  proof (intro conjI)
    show "net_column_attn h =
      (if nr_leg r = NET_LEG_DOWN \<or> \<not> nr_reach_udm r \<or> \<not> nr_reach_peers r \<or> \<not> nr_reach_wan r then NET_ATTN_CRIT
       else if nr_leg r = NET_LEG_1G \<and> nr_bond r \<or> newer (nr_lfc_delta_24h r) (nr_lfc r) (na_lfc a) \<or>
         newer (nr_rx_errors_delta_24h r) (nr_rx_errors r) (na_rx_errors a) \<or> (\<exists>d \<in> set (nr_drops r). na_ts a < d)
       then NET_ATTN_WARN else NET_ATTN_NONE)"
      unfolding net_column_attn_def Let_def effective_delta_newer [symmetric] drops [symmetric]
      using assms by (simp add: net_apply_ack_def)
  qed (use assms m in \<open>simp_all add: net_apply_ack_def\<close>)
qed

definition reviewed_record :: net_record where
  "reviewed_record = good_record\<lparr>nr_leg := NET_LEG_10G, nr_rx_errors := 4, nr_rx_errors_delta_24h := 4\<rparr>"

theorem ack_clears_reviewed_witness:
  "net_column_attn (on_backup\<lparr>nh_rec := net_apply_ack reviewed_record
     \<lparr>na_lfc = 7, na_rx_errors = 4, na_ts = 1700000200, na_by = ''ken''\<rparr>\<rparr>) = NET_ATTN_NONE \<and>
   net_column_attn (on_backup\<lparr>nh_rec := net_apply_ack reviewed_record
     \<lparr>na_lfc = 7, na_rx_errors = 3, na_ts = 1700000200, na_by = ''ken''\<rparr>\<rparr>) = NET_ATTN_WARN"
proof -
  let ?a = "\<lambda>rx. \<lparr>na_lfc = 7, na_rx_errors = rx, na_ts = 1700000200, na_by = ''ken''\<rparr>"
  have "nh_state (on_backup\<lparr>nh_rec := net_apply_ack reviewed_record (?a rx)\<rparr>) = NET_COL_LIVE" for rx
    by (simp add: on_backup_def)
  from ack_clears_reviewed [OF this [of 4]] ack_clears_reviewed [OF this [of 3]]
  show ?thesis by (simp add: reviewed_record_def good_record_def newer_def)
qed

text \<open>The admitted names fit, and one that was not cut is there once: a name of 64 bytes or more is stored as
  its first 63 and compared whole, so only such a name can come twice.\<close>

definition admitted_once :: "string list \<Rightarrow> bool" where
  "admitted_once adm \<longleftrightarrow> (\<forall>a \<in> set adm. length a < 64) \<and> distinct (filter (\<lambda>a. length a < 63) adm)"

lemma admit_once: "admitted_once (ns_admitted s) \<Longrightarrow> admitted_once (ns_admitted (net_admit h s))"
proof -
  assume s: "admitted_once (ns_admitted s)"
  show ?thesis
  proof (cases "length h < 64")
    case True
    then have "net_is_admitted h s \<longleftrightarrow> h \<in> set (ns_admitted s)" "buf_copy 64 h = h"
      using s by (auto simp: net_is_admitted_def list_ex_iff streq_fits admitted_once_def)
    then show ?thesis using s True by (simp add: net_admit_def admitted_once_def)
  next
    case False
    then have "length (buf_copy 64 h) = 63" by (simp add: buf_copy_def)
    then show ?thesis using s by (simp add: net_admit_def admitted_once_def)
  qed
qed

lemma seed_once:
  "admitted_once (ns_admitted s) \<Longrightarrow>
     admitted_once (ns_admitted (fold (\<lambda>h s. if h = [] then s else net_admit h s) hs s))"
  by (induction hs arbitrary: s) (simp_all add: admit_once)

lemma run_once: "net_run J s \<Longrightarrow> admitted_once (ns_admitted s)"
proof (induction rule: net_run.induct)
  case (net_start hosts s)
  show ?case by (simp add: net_set_hosts_def admitted_once_def)
next
  case (net_seed s hosts)
  then show ?case by (simp add: net_seed_admitted_def Let_def seed_once)
next
  case (net_poll_ack s host json)
  then show ?case by (simp add: net_observe_ack_def split: option.split)
next
  case (net_poll s host json now)
  show ?case
  proof (cases "find_host host s")
    case None
    then show ?thesis using net_poll by (simp add: net_observe_def)
  next
    case (Some i)
    show ?thesis
    proof (cases "Option.bind json (net_parse_json J)")
      case None
      then show ?thesis using net_poll observe_absent [OF Some None] by simp
    next
      case good: (Some r0)
      show ?thesis unfolding observe_good(2) [OF Some good] by (rule admit_once [OF net_poll.IH])
    qed
  qed
next
  case (net_saved s)
  then show ?case by (simp add: net_admitted_take_dirty_def)
qed


definition net_empty :: net_state where
  "net_empty = \<lparr>ns_hosts = [], ns_admitted = [], ns_dirty = False\<rparr>"


text \<open>Once sixteen other hosts are admitted, each poll with a good payload of a host that is
  not raises the dirty flag although the admitted set does not grow, so the file is saved
  again at every poll.\<close>

theorem net_dirty_without_growth:
  assumes "find_host host s = Some i" "net_parse_json J json = Some r"
    and "length (ns_admitted s) = NET_ADMITTED_MAX" "\<not> net_is_admitted (nh_host (ns_hosts s ! i)) s"
  shows "ns_dirty (net_observe J host (Some json) now s) \<and>
    ns_admitted (net_observe J host (Some json) now s) = ns_admitted s"
  using observe_good [OF assms(1), of "Some json" J r now] assms(2,3,4) by (simp add: net_admit_def)

definition crowded :: net_state where
  "crowded = \<lparr>ns_hosts = [blank_host ''kai''], ns_admitted = map (\<lambda>i. [char_of i]) [97..<113], ns_dirty = False\<rparr>"

theorem net_dirty_without_growth_witness:
  "ns_dirty (net_observe net_doc ''kai'' (Some ''good'') 5 crowded) \<and>
   ns_admitted (net_observe net_doc ''kai'' (Some ''good'') 5 crowded) = ns_admitted crowded"
proof -
  have found: "find_host ''kai'' crowded = Some 0"
    by (simp add: find_host_def crowded_def blank_host_def)
  have full: "length (ns_admitted crowded) = 16" by (simp add: crowded_def)
  have other: "\<not> net_is_admitted (nh_host (ns_hosts crowded ! 0)) crowded" by code_simp
  show ?thesis by (rule net_dirty_without_growth [OF found parse_good full other])
qed

lemma seed_fold_set:
  assumes "\<forall>h \<in> set hs. length h < 64" "length (ns_admitted s) + length hs \<le> 16"
    and "\<forall>a \<in> set (ns_admitted s). length a < 64"
  shows "set (ns_admitted (fold (\<lambda>h s. if h = [] then s else net_admit h s) hs s)) =
    set (ns_admitted s) \<union> (set hs - {[]})"
  using assms
proof (induction hs arbitrary: s)
  case Nil
  then show ?case by simp
next
  case (Cons h hs)
  let ?s = "if h = [] then s else net_admit h s"
  have adm: "net_is_admitted h s \<longleftrightarrow> h \<in> set (ns_admitted s)"
    using Cons.prems(3) by (auto simp: net_is_admitted_def list_ex_iff streq_fits)
  have len: "length h < 64" using Cons.prems(1) by simp
  have s: "set (ns_admitted ?s) = set (ns_admitted s) \<union> ({h} - {[]})"
    using adm Cons.prems(2) len by (auto simp: net_admit_def)
  have "length (ns_admitted ?s) + length hs \<le> 16" using Cons.prems(2) by (simp add: net_admit_def)
  moreover have "\<forall>a \<in> set (ns_admitted ?s). length a < 64" unfolding s using Cons.prems(3) len by auto
  ultimately have "set (ns_admitted (fold (\<lambda>h s. if h = [] then s else net_admit h s) hs ?s)) =
      set (ns_admitted ?s) \<union> (set hs - {[]})"
    using Cons.IH [of ?s] Cons.prems(1) by simp
  with s show ?case by auto
qed

text \<open>A restart does not make a dead publisher look calmer: after seeding from the file, and
  however often the key is then absent or untrustworthy, the column of a host on file is stale
  (and red), and the column of a host that is not on file is "no feed".\<close>

theorem net_restart_stale:
  assumes "\<forall>h \<in> set seeds. length h < 64" "length seeds \<le> NET_ADMITTED_MAX"
    and "\<forall>(host, json, now) \<in> set polls. Option.bind json (net_parse_json J) = None"
    and "c \<in> set (ns_hosts (fold (\<lambda>(host, json, now). net_observe J host json now) polls
           (net_seed_admitted seeds (net_set_hosts cols s))))"
  shows "nh_state c = (if nh_host c \<in> set seeds then NET_COL_STALE else NET_COL_NOFEED) \<and>
    net_column_attn c = (if nh_host c \<in> set seeds then NET_ATTN_CRIT else NET_ATTN_NONE)"
proof -
  define s0 where "s0 = net_seed_admitted seeds (net_set_hosts cols s)"
  let ?t = "fold (\<lambda>h s. if h = [] then s else net_admit h s) seeds (net_set_hosts cols s)"
  have adm_set: "set (ns_admitted ?t) = set seeds - {[]}"
    using seed_fold_set [of seeds "net_set_hosts cols s"] assms(1,2) by (simp add: net_set_hosts_def)
  then have "length a < 64" if "a \<in> set (ns_admitted ?t)" for a using assms(1) that by auto
  then have adm: "net_is_admitted h s0 \<longleftrightarrow> h \<in> set seeds - {[]}" for h
    using adm_set by (auto simp: s0_def net_seed_admitted_def Let_def net_is_admitted_def list_ex_iff streq_fits)
  have hosts: "nh_state h = (if net_is_admitted (nh_host h) s0 then NET_COL_STALE else NET_COL_NOFEED) \<and> nh_host h \<noteq> []"
    if "h \<in> set (ns_hosts s0)" for h
    using that seed_fold [of seeds "net_set_hosts cols s"]
    by (auto simp: s0_def net_seed_admitted_def Let_def net_set_hosts_def blank_host_def net_is_admitted_def
        buf_copy_def dest: in_set_takeD)
  have keep: "h\<lparr>nh_state := NET_COL_STALE\<rparr> = h" if "nh_state h = NET_COL_STALE" for h :: net_host
    using that by (cases h) simp
  have same: "net_observe J host json now s0 = s0"
    if none: "Option.bind json (net_parse_json J) = None" for host json now
  proof (cases "find_host host s0")
    case None
    then show ?thesis by (simp add: net_observe_def)
  next
    case (Some i)
    then have "i < length (ns_hosts s0)" by (simp add: find_host_Some)
    then have "ns_hosts s0 ! i \<in> set (ns_hosts s0)" by simp
    from hosts [OF this] have "update_host i (\<lambda>h. h\<lparr>nh_state := NET_COL_STALE\<rparr>) s0 = s0"
        if "nh_state (ns_hosts s0 ! i) = NET_COL_LIVE \<or> net_is_admitted (nh_host (ns_hosts s0 ! i)) s0"
      using that by (auto simp: update_host_def keep split: if_splits)
    then show ?thesis by (simp add: observe_absent [OF Some none])
  qed
  have "fold (\<lambda>(host, json, now). net_observe J host json now) polls s0 = s0"
    using assms(3) by (induction polls) (auto simp: same)
  then have "c \<in> set (ns_hosts s0)" using assms(4) by (simp add: s0_def)
  from hosts [OF this] show ?thesis by (auto simp: adm net_column_attn_def)
qed

theorem net_restart_stale_witness:
  "map nh_state (ns_hosts (net_observe net_doc ''kai'' (Some ''junk'') 5
     (net_seed_admitted [''kai''] (net_set_hosts [''kai''] net_empty)))) = [NET_COL_STALE]"
proof -
  let ?s = "net_observe net_doc ''kai'' (Some ''junk'') 5
     (net_seed_admitted [''kai''] (net_set_hosts [''kai''] net_empty))"
  have "map nh_host (ns_hosts ?s) = [''kai'']" by code_simp
  then obtain c where c: "ns_hosts ?s = [c]" "nh_host c = ''kai''" by auto
  have junk: "net_parse_json net_doc ''junk'' = None"
    by (simp add: net_parse_json_def net_doc_def tree_cjson_def)
  have "nh_state c = NET_COL_STALE"
    using net_restart_stale [of "[''kai'']" "[(''kai'', Some ''junk'', 5)]" net_doc c "[''kai'']" net_empty]
    by (simp add: c junk)
  then show ?thesis by (simp add: c(1))
qed

end
