(* ===== verification/Net_Derive.thy ===== *)
theory Net_Derive
  imports Netstate
begin

text \<open>
  The second half of \<open>src/src/netstate.c\<close>: what the network card draws.  The texts of a
  column, and \<open>net_derive\<close>, which turns the columns into one level, a headline (\<open>verdict\<close>,
  80 bytes) and a line under it (\<open>why\<close>, 192 bytes).
\<close>

section \<open>Column texts\<close>

text \<open>The bytes of a middle dot between spaces, and of an em dash.\<close>

definition mid_dot :: string where
  "mid_dot = [CHR 0x20, CHR 0xC2, CHR 0xB7, CHR 0x20]"

definition em_dash :: string where
  "em_dash = [CHR 0xE2, CHR 0x80, CHR 0x94]"

definition net_leg_text :: "net_leg \<Rightarrow> string" where
  "net_leg_text leg =
     (case leg of NET_LEG_10G \<Rightarrow> ''10G'' | NET_LEG_5G \<Rightarrow> ''5G'' | NET_LEG_1G \<Rightarrow> ''1G''
      | NET_LEG_DOWN \<Rightarrow> ''DOWN'')"

definition age_s :: "net_host \<Rightarrow> double \<Rightarrow> int" where
  "age_s h now = (let a = now - nr_ts (nh_rec h) in if a < 0 then 0 else cast_long (a + 1 / 2))"

text \<open>\<open>r->ndrops > 0 ? r->ndrops : (int)r->lfc_delta_24h\<close>\<close>

definition drops_shown :: "net_record \<Rightarrow> int" where
  "drops_shown r =
     (if nr_drops r \<noteq> [] then int (length (nr_drops r)) else c_int (nr_lfc_delta_24h r))"

text \<open>The subtitle in a buffer of \<open>n\<close> bytes, and whether it is an attention line.\<close>

definition net_subtitle :: "net_host \<Rightarrow> double \<Rightarrow> nat \<Rightarrow> string \<times> bool" where
  "net_subtitle h now n =
     (let r = nh_rec h; put = (\<lambda>s. (buf_copy n s, True)) in
      if nh_state h = NET_COL_NOFEED then put ''NO FEED''
      else if nh_state h = NET_COL_STALE \<and> \<not> nh_has_rec h then put (''STALE'' @ mid_dot @ ''no record yet'')
      else if nh_state h = NET_COL_STALE then put (''STALE'' @ mid_dot @ dec_int (age_s h now) @ '' s'')
      else if nr_leg r = NET_LEG_DOWN then put ''NO LINK''
      else if net_is_flapping h
      then (let d = drops_shown r
            in put (''FLAPPING'' @ mid_dot @ dec_int d @ '' drop'' @ (if d = 1 then '''' else ''s'')))
      else if nr_leg r = NET_LEG_1G \<and> nr_bond r then put (''10G down'' @ mid_dot @ ''on 1G backup'')
      else if \<not> nr_reach_udm r then put ''no path to UDM''
      else if \<not> nr_reach_wan r then put ''no path to Internet''
      else if \<not> nr_reach_peers r then put ''no fabric peers''
      else (buf_copy n (if nr_bond r then ''bond primary'' else ''single NIC''), False))"

definition net_rx_text :: "net_host \<Rightarrow> nat \<Rightarrow> string" where
  "net_rx_text h n =
     buf_copy n (if \<not> nh_has_rec h \<or> nr_rx_errors_delta_24h (nh_rec h) < 0 then ''rx err '' @ em_dash
       else ''rx err '' @ dec_int (nr_rx_errors_delta_24h (nh_rec h)))"

section \<open>The summary\<close>

datatype net_level = NET_LEVEL_OK | NET_LEVEL_WARN | NET_LEVEL_CRIT | NET_LEVEL_NONE

record net_summary =
  sm_level :: net_level
  sm_verdict :: string
  sm_why :: string
  sm_udm_up :: bool
  sm_wan_up :: bool
  sm_uplink_up :: bool
  sm_udm_ms :: double
  sm_wan_ms :: double

abbreviation "VERDICT_LEN \<equiv> 80 :: nat"
abbreviation "WHY_LEN \<equiv> 192 :: nat"

definition median :: "double list \<Rightarrow> double" where
  "median v =
     (if v = [] then - 1
      else let s = sort v; n = length v
           in if odd n then s ! (n div 2) else (s ! (n div 2 - 1) + s ! (n div 2)) / 2)"

definition problem_rank :: "net_host \<Rightarrow> nat" where
  "problem_rank h =
     (case net_column_attn h of
        NET_ATTN_CRIT \<Rightarrow> if nh_state h = NET_COL_STALE then 2 else 3
      | NET_ATTN_WARN \<Rightarrow> 1
      | NET_ATTN_NONE \<Rightarrow> 0)"

definition set_headline :: "net_level \<Rightarrow> string \<Rightarrow> string \<Rightarrow> net_summary \<Rightarrow> net_summary" where
  "set_headline level verdict why s =
     s\<lparr>sm_level := level, sm_verdict := buf_copy VERDICT_LEN verdict, sm_why := buf_copy WHY_LEN why\<rparr>"

definition host_headline :: "net_host \<Rightarrow> double \<Rightarrow> net_summary \<Rightarrow> net_summary" where
  "host_headline h now s =
     (let r = nh_rec h; span = (if nr_drops r \<noteq> [] then ''60 min'' else ''24 h'') in
      if nh_state h = NET_COL_STALE
      then set_headline NET_LEVEL_WARN (nh_host h @ '' STALE'')
             (if nh_has_rec h then ''no feed for '' @ dec_int (age_s h now) @ '' s''
              else ''no record since the panel restarted'') s
      else if nr_leg r = NET_LEG_DOWN
      then set_headline NET_LEVEL_CRIT (nh_host h @ '' DOWN'')
             (if nr_bond r then ''no active leg on the bond'' else ''no carrier'') s
      else if \<not> nr_reach_udm r \<or> \<not> nr_reach_wan r \<or> \<not> nr_reach_peers r
      then set_headline NET_LEVEL_CRIT (nh_host h @ '' NO PATH'')
             (if \<not> nr_reach_udm r then ''UDM unreachable from this host''
              else if \<not> nr_reach_wan r then ''Internet unreachable from this host''
              else ''no fabric peer answers'') s
      else if net_is_flapping h
      then set_headline NET_LEVEL_WARN (nh_host h @ '' FLAPPING'')
             (if 0 < nr_rx_errors_delta_24h r
              then dec_int (drops_shown r) @ '' link drops in '' @ span @ mid_dot @ ''rx errors +'' @
                dec_int (nr_rx_errors_delta_24h r) @ mid_dot @ ''still on '' @ net_leg_text (nr_leg r)
              else dec_int (drops_shown r) @ '' link drops in '' @ span @ mid_dot @ ''still on '' @
                net_leg_text (nr_leg r)) s
      else if nr_leg r = NET_LEG_1G \<and> nr_bond r
      then set_headline NET_LEVEL_WARN (nh_host h @ '' ON 1G'')
             (nh_host h @ '' 10G link down'' @ mid_dot @ ''bond on 1G backup'') s
      else if 0 < nr_lfc_delta_24h r \<or> nr_drops r \<noteq> []
      then set_headline NET_LEVEL_WARN (nh_host h @ '' LINK DROP'')
             (''1 link drop in '' @ span @ mid_dot @ ''back on '' @ net_leg_text (nr_leg r)) s
      else set_headline NET_LEVEL_WARN (nh_host h @ '' RX ERRORS'')
             (''rx errors +'' @ dec_int (nr_rx_errors_delta_24h r) @ '' in 24 h on '' @
              net_leg_text (nr_leg r)) s)"

definition append_to :: "nat \<Rightarrow> string \<Rightarrow> string \<Rightarrow> string" where
  "append_to n buf s =
     (if n \<le> length buf + 1 then buf else buf @ buf_copy (n - length buf) s)"

definition append_why :: "string \<Rightarrow> net_summary \<Rightarrow> net_summary" where
  "append_why t s = s\<lparr>sm_why := append_to WHY_LEN (sm_why s) t\<rparr>"

text \<open>The loop that picks the headline: the first column of the greatest rank, that rank, and
  the number of columns with a problem.\<close>

definition pick_worst :: "net_host list \<Rightarrow> net_host option \<times> nat \<times> nat" where
  "pick_worst hs =
     fold (\<lambda>h (worst, rank, n). let rk = problem_rank h
            in (if rank < rk then Some h else worst, if rank < rk then rk else rank,
                if 0 < rk then n + 1 else n)) hs (None, 0, 0)"

definition is_live :: "net_host \<Rightarrow> bool" where
  "is_live h \<longleftrightarrow> nh_state h = NET_COL_LIVE"

text \<open>The tail of \<open>net_derive\<close>: every column is fine.\<close>

definition all_well :: "net_host list \<Rightarrow> net_summary \<Rightarrow> net_summary" where
  "all_well hs s =
     (let bonds = filter (\<lambda>h. nr_bond (nh_rec h)) (filter is_live hs);
          bonds10 = filter (\<lambda>h. nr_leg (nh_rec h) = NET_LEG_10G) bonds;
          s1 = s\<lparr>sm_level := NET_LEVEL_OK,
                 sm_verdict := (if bonds \<noteq> [] \<and> length bonds10 = length bonds then ''ALL 10G'' else ''ALL UP'')\<rparr>;
          s2 = (if bonds \<noteq> []
                then s1\<lparr>sm_why := buf_copy WHY_LEN (dec (length bonds10) @ '' bond'' @
                       (if length bonds10 = 1 then '''' else ''s'') @ '' on 10G'')\<rparr>
                else s1);
          s3 = fold (\<lambda>h s. if is_live h \<and> \<not> nr_bond (nh_rec h)
                     then append_why ((if sm_why s \<noteq> [] then mid_dot else []) @ nh_host h @ '' '' @
                            net_leg_text (nr_leg (nh_rec h))) s
                     else s) hs s2;
          s4 = (if 0 \<le> sm_wan_ms s3
                then append_why ((if sm_why s3 \<noteq> [] then mid_dot else []) @ ''WAN '' @
                       dec_int (round_even (sm_wan_ms s3)) @ '' ms'') s3
                else s3)
      in fold (\<lambda>h s. if nh_state h = NET_COL_NOFEED then append_why (mid_dot @ nh_host h @ '' no feed'') s
               else s) hs s4)"

text \<open>The first loop of \<open>net_derive\<close>: the header tiles, over the live columns.\<close>

definition net_tiles :: "net_host list \<Rightarrow> net_summary" where
  "net_tiles live =
     (let to_udm = filter (\<lambda>h. nr_reach_udm (nh_rec h)) live;
          to_wan = filter (\<lambda>h. nr_reach_wan (nh_rec h)) live
      in \<lparr>sm_level = NET_LEVEL_OK, sm_verdict = [], sm_why = [],
          sm_udm_up = (to_udm \<noteq> []), sm_wan_up = (to_wan \<noteq> []),
          sm_uplink_up = (to_udm \<noteq> [] \<or> live = []),
          sm_udm_ms = median (filter (\<lambda>d. 0 \<le> d) (map (\<lambda>h. nr_rtt_udm (nh_rec h)) to_udm)),
          sm_wan_ms = median (filter (\<lambda>d. 0 \<le> d) (map (\<lambda>h. nr_rtt_wan (nh_rec h)) to_wan))\<rparr>)"

definition net_derive :: "double \<Rightarrow> net_state \<Rightarrow> net_summary" where
  "net_derive now st =
     (let hs = ns_hosts st;
          live = filter is_live hs;
          nstale = length (filter (\<lambda>h. nh_state h = NET_COL_STALE) hs);
          npeers = length (filter (\<lambda>h. nr_reach_peers (nh_rec h)) live);
          s = net_tiles live
      in if live = [] \<and> nstale = 0
         then set_headline NET_LEVEL_NONE ''NO FEED'' ''no host is publishing kdash:net'' (s\<lparr>sm_uplink_up := False\<rparr>)
         else if live \<noteq> [] \<and> \<not> sm_udm_up s \<and> 0 < npeers
         then set_headline NET_LEVEL_CRIT ''UPLINK LOST'' (''peers reachable'' @ mid_dot @ ''no host reaches UDM'')
                (s\<lparr>sm_uplink_up := False\<rparr>)
         else if live \<noteq> [] \<and> sm_udm_up s \<and> \<not> sm_wan_up s
         then set_headline NET_LEVEL_CRIT ''WAN DOWN'' (''UDM reachable'' @ mid_dot @ ''Internet unreachable'') s
         else case pick_worst hs of
             (Some w, rank, n) \<Rightarrow>
               let s' = host_headline w now s
               in if 1 < n then append_why (mid_dot @ ''+'' @ dec (n - 1) @ '' more'') s' else s'
           | (None, rank, n) \<Rightarrow> all_well hs s)"

section \<open>The headline column\<close>

lemma pick_worst_snoc:
  "pick_worst (hs @ [h]) = (case pick_worst hs of (worst, rank, n) \<Rightarrow>
     (if rank < problem_rank h then Some h else worst,
      if rank < problem_rank h then problem_rank h else rank, if 0 < problem_rank h then n + 1 else n))"
  by (simp add: pick_worst_def Let_def split: prod.split)

lemma pick_worst_spec:
  "pick_worst hs = (w, rank, n) \<Longrightarrow>
     n = length (filter (\<lambda>h. 0 < problem_rank h) hs) \<and> (\<forall>h \<in> set hs. problem_rank h \<le> rank) \<and>
     (case w of None \<Rightarrow> rank = 0
      | Some h \<Rightarrow> 0 < rank \<and> problem_rank h = rank \<and>
          (\<exists>ys zs. hs = ys @ h # zs \<and> (\<forall>y \<in> set ys. problem_rank y < rank)))"
proof (induction hs arbitrary: w rank n rule: rev_induct)
  case Nil
  then show ?case by (simp add: pick_worst_def)
next
  case (snoc h hs)
  obtain w' rank' n' where p: "pick_worst hs = (w', rank', n')" by (cases "pick_worst hs")
  note IH = snoc.IH [OF p]
  show ?case
  proof (cases "rank' < problem_rank h")
    case True
    then have "w = Some h" "rank = problem_rank h" "n = n' + 1"
      using snoc.prems p by (simp_all add: pick_worst_snoc)
    moreover have "\<forall>y \<in> set hs. problem_rank y < problem_rank h" using IH True by fastforce
    ultimately show ?thesis using IH True by fastforce
  next
    case False
    then have eq: "w = w'" "rank = rank'" "n = (if 0 < problem_rank h then n' + 1 else n')"
      using snoc.prems p by (auto simp: pick_worst_snoc)
    show ?thesis
    proof (cases w')
      case None
      with IH False eq show ?thesis by auto
    next
      case (Some x)
      with IH obtain ys zs where "hs = ys @ x # zs" "\<forall>y \<in> set ys. problem_rank y < rank'" by auto
      then have "\<exists>ys zs. hs @ [h] = ys @ x # zs \<and> (\<forall>y \<in> set ys. problem_rank y < rank')"
        by (intro exI [of _ ys] exI [of _ "zs @ [h]"]) simp
      with IH False eq Some show ?thesis by auto
    qed
  qed
qed

lemma problem_rank_zero: "problem_rank h = 0 \<longleftrightarrow> net_column_attn h = NET_ATTN_NONE"
  by (simp add: problem_rank_def split: net_attn.split)

lemma problem_rank_three: "problem_rank h = 3 \<longleftrightarrow> net_column_attn h = NET_ATTN_CRIT \<and> nh_state h \<noteq> NET_COL_STALE"
  by (simp add: problem_rank_def split: net_attn.split)

lemma problem_rank_le: "problem_rank h \<le> 3"
  by (simp add: problem_rank_def split: net_attn.split)

lemma crit_live: "net_column_attn h = NET_ATTN_CRIT \<and> nh_state h \<noteq> NET_COL_STALE \<longleftrightarrow>
    is_live h \<and> (nr_leg (nh_rec h) = NET_LEG_DOWN \<or> \<not> nr_reach_udm (nh_rec h) \<or>
      \<not> nr_reach_peers (nh_rec h) \<or> \<not> nr_reach_wan (nh_rec h))"
  by (cases "nh_state h") (auto simp: net_column_attn_def is_live_def Let_def)

lemma headline_level:
  assumes "problem_rank h \<noteq> 0"
  shows "sm_level (host_headline h now s) = (if problem_rank h = 3 then NET_LEVEL_CRIT else NET_LEVEL_WARN)"
proof -
  have "nh_state h \<noteq> NET_COL_NOFEED" using assms by (auto simp: problem_rank_def net_column_attn_def)
  then have "problem_rank h = 3 \<longleftrightarrow> nh_state h \<noteq> NET_COL_STALE \<and> (nr_leg (nh_rec h) = NET_LEG_DOWN \<or>
      \<not> nr_reach_udm (nh_rec h) \<or> \<not> nr_reach_peers (nh_rec h) \<or> \<not> nr_reach_wan (nh_rec h))"
    unfolding problem_rank_three crit_live by (cases "nh_state h") (auto simp: is_live_def)
  then show ?thesis
    by (auto simp: host_headline_def set_headline_def Let_def)
qed

lemma append_why_fields [simp]:
  "sm_level (append_why t s) = sm_level s" "sm_verdict (append_why t s) = sm_verdict s"
  by (simp_all add: append_why_def)

lemma append_to_fits: "length buf < n \<Longrightarrow> length (append_to n buf s) < n"
  by (auto simp: append_to_def buf_copy_def)

lemma append_why_fits: "length (sm_why s) < 192 \<Longrightarrow> length (sm_why (append_why t s)) < 192"
  by (simp add: append_why_def append_to_fits)

lemma fold_append_why:
  "sm_level (fold (\<lambda>h s. if P h then append_why (f h s) s else s) hs s) = sm_level s \<and>
   sm_verdict (fold (\<lambda>h s. if P h then append_why (f h s) s else s) hs s) = sm_verdict s \<and>
   (length (sm_why s) < 192 \<longrightarrow>
     length (sm_why (fold (\<lambda>h s. if P h then append_why (f h s) s else s) hs s)) < 192)"
  by (induction hs arbitrary: s) (auto simp: append_why_fits)

lemma all_well_effect:
  assumes "sm_why s = []"
  shows "sm_level (all_well hs s) = NET_LEVEL_OK" "sm_verdict (all_well hs s) \<in> {''ALL 10G'', ''ALL UP''}"
    "length (sm_why (all_well hs s)) < 192"
proof -
  note f = fold_append_why
  show "sm_level (all_well hs s) = NET_LEVEL_OK" by (simp add: all_well_def Let_def f)
  show "sm_verdict (all_well hs s) \<in> {''ALL 10G'', ''ALL UP''}" by (simp add: all_well_def Let_def f)
  show "length (sm_why (all_well hs s)) < 192"
    unfolding all_well_def Let_def
    by (intro f [THEN conjunct2, THEN conjunct2, rule_format])
      (simp add: append_why_fits f [THEN conjunct2, THEN conjunct2, rule_format] assms)
qed

lemma headline_fits: "length (sm_verdict (host_headline h now s)) < 80" "length (sm_why (host_headline h now s)) < 192"
  by (simp_all add: host_headline_def set_headline_def Let_def)

lemma rank_three_live: "problem_rank h = 3 \<longleftrightarrow> nh_state h = NET_COL_LIVE \<and> net_column_attn h = NET_ATTN_CRIT"
  by (cases "nh_state h") (auto simp: problem_rank_three net_column_attn_def)

lemma tiles_simps [simp]:
  "sm_udm_up (net_tiles live) \<longleftrightarrow> list_ex (\<lambda>h. nr_reach_udm (nh_rec h)) live"
  "sm_wan_up (net_tiles live) \<longleftrightarrow> list_ex (\<lambda>h. nr_reach_wan (nh_rec h)) live"
  "sm_why (net_tiles live) = []"
  by (auto simp: net_tiles_def Let_def filter_empty_conv list_ex_iff)

text \<open>The ways \<open>net_derive\<close> can end.\<close>

lemma net_derive_cases:
  fixes now st
  defines "live \<equiv> filter is_live (ns_hosts st)"
  obtains (nofeed) t where "live = []" "filter (\<lambda>h. nh_state h = NET_COL_STALE) (ns_hosts st) = []"
      "net_derive now st = set_headline NET_LEVEL_NONE ''NO FEED'' ''no host is publishing kdash:net'' t"
  | (uplink) t where "live \<noteq> []" "\<not> list_ex (\<lambda>h. nr_reach_udm (nh_rec h)) live" "list_ex (\<lambda>h. nr_reach_peers (nh_rec h)) live"
      "net_derive now st = set_headline NET_LEVEL_CRIT ''UPLINK LOST'' (''peers reachable'' @ mid_dot @ ''no host reaches UDM'') t"
  | (wan) t where "live \<noteq> []" "list_ex (\<lambda>h. nr_reach_udm (nh_rec h)) live" "\<not> list_ex (\<lambda>h. nr_reach_wan (nh_rec h)) live"
      "net_derive now st = set_headline NET_LEVEL_CRIT ''WAN DOWN'' (''UDM reachable'' @ mid_dot @ ''Internet unreachable'') t"
  | (named) h t x where "live \<noteq> [] \<or> filter (\<lambda>h. nh_state h = NET_COL_STALE) (ns_hosts st) \<noteq> []"
      "fst (pick_worst (ns_hosts st)) = Some h"
      "net_derive now st = host_headline h now t \<or> net_derive now st = append_why x (host_headline h now t)"
  | (well) t where "live \<noteq> [] \<or> filter (\<lambda>h. nh_state h = NET_COL_STALE) (ns_hosts st) \<noteq> []"
      "fst (pick_worst (ns_hosts st)) = None" "sm_why t = []" "net_derive now st = all_well (ns_hosts st) t"
proof -
  let ?none = "live = [] \<and> filter (\<lambda>h. nh_state h = NET_COL_STALE) (ns_hosts st) = []"
  let ?up = "live \<noteq> [] \<and> \<not> list_ex (\<lambda>h. nr_reach_udm (nh_rec h)) live \<and> list_ex (\<lambda>h. nr_reach_peers (nh_rec h)) live"
  let ?wan = "live \<noteq> [] \<and> list_ex (\<lambda>h. nr_reach_udm (nh_rec h)) live \<and> \<not> list_ex (\<lambda>h. nr_reach_wan (nh_rec h)) live"
  let ?s = "net_tiles live"
  have ex: "0 < length (filter P live) \<longleftrightarrow> list_ex P live" for P
    by (auto simp: list_ex_iff filter_empty_conv)
  obtain w rank n where p: "pick_worst (ns_hosts st) = (w, rank, n)" by (cases "pick_worst (ns_hosts st)")
  have d: "net_derive now st =
    (if ?none then set_headline NET_LEVEL_NONE ''NO FEED'' ''no host is publishing kdash:net'' (?s\<lparr>sm_uplink_up := False\<rparr>)
     else if ?up then set_headline NET_LEVEL_CRIT ''UPLINK LOST'' (''peers reachable'' @ mid_dot @ ''no host reaches UDM'')
       (?s\<lparr>sm_uplink_up := False\<rparr>)
     else if ?wan then set_headline NET_LEVEL_CRIT ''WAN DOWN'' (''UDM reachable'' @ mid_dot @ ''Internet unreachable'') ?s
     else case w of Some h \<Rightarrow> (if 1 < n then append_why (mid_dot @ ''+'' @ dec (n - 1) @ '' more'') (host_headline h now ?s)
         else host_headline h now ?s) | None \<Rightarrow> all_well (ns_hosts st) ?s)"
    unfolding net_derive_def Let_def p live_def [symmetric] ex tiles_simps length_0_conv
    by (cases w) simp_all
  show ?thesis
  proof (cases ?none)
    case True
    then show ?thesis using d [unfolded if_P [OF True]] nofeed by blast
  next
    case no: False
    show ?thesis
    proof (cases ?up)
      case True
      then show ?thesis using d [unfolded if_not_P [OF no] if_P [OF True]] uplink by blast
    next
      case up: False
      show ?thesis
      proof (cases ?wan)
        case True
        then show ?thesis using d [unfolded if_not_P [OF no] if_not_P [OF up] if_P [OF True]] wan by blast
      next
        case False
        note d = d [unfolded if_not_P [OF no] if_not_P [OF up] if_not_P [OF False]]
        show ?thesis
        proof (cases w)
          case None
          with d no show ?thesis by (intro well [of ?s]) (auto simp: p)
        next
          case (Some h)
          with d no show ?thesis
            by (intro named [of h ?s "mid_dot @ ''+'' @ dec (n - 1) @ '' more''"]) (auto simp: p)
        qed
      qed
    qed
  qed
qed

section \<open>Properties\<close>

lemma no_feed_anywhere:
  "filter is_live hs = [] \<and> filter (\<lambda>h. nh_state h = NET_COL_STALE) hs = [] \<longleftrightarrow>
    list_all (\<lambda>h. nh_state h = NET_COL_NOFEED) hs"
proof -
  have "nh_state h = NET_COL_NOFEED \<longleftrightarrow> \<not> is_live h \<and> nh_state h \<noteq> NET_COL_STALE" for h
    by (cases "nh_state h") (auto simp: is_live_def)
  then show ?thesis by (auto simp: filter_empty_conv list_all_iff)
qed

lemma unreachable_is_critical:
  assumes "filter is_live hs \<noteq> []"
    and "\<not> list_ex (\<lambda>h. nr_reach_udm (nh_rec h)) (filter is_live hs) \<or> \<not> list_ex (\<lambda>h. nr_reach_wan (nh_rec h)) (filter is_live hs)"
  shows "\<exists>h \<in> set hs. problem_rank h = 3"
proof -
  from assms(1) obtain h where h: "h \<in> set hs" "is_live h" by (auto simp: filter_empty_conv)
  with assms(2) have "\<not> nr_reach_udm (nh_rec h) \<or> \<not> nr_reach_wan (nh_rec h)" by (auto simp: list_ex_iff)
  with h show ?thesis using crit_live problem_rank_three by blast
qed

text \<open>The level, in the ranks of the columns.\<close>

lemma net_level_ranks:
  "sm_level (net_derive now st) =
    (if filter is_live (ns_hosts st) = [] \<and> filter (\<lambda>h. nh_state h = NET_COL_STALE) (ns_hosts st) = [] then NET_LEVEL_NONE
     else if \<exists>h \<in> set (ns_hosts st). problem_rank h = 3 then NET_LEVEL_CRIT
     else if \<exists>h \<in> set (ns_hosts st). problem_rank h \<noteq> 0 then NET_LEVEL_WARN
     else NET_LEVEL_OK)"
proof -
  let ?hs = "ns_hosts st"
  obtain w rank n where p: "pick_worst ?hs = (w, rank, n)" by (cases "pick_worst ?hs")
  note spec = pick_worst_spec [OF p]
  show ?thesis
  proof (rule net_derive_cases [of st now])
    fix h t x
    assume live: "filter is_live ?hs \<noteq> [] \<or> filter (\<lambda>h. nh_state h = NET_COL_STALE) ?hs \<noteq> []"
      and "fst (pick_worst ?hs) = Some h"
      and "net_derive now st = host_headline h now t \<or> net_derive now st = append_why x (host_headline h now t)"
    then have lev: "sm_level (net_derive now st) = sm_level (host_headline h now t)" and w: "w = Some h"
      by (auto simp: p)
    have h: "h \<in> set ?hs" "problem_rank h = rank" "0 < rank" using spec w by auto
    have "(\<exists>h \<in> set ?hs. problem_rank h = 3) \<longleftrightarrow> rank = 3"
      using h spec problem_rank_le by (metis le_antisym)
    then show "sm_level (net_derive now st) =
      (if filter is_live ?hs = [] \<and> filter (\<lambda>h. nh_state h = NET_COL_STALE) ?hs = [] then NET_LEVEL_NONE
       else if \<exists>h \<in> set ?hs. problem_rank h = 3 then NET_LEVEL_CRIT
       else if \<exists>h \<in> set ?hs. problem_rank h \<noteq> 0 then NET_LEVEL_WARN else NET_LEVEL_OK)"
      using live h headline_level [of h now t] lev by auto
  next
    fix t
    assume live: "filter is_live ?hs \<noteq> [] \<or> filter (\<lambda>h. nh_state h = NET_COL_STALE) ?hs \<noteq> []"
      and "fst (pick_worst ?hs) = None" "sm_why t = []" "net_derive now st = all_well ?hs t"
    moreover from this spec have "\<forall>h \<in> set ?hs. problem_rank h = 0" by (auto simp: p)
    ultimately show "sm_level (net_derive now st) =
      (if filter is_live ?hs = [] \<and> filter (\<lambda>h. nh_state h = NET_COL_STALE) ?hs = [] then NET_LEVEL_NONE
       else if \<exists>h \<in> set ?hs. problem_rank h = 3 then NET_LEVEL_CRIT
       else if \<exists>h \<in> set ?hs. problem_rank h \<noteq> 0 then NET_LEVEL_WARN else NET_LEVEL_OK)"
      by (auto simp: all_well_effect(1))
  qed (use unreachable_is_critical [of ?hs] in \<open>simp_all add: set_headline_def\<close>)
qed

text \<open>C20: the level of the card, for every set of columns: none exactly when nothing has
  published, critical exactly when a live column has no link or no path, a warning exactly when
  none does but some column is stale or has a warning, and OK only when no column has a
  problem.\<close>

theorem net_level_exact:
  "sm_level (net_derive now st) =
    (if list_all (\<lambda>h. nh_state h = NET_COL_NOFEED) (ns_hosts st) then NET_LEVEL_NONE
     else if list_ex (\<lambda>h. nh_state h = NET_COL_LIVE \<and> net_column_attn h = NET_ATTN_CRIT) (ns_hosts st) then NET_LEVEL_CRIT
     else if list_ex (\<lambda>h. net_column_attn h \<noteq> NET_ATTN_NONE) (ns_hosts st) then NET_LEVEL_WARN
     else NET_LEVEL_OK)"
proof -
  have "list_ex (\<lambda>h. nh_state h = NET_COL_LIVE \<and> net_column_attn h = NET_ATTN_CRIT) (ns_hosts st) \<longleftrightarrow>
      (\<exists>h \<in> set (ns_hosts st). problem_rank h = 3)"
    by (simp add: list_ex_iff rank_three_live)
  moreover have "list_ex (\<lambda>h. net_column_attn h \<noteq> NET_ATTN_NONE) (ns_hosts st) \<longleftrightarrow>
      (\<exists>h \<in> set (ns_hosts st). problem_rank h \<noteq> 0)"
    by (simp add: list_ex_iff problem_rank_zero)
  ultimately show ?thesis by (simp only: net_level_ranks no_feed_anywhere)
qed

text \<open>A headline that names the first column of the greatest severity, in full.\<close>

definition headline_words :: "string list" where
  "headline_words = ['' STALE'', '' DOWN'', '' NO PATH'', '' FLAPPING'', '' ON 1G'', '' LINK DROP'', '' RX ERRORS'']"

definition names_worst :: "net_host list \<Rightarrow> string \<Rightarrow> bool" where
  "names_worst hs v \<longleftrightarrow> (\<exists>ys h zs sfx. hs = ys @ h # zs \<and> (\<forall>y \<in> set ys. problem_rank y < problem_rank h) \<and>
     (\<forall>z \<in> set zs. problem_rank z \<le> problem_rank h) \<and> 0 < problem_rank h \<and> sfx \<in> set headline_words \<and>
     v = nh_host h @ sfx)"

lemma headline_names_worst:
  assumes "fst (pick_worst hs) = Some h" "length (nh_host h) < 64"
  shows "names_worst hs (sm_verdict (host_headline h now t))"
proof -
  obtain rank n where p: "pick_worst hs = (Some h, rank, n)" using assms(1) by (cases "pick_worst hs") auto
  note spec = pick_worst_spec [OF p]
  then obtain ys zs where hs: "hs = ys @ h # zs" "\<forall>y \<in> set ys. problem_rank y < rank" by auto
  have r: "problem_rank h = rank" "0 < rank" "\<forall>z \<in> set zs. problem_rank z \<le> rank" using spec hs(1) by auto
  have "\<exists>sfx. sfx \<in> set headline_words \<and> sm_verdict (host_headline h now t) = nh_host h @ sfx"
    using assms(2) by (simp add: host_headline_def set_headline_def Let_def headline_words_def)
  with hs r show ?thesis unfolding names_worst_def by blast
qed

text \<open>C21: the headline is never cut off, and it tells the truth about its cause: it says the
  uplink is lost only when no live host reaches the gateway and some reaches its peers, that the
  WAN is down only when the gateway is reached and the Internet is not, and that all is well
  only when no column has a problem; otherwise it names the first column of the greatest
  severity.\<close>

theorem net_verdict_names_worst:
  fixes now :: double and st :: net_state
  assumes "\<forall>h \<in> set (ns_hosts st). length (nh_host h) < 64"
  defines "s \<equiv> net_derive now st" and "live \<equiv> filter is_live (ns_hosts st)"
  shows "length (sm_why s) < WHY_LEN \<and>
    (sm_verdict s = ''NO FEED'' \<and> live = [] \<or>
     sm_verdict s = ''UPLINK LOST'' \<and> \<not> list_ex (\<lambda>h. nr_reach_udm (nh_rec h)) live \<and> list_ex (\<lambda>h. nr_reach_peers (nh_rec h)) live \<or>
     sm_verdict s = ''WAN DOWN'' \<and> list_ex (\<lambda>h. nr_reach_udm (nh_rec h)) live \<and> \<not> list_ex (\<lambda>h. nr_reach_wan (nh_rec h)) live \<or>
     sm_verdict s \<in> {''ALL 10G'', ''ALL UP''} \<and> list_all (\<lambda>h. net_column_attn h = NET_ATTN_NONE) (ns_hosts st) \<or>
     names_worst (ns_hosts st) (sm_verdict s))"
proof -
  let ?hs = "ns_hosts st" and ?live = "filter is_live (ns_hosts st)"
  obtain w rank n where p: "pick_worst ?hs = (w, rank, n)" by (cases "pick_worst ?hs")
  note spec = pick_worst_spec [OF p]
  have well: "list_all (\<lambda>h. net_column_attn h = NET_ATTN_NONE) ?hs" if "w = None"
    using spec that by (auto simp: list_all_iff problem_rank_zero [symmetric])
  show ?thesis (is ?goal)
  proof (rule net_derive_cases [of st now, folded live_def s_def])
    fix h t x
    assume h: "fst (pick_worst ?hs) = Some h"
      and d: "s = host_headline h now t \<or> s = append_why x (host_headline h now t)"
    then have "sm_verdict s = sm_verdict (host_headline h now t)" "length (sm_why s) < 192"
      using append_why_fits headline_fits by auto
    moreover have "h \<in> set ?hs" using spec h p by auto
    ultimately show ?goal using headline_names_worst [OF h] assms(1) by simp
  next
    fix t
    assume "fst (pick_worst ?hs) = None" "sm_why t = []" "s = all_well ?hs t"
    then show ?goal using well all_well_effect(2,3) [of t ?hs] by (simp add: p)
  qed (simp_all add: set_headline_def mid_dot_def)
qed

definition one_backup :: net_state where
  "one_backup = \<lparr>ns_hosts = [on_backup, blank_host ''nas''], ns_admitted = [''kai''], ns_dirty = False\<rparr>"

theorem net_verdict_names_worst_witness:
  "length (sm_why (net_derive 1700000100 one_backup)) < WHY_LEN \<and>
   sm_verdict (net_derive 1700000100 one_backup) = ''kai ON 1G'' \<and>
   names_worst (ns_hosts one_backup) (sm_verdict (net_derive 1700000100 one_backup))"
proof -
  have fit: "\<forall>h \<in> set (ns_hosts one_backup). length (nh_host h) < 64"
    by (simp add: one_backup_def on_backup_def blank_host_def)
  have v: "sm_verdict (net_derive 1700000100 one_backup) = ''kai ON 1G''" by code_simp
  show ?thesis using net_verdict_names_worst [OF fit, of 1700000100] by (simp add: v)
qed

text \<open>A live host with a single 1G NIC that lost its link several times in the hour is
  reported as one link drop, since "flapping" is never said of a host on 1G.\<close>

theorem single_nic_drops_undercounted:
  assumes "nh_state h = NET_COL_LIVE" "nr_leg (nh_rec h) = NET_LEG_1G" "\<not> nr_bond (nh_rec h)"
    and "nr_reach_udm (nh_rec h)" "nr_reach_wan (nh_rec h)" "nr_reach_peers (nh_rec h)"
    and "2 \<le> length (nr_drops (nh_rec h))"
  shows "sm_why (host_headline h now s) = ''1 link drop in 60 min'' @ mid_dot @ ''back on 1G''"
proof -
  have "nr_drops (nh_rec h) \<noteq> []" using assms(7) by auto
  with assms show ?thesis
    by (simp add: host_headline_def set_headline_def net_is_flapping_def net_leg_text_def Let_def mid_dot_def buf_copy_def)
qed

definition single_nic :: net_host where
  "single_nic = on_backup\<lparr>nh_rec := good_record\<lparr>nr_bond := False, nr_drops := [1700000000, 1700000010, 1700000020]\<rparr>\<rparr>"

theorem single_nic_drops_undercounted_witness:
  "sm_why (host_headline single_nic 1700000100 (net_tiles [])) = ''1 link drop in 60 min'' @ mid_dot @ ''back on 1G''"
  by (rule single_nic_drops_undercounted) (simp_all add: single_nic_def on_backup_def good_record_def)

end
