(* ===== verification/Admitted_File.thy ===== *)
theory Admitted_File
  imports KPrelude
begin

text \<open>
  The admitted-hosts file (\<open>src/src/admitted.c\<close>).  A file is the list of its bytes, a file
  system a map from paths to contents.  Reading follows \<open>fgets\<close> with its 66-byte buffer,
  the bytes a C string ends at, and \<open>feof\<close>; writing follows every call that can fail, with
  the outcome of each as a parameter (\<open>os_outcome\<close>).  The directory that \<open>ensure_parent_dir\<close>
  may create only decides whether the file opens.
\<close>

abbreviation "ADMITTED_NAME_LEN \<equiv> 64 :: nat"
abbreviation "ADMITTED_MAX \<equiv> 16 :: nat"
abbreviation "NL \<equiv> CHR 0x0A"
abbreviation "CR \<equiv> CHR 0x0D"

section \<open>Names and sections\<close>

definition hostname_char :: "char \<Rightarrow> bool" where
  "hostname_char c \<longleftrightarrow>
     (CHR ''a'' \<le> c \<and> c \<le> CHR ''z'') \<or> (CHR ''0'' \<le> c \<and> c \<le> CHR ''9'') \<or> c = CHR ''-'' \<or> c = CHR ''.''"

definition admitted_valid_hostname :: "string \<Rightarrow> bool" where
  "admitted_valid_hostname name \<longleftrightarrow>
     name \<noteq> [] \<and> \<not> (ADMITTED_NAME_LEN \<le> length name) \<and> list_all hostname_char name"

definition already_have :: "string list \<Rightarrow> string \<Rightarrow> bool" where
  "already_have out name = list_ex (\<lambda>x. x = name) out"

text \<open>The section a \<open>[name]\<close> line starts; \<open>n\<close> is the size of the name's buffer.\<close>

definition section_header :: "string \<Rightarrow> nat \<Rightarrow> string option" where
  "section_header line n =
     (if length line < 3 \<or> hd line \<noteq> CHR ''['' \<or> last line \<noteq> CHR '']'' \<or> n \<le> length line - 2 then None
      else Some (butlast (tl line)))"

section \<open>Reading\<close>

fun line_prefix :: "nat \<Rightarrow> string \<Rightarrow> string" where
  "line_prefix 0 s = []"
| "line_prefix (Suc k) [] = []"
| "line_prefix (Suc k) (c # s) = c # (if c = NL then [] else line_prefix k s)"

text \<open>\<open>fgets\<close> into \<open>n\<close> bytes: what is read, what is left, and the end-of-file flag after it.\<close>

definition fgets :: "nat \<Rightarrow> string \<Rightarrow> (string \<times> string \<times> bool) option" where
  "fgets n s =
     (if s = [] then None
      else let l = line_prefix (n - 1) s; rest = drop (length l) s
           in Some (l, rest, rest = [] \<and> length l < n - 1 \<and> last l \<noteq> NL))"

text \<open>The \<open>fgetc\<close> loop that drops the rest of an over-long line.\<close>

fun discard_line :: "string \<Rightarrow> string" where
  "discard_line [] = []"
| "discard_line (c # s) = (if c = NL then s else discard_line s)"

lemma discard_line_le: "length (discard_line s) \<le> length s"
  by (induction s) auto

lemma line_prefix_nonempty: "0 < k \<Longrightarrow> s \<noteq> [] \<Longrightarrow> 0 < length (line_prefix k s)"
  by (cases k; cases s) auto

lemma fgets_shrinks: "fgets 66 s = Some (l, rest, eof) \<Longrightarrow> length rest < length s"
  using line_prefix_nonempty [of 65 s]
  by (auto simp: fgets_def Let_def split: if_splits)

definition strip_cr :: "string \<Rightarrow> string" where
  "strip_cr l = (if l \<noteq> [] \<and> last l = CR then butlast l else l)"

text \<open>What one complete line does to the current section and the names so far.\<close>

definition admitted_line :: "string \<Rightarrow> string \<Rightarrow> string \<times> string list \<Rightarrow> string \<times> string list" where
  "admitted_line want line st =
     (case st of (cur, out) \<Rightarrow>
        (case section_header line ADMITTED_NAME_LEN of
           Some name \<Rightarrow> (name, out)
         | None \<Rightarrow>
             if cur \<noteq> want then (cur, out)
             else if \<not> admitted_valid_hostname line then (cur, out)
             else if already_have out line then (cur, out)
             else (cur, out @ [line])))"

function load_loop :: "string \<Rightarrow> nat \<Rightarrow> string \<Rightarrow> string \<times> string list \<Rightarrow> string list" where
  "load_loop want mx bytes st =
     (if \<not> length (snd st) < mx then snd st
      else case fgets 66 bytes of
          None \<Rightarrow> snd st
        | Some (buf, rest, eof) \<Rightarrow>
            let l = cstr buf; complete = (l \<noteq> [] \<and> last l = NL)
            in if \<not> complete \<and> \<not> eof then load_loop want mx (discard_line rest) st
               else load_loop want mx rest
                      (admitted_line want (strip_cr (if complete then butlast l else l)) st))"
  by pat_completeness auto
termination
proof (relation "measure (\<lambda>(want, mx, bytes, st). length bytes)")
  fix want :: string and mx :: nat and bytes :: string and st :: "string \<times> string list"
    and x buf y rest eof l complete
  assume "fgets 66 bytes = Some x" "(buf, y) = x" "(rest, eof) = y"
  then have "length rest < length bytes" by (auto dest: fgets_shrinks)
  then show "((want, mx, discard_line rest, st), (want, mx, bytes, st)) \<in> measure (\<lambda>(want, mx, bytes, st). length bytes)"
    using discard_line_le [of rest] by simp
next
  fix want :: string and mx :: nat and bytes :: string and st :: "string \<times> string list"
    and x buf y rest eof l complete
  assume "fgets 66 bytes = Some x" "(buf, y) = x" "(rest, eof) = y"
  then show "((want, mx, rest, admitted_line want (strip_cr (if complete then butlast l else l)) st), (want, mx, bytes, st))
      \<in> measure (\<lambda>(want, mx, bytes, st). length bytes)"
    by (auto dest: fgets_shrinks)
qed simp

declare load_loop.simps [simp del]

type_synonym file_system = "string \<Rightarrow> string option"

definition admitted_load_section :: "file_system \<Rightarrow> string \<Rightarrow> string \<Rightarrow> nat \<Rightarrow> string list" where
  "admitted_load_section fs path want mx =
     (if path = [] \<or> mx = 0 then []
      else case fs path of None \<Rightarrow> [] | Some bytes \<Rightarrow> load_loop want mx bytes ([], []))"

definition admitted_load :: "file_system \<Rightarrow> string \<Rightarrow> nat \<Rightarrow> string list" where
  "admitted_load fs path mx = admitted_load_section fs path [] mx"

section \<open>Writing\<close>

text \<open>The outcome of every call \<open>admitted_save\<close> makes: \<open>os_write k\<close> of the \<open>k\<close>-th \<open>fprintf\<close>;
  \<open>os_on_disk\<close> is how much of the buffered text reached the temporary file before the flush.\<close>

record os_outcome =
  os_open :: bool
  os_write :: "nat \<Rightarrow> bool"
  os_on_disk :: nat
  os_flush :: bool
  os_fsync :: bool
  os_close :: bool
  os_rename :: bool

fun write_names :: "(nat \<Rightarrow> bool) \<Rightarrow> nat \<Rightarrow> string list \<Rightarrow> string \<Rightarrow> string list \<Rightarrow> bool \<times> nat \<times> string" where
  "write_names wr k seen acc [] = (True, k, acc)"
| "write_names wr k seen acc (h # hs) =
     (if \<not> length seen < ADMITTED_MAX then (True, k, acc)
      else if \<not> admitted_valid_hostname h then write_names wr k seen acc hs
      else if already_have seen h then write_names wr k seen acc hs
      else if \<not> wr k then (False, k, acc)
      else write_names wr (Suc k) (seen @ [h]) (acc @ h @ [NL]) hs)"

text \<open>The result, and the file systems in the order in which they arise: the state a power cut
  at each point would leave.\<close>

definition admitted_save ::
  "os_outcome \<Rightarrow> string \<Rightarrow> string list \<Rightarrow> string list \<Rightarrow> file_system \<Rightarrow> bool \<times> file_system list" where
  "admitted_save os path hosts net fs =
     (if path = [] then (False, [fs])
      else let tmp = path @ ''.tmp'' in
        if 600 \<le> length tmp then (False, [fs])
        else if \<not> os_open os then (False, [fs])
        else
          let (ok1, k1, t1) = write_names (os_write os) 0 [] [] hosts;
              (ok2, k2, t2) =
                (if ok1 \<and> net \<noteq> []
                 then (if os_write os k1 then write_names (os_write os) (Suc k1) [] (t1 @ ''[net]'' @ [NL]) net
                       else (False, k1, t1))
                 else (ok1, k1, t1));
              ok = (ok2 \<and> os_flush os \<and> os_fsync os \<and> os_close os);
              opened = fs(tmp \<mapsto> []);
              partial = fs(tmp \<mapsto> take (os_on_disk os) t2)
          in if \<not> ok then (False, [fs, opened, partial, partial(tmp := None)])
             else let synced = fs(tmp \<mapsto> t2)
               in if \<not> os_rename os then (False, [fs, opened, partial, synced, synced(tmp := None)])
                  else (True, [fs, opened, partial, synced, synced(tmp := None, path \<mapsto> t2)]))"

section \<open>What reading means for a file without NUL bytes\<close>

fun lines_of :: "string \<Rightarrow> string list" where
  "lines_of [] = []"
| "lines_of (c # s) =
     (if c = NL then [] # lines_of s
      else case lines_of s of [] \<Rightarrow> [[c]] | l # ls \<Rightarrow> (c # l) # ls)"

text \<open>One line: too long for the buffer, or handed on; nothing once there are \<open>mx\<close> names.\<close>

definition line_step :: "string \<Rightarrow> nat \<Rightarrow> string \<Rightarrow> string \<times> string list \<Rightarrow> string \<times> string list" where
  "line_step want mx l st =
     (if length (snd st) < mx \<and> length l \<le> 64 then admitted_line want (strip_cr l) st else st)"

lemma lines_of_line: "NL \<notin> set l \<Longrightarrow> lines_of (l @ NL # s) = l # lines_of s"
  by (induction l) auto

lemma lines_of_last: "NL \<notin> set l \<Longrightarrow> l \<noteq> [] \<Longrightarrow> lines_of l = [l]"
proof (induction l)
  case (Cons c l)
  then show ?case by (cases l) auto
qed simp

lemma line_prefix_line:
  "NL \<notin> set l \<Longrightarrow> line_prefix k (l @ NL # s) = (if length l < k then l @ [NL] else take k l)"
proof (induction l arbitrary: k)
  case Nil
  then show ?case by (cases k) auto
next
  case (Cons c l)
  then show ?case by (cases k) auto
qed

lemma line_prefix_last: "NL \<notin> set l \<Longrightarrow> line_prefix k l = take k l"
proof (induction l arbitrary: k)
  case Nil
  then show ?case by (cases k) auto
next
  case (Cons c l)
  then show ?case by (cases k) auto
qed

lemma discard_line_line: "NL \<notin> set l \<Longrightarrow> discard_line (l @ NL # s) = s"
  by (induction l) auto

lemma discard_line_last: "NL \<notin> set l \<Longrightarrow> discard_line l = []"
  by (induction l) auto

lemma cstr_id: "CHR 0x00 \<notin> set l \<Longrightarrow> cstr l = l"
  by (auto simp: cstr_def takeWhile_eq_all_conv)

lemma split_first_line:
  assumes "s \<noteq> ([] :: string)"
  obtains (last) "NL \<notin> set s" | (line) l t where "s = l @ NL # t" "NL \<notin> set l"
  using split_list_first [of NL s] that by (cases "NL \<in> set s") auto

text \<open>The three shapes of a round of the reading loop.\<close>

lemma load_loop_done: "mx \<le> length (snd st) \<Longrightarrow> load_loop want mx s st = snd st"
  by (subst load_loop.simps) simp

lemma load_loop_empty: "load_loop want mx [] st = snd st"
  by (subst load_loop.simps) (simp add: fgets_def)

lemma last_take_mem: "xs \<noteq> [] \<Longrightarrow> 0 < k \<Longrightarrow> last (take k xs) \<in> set xs"
  by (rule in_set_takeD [of _ k], rule last_in_set) simp

lemma load_loop_line:
  assumes l: "NL \<notin> set l" "CHR 0x00 \<notin> set l" and room: "length (snd st) < mx"
  shows "load_loop want mx (l @ NL # t) st = load_loop want mx t (line_step want mx l st)"
proof (cases "length l \<le> 64")
  case True
  then have "fgets 66 (l @ NL # t) = Some (l @ [NL], t, False)"
    using l(1) by (simp add: fgets_def line_prefix_line Let_def)
  moreover have "cstr (l @ [NL]) = l @ [NL]" using l(2) by (intro cstr_id) simp
  ultimately show ?thesis using True room
    by (subst load_loop.simps) (simp add: line_step_def)
next
  case False
  then have get: "fgets 66 (l @ NL # t) = Some (take 65 l, drop 65 l @ NL # t, False)"
    using l(1) by (simp add: fgets_def line_prefix_line Let_def)
  have "CHR 0x00 \<notin> set (take 65 l)" using l(2) by (auto dest: in_set_takeD)
  then have c: "cstr (take 65 l) = take 65 l" by (rule cstr_id)
  have "last (take 65 l) \<noteq> NL" using last_take_mem [of l 65] l(1) False by force
  moreover have "NL \<notin> set (drop 65 l)" using l(1) by (auto dest: in_set_dropD)
  ultimately show ?thesis using False room get c
    by (subst load_loop.simps) (simp add: line_step_def discard_line_line)
qed

lemma load_loop_last:
  assumes l: "NL \<notin> set l" "CHR 0x00 \<notin> set l" "l \<noteq> []" and room: "length (snd st) < mx"
  shows "load_loop want mx l st = snd (line_step want mx l st)"
proof -
  have "CHR 0x00 \<notin> set (take 65 l)" using l(2) by (auto dest: in_set_takeD)
  then have c: "cstr (take 65 l) = take 65 l" by (rule cstr_id)
  have nl: "last (take 65 l) \<noteq> NL" using last_take_mem [of l 65] l(1,3) by force
  show ?thesis
  proof (cases "length l \<le> 64")
    case True
    then have "fgets 66 l = Some (l, [], True)"
      using l(1,3) nl by (simp add: fgets_def line_prefix_last Let_def)
    with True room c nl show ?thesis
      by (subst load_loop.simps) (simp add: line_step_def load_loop_empty)
  next
    case False
    then have "fgets 66 l = Some (take 65 l, drop 65 l, False)"
      using l(1,3) by (simp add: fgets_def line_prefix_last Let_def)
    moreover have "discard_line (drop 65 l) = []"
      using l(1) by (intro discard_line_last) (auto dest: in_set_dropD)
    ultimately show ?thesis using False room c nl l(3)
      by (subst load_loop.simps) (simp add: line_step_def load_loop_empty)
  qed
qed

lemma load_loop_lines:
  "CHR 0x00 \<notin> set s \<Longrightarrow> load_loop want mx s st = snd (fold (line_step want mx) (lines_of s) st)"
proof (induction s arbitrary: st rule: length_induct)
  case (1 s)
  show ?case
  proof (cases "length (snd st) < mx")
    case False
    then have "fold (line_step want mx) ls st = st" for ls by (induction ls) (simp_all add: line_step_def)
    with False show ?thesis by (simp add: load_loop_done)
  next
    case room: True
    show ?thesis
    proof (cases "s = []")
      case True
      then show ?thesis by (simp add: load_loop_empty)
    next
      case False
      then show ?thesis
      proof (cases rule: split_first_line)
        case last
        with False 1(2) room show ?thesis by (simp add: load_loop_last lines_of_last)
      next
        case (line l t)
        moreover from line 1 have "load_loop want mx t st' = snd (fold (line_step want mx) (lines_of t) st')" for st'
          by (cases st') simp
        ultimately show ?thesis using 1(2) room by (simp add: load_loop_line lines_of_line)
      qed
    qed
  qed
qed

section \<open>Valid names\<close>

lemma valid_hostname_chars:
  assumes "admitted_valid_hostname h"
  shows "NL \<notin> set h" "CHR 0x00 \<notin> set h" "h \<noteq> []" "length h < 64" "section_header h n = None" "strip_cr h = h"
proof -
  from assms have all: "\<forall>c \<in> set h. hostname_char c" and h: "h \<noteq> []" "length h < 64"
    by (auto simp: admitted_valid_hostname_def list_all_iff)
  have no: "\<not> hostname_char NL" "\<not> hostname_char (CHR 0x00)" "\<not> hostname_char CR" "\<not> hostname_char (CHR ''['')"
    by code_simp+
  show "NL \<notin> set h" "CHR 0x00 \<notin> set h" "h \<noteq> []" "length h < 64" using all no h by auto
  have "hostname_char (hd h)" "hostname_char (last h)" using all h by simp_all
  with no have "hd h \<noteq> CHR ''[''" "last h \<noteq> CR" by auto
  then show "section_header h n = None" "strip_cr h = h"
    by (simp_all add: section_header_def strip_cr_def)
qed

lemma already_have_iff [simp]: "already_have out x \<longleftrightarrow> x \<in> set out"
  by (auto simp: already_have_def list_ex_iff)

text \<open>The names a set of hosts puts on file: valid, each once, the first sixteen.\<close>

definition names_on_file :: "string list \<Rightarrow> string list" where
  "names_on_file hosts = take ADMITTED_MAX (firsts id (filter admitted_valid_hostname hosts))"

lemma names_on_file_ok:
  "distinct (names_on_file hosts)" "\<forall>h \<in> set (names_on_file hosts). admitted_valid_hostname h"
proof -
  show "distinct (names_on_file hosts)"
    using distinct_firsts [of id "filter admitted_valid_hostname hosts"] by (simp add: names_on_file_def distinct_take)
  show "\<forall>h \<in> set (names_on_file hosts). admitted_valid_hostname h"
  proof
    fix h assume "h \<in> set (names_on_file hosts)"
    then have "h \<in> set (firsts id (filter admitted_valid_hostname hosts))"
      unfolding names_on_file_def by (rule in_set_takeD)
    then show "admitted_valid_hostname h" unfolding set_firsts_id by simp
  qed
qed

definition name_lines :: "string list \<Rightarrow> string" where
  "name_lines hs = concat (map (\<lambda>h. h @ [NL]) hs)"

definition saved_text :: "string list \<Rightarrow> string list \<Rightarrow> string" where
  "saved_text hosts net =
     name_lines (names_on_file hosts) @
     (if net = [] then [] else ''[net]'' @ [NL] @ name_lines (names_on_file net))"

lemma lines_of_names:
  "\<forall>h \<in> set hs. NL \<notin> set h \<Longrightarrow> lines_of (name_lines hs @ rest) = hs @ lines_of rest"
  by (induction hs) (simp_all add: name_lines_def lines_of_line)

lemma line_step_names:
  assumes "\<forall>h \<in> set ns. admitted_valid_hostname h" "distinct (out @ ns)" "length out \<le> mx"
  shows "fold (line_step want mx) ns (cur, out) = (cur, if cur = want then take mx (out @ ns) else out)"
  using assms
proof (induction ns arbitrary: out)
  case Nil
  then show ?case by simp
next
  case (Cons h ns)
  have h: "admitted_valid_hostname h" using Cons.prems(1) by simp
  note v = valid_hostname_chars [OF h]
  show ?case
  proof (cases "length out < mx \<and> cur = want")
    case True
    then have "line_step want mx h (cur, out) = (cur, out @ [h])"
      using Cons.prems(2) h v by (simp add: line_step_def admitted_line_def)
    with Cons.IH [of "out @ [h]"] Cons.prems True show ?thesis by simp
  next
    case False
    then have "line_step want mx h (cur, out) = (cur, out)"
      using v by (auto simp: line_step_def admitted_line_def)
    with Cons.IH [of out] Cons.prems False show ?thesis by auto
  qed
qed

lemma line_step_other:
  "\<forall>h \<in> set ns. admitted_valid_hostname h \<Longrightarrow> cur \<noteq> want \<Longrightarrow> fold (line_step want mx) ns (cur, out) = (cur, out)"
proof (induction ns)
  case (Cons h ns)
  then have "line_step want mx h (cur, out) = (cur, out)"
    using valid_hostname_chars [of h] by (auto simp: line_step_def admitted_line_def)
  with Cons show ?case by simp
qed simp

lemma line_step_header:
  "length out < mx \<Longrightarrow> line_step want mx ''[net]'' (cur, out) = (''net'', out)"
  by (simp add: line_step_def admitted_line_def section_header_def strip_cr_def)

lemma name_lines_no_nul: "\<forall>h \<in> set hs. CHR 0x00 \<notin> set h \<Longrightarrow> CHR 0x00 \<notin> set (name_lines hs)"
  by (auto simp: name_lines_def)

lemma load_saved:
  assumes "0 < mx"
  shows "load_loop [] mx (saved_text hosts net) ([], []) = take mx (names_on_file hosts)"
    "load_loop ''net'' mx (saved_text hosts net) ([], []) = take mx (names_on_file net)"
proof -
  let ?h = "names_on_file hosts" and ?n = "names_on_file net"
  note ok = names_on_file_ok
  have nl: "\<forall>h \<in> set ?h. NL \<notin> set h" "\<forall>h \<in> set ?n. NL \<notin> set h"
    and nul: "\<forall>h \<in> set ?h. CHR 0x00 \<notin> set h" "\<forall>h \<in> set ?n. CHR 0x00 \<notin> set h"
    using ok(2) valid_hostname_chars(1,2) by blast+
  have "CHR 0x00 \<notin> set (saved_text hosts net)"
    using name_lines_no_nul nul by (simp add: saved_text_def)
  note load = load_loop_lines [OF this]
  have net0: "?n = []" if "net = []" using that by (simp add: names_on_file_def)
  have tail: "lines_of (name_lines ?n) = ?n" using lines_of_names [OF nl(2), of "[]"] by simp
  have hd: "lines_of (''[net]'' @ [NL] @ s) = ''[net]'' # lines_of s" for s
    using lines_of_line [of "''[net]''" s] by simp
  have lines: "lines_of (saved_text hosts net) = ?h @ (if net = [] then [] else ''[net]'' # ?n)"
    unfolding saved_text_def lines_of_names [OF nl(1)] using hd tail by simp
  show "load_loop [] mx (saved_text hosts net) ([], []) = take mx ?h"
  proof (cases "length (take mx ?h) < mx")
    case True
    then show ?thesis
      using line_step_names [of ?h "[]" mx "[]" "[]"] line_step_other [of ?n "''net''" "[]" mx ?h] ok assms
        line_step_header [of ?h mx "[]" "[]"]
      unfolding load lines by simp
  next
    case False
    then have "fold (line_step [] mx) ls ([], take mx ?h) = ([], take mx ?h)" for ls
      by (induction ls) (simp_all add: line_step_def)
    then show ?thesis
      using line_step_names [of ?h "[]" mx "[]" "[]"] ok assms unfolding load lines by simp
  qed
  show "load_loop ''net'' mx (saved_text hosts net) ([], []) = take mx ?n"
    using line_step_other [of ?h "[]" "''net''" mx "[]"] line_step_names [of ?n "[]" mx "''net''" "''net''"] ok assms
      line_step_header [of "[]" mx "''net''" "[]"] net0
    unfolding load lines by simp
qed

section \<open>Writing\<close>

text \<open>A write that succeeds wrote everything, whatever the outcomes.\<close>

lemma write_names_ok:
  "length seen \<le> 16 \<Longrightarrow> distinct seen \<Longrightarrow> write_names wr k seen acc hs = (True, k', t) \<Longrightarrow>
     t = acc @ name_lines (drop (length seen)
       (take 16 (fold (\<lambda>x acc. if x \<in> set acc then acc else acc @ [x]) (filter admitted_valid_hostname hs) seen)))"
proof (induction hs arbitrary: k seen acc)
  case Nil
  then show ?case by (simp add: name_lines_def)
next
  case (Cons h hs)
  let ?F = "\<lambda>x acc. if x \<in> set acc then acc else acc @ [x]"
  have pre: "\<exists>new. fold ?F xs ys = ys @ new" for xs and ys :: "string list"
  proof (induction xs arbitrary: ys)
    case (Cons x xs)
    from Cons [of "?F x ys"] show ?case by auto
  qed simp
  consider (full) "\<not> length seen < 16" | (skip) "length seen < 16" "\<not> admitted_valid_hostname h \<or> h \<in> set seen"
    | (new) "length seen < 16" "admitted_valid_hostname h" "h \<notin> set seen"
    by blast
  then show ?case
  proof cases
    case full
    then have "length seen = 16" using Cons.prems(1) by simp
    then have "drop (length seen) (take 16 (fold ?F xs seen)) = []" for xs by simp
    with full Cons.prems(3) show ?thesis by (auto simp: name_lines_def)
  next
    case skip
    then have "write_names wr k seen acc hs = (True, k', t)" using Cons.prems(3) by (auto split: if_splits)
    from Cons.IH [OF Cons.prems(1,2) this] skip show ?thesis by auto
  next
    case new
    then have "wr k" "write_names wr (Suc k) (seen @ [h]) (acc @ h @ [NL]) hs = (True, k', t)"
      using Cons.prems(3) by (auto split: if_splits)
    moreover obtain more where more: "fold ?F (filter admitted_valid_hostname hs) (seen @ [h]) = seen @ [h] @ more"
      using pre [of "filter admitted_valid_hostname hs" "seen @ [h]"] by auto
    moreover obtain m where "16 - length seen = Suc m" using new(1) by (cases "16 - length seen") auto
    ultimately show ?thesis
      using Cons.IH [of "seen @ [h]" "Suc k" "acc @ h @ [NL]"] Cons.prems(1,2) new
      by (simp add: name_lines_def)
  qed
qed

lemma write_names_text:
  assumes "write_names wr k [] acc hosts = (True, k', t)"
  shows "t = acc @ name_lines (names_on_file hosts)"
  using write_names_ok [OF _ _ assms] by (simp add: names_on_file_def firsts_def)

text \<open>The states of a save.\<close>

lemma save_states:
  assumes "admitted_save os path hosts net fs = (ok, tr)"
  shows "tr \<noteq> [] \<and>
    (\<forall>g \<in> set (butlast tr). g path = fs path) \<and>
    last tr path = (if ok then Some (saved_text hosts net) else fs path) \<and>
    (\<forall>g \<in> set tr. \<forall>p. p \<noteq> path \<and> p \<noteq> path @ ''.tmp'' \<longrightarrow> g p = fs p) \<and>
    (tr = [fs] \<or> last tr (path @ ''.tmp'') = None)"
proof (cases "path = [] \<or> 600 \<le> length (path @ ''.tmp'') \<or> \<not> os_open os")
  case True
  then have "ok = False \<and> tr = [fs]" using assms by (auto simp: admitted_save_def Let_def split: if_splits)
  then show ?thesis by simp
next
  case False
  obtain ok1 k1 t1 where w1: "write_names (os_write os) 0 [] [] hosts = (ok1, k1, t1)"
    by (cases "write_names (os_write os) 0 [] [] hosts") auto
  define w2 where "w2 = (if ok1 \<and> net \<noteq> []
     then (if os_write os k1 then write_names (os_write os) (Suc k1) [] (t1 @ ''[net]'' @ [NL]) net else (False, k1, t1))
     else (ok1, k1, t1))"
  obtain ok2 k2 t2 where w2': "w2 = (ok2, k2, t2)" by (cases w2) auto
  have content: "t2 = saved_text hosts net" if "ok2"
  proof -
    have "ok1" using that w2' by (auto simp: w2_def split: if_splits)
    then have t1: "t1 = name_lines (names_on_file hosts)" using w1 write_names_text by fastforce
    show ?thesis
    proof (cases "net = []")
      case True
      then show ?thesis using w2' t1 by (auto simp: w2_def saved_text_def split: if_splits)
    next
      case False
      with that \<open>ok1\<close> w2' have "write_names (os_write os) (Suc k1) [] (t1 @ ''[net]'' @ [NL]) net = (True, k2, t2)"
        by (auto simp: w2_def split: if_splits)
      from write_names_text [OF this] False t1 show ?thesis by (simp add: saved_text_def)
    qed
  qed
  have ne: "path @ ''.tmp'' \<noteq> path" by simp
  have "(ok, tr) = (let ok' = (ok2 \<and> os_flush os \<and> os_fsync os \<and> os_close os);
      tmp = path @ ''.tmp''; opened = fs(tmp \<mapsto> []); partial = fs(tmp \<mapsto> take (os_on_disk os) t2); synced = fs(tmp \<mapsto> t2) in
      if \<not> ok' then (False, [fs, opened, partial, partial(tmp := None)])
      else if \<not> os_rename os then (False, [fs, opened, partial, synced, synced(tmp := None)])
      else (True, [fs, opened, partial, synced, synced(tmp := None, path \<mapsto> t2)]))"
    using assms False w2' by (auto simp: admitted_save_def Let_def w1 w2_def [symmetric] split: if_splits)
  then show ?thesis using content ne by (auto simp: Let_def split: if_splits)
qed

section \<open>Properties\<close>

text \<open>C22: a save is atomic: whatever call fails and wherever the power is cut, the file holds its
  old contents or, after the rename, the whole new contents; it succeeds exactly when the new
  contents are in place; no other file is touched and no temporary file stays behind.\<close>

theorem admitted_save_atomic:
  assumes "admitted_save os path hosts net fs = (ok, states)"
  shows "(\<forall>g \<in> set states. g path \<in> {fs path, Some (saved_text hosts net)}) \<and>
    last states path = (if ok then Some (saved_text hosts net) else fs path) \<and>
    (\<forall>g \<in> set states. \<forall>p. p \<noteq> path \<and> p \<noteq> path @ ''.tmp'' \<longrightarrow> g p = fs p) \<and>
    (states = [fs] \<or> last states (path @ ''.tmp'') = None)"
proof -
  note s = save_states [OF assms]
  have "g path \<in> {fs path, Some (saved_text hosts net)}" if "g \<in> set states" for g
  proof (cases "g \<in> set (butlast states)")
    case True
    with s show ?thesis by blast
  next
    case False
    have "states = butlast states @ [last states]" using s by simp
    with that have "g \<in> set (butlast states @ [last states])" by simp
    with False have "g = last states" by simp
    with s show ?thesis by (cases ok) simp_all
  qed
  with s show ?thesis by (intro conjI ballI) simp_all
qed

definition lucky :: os_outcome where
  "lucky = \<lparr>os_open = True, os_write = (\<lambda>_. True), os_on_disk = 3, os_flush = True, os_fsync = True,
     os_close = True, os_rename = True\<rparr>"

theorem admitted_save_atomic_witness:
  "\<exists>states. admitted_save (lucky\<lparr>os_fsync := False\<rparr>) ''adm'' [''kai''] [] (\<lambda>_. None) = (False, states) \<and>
     last states ''adm'' = None"
proof -
  obtain ok states where s: "admitted_save (lucky\<lparr>os_fsync := False\<rparr>) ''adm'' [''kai''] [] (\<lambda>_. None) = (ok, states)"
    by (cases "admitted_save (lucky\<lparr>os_fsync := False\<rparr>) ''adm'' [''kai''] [] (\<lambda>_. None)")
  have "fst (admitted_save (lucky\<lparr>os_fsync := False\<rparr>) ''adm'' [''kai''] [] (\<lambda>_. None)) = False" by code_simp
  then have "ok = False" using s by simp
  with admitted_save_atomic [OF s] s show ?thesis by auto
qed

text \<open>C23: what a successful save wrote is what the next start reads, for both sections: the valid
  names of each set, each once, in order, the first sixteen (or as many as asked for).\<close>

theorem admitted_round_trip:
  assumes "admitted_save os path hosts net fs = (True, states)"
  shows "admitted_load (last states) path mx = take mx (names_on_file hosts) \<and>
    admitted_load_section (last states) path ''net'' mx = take mx (names_on_file net)"
proof -
  have "path \<noteq> []" using assms by (auto simp: admitted_save_def)
  moreover have "last states path = Some (saved_text hosts net)" using save_states [OF assms] by simp
  ultimately show ?thesis using load_saved [of mx hosts net]
    by (cases "mx = 0") (simp_all add: admitted_load_def admitted_load_section_def)
qed

theorem admitted_round_trip_witness:
  "\<exists>states. admitted_save lucky ''adm'' [''kai'', ''Kai'', ''kai'', ''nas''] [''nas''] (\<lambda>_. None) = (True, states) \<and>
     admitted_load (last states) ''adm'' 16 = [''kai'', ''nas''] \<and>
     admitted_load_section (last states) ''adm'' ''net'' 16 = [''nas'']"
proof -
  let ?save = "admitted_save lucky ''adm'' [''kai'', ''Kai'', ''kai'', ''nas''] [''nas''] (\<lambda>_. None)"
  have "fst ?save = True" by code_simp
  then obtain states where s: "?save = (True, states)" by (cases ?save) auto
  have n: "names_on_file [''kai'', ''Kai'', ''kai'', ''nas''] = [''kai'', ''nas'']" "names_on_file [''nas''] = [''nas'']"
    by code_simp+
  show ?thesis using s admitted_round_trip [OF s, of 16] by (simp add: n)
qed

definition names_ok :: "nat \<Rightarrow> string list \<Rightarrow> bool" where
  "names_ok mx out \<longleftrightarrow> length out \<le> mx \<and> distinct out \<and> list_all admitted_valid_hostname out"

lemma admitted_line_ok:
  "length (snd st) < mx \<Longrightarrow> names_ok mx (snd st) \<Longrightarrow> names_ok mx (snd (admitted_line want l st))"
  by (cases st) (auto simp: admitted_line_def names_ok_def split: option.split)

lemma load_loop_ok: "names_ok mx (snd st) \<Longrightarrow> names_ok mx (load_loop want mx s st)"
proof (induction want mx s st rule: load_loop.induct)
  case (1 want mx s st)
  show ?case
  proof (cases "length (snd st) < mx")
    case False
    with 1(3) show ?thesis by (simp add: load_loop_done)
  next
    case room: True
    show ?thesis
    proof (cases "fgets 66 s")
      case None
      with 1(3) show ?thesis by (subst load_loop.simps) simp
    next
      case (Some r)
      obtain buf rest eof where r: "r = (buf, rest, eof)" by (cases r) auto
      let ?l = "cstr buf"
      let ?c = "?l \<noteq> [] \<and> last ?l = NL"
      let ?st = "admitted_line want (strip_cr (if ?c then butlast ?l else ?l)) st"
      have "names_ok mx (load_loop want mx (discard_line rest) st)" if "\<not> ?c \<and> \<not> eof"
        using 1(1) [OF _ Some r [symmetric] refl refl refl that 1(3)] room by simp
      moreover have "names_ok mx (load_loop want mx rest ?st)" if "\<not> (\<not> ?c \<and> \<not> eof)"
        using 1(2) [OF _ Some r [symmetric] refl refl refl that] admitted_line_ok [OF room 1(3)] room by simp
      ultimately show ?thesis using room Some r
        by (subst load_loop.simps) (simp add: Let_def split del: if_split, simp)
    qed
  qed
qed

text \<open>C24: whatever bytes the file holds, a start reads at most as many names as were asked for,
  each of them valid and none twice; a missing file reads as none.\<close>

theorem admitted_load_valid:
  "names_ok mx (admitted_load_section fs path want mx)"
  using load_loop_ok [of mx "([], [])" want] by (simp add: admitted_load_section_def names_ok_def split: option.split)

text \<open>Lines are skipped one by one: in a file without NUL bytes, a line that is over-long, or is
  neither a valid name nor a section header, changes nothing of what the other lines give.\<close>

theorem admitted_bad_line_skipped:
  assumes "CHR 0x00 \<notin> set (a @ bad @ b)" "NL \<notin> set bad" "a = [] \<or> last a = NL"
    and "64 < length bad \<or>
      section_header (strip_cr bad) ADMITTED_NAME_LEN = None \<and> \<not> admitted_valid_hostname (strip_cr bad)"
  shows "load_loop want mx (a @ bad @ NL # b) ([], []) = load_loop want mx (a @ b) ([], [])"
proof -
  have lines: "lines_of (a @ s) = lines_of a @ lines_of s" for s
    using assms(3)
  proof (induction a rule: length_induct)
    case (1 a)
    show ?case
    proof (cases "a = []")
      case False
      then show ?thesis
      proof (cases rule: split_first_line)
        case last
        have "last a \<in> set a" using False by simp
        with last 1(2) False show ?thesis by auto
      next
        case (line l t)
        then have "t = [] \<or> last t = NL" using 1(2) by (cases t) auto
        with 1(1) line have "lines_of (t @ s) = lines_of t @ lines_of s" by (cases "t = []") simp_all
        with line show ?thesis by (simp add: lines_of_line)
      qed
    qed simp
  qed
  have skip: "line_step want mx bad st = st" for st
    using assms(4) by (cases st) (auto simp: line_step_def admitted_line_def)
  have "CHR 0x00 \<notin> set (a @ bad @ NL # b)" "CHR 0x00 \<notin> set (a @ b)" using assms(1) by auto
  then show ?thesis
    using assms(2) by (simp add: load_loop_lines lines lines_of_line skip)
qed

theorem admitted_bad_line_skipped_witness:
  "load_loop [] 16 (''kai'' @ [NL] @ ''NOT a host'' @ [NL] @ ''nas'' @ [NL]) ([], []) =
   load_loop [] 16 (''kai'' @ [NL] @ ''nas'' @ [NL]) ([], [])"
proof -
  have "\<not> admitted_valid_hostname (strip_cr ''NOT a host'')" by code_simp
  then show ?thesis
    using admitted_bad_line_skipped [of "''kai'' @ [NL]" "''NOT a host''" "''nas'' @ [NL]" "[]" 16]
    by (simp add: section_header_def strip_cr_def)
qed

text \<open>A NUL byte in a line makes the reader drop the line after it as well, a host that is on
  file.\<close>

theorem admitted_nul_drops_next_line:
  "load_loop [] 16 (''kai'' @ [NL] @ ''x'' @ [CHR 0x00] @ ''y'' @ [NL] @ ''nas'' @ [NL] @ ''rpi'' @ [NL]) ([], []) =
     [''kai'', ''rpi'']"
  by code_simp

end
