(* ===== verification/Layout_Pool.thy ===== *)
theory Layout_Pool
  imports KPrelude
begin

text \<open>
  Placement of the widgets in rows 2-3 (\<open>layout_pool_place\<close> in \<open>src/src/registry.c\<close>): a stable
  sort by kind, then a greedy fill of twelve cells.  A request carries an opaque payload of
  type \<open>'p\<close>; its size is a byte.
\<close>

abbreviation "LAYOUT_POOL_CAPACITY_CELLS \<equiv> 12 :: nat"

datatype widget_kind = WIDGET_GRAPH | WIDGET_ACTIVITIES | WIDGET_REPO_STATUS | WIDGET_FORTUNE
  | WIDGET_NETCARD

fun kind_value :: "widget_kind \<Rightarrow> nat" where
  "kind_value WIDGET_GRAPH = 0"
| "kind_value WIDGET_ACTIVITIES = 1"
| "kind_value WIDGET_REPO_STATUS = 2"
| "kind_value WIDGET_FORTUNE = 3"
| "kind_value WIDGET_NETCARD = 4"

text \<open>The enum's order is the priority.\<close>

lemma kind_value_inj: "kind_value k = kind_value k' \<Longrightarrow> k = k'"
  by (cases k; cases k') simp_all

instantiation widget_kind :: linorder
begin

definition less_eq_widget_kind :: "widget_kind \<Rightarrow> widget_kind \<Rightarrow> bool" where
  "less_eq_widget_kind a b \<longleftrightarrow> kind_value a \<le> kind_value b"

definition less_widget_kind :: "widget_kind \<Rightarrow> widget_kind \<Rightarrow> bool" where
  "less_widget_kind a b \<longleftrightarrow> kind_value a < kind_value b"

instance
  by standard (auto simp: less_eq_widget_kind_def less_widget_kind_def intro: kind_value_inj)

end

record 'p widget_request =
  wr_kind :: widget_kind
  wr_cells :: "8 word"
  wr_payload :: 'p

definition cells :: "'p widget_request \<Rightarrow> nat" where
  "cells r = unat (wr_cells r)"

text \<open>The pairs are compared by kind, then by their index in the input.\<close>

definition pair_gt :: "'p widget_request \<times> nat \<Rightarrow> 'p widget_request \<times> nat \<Rightarrow> bool" where
  "pair_gt a b \<longleftrightarrow>
     wr_kind (fst b) < wr_kind (fst a) \<or> (wr_kind (fst a) = wr_kind (fst b) \<and> snd b < snd a)"

text \<open>The greedy loop: what is placed with \<open>placed\<close> requests in and \<open>remaining\<close> cells free.\<close>

fun greedy_place :: "nat \<Rightarrow> nat \<Rightarrow> nat \<Rightarrow> 'p widget_request list \<Rightarrow> 'p widget_request list" where
  "greedy_place cap placed remaining [] = []"
| "greedy_place cap placed remaining (r # rs) =
     (if \<not> placed < cap then []
      else if cells r = 0 then greedy_place cap placed remaining rs
      else if remaining < cells r then greedy_place cap placed remaining rs
      else r # (if remaining - cells r = 0 then []
                else greedy_place cap (Suc placed) (remaining - cells r) rs))"

definition layout_pool_place :: "'p widget_request list \<Rightarrow> nat \<Rightarrow> 'p widget_request list" where
  "layout_pool_place reqs cap =
     (if reqs = [] \<or> cap = 0 then []
      else greedy_place cap 0 LAYOUT_POOL_CAPACITY_CELLS
             (map fst (c_isort pair_gt (zip reqs [0..<length reqs]))))"

section \<open>The sort is the stable sort by kind\<close>

interpretation by_kind: isort_order "\<lambda>a b :: 'p widget_request \<times> nat. wr_kind (fst b) < wr_kind (fst a)"
  by unfold_locales auto

lemma insert_right_cong:
  "(\<And>y. y \<in> set xs \<Longrightarrow> gt y x = gt' y x) \<Longrightarrow> insert_right gt x xs = insert_right gt' x xs"
  by (induction xs rule: rev_induct) (auto simp: insert_right_snoc)

lemma pairs_by_kind:
  "c_isort pair_gt (zip reqs [k..<k + length reqs]) =
     c_isort (\<lambda>a b. wr_kind (fst b) < wr_kind (fst a)) (zip reqs [k..<k + length reqs])"
proof -
  have "fold (insert_right pair_gt) (zip reqs [k..<k + length reqs]) acc =
      fold (insert_right (\<lambda>a b. wr_kind (fst b) < wr_kind (fst a))) (zip reqs [k..<k + length reqs]) acc"
    if "\<forall>p \<in> set acc. snd p < k" for acc
    using that
  proof (induction reqs arbitrary: k acc)
    case Nil
    then show ?case by simp
  next
    case (Cons r rs)
    let ?gt = "\<lambda>a b. wr_kind (fst b) < wr_kind (fst a)"
    have up: "[k..<k + length (r # rs)] = k # [Suc k..<Suc k + length rs]" by (simp add: upt_rec)
    have same: "insert_right pair_gt (r, k) acc = insert_right ?gt (r, k) acc"
      using Cons.prems by (intro insert_right_cong) (auto simp: pair_gt_def)
    have "set (insert_right ?gt (r, k) acc) = insert (r, k) (set acc)"
      by (metis mset_insert_right set_mset_add_mset_insert set_mset_mset)
    then have "\<forall>p \<in> set (insert_right ?gt (r, k) acc). snd p < Suc k"
      using Cons.prems by (auto simp: less_Suc_eq)
    from Cons.IH [OF this] show ?case unfolding up by (simp add: same)
  qed
  from this [of "[]"] show ?thesis by (simp add: c_isort_fold)
qed

lemma sorted_requests: "map fst (c_isort pair_gt (zip reqs [0..<length reqs])) = sort_key wr_kind reqs"
proof -
  let ?p = "zip reqs [0..<length reqs]"
  let ?s = "c_isort (\<lambda>a b. wr_kind (fst b) < wr_kind (fst a)) ?p"
  have eq: "c_isort pair_gt ?p = ?s" using pairs_by_kind [of reqs 0] by simp
  have fst_p: "map fst ?p = reqs" by simp
  have "mset (map fst ?s) = mset (map fst ?p)" unfolding mset_map by simp
  then have perm: "mset (map fst ?s) = mset reqs" unfolding fst_p .
  have stable: "filter (\<lambda>x. wr_kind k = wr_kind x) (map fst ?s) = filter (\<lambda>x. wr_kind k = wr_kind x) reqs" for k
  proof -
    have "filter (\<lambda>p. wr_kind k = wr_kind (fst p)) ?s = filter (\<lambda>p. wr_kind k = wr_kind (fst p)) ?p"
      by (rule by_kind.isort_stable) auto
    moreover have "map fst (filter (\<lambda>p. wr_kind k = wr_kind (fst p)) ps) =
        filter (\<lambda>x. wr_kind k = wr_kind x) (map fst ps)" for ps :: "('a widget_request \<times> nat) list"
      by (simp add: filter_map comp_def)
    ultimately show ?thesis by (metis fst_p)
  qed
  have "sorted_wrt (\<lambda>a b. \<not> wr_kind (fst b) < wr_kind (fst a)) ?s" by (rule by_kind.sorted_isort)
  then have "sorted (map wr_kind (map fst ?s))"
    by (simp add: sorted_map not_less sorted_wrt_map)
  from properties_for_sort_key [OF perm stable this] show ?thesis by (simp add: eq)
qed

section \<open>The greedy fill\<close>

definition total_cells :: "'p widget_request list \<Rightarrow> nat" where
  "total_cells rs = sum_list (map cells rs)"

lemma total_cells_simps [simp]: "total_cells [] = 0" "total_cells (r # rs) = cells r + total_cells rs"
  by (simp_all add: total_cells_def)

text \<open>The four ways through a round.\<close>

lemma greedy_cases:
  obtains (stop) "cap \<le> n" "greedy_place cap n rem (r # rs) = []"
  | (skip) "n < cap" "cells r = 0 \<or> rem < cells r" "greedy_place cap n rem (r # rs) = greedy_place cap n rem rs"
  | (fill) "n < cap" "0 < cells r" "cells r = rem" "greedy_place cap n rem (r # rs) = [r]"
  | (place) "n < cap" "0 < cells r" "cells r < rem"
      "greedy_place cap n rem (r # rs) = r # greedy_place cap (Suc n) (rem - cells r) rs"
  by (cases "n < cap"; cases "cells r = 0"; cases "rem < cells r"; cases "cells r = rem") (auto intro: that)

lemma greedy_bounds:
  "total_cells (greedy_place cap n rem rs) \<le> rem \<and> length (greedy_place cap n rem rs) \<le> cap - n \<and>
   mset (greedy_place cap n rem rs) \<subseteq># mset rs"
proof (induction rs arbitrary: n rem)
  case Nil
  then show ?case by simp
next
  case (Cons r rs)
  show ?case
  proof (cases rule: greedy_cases [of cap n rem r rs])
    case skip
    have "mset rs \<subseteq># mset (r # rs)" by simp
    with Cons.IH [of n rem] skip show ?thesis by (metis subset_mset.order_trans)
  next
    case place
    from Cons.IH [of "Suc n" "rem - cells r"] place show ?thesis by auto
  qed simp_all
qed

lemma greedy_subset: "set (greedy_place cap n rem rs) \<subseteq> set rs"
proof -
  have "mset (greedy_place cap n rem rs) \<subseteq># mset rs" using greedy_bounds by blast
  then have "set_mset (mset (greedy_place cap n rem rs)) \<subseteq> set_mset (mset rs)" by (rule set_mset_mono)
  then show ?thesis by simp
qed

lemma greedy_sorted:
  "sorted (map wr_kind rs) \<Longrightarrow> sorted (map wr_kind (greedy_place cap n rem rs))"
proof (induction rs arbitrary: n rem)
  case Nil
  then show ?case by simp
next
  case (Cons r rs)
  show ?case
  proof (cases rule: greedy_cases [of cap n rem r rs])
    case place
    have "wr_kind r \<le> wr_kind x" if "x \<in> set (greedy_place cap (Suc n) (rem - cells r) rs)" for x
      using that greedy_subset [of cap "Suc n" "rem - cells r" rs] Cons.prems by auto
    with Cons place show ?thesis by simp
  qed (use Cons in simp_all)
qed

text \<open>A request that is left out, while there is room for one more, does not fit beside what was
  placed before it.\<close>

lemma greedy_maximal:
  "r \<in> set rs \<Longrightarrow> r \<notin> set (greedy_place cap n rem rs) \<Longrightarrow> 0 < cells r \<Longrightarrow> sorted (map wr_kind rs) \<Longrightarrow>
     n + length (greedy_place cap n rem rs) < cap \<Longrightarrow>
     rem < cells r + total_cells (filter (\<lambda>x. wr_kind x \<le> wr_kind r) (greedy_place cap n rem rs))"
proof (induction rs arbitrary: n rem)
  case Nil
  then show ?case by simp
next
  case (Cons x rs)
  have xr: "wr_kind x \<le> wr_kind r" using Cons.prems(1,4) by auto
  show ?case
  proof (cases rule: greedy_cases [of cap n rem x rs])
    case stop
    with Cons.prems(5) show ?thesis by simp
  next
    case skip
    show ?thesis
    proof (cases "r = x")
      case True
      with skip Cons.prems(3) show ?thesis by (metis nat_less_le trans_less_add1)
    next
      case False
      have "sorted (map wr_kind rs)" using Cons.prems(4) by simp
      with Cons.IH [of n rem] False Cons.prems show ?thesis unfolding skip(3) by simp
    qed
  next
    case fill
    with xr Cons.prems(3) show ?thesis by simp
  next
    case place
    have "r \<noteq> x" using Cons.prems(2) place by auto
    moreover have "sorted (map wr_kind rs)" using Cons.prems(4) by simp
    ultimately show ?thesis using Cons.IH [of "Suc n" "rem - cells x"] Cons.prems xr place(3)
      unfolding place(4) by simp
  qed
qed

lemma greedy_twos:
  "\<forall>r \<in> set rs. cells r = 2 \<Longrightarrow> n \<le> cap \<Longrightarrow> greedy_place cap n (2 * m) rs = take (min m (cap - n)) rs"
proof (induction rs arbitrary: n m)
  case Nil
  then show ?case by simp
next
  case (Cons r rs)
  show ?case
  proof (cases "m = 0 \<or> n = cap")
    case True
    have "greedy_place cap n 0 xs = []" if "\<forall>r \<in> set xs. cells r = 2" for xs
      using that by (induction xs) auto
    with True Cons.prems show ?thesis by auto
  next
    case False
    then obtain m' where m: "m = Suc m'" by (cases m) auto
    have n: "n < cap" using False Cons.prems(2) by simp
    then obtain c where c: "cap - n = Suc c" "cap - Suc n = c" by (cases "cap - n") auto
    have "greedy_place cap (Suc n) (2 * m') rs = take (min m' (cap - Suc n)) rs"
      using Cons.IH [of "Suc n" m'] Cons.prems n by simp
    then show ?thesis using Cons.prems n c unfolding m by (cases "m' = 0") simp_all
  qed
qed

section \<open>Properties\<close>

text \<open>The placement never overflows the pool or the caller's array, places requests of the
  input in the order of their priority, and wastes nothing: while the array has room, a request
  is left out only if it does not fit beside the placed ones of its own and higher priority.\<close>

theorem layout_pool_sound:
  fixes reqs :: "'p widget_request list" and cap :: nat
  defines "placed \<equiv> layout_pool_place reqs cap"
  shows "total_cells placed \<le> LAYOUT_POOL_CAPACITY_CELLS \<and> length placed \<le> cap \<and>
    mset placed \<subseteq># mset reqs \<and> sorted (map wr_kind placed) \<and>
    (\<forall>r \<in> set reqs. r \<notin> set placed \<longrightarrow> 0 < cells r \<longrightarrow> length placed < cap \<longrightarrow>
       LAYOUT_POOL_CAPACITY_CELLS < cells r + total_cells (filter (\<lambda>x. wr_kind x \<le> wr_kind r) placed))"
proof (cases "reqs = [] \<or> cap = 0")
  case True
  then show ?thesis by (auto simp: placed_def layout_pool_place_def)
next
  case False
  then have p: "placed = greedy_place cap 0 12 (sort_key wr_kind reqs)"
    by (simp add: placed_def layout_pool_place_def sorted_requests)
  have sorted: "sorted (map wr_kind (sort_key wr_kind reqs))" by simp
  note b = greedy_bounds [of cap 0 12 "sort_key wr_kind reqs"]
  have "12 < cells r + total_cells (filter (\<lambda>x. wr_kind x \<le> wr_kind r) placed)"
    if "r \<in> set reqs" "r \<notin> set placed" "0 < cells r" "length placed < cap" for r
    unfolding p by (rule greedy_maximal [OF _ _ that(3) sorted]) (use that in \<open>simp_all add: p\<close>)
  with b greedy_sorted [OF sorted, of cap 0 12] show ?thesis by (simp add: p)
qed

definition graph_req :: "nat \<Rightarrow> nat widget_request" where
  "graph_req i = \<lparr>wr_kind = WIDGET_GRAPH, wr_cells = 10, wr_payload = i\<rparr>"

theorem layout_pool_sound_witness:
  "layout_pool_place [\<lparr>wr_kind = WIDGET_FORTUNE, wr_cells = 4, wr_payload = 0\<rparr>, graph_req 1] 8 = [graph_req 1] \<and>
   12 < cells \<lparr>wr_kind = WIDGET_FORTUNE, wr_cells = 4, wr_payload = 0 :: nat\<rparr> + total_cells [graph_req 1]"
proof -
  let ?f = "\<lparr>wr_kind = WIDGET_FORTUNE, wr_cells = 4, wr_payload = 0 :: nat\<rparr>"
  have p: "layout_pool_place [?f, graph_req 1] 8 = [graph_req 1]" by code_simp
  have out: "?f \<notin> set [graph_req 1]" "0 < cells ?f" by (simp_all add: graph_req_def cells_def)
  have flt: "filter (\<lambda>x. wr_kind x \<le> wr_kind ?f) [graph_req 1] = [graph_req 1]"
    by (simp add: graph_req_def less_eq_widget_kind_def)
  have "12 < cells ?f + total_cells (filter (\<lambda>x. wr_kind x \<le> wr_kind ?f) [graph_req 1])"
    by (rule layout_pool_sound [of "[?f, graph_req 1]" 8, unfolded p, THEN conjunct2, THEN conjunct2, THEN conjunct2,
          THEN conjunct2, rule_format]) (use out in simp_all)
  then show ?thesis unfolding flt using p by simp
qed

text \<open>With the two-cell widgets of today, the pool holds exactly the first six requests (or as
  many as the array takes) of the stable order by priority.\<close>

theorem layout_pool_first_six:
  assumes "\<forall>r \<in> set reqs. cells r = 2"
  shows "layout_pool_place reqs cap = take (min 6 cap) (sort_key wr_kind reqs)"
  using assms greedy_twos [of "sort_key wr_kind reqs" 0 cap 6]
  by (simp add: layout_pool_place_def sorted_requests)

theorem layout_pool_first_six_witness:
  "layout_pool_place (map (\<lambda>i. \<lparr>wr_kind = WIDGET_GRAPH, wr_cells = 2, wr_payload = i\<rparr>) [0..<8]) 12 =
     map (\<lambda>i. \<lparr>wr_kind = WIDGET_GRAPH, wr_cells = 2, wr_payload = i\<rparr>) [0..<6]"
proof -
  let ?r = "map (\<lambda>i :: nat. \<lparr>wr_kind = WIDGET_GRAPH, wr_cells = 2, wr_payload = i\<rparr>) [0..<8]"
  have "\<forall>r \<in> set ?r. cells r = 2" by (simp add: cells_def)
  from layout_pool_first_six [OF this, of 12] show ?thesis
    by (simp add: upt_rec insort_key_def)
qed

end
