(* ===== verification/Status_Queue.thy ===== *)
theory Status_Queue
  imports KLibs
begin

text \<open>
  The status queue (\<open>src/src/status.c\<close>): a ring of sixteen messages, the head of which is on the
  status bar and waits for an acknowledgement in Redis.  The ring is kept as the code keeps it
  (\<open>ring\<close>: slots, head, tail and count) and shown to be a bounded FIFO list; \<open>status\<close> adds the
  bar (\<open>None\<close> when hidden).  The JSON text of a message is a parameter, as cJSON prints it.
\<close>

abbreviation "STATUS_QUEUE_MAX \<equiv> 16 :: nat"

datatype status_severity = STATUS_WARNING | STATUS_ERROR

record status_message =
  msg_id :: string
  msg_severity :: status_severity
  msg_text :: string
  msg_ts :: double

record ring =
  rg_slots :: "status_message list"
  rg_head :: nat
  rg_tail :: nat
  rg_count :: nat

record status =
  st_ring :: ring
  st_bar :: "(status_severity \<times> string) option"

section \<open>Operations\<close>

definition blank_message :: status_message where
  "blank_message = \<lparr>msg_id = [], msg_severity = STATUS_WARNING, msg_text = [], msg_ts = 0\<rparr>"

definition ring_start :: ring where
  "ring_start = \<lparr>rg_slots = replicate STATUS_QUEUE_MAX blank_message, rg_head = 0, rg_tail = 0, rg_count = 0\<rparr>"

definition status_start :: status where
  "status_start = \<lparr>st_ring = ring_start, st_bar = None\<rparr>"

definition queue_is_empty :: "ring \<Rightarrow> bool" where
  "queue_is_empty q \<longleftrightarrow> rg_count q = 0"

definition status_get_current :: "ring \<Rightarrow> status_message option" where
  "status_get_current q =
     (if queue_is_empty q then None else Some (rg_slots q ! (rg_head q mod STATUS_QUEUE_MAX)))"

text \<open>The part of \<open>status_push\<close> that stores the message, and the part of the acknowledgement that
  advances the queue.\<close>

definition enqueue :: "status_message \<Rightarrow> ring \<Rightarrow> ring" where
  "enqueue m q =
     (if STATUS_QUEUE_MAX \<le> rg_count q then q
      else q\<lparr>rg_slots := (rg_slots q)[rg_tail q mod STATUS_QUEUE_MAX := m],
             rg_tail := (rg_tail q + 1) mod STATUS_QUEUE_MAX, rg_count := rg_count q + 1\<rparr>)"

definition dequeue :: "ring \<Rightarrow> ring" where
  "dequeue q = q\<lparr>rg_head := (rg_head q + 1) mod STATUS_QUEUE_MAX, rg_count := rg_count q - 1\<rparr>"

text \<open>\<open>new_id\<close> is what \<open>gen_id\<close> writes (the time and an address in hexadecimal).\<close>

definition status_push :: "string \<Rightarrow> status_severity \<Rightarrow> string \<Rightarrow> double \<Rightarrow> status \<Rightarrow> status" where
  "status_push new_id severity message now s =
     (if STATUS_QUEUE_MAX \<le> rg_count (st_ring s) then s
      else let m = \<lparr>msg_id = buf_copy 37 new_id, msg_severity = severity,
                    msg_text = buf_copy 256 message, msg_ts = now\<rparr>;
               q = enqueue m (st_ring s)
           in s\<lparr>st_ring := q, st_bar := (if rg_count q = 1 then Some (severity, message) else st_bar s)\<rparr>)"

definition KPIDASH_KEY_STATUS_CURRENT :: string where
  "KPIDASH_KEY_STATUS_CURRENT = ''kpidash:status:current''"

definition status_ack_key :: "string \<Rightarrow> string" where
  "status_ack_key i = buf_copy 256 (''kpidash:status:ack:'' @ i)"

definition write_current_to_redis ::
  "'w hiredis \<Rightarrow> (status_message \<Rightarrow> string option) \<Rightarrow> status_message \<Rightarrow> 'w \<Rightarrow> 'w" where
  "write_current_to_redis H pr m w =
     (if hr_err H w then w
      else case pr m of
          None \<Rightarrow> w
        | Some json \<Rightarrow> snd (hr_command H w [''SET'', KPIDASH_KEY_STATUS_CURRENT, json]))"

definition delete_current_from_redis :: "'w hiredis \<Rightarrow> 'w \<Rightarrow> 'w" where
  "delete_current_from_redis H w =
     (if hr_err H w then w else snd (hr_command H w [''DEL'', KPIDASH_KEY_STATUS_CURRENT]))"

definition status_redis_check_ack ::
  "'w hiredis \<Rightarrow> (status_message \<Rightarrow> string option) \<Rightarrow> status \<times> 'w \<Rightarrow> status \<times> 'w" where
  "status_redis_check_ack H pr sw =
     (case sw of (s, w) \<Rightarrow>
        if hr_err H w then (s, w)
        else case status_get_current (st_ring s) of
            None \<Rightarrow> (s, w)
          | Some current \<Rightarrow>
              let key = status_ack_key (msg_id current);
                  (r, w1) = hr_command H w [''EXISTS'', key]
              in if r \<noteq> Some (RInteger 1) then (s, w1)
                 else let w2 = snd (hr_command H w1 [''DEL'', key]);
                          q = dequeue (st_ring s)
                      in (case status_get_current q of
                            None \<Rightarrow> (s\<lparr>st_ring := q, st_bar := None\<rparr>, delete_current_from_redis H w2)
                          | Some next \<Rightarrow>
                              (s\<lparr>st_ring := q, st_bar := Some (msg_severity next, msg_text next)\<rparr>,
                               write_current_to_redis H pr next w2)))"

section \<open>A bounded FIFO\<close>

text \<open>What the callers of a bounded queue rely on.\<close>

locale bounded_fifo =
  fixes inv :: "'q \<Rightarrow> bool"
    and contents :: "'q \<Rightarrow> 'a list"
    and cap :: nat
    and push :: "'a \<Rightarrow> 'q \<Rightarrow> 'q"
    and pop :: "'q \<Rightarrow> 'q"
    and front :: "'q \<Rightarrow> 'a option"
  assumes push_inv: "inv q \<Longrightarrow> inv (push a q)"
    and pop_inv: "inv q \<Longrightarrow> contents q \<noteq> [] \<Longrightarrow> inv (pop q)"
    and push_contents: "inv q \<Longrightarrow>
      contents (push a q) = (if length (contents q) < cap then contents q @ [a] else contents q)"
    and pop_contents: "inv q \<Longrightarrow> contents q \<noteq> [] \<Longrightarrow> contents (pop q) = tl (contents q)"
    and front_contents: "inv q \<Longrightarrow> front q = (case contents q of [] \<Rightarrow> None | a # _ \<Rightarrow> Some a)"
    and fifo_bounded: "inv q \<Longrightarrow> length (contents q) \<le> cap"
begin

lemma fold_push:
  "inv q \<Longrightarrow> inv (fold push as q) \<and> contents (fold push as q) = contents q @ take (cap - length (contents q)) as"
proof (induction as arbitrary: q)
  case Nil
  then show ?case by simp
next
  case (Cons a as)
  note IH = Cons.IH [OF push_inv [OF Cons.prems]]
  show ?case
  proof (cases "length (contents q) < cap")
    case True
    then obtain m where "cap - length (contents q) = Suc m" "cap - Suc (length (contents q)) = m"
      by (cases "cap - length (contents q)") auto
    with IH True push_contents [OF Cons.prems] show ?thesis by simp
  next
    case False
    with IH push_contents [OF Cons.prems] show ?thesis by simp
  qed
qed

text \<open>First in, first out: after as many pops as there were messages, the front is the first one
  pushed since.\<close>

lemma pop_all:
  "inv q \<Longrightarrow> n \<le> length (contents q) \<Longrightarrow> inv ((pop ^^ n) q) \<and> contents ((pop ^^ n) q) = drop n (contents q)"
proof (induction n)
  case (Suc n)
  then have IH: "inv ((pop ^^ n) q)" "contents ((pop ^^ n) q) = drop n (contents q)" by simp_all
  then have "contents ((pop ^^ n) q) \<noteq> []" using Suc.prems by simp
  with IH pop_inv pop_contents show ?case by (simp add: drop_Suc tl_drop)
qed simp

lemma front_after:
  "inv q \<Longrightarrow> n < length (contents q) \<Longrightarrow> front ((pop ^^ n) q) = Some (contents q ! n)"
  using pop_all [of q n] front_contents by (simp add: Cons_nth_drop_Suc [symmetric])

end

section \<open>The ring is one\<close>

definition ring_inv :: "ring \<Rightarrow> bool" where
  "ring_inv q \<longleftrightarrow> length (rg_slots q) = STATUS_QUEUE_MAX \<and> rg_head q < STATUS_QUEUE_MAX \<and>
     rg_count q \<le> STATUS_QUEUE_MAX \<and> rg_tail q = (rg_head q + rg_count q) mod STATUS_QUEUE_MAX"

definition ring_contents :: "ring \<Rightarrow> status_message list" where
  "ring_contents q = map (\<lambda>i. rg_slots q ! ((rg_head q + i) mod STATUS_QUEUE_MAX)) [0..<rg_count q]"

lemma length_ring_contents [simp]: "length (ring_contents q) = rg_count q"
  by (simp add: ring_contents_def)

lemma mod_cancel: "i < n \<Longrightarrow> n < (16 :: nat) \<Longrightarrow> (h + i) mod 16 \<noteq> (h + n) mod 16"
proof
  assume a: "i < n" "n < (16 :: nat)" "(h + i) mod 16 = (h + n) mod 16"
  have "16 dvd (h + n) - (h + i)" using a(3) by (metis mod_eq_dvd_iff_nat a(1) add_le_cancel_left less_imp_le_nat)
  then have "16 dvd n - i" by simp
  with a(1,2) show False by (auto dest: dvd_imp_le)
qed

interpretation ring: bounded_fifo ring_inv ring_contents STATUS_QUEUE_MAX enqueue dequeue status_get_current
proof unfold_locales
  fix q a
  assume inv: "ring_inv q"
  show "ring_inv (enqueue a q)"
    using inv by (auto simp: ring_inv_def enqueue_def mod_Suc_eq)
  show "ring_contents (enqueue a q) =
      (if length (ring_contents q) < 16 then ring_contents q @ [a] else ring_contents q)"
  proof (cases "rg_count q < 16")
    case True
    have tail: "rg_tail q = (rg_head q + rg_count q) mod 16" "rg_tail q < 16" "length (rg_slots q) = 16"
      using inv by (auto simp: ring_inv_def)
    have "rg_slots (enqueue a q) ! ((rg_head q + i) mod 16) = rg_slots q ! ((rg_head q + i) mod 16)"
      if "i < rg_count q" for i
      using mod_cancel [OF that True, of "rg_head q"] tail True by (simp add: enqueue_def)
    moreover have "rg_slots (enqueue a q) ! ((rg_head q + rg_count q) mod 16) = a"
      using tail True by (simp add: enqueue_def)
    ultimately show ?thesis using True by (simp add: ring_contents_def) (simp add: enqueue_def)
  next
    case False
    then show ?thesis by (simp add: enqueue_def)
  qed
  show "status_get_current q = (case ring_contents q of [] \<Rightarrow> None | a # _ \<Rightarrow> Some a)"
  proof (cases "rg_count q")
    case (Suc n)
    then have "ring_contents q = rg_slots q ! (rg_head q mod 16) # map (\<lambda>i. rg_slots q ! ((rg_head q + i) mod 16)) [1..<Suc n]"
      by (simp add: ring_contents_def upt_conv_Cons del: upt_Suc)
    with Suc show ?thesis by (simp add: status_get_current_def queue_is_empty_def)
  qed (simp add: status_get_current_def queue_is_empty_def ring_contents_def)
  show "length (ring_contents q) \<le> 16" using inv by (simp add: ring_inv_def)
next
  fix q
  assume inv: "ring_inv q" and "ring_contents q \<noteq> []"
  then have pos: "0 < rg_count q" by (metis length_ring_contents length_greater_0_conv)
  have "rg_head q + rg_count q = rg_head q + 1 + (rg_count q - 1)" using pos by simp
  then have "(rg_head q + rg_count q) mod 16 = ((rg_head q + 1) mod 16 + (rg_count q - 1)) mod 16"
    by (metis mod_add_left_eq)
  then show "ring_inv (dequeue q)" using inv by (auto simp: ring_inv_def dequeue_def)
  obtain n where n: "rg_count q = Suc n" using pos by (cases "rg_count q") auto
  have "map (\<lambda>i. rg_slots q ! (((rg_head q + 1) mod 16 + i) mod 16)) [0..<n] =
      map (\<lambda>i. rg_slots q ! ((rg_head q + i) mod 16)) (map Suc [0..<n])"
    by (simp add: mod_add_left_eq)
  then show "ring_contents (dequeue q) = tl (ring_contents q)"
    using n by (simp add: ring_contents_def dequeue_def map_Suc_upt upt_conv_Cons del: upt_Suc)
qed

section \<open>Events\<close>

datatype status_event = Push string status_severity string double | Poll

fun status_step ::
  "'w hiredis \<Rightarrow> (status_message \<Rightarrow> string option) \<Rightarrow> status_event \<Rightarrow> status \<times> 'w \<Rightarrow> status \<times> 'w" where
  "status_step H pr (Push i severity m now) (s, w) = (status_push i severity m now s, w)"
| "status_step H pr Poll (s, w) = status_redis_check_ack H pr (s, w)"

abbreviation waiting :: "status \<Rightarrow> status_message list" where
  "waiting s \<equiv> ring_contents (st_ring s)"

text \<open>The bar shows the first waiting message; the message itself keeps 255 bytes of it.\<close>

definition status_inv :: "status \<Rightarrow> bool" where
  "status_inv s \<longleftrightarrow> ring_inv (st_ring s) \<and>
     (case waiting s of
        [] \<Rightarrow> st_bar s = None
      | m # _ \<Rightarrow> (case st_bar s of None \<Rightarrow> False
                 | Some (sev, t) \<Rightarrow> sev = msg_severity m \<and> msg_text m = buf_copy 256 t))"

text \<open>The poll finds the acknowledgement of the first message.\<close>

definition acked :: "'w hiredis \<Rightarrow> status \<Rightarrow> 'w \<Rightarrow> bool" where
  "acked H s w \<longleftrightarrow> \<not> hr_err H w \<and> waiting s \<noteq> [] \<and>
     fst (hr_command H w [''EXISTS'', status_ack_key (msg_id (hd (waiting s)))]) = Some (RInteger 1)"

definition texts_fit :: "status \<Rightarrow> bool" where
  "texts_fit s \<longleftrightarrow> (\<forall>m \<in> set (waiting s). length (msg_text m) < 256)"

lemma status_inv_start: "status_inv status_start" "texts_fit status_start"
  by (simp_all add: status_inv_def status_start_def ring_start_def ring_inv_def ring_contents_def texts_fit_def)

lemma push_effect:
  assumes inv: "status_inv s"
  shows "status_inv (status_push i sev t now s)"
    "waiting (status_push i sev t now s) = (if length (waiting s) < 16 then waiting s @
       [\<lparr>msg_id = buf_copy 37 i, msg_severity = sev, msg_text = buf_copy 256 t, msg_ts = now\<rparr>] else waiting s)"
proof -
  let ?m = "\<lparr>msg_id = buf_copy 37 i, msg_severity = sev, msg_text = buf_copy 256 t, msg_ts = now\<rparr>"
  let ?q = "enqueue ?m (st_ring s)"
  have q: "ring_inv (st_ring s)" using inv by (simp add: status_inv_def)
  have len: "rg_count (st_ring s) = length (waiting s)" by simp
  have "ring_inv ?q" by (rule ring.push_inv [OF q])
  note c = ring.push_contents [OF q, of ?m]
  have cnt: "rg_count ?q = length (ring_contents ?q)" by simp
  show "waiting (status_push i sev t now s) = (if length (waiting s) < 16 then waiting s @ [?m] else waiting s)"
    using c by (simp add: status_push_def Let_def)
  show "status_inv (status_push i sev t now s)"
  proof (cases "length (waiting s) < 16")
    case True
    have p: "status_push i sev t now s = s\<lparr>st_ring := ?q, st_bar := (if rg_count ?q = 1 then Some (sev, t) else st_bar s)\<rparr>"
      using True by (simp add: status_push_def Let_def)
    have cq: "ring_contents ?q = waiting s @ [?m]" using c True by simp
    show ?thesis
      using inv \<open>ring_inv ?q\<close> unfolding p cnt cq
      by (cases "waiting s") (simp_all add: status_inv_def cq)
  next
    case False
    then have "status_push i sev t now s = s" by (simp add: status_push_def)
    with inv show ?thesis by simp
  qed
qed

lemma poll_effect:
  assumes inv: "status_inv s" "texts_fit s" and p: "status_redis_check_ack H pr (s, w) = (s', w')"
  shows "status_inv s'" "waiting s' = (if acked H s w then tl (waiting s) else waiting s)"
    "\<not> acked H s w \<Longrightarrow> s' = s \<and> w' = (if hr_err H w \<or> waiting s = [] then w
       else snd (hr_command H w [''EXISTS'', status_ack_key (msg_id (hd (waiting s)))]))"
proof -
  have q: "ring_inv (st_ring s)" using inv by (simp add: status_inv_def)
  have cur: "status_get_current (st_ring s) = (case waiting s of [] \<Rightarrow> None | m # _ \<Rightarrow> Some m)"
    by (rule ring.front_contents [OF q])
  show idle: "\<not> acked H s w \<Longrightarrow> s' = s \<and> w' = (if hr_err H w \<or> waiting s = [] then w
       else snd (hr_command H w [''EXISTS'', status_ack_key (msg_id (hd (waiting s)))]))"
    using p by (cases "waiting s") (auto simp: status_redis_check_ack_def cur acked_def Let_def split: if_splits prod.splits)
  have "status_inv s' \<and> waiting s' = tl (waiting s)" if a: "acked H s w"
  proof -
    obtain m ms where m: "waiting s = m # ms" using a by (cases "waiting s") (auto simp: acked_def)
    let ?q = "dequeue (st_ring s)"
    have qi: "ring_inv ?q" and qc: "ring_contents ?q = ms"
      using ring.pop_inv [OF q] ring.pop_contents [OF q] m by simp_all
    have s': "s' = s\<lparr>st_ring := ?q, st_bar := (case ms of [] \<Rightarrow> None | n # _ \<Rightarrow> Some (msg_severity n, msg_text n))\<rparr>"
      using p a m cur ring.front_contents [OF qi]
      by (cases ms) (auto simp: status_redis_check_ack_def acked_def Let_def qc split: prod.splits)
    show ?thesis
      using inv(2) m unfolding s'
      by (cases ms) (auto simp: status_inv_def qi qc texts_fit_def buf_copy_id)
  qed
  then show "status_inv s'" "waiting s' = (if acked H s w then tl (waiting s) else waiting s)"
    using idle inv(1) by (cases "acked H s w"; simp)+
qed

lemma step_texts_fit:
  assumes "status_inv s" "texts_fit s" shows "texts_fit (fst (status_step H pr ev (s, w)))"
proof (cases ev)
  case (Push i sev t now)
  then show ?thesis using push_effect(2) [OF assms(1), of i sev t now] assms(2)
    by (auto simp: texts_fit_def)
next
  case Poll
  obtain s' w' where p: "status_redis_check_ack H pr (s, w) = (s', w')" by (cases "status_redis_check_ack H pr (s, w)")
  have "m \<in> set ms" if "m \<in> set (tl ms)" for m :: status_message and ms using that by (cases ms) auto
  then show ?thesis using poll_effect(2) [OF assms p] assms(2) Poll p
    by (auto simp: texts_fit_def split: if_splits)
qed

section \<open>Properties\<close>

text \<open>C25: the queue is first in, first out and holds sixteen: a push appends the message unless the
  queue is full, an acknowledged poll drops the first one and nothing else changes the queue,
  and after every event the status bar shows the first waiting message, or is hidden when none
  waits.\<close>

theorem status_step_fifo:
  assumes "status_inv s" "texts_fit s" "status_step H pr ev (s, w) = (s', w')"
  shows "waiting s' =
      (case ev of
         Push i sev t now \<Rightarrow>
           (if length (waiting s) < STATUS_QUEUE_MAX
            then waiting s @ [\<lparr>msg_id = buf_copy 37 i, msg_severity = sev, msg_text = buf_copy 256 t, msg_ts = now\<rparr>]
            else waiting s)
       | Poll \<Rightarrow> if acked H s w then tl (waiting s) else waiting s) \<and>
    status_inv s' \<and> texts_fit s'"
proof (cases ev)
  case (Push i sev t now)
  then show ?thesis
    using step_texts_fit [OF assms(1,2), of H pr ev w] push_effect [OF assms(1), of i sev t now] assms(3) by simp
next
  case Poll
  then have p: "status_redis_check_ack H pr (s, w) = (s', w')" using assms(3) by simp
  show ?thesis
    using step_texts_fit [OF assms(1,2), of H pr ev w] poll_effect(1,2) [OF assms(1,2) p] assms(3) Poll by simp
qed

definition two_waiting :: status where
  "two_waiting = status_push ''id2'' STATUS_ERROR ''second'' 2 (status_push ''id1'' STATUS_WARNING ''first'' 1 status_start)"

lemma two_waiting_inv: "status_inv two_waiting" "texts_fit two_waiting"
  using push_effect(1) [OF push_effect(1) [OF status_inv_start(1)]]
    step_texts_fit [OF push_effect(1) [OF status_inv_start(1)], of "''id1''" STATUS_WARNING "''first''" 1
      scripted "\<lambda>_. None" "Push ''id2'' STATUS_ERROR ''second'' 2" "[]"]
    step_texts_fit [OF status_inv_start, of scripted "\<lambda>_. None" "Push ''id1'' STATUS_WARNING ''first'' 1" "[]"]
  by (simp_all add: two_waiting_def)

theorem status_step_fifo_witness:
  "\<exists>s' w'. status_step scripted (\<lambda>_. None) Poll (two_waiting, [Some (RInteger 1)]) = (s', w') \<and>
     map msg_id (waiting s') = [''id2''] \<and> status_inv s'"
proof -
  let ?go = "status_step scripted (\<lambda>_. None) Poll (two_waiting, [Some (RInteger 1)])"
  obtain s' w' where g: "?go = (s', w')" by (cases ?go)
  have w: "map msg_id (waiting two_waiting) = [''id1'', ''id2'']" by code_simp
  then have "waiting two_waiting \<noteq> []" by auto
  then have "acked scripted two_waiting [Some (RInteger 1)]" by (simp add: acked_def scripted_def)
  with status_step_fifo [OF two_waiting_inv g] w g show ?thesis by (simp add: map_tl)
qed

text \<open>Nothing but an acknowledgement publishes a message: a poll that finds none sends the one
  EXISTS of the message's key and changes nothing, so the first message of an empty queue is
  never written to Redis, where a client would have to read its id to acknowledge it.\<close>

theorem status_unacked_silent:
  assumes "status_inv s" "texts_fit s" "status_redis_check_ack H pr (s, w) = (s', w')" "\<not> acked H s w"
  shows "s' = s \<and> w' = (if hr_err H w \<or> waiting s = [] then w
    else snd (hr_command H w [''EXISTS'', status_ack_key (msg_id (hd (waiting s)))]))"
  by (rule poll_effect(3) [OF assms])

text \<open>A server that keeps the commands it gets and answers 0.\<close>

definition recorder :: "string list list hiredis" where
  "recorder = \<lparr>hr_command = (\<lambda>w c. (Some (RInteger 0), w @ [c])), hr_err = (\<lambda>_. False)\<rparr>"

theorem status_unacked_silent_witness:
  "status_redis_check_ack recorder (\<lambda>_. Some ''json'') (two_waiting, []) =
     (two_waiting, [[''EXISTS'', ''kpidash:status:ack:id1'']])"
proof -
  let ?go = "status_redis_check_ack recorder (\<lambda>_. Some ''json'') (two_waiting, [])"
  obtain s' w' where g: "?go = (s', w')" by (cases ?go)
  have w: "map msg_id (waiting two_waiting) = [''id1'', ''id2'']" by code_simp
  then have hd: "waiting two_waiting \<noteq> []" "msg_id (hd (waiting two_waiting)) = ''id1''"
    by (auto simp: hd_map [symmetric])
  have "\<not> acked recorder two_waiting []" by (simp add: acked_def recorder_def)
  from status_unacked_silent [OF two_waiting_inv g this] g hd show ?thesis
    by (simp add: recorder_def status_ack_key_def)
qed

end
