(* ===== verification/Redis_Parse.thy ===== *)
theory Redis_Parse
  imports KLibs Client_Registry Service_Registry AptTemps_Registry Graph_Hosts Stale_Registry
begin

text \<open>
  The payload parsers of \<open>src/src/redis.c\<close>, one function each, over any cJSON library \<open>J\<close>.
  A parser that fills a slot takes the slot and answers the new slot, \<open>None\<close> when it answers
  false or -1; a field the payload lacks keeps its value.  A conversion from \<open>valueint\<close> to
  \<open>uint32_t\<close> is a word; the result of \<open>strncpy\<close> into a zero-filled buffer is \<open>buf_copy\<close>.
\<close>

section \<open>Health and telemetry\<close>

definition redis_parse_health_json :: "'j cjson \<Rightarrow> string \<Rightarrow> client_info \<Rightarrow> client_info option" where
  "redis_parse_health_json J json c =
     (case cj_parse J json of
        None \<Rightarrow> None
      | Some v \<Rightarrow> Some
          (c\<lparr>ci_last_seen_ts := set_if (item_number J v ''last_seen_ts'') (ci_last_seen_ts c),
             ci_uptime_seconds := set_if (item_number J v ''uptime_seconds'') (ci_uptime_seconds c),
             ci_os_name := set_if (map_option (buf_copy 128) (item_string J v ''os_name'')) (ci_os_name c),
             ci_intermittent := (item_string J v ''availability'' = Some ''intermittent''),
             ci_online := True\<rparr>))"

definition get_uint32 :: "'j cjson \<Rightarrow> 'j \<Rightarrow> string \<Rightarrow> 32 word option" where
  "get_uint32 J v k = map_option word_of_int (item_int J v k)"

definition parse_gpu :: "'j cjson \<Rightarrow> 'j \<Rightarrow> gpu_info \<Rightarrow> gpu_info" where
  "parse_gpu J v g =
     (case item_object J v ''gpu'' of
        None \<Rightarrow> g\<lparr>gpu_present := False\<rparr>
      | Some o' \<Rightarrow> g\<lparr>gpu_present := True,
          gpu_name := set_if (map_option (buf_copy 64) (item_string J o' ''name'')) (gpu_name g),
          gpu_vram_used_mb := set_if (get_uint32 J o' ''vram_used_mb'') (gpu_vram_used_mb g),
          gpu_vram_total_mb := set_if (get_uint32 J o' ''vram_total_mb'') (gpu_vram_total_mb g),
          gpu_compute_pct := set_if (item_number J o' ''compute_pct'') (gpu_compute_pct g)\<rparr>)"

definition parse_disk_type :: "string \<Rightarrow> disk_type" where
  "parse_disk_type s =
     (if s = ''nvme'' then DISK_NVME else if s = ''ssd'' then DISK_SSD
      else if s = ''hdd'' then DISK_HDD else DISK_OTHER)"

definition parse_disk :: "'j cjson \<Rightarrow> 'j \<Rightarrow> disk_entry" where
  "parse_disk J d =
     \<lparr>dk_label = set_if (map_option (buf_copy 64) (item_string J d ''label'')) [],
      dk_type = set_if (map_option parse_disk_type (item_string J d ''type'')) DISK_NVME,
      dk_used_gb = set_if (item_number J d ''used_gb'') 0,
      dk_total_gb = set_if (item_number J d ''total_gb'') 0,
      dk_pct = set_if (item_number J d ''pct'') 0\<rparr>"

definition redis_parse_telemetry_json :: "'j cjson \<Rightarrow> string \<Rightarrow> client_info \<Rightarrow> client_info option" where
  "redis_parse_telemetry_json J json c =
     (case cj_parse J json of
        None \<Rightarrow> None
      | Some v \<Rightarrow> Some
          (c\<lparr>ci_cpu_pct := set_if (item_number J v ''cpu_pct'') (ci_cpu_pct c),
             ci_top_core_pct := set_if (item_number J v ''top_core_pct'') (ci_top_core_pct c),
             ci_ram_used_mb := set_if (get_uint32 J v ''ram_used_mb'') (ci_ram_used_mb c),
             ci_ram_total_mb := set_if (get_uint32 J v ''ram_total_mb'') (ci_ram_total_mb c),
             ci_telemetry_ts := set_if (item_number J v ''ts'') (ci_telemetry_ts c),
             ci_gpu := parse_gpu J v (ci_gpu c),
             ci_disks := (case item_array J v ''disks'' of
                 None \<Rightarrow> [] | Some ds \<Rightarrow> map (parse_disk J) (take MAX_DISKS ds))\<rparr>))"

section \<open>Developer telemetry\<close>

text \<open>The flag is the return value; the record is written either way.\<close>

definition redis_parse_dev_telemetry_json :: "'j cjson \<Rightarrow> string option \<Rightarrow> bool \<times> dev_telemetry" where
  "redis_parse_dev_telemetry_json J json =
     (case json of
        None \<Rightarrow> (True, blank_dev_telemetry)
      | Some s \<Rightarrow>
          (case cj_parse J s of
             None \<Rightarrow> (False, blank_dev_telemetry)
           | Some v \<Rightarrow>
               let dt = blank_dev_telemetry\<lparr>dt_valid := True,
                     dt_cpu_pct := set_if (item_number J v ''cpu_pct'') 0,
                     dt_top_core_pct := set_if (item_number J v ''top_core_pct'') 0,
                     dt_ram_used_mb := set_if (get_uint32 J v ''ram_used_mb'') 0,
                     dt_ram_total_mb := set_if (get_uint32 J v ''ram_total_mb'') 0\<rparr>;
                   dt' = (case item_object J v ''gpu'' of
                       None \<Rightarrow> dt
                     | Some g \<Rightarrow> dt\<lparr>dt_gpu_present := True,
                         dt_gpu_compute_pct := set_if (item_number J g ''compute_pct'') 0,
                         dt_gpu_vram_used_mb := set_if (get_uint32 J g ''vram_used_mb'') 0,
                         dt_gpu_vram_total_mb := set_if (get_uint32 J g ''vram_total_mb'') 0\<rparr>);
                   host = (case item_string J v ''host'' of
                       Some h \<Rightarrow> if h \<noteq> [] then h else ''(legacy)''
                     | None \<Rightarrow> ''(legacy)'')
               in (True, dt'\<lparr>dt_host := buf_copy 64 host\<rparr>)))"

section \<open>Development commands\<close>

record dev_cmd_state =
  dc_grid_enabled :: bool
  dc_grid_size :: int
  dc_grid_unit :: bool
  dc_grid_unit_size :: double
  dc_textsize_enabled :: bool
  dc_graph_enabled :: bool
  dc_graph_hosts :: "(string \<times> bool) list"
  dc_fortune_dev_enabled :: bool

definition blank_dev_cmd :: dev_cmd_state where
  "blank_dev_cmd = \<lparr>dc_grid_enabled = False, dc_grid_size = 0, dc_grid_unit = False,
     dc_grid_unit_size = 0, dc_textsize_enabled = False, dc_graph_enabled = False,
     dc_graph_hosts = [], dc_fortune_dev_enabled = False\<rparr>"

definition redis_parse_cmd_grid_json ::
  "'j cjson \<Rightarrow> string option \<Rightarrow> dev_cmd_state \<Rightarrow> bool \<times> dev_cmd_state" where
  "redis_parse_cmd_grid_json J json st =
     (let st0 = st\<lparr>dc_grid_enabled := False, dc_grid_size := 0, dc_grid_unit := False,
                   dc_grid_unit_size := 1\<rparr>
      in case json of
           None \<Rightarrow> (True, st0)
         | Some s \<Rightarrow>
             (case cj_parse J s of
                None \<Rightarrow> (False, st0)
              | Some v \<Rightarrow>
                  let st1 = st0\<lparr>dc_grid_enabled := set_if (item_bool J v ''enabled'') False\<rparr>
                  in (True,
                      if item_bool J v ''unit'' = Some True
                      then (case item_number J v ''size'' of
                              Some d \<Rightarrow> if 0 < d then st1\<lparr>dc_grid_unit := True, dc_grid_unit_size := d\<rparr>
                                       else st1\<lparr>dc_grid_unit := True\<rparr>
                            | None \<Rightarrow> st1\<lparr>dc_grid_unit := True\<rparr>)
                      else (case item_int J v ''size'' of
                              Some i \<Rightarrow> if 0 < i then st1\<lparr>dc_grid_size := i\<rparr> else st1
                            | None \<Rightarrow> st1))))"

text \<open>The three commands that are one flag: its value without a payload or without the field.\<close>

definition parse_enabled :: "'j cjson \<Rightarrow> bool \<Rightarrow> string option \<Rightarrow> bool \<times> bool" where
  "parse_enabled J dflt json =
     (case json of
        None \<Rightarrow> (True, dflt)
      | Some s \<Rightarrow>
          (case cj_parse J s of
             None \<Rightarrow> (False, dflt)
           | Some v \<Rightarrow> (True, set_if (item_bool J v ''enabled'') dflt)))"

definition redis_parse_cmd_textsize_json ::
  "'j cjson \<Rightarrow> string option \<Rightarrow> dev_cmd_state \<Rightarrow> bool \<times> dev_cmd_state" where
  "redis_parse_cmd_textsize_json J json st =
     (case parse_enabled J False json of (ok, b) \<Rightarrow> (ok, st\<lparr>dc_textsize_enabled := b\<rparr>))"

definition redis_parse_cmd_graph_json ::
  "'j cjson \<Rightarrow> string option \<Rightarrow> dev_cmd_state \<Rightarrow> bool \<times> dev_cmd_state" where
  "redis_parse_cmd_graph_json J json st =
     (case parse_enabled J True json of (ok, b) \<Rightarrow> (ok, st\<lparr>dc_graph_enabled := b\<rparr>))"

definition redis_parse_cmd_fortune_dev_json ::
  "'j cjson \<Rightarrow> string option \<Rightarrow> dev_cmd_state \<Rightarrow> bool \<times> dev_cmd_state" where
  "redis_parse_cmd_fortune_dev_json J json st =
     (case parse_enabled J False json of (ok, b) \<Rightarrow> (ok, st\<lparr>dc_fortune_dev_enabled := b\<rparr>))"

section \<open>Repositories\<close>

record repo_entry =
  re_host :: string
  re_name :: string
  re_path :: string
  re_branch :: string
  re_default_branch :: string
  re_is_dirty :: bool
  re_detached_head :: bool
  re_ahead :: int
  re_behind :: int
  re_untracked_count :: int
  re_changed_count :: int
  re_deleted_count :: int
  re_renamed_count :: int
  re_last_commit_ts :: double
  re_sort_order :: int
  re_ts :: double

definition new_repo :: "string \<Rightarrow> string \<Rightarrow> repo_entry" where
  "new_repo host path = \<lparr>re_host = buf_copy 64 host, re_name = [], re_path = buf_copy 256 path,
     re_branch = [], re_default_branch = [], re_is_dirty = False, re_detached_head = False,
     re_ahead = 0, re_behind = 0, re_untracked_count = 0, re_changed_count = 0,
     re_deleted_count = 0, re_renamed_count = 0, re_last_commit_ts = 0, re_sort_order = 0, re_ts = 0\<rparr>"

definition redis_parse_repo_json :: "'j cjson \<Rightarrow> string \<Rightarrow> repo_entry \<Rightarrow> repo_entry option" where
  "redis_parse_repo_json J json re =
     (case cj_parse J json of
        None \<Rightarrow> None
      | Some v \<Rightarrow> Some
          (re\<lparr>re_name := set_if (map_option (buf_copy 64) (item_string J v ''name'')) (re_name re),
              re_branch := set_if (map_option (buf_copy 128) (item_string J v ''branch'')) (re_branch re),
              re_default_branch := set_if (map_option (buf_copy 128) (item_string J v ''default_branch'')) (re_default_branch re),
              re_is_dirty := set_if (item_bool J v ''is_dirty'') (re_is_dirty re),
              re_detached_head := set_if (item_bool J v ''detached_head'') (re_detached_head re),
              re_ahead := set_if (item_int J v ''ahead'') (re_ahead re),
              re_behind := set_if (item_int J v ''behind'') (re_behind re),
              re_untracked_count := set_if (item_int J v ''untracked_count'') (re_untracked_count re),
              re_changed_count := set_if (item_int J v ''changed_count'') (re_changed_count re),
              re_deleted_count := set_if (item_int J v ''deleted_count'') (re_deleted_count re),
              re_renamed_count := set_if (item_int J v ''renamed_count'') (re_renamed_count re),
              re_last_commit_ts := set_if (item_number J v ''last_commit_ts'') (re_last_commit_ts re),
              re_sort_order := (if item_bool J v ''explicit'' = Some True then 0 else 1),
              re_ts := set_if (item_number J v ''ts'') (re_ts re)\<rparr>))"

definition repo_cmp :: "repo_entry \<Rightarrow> repo_entry \<Rightarrow> int" where
  "repo_cmp a b =
     (if re_sort_order a \<noteq> re_sort_order b then re_sort_order a - re_sort_order b
      else strncmp 64 (re_name a) (re_name b))"

section \<open>Service and temperature cards\<close>

definition redis_parse_service_payload :: "'j cjson \<Rightarrow> string \<Rightarrow> service_entry option" where
  "redis_parse_service_payload J json =
     (case cj_parse J json of
        None \<Rightarrow> None
      | Some v \<Rightarrow>
          (case (item_number J v ''ts'', item_string J v ''state'', item_string J v ''text'') of
             (Some ts, Some state, Some text) \<Rightarrow>
               let st = service_parse_state state
               in if st = SERVICE_STATE_UNKNOWN then None
                  else Some \<lparr>se_name = [],
                    se_host = set_if (map_option (buf_copy 64) (item_string J v ''host'')) [],
                    se_text = buf_copy 128 text,
                    se_icon_index = (case item_number J v ''icon'' of Some d \<Rightarrow> cast_int d | None \<Rightarrow> - 1),
                    se_last_payload_ts = ts, se_last_valid_state = st, se_container = None\<rparr>
           | _ \<Rightarrow> None))"

definition redis_parse_apttemps_payload :: "'j cjson \<Rightarrow> string \<Rightarrow> apttemps_entry option" where
  "redis_parse_apttemps_payload J json =
     (case cj_parse J json of
        None \<Rightarrow> None
      | Some v \<Rightarrow>
          (case (item_number J v ''ts'', item_number J v ''temp_f'', item_number J v ''humidity_pct'') of
             (Some ts, Some tf, Some hum) \<Rightarrow>
               Some ((new_apttemps [])\<lparr>at_last_payload_ts := ts, at_temp_f := tf,
                 at_humidity_pct := cast_int hum, at_valid := True,
                 at_zone := set_if (map_option (buf_copy 64) (item_string J v ''zone'')) []\<rparr>)
           | _ \<Rightarrow> None))"

section \<open>Staleness flags\<close>

definition KDASH_KEY_STALE_PREFIX :: string where "KDASH_KEY_STALE_PREFIX = ''kdash:stale:''"

text \<open>The text before the first occurrence of a character, and after it (\<open>strchr\<close>).\<close>

fun split_at :: "char \<Rightarrow> string \<Rightarrow> string \<times> string option" where
  "split_at x [] = ([], None)"
| "split_at x (c # s) = (if c = x then ([], Some s) else (case split_at x s of (a, b) \<Rightarrow> (c # a, b)))"

definition redis_parse_stale_key :: "string \<Rightarrow> nat \<Rightarrow> nat \<Rightarrow> (string \<times> string) option" where
  "redis_parse_stale_key key host_n deployer_n =
     (if host_n = 0 \<or> deployer_n = 0 then None
      else if \<not> streq (length KDASH_KEY_STALE_PREFIX) key KDASH_KEY_STALE_PREFIX then None
      else case split_at (CHR '':'') (drop (length KDASH_KEY_STALE_PREFIX) key) of (host, rest) \<Rightarrow>
        if host = [] then None
        else if host_n \<le> length host then None
        else let dep = (case rest of
               Some r \<Rightarrow> if r \<noteq> [] \<and> snd (split_at (CHR '':'') r) = None then r else STALE_DEPLOYER_UNKNOWN
             | None \<Rightarrow> STALE_DEPLOYER_UNKNOWN)
          in if deployer_n \<le> length dep then None else Some (host, buf_copy deployer_n dep))"

definition redis_parse_stale_payload :: "'j cjson \<Rightarrow> string \<Rightarrow> double option" where
  "redis_parse_stale_payload J json =
     (if json = [] then None
      else case cj_parse J json of
          None \<Rightarrow> None
        | Some v \<Rightarrow> if \<not> cj_object J v then None else item_number J v ''since'')"

text \<open>The flag is the return value: whether the host was raised.\<close>

definition redis_stale_apply_record ::
  "'j cjson \<Rightarrow> string \<Rightarrow> string option \<Rightarrow> stale_state \<Rightarrow> bool \<times> stale_state" where
  "redis_stale_apply_record J key payload s =
     (case redis_parse_stale_key key 64 64 of
        None \<Rightarrow> (False, s)
      | Some (host, deployer) \<Rightarrow>
          let since = Option.bind payload (redis_parse_stale_payload J)
          in (True, stale_registry_observe host deployer (set_if since 0) (since \<noteq> None) s))"

section \<open>What the staleness keys raise\<close>

lemma split_at_none: "x \<notin> set s \<Longrightarrow> split_at x s = (s, None)"
  by (induction s) auto

lemma split_at_first: "x \<notin> set s \<Longrightarrow> split_at x (s @ x # t) = (s, Some t)"
  by (induction s) auto

lemma split_at_None_iff: "snd (split_at x s) = None \<longleftrightarrow> x \<notin> set s"
  by (induction s) (auto split: prod.splits)

lemma prefix_matches: "streq (length p) (p @ s) p"
  by (simp add: streq_iff)

text \<open>The deployer a tail names: the tail is the text from the second colon on, if any.\<close>

definition deployer_named :: "string option \<Rightarrow> string" where
  "deployer_named tl' =
     (case tl' of
        Some r \<Rightarrow> if r \<noteq> [] \<and> CHR '':'' \<notin> set r then r else STALE_DEPLOYER_UNKNOWN
      | None \<Rightarrow> STALE_DEPLOYER_UNKNOWN)"

definition stale_key :: "string \<Rightarrow> string option \<Rightarrow> string" where
  "stale_key host tl' = KDASH_KEY_STALE_PREFIX @ host @
     (case tl' of Some r \<Rightarrow> CHR '':'' # r | None \<Rightarrow> [])"

lemma deployer_named_nonempty [simp]: "deployer_named t \<noteq> []"
  by (simp add: deployer_named_def STALE_DEPLOYER_UNKNOWN_def split: option.split)

lemma parse_stale_key:
  assumes "CHR '':'' \<notin> set host"
  shows "redis_parse_stale_key (stale_key host t) 64 64 =
    (if host = [] \<or> 64 \<le> length host \<or> 64 \<le> length (deployer_named t) then None
     else Some (host, deployer_named t))"
proof -
  have m: "streq (length KDASH_KEY_STALE_PREFIX) (stale_key host t) KDASH_KEY_STALE_PREFIX"
    unfolding stale_key_def by (rule prefix_matches)
  have d: "drop (length KDASH_KEY_STALE_PREFIX) (stale_key host t) =
      host @ (case t of Some r \<Rightarrow> CHR '':'' # r | None \<Rightarrow> [])"
    by (simp add: stale_key_def)
  have s: "split_at (CHR '':'') (host @ (case t of Some r \<Rightarrow> CHR '':'' # r | None \<Rightarrow> [])) = (host, t)"
    using assms by (cases t) (simp_all add: split_at_none split_at_first)
  have n: "(case t of Some r \<Rightarrow> if r \<noteq> [] \<and> snd (split_at (CHR '':'') r) = None then r else STALE_DEPLOYER_UNKNOWN
     | None \<Rightarrow> STALE_DEPLOYER_UNKNOWN) = deployer_named t"
    by (cases t) (simp_all add: deployer_named_def split_at_None_iff)
  show ?thesis
    using m n unfolding redis_parse_stale_key_def d s by (simp add: Let_def)
qed

text \<open>A key outside the prefix raises nothing.\<close>

lemma parse_stale_key_foreign:
  "\<not> streq (length KDASH_KEY_STALE_PREFIX) key KDASH_KEY_STALE_PREFIX \<Longrightarrow> redis_parse_stale_key key 64 64 = None"
  by (simp add: redis_parse_stale_key_def)

text \<open>The age the payload states, if it can be read.\<close>

definition stated_since :: "'j cjson \<Rightarrow> string option \<Rightarrow> double option" where
  "stated_since J payload = Option.bind payload (redis_parse_stale_payload J)"

lemma observe_raises:
  assumes "h \<noteq> []" "length h < 64" "d \<noteq> []" "length d < 64" "h \<noteq> STALE_EXCLUDED_HOST"
    and "\<forall>p \<in> set (st_pending s). length (sp_host p) < 64"
    and "h \<in> sp_host ` set (st_pending s) \<or> length (st_pending s) < STALE_REGISTRY_MAX"
  shows "\<exists>p \<in> set (st_pending (stale_registry_observe h d since known s)). sp_host p = h \<and>
    (h \<notin> sp_host ` set (st_pending s) \<longrightarrow> sp_deployers p = [\<lparr>sd_name = d, sd_since = since, sd_known = known\<rparr>])"
proof (cases "find_index (\<lambda>p. streq 64 (sp_host p) h) (st_pending s)")
  case None
  then have "h \<notin> sp_host ` set (st_pending s)" using assms(2) by (auto simp: find_index_None streq_fits)
  moreover have "length (st_pending s) < STALE_REGISTRY_MAX" using calculation assms(7) by blast
  ultimately show ?thesis using None assms(1-5)
    by (simp add: stale_registry_observe_def Let_def add_deployer_def not_le)
next
  case (Some i)
  let ?q = "add_deployer d since known (st_pending s ! i)"
  have i: "i < length (st_pending s)" using find_index_lt [OF Some] .
  then have "length (sp_host (st_pending s ! i)) < 64" using assms(6) by simp
  then have h: "sp_host (st_pending s ! i) = h" using find_index_sat [OF Some] assms(2) by (simp add: streq_fits)
  then have "h \<in> sp_host ` set (st_pending s)" using i by force
  moreover have "?q \<in> set (st_pending (stale_registry_observe h d since known s))"
    using Some i assms(1,3,5) by (simp add: stale_registry_observe_def set_update_memI)
  moreover have "sp_host ?q = h" by (simp add: add_deployer_host h)
  ultimately show ?thesis by blast
qed

lemma observe_keeps_hosts:
  "sp_host ` set (st_pending s) \<subseteq> sp_host ` set (st_pending (stale_registry_observe h d since known s))"
proof (cases "find_index (\<lambda>p. streq 64 (sp_host p) h) (st_pending s)")
  case None
  then show ?thesis by (auto simp: stale_registry_observe_def Let_def)
next
  case (Some i)
  have i: "i < length (st_pending s)" using find_index_lt [OF Some] .
  have "map sp_host ((st_pending s)[i := add_deployer e since known (st_pending s ! i)]) = map sp_host (st_pending s)" for e
    using i by (simp add: map_update add_deployer_host) (metis list_update_id nth_map)
  then have "sp_host ` set ((st_pending s)[i := add_deployer e since known (st_pending s ! i)]) = sp_host ` set (st_pending s)" for e
    by (metis list.set_map)
  then show ?thesis using Some by (simp add: stale_registry_observe_def Let_def)
qed


definition no_stale :: stale_state where
  "no_stale = \<lparr>st_live = [], st_pending = [], st_intermittent = []\<rparr>"


text \<open>A deployer segment of 64 bytes or more makes the reader refuse the key, so the host is not
  raised: a flag that is up reads as all-clear.\<close>

theorem overlong_deployer_clears:
  assumes "host \<noteq> []" "CHR '':'' \<notin> set host" "64 \<le> length r" "CHR '':'' \<notin> set r"
  shows "redis_stale_apply_record J (stale_key host (Some r)) payload s = (False, s)"
proof -
  have "deployer_named (Some r) = r" using assms by (auto simp: deployer_named_def)
  then have "redis_parse_stale_key (stale_key host (Some r)) 64 64 = None"
    using assms by (simp add: parse_stale_key)
  then show ?thesis by (simp add: redis_stale_apply_record_def)
qed

theorem overlong_deployer_clears_witness:
  "redis_stale_apply_record (tree_cjson (\<lambda>_. None)) (stale_key ''kai'' (Some (replicate 64 CHR ''x''))) None no_stale =
     (False, no_stale)"
  by (rule overlong_deployer_clears) simp_all

end
