(* ===== verification/Redis_Scan.thy ===== *)
theory Redis_Scan
  imports Redis_Parse
begin

text \<open>
  The three pollers of \<open>src/src/redis.c\<close> that walk a key family with SCAN: service cards,
  apartment temperatures and staleness flags.  They share the loop (\<open>scan_loop\<close>): a page of
  keys, a GET per key, until the cursor the server returns is "0".  A server may go on for ever,
  so the loop has fuel, one unit per page, and \<open>None\<close> means that it ran out; \<open>full_scan\<close> is the
  course of a scan that ran to its end, with the records it read, and any fuel of at least its
  number of pages gives its result.  The locale \<open>scan_step\<close> is the contract of a poller's
  per-key work: it keeps an invariant of its table.
\<close>

section \<open>The loop\<close>

fun scan_page :: "reply option \<Rightarrow> (reply \<times> reply) option" where
  "scan_page (Some (RArray [c, ks])) = Some (c, ks)"
| "scan_page _ = None"

text \<open>\<open>char cursor[32]\<close> after a page.\<close>

fun next_cursor :: "string \<Rightarrow> reply \<Rightarrow> string" where
  "next_cursor cursor (RString s) = buf_copy 32 s"
| "next_cursor cursor _ = cursor"

text \<open>The keys of a page; an element without a string is skipped.\<close>

fun page_keys :: "reply \<Rightarrow> string list" where
  "page_keys (RArray es) = List.map_filter reply_str es"
| "page_keys _ = []"

definition scan_command :: "'w hiredis \<Rightarrow> string \<Rightarrow> string \<Rightarrow> 'w \<Rightarrow> reply option \<times> 'w" where
  "scan_command H pat cursor w = hr_command H w [''SCAN'', cursor, ''MATCH'', pat, ''COUNT'', ''100'']"

text \<open>The keys of one page; \<open>False\<close> is the early return out of the whole scan.\<close>

fun each_key :: "(string \<Rightarrow> 's \<times> 'w \<Rightarrow> bool \<times> 's \<times> 'w) \<Rightarrow> string list \<Rightarrow> 's \<times> 'w \<Rightarrow> bool \<times> 's \<times> 'w" where
  "each_key f [] sw = (True, sw)"
| "each_key f (k # ks) sw = (case f k sw of (True, sw') \<Rightarrow> each_key f ks sw' | (False, sw') \<Rightarrow> (False, sw'))"

fun scan_loop ::
  "'w hiredis \<Rightarrow> string \<Rightarrow> (string \<Rightarrow> 's \<times> 'w \<Rightarrow> bool \<times> 's \<times> 'w) \<Rightarrow> nat \<Rightarrow> string \<Rightarrow> 's \<times> 'w \<Rightarrow>
   (bool \<times> 's \<times> 'w) option" where
  "scan_loop H pat f 0 cursor sw = None"
| "scan_loop H pat f (Suc fuel) cursor sw =
     (case scan_command H pat cursor (snd sw) of (sr, w1) \<Rightarrow>
        (case scan_page sr of
           None \<Rightarrow> Some (False, fst sw, w1)
         | Some (c, ks) \<Rightarrow>
             (case each_key f (page_keys ks) (fst sw, w1) of
                (False, sw') \<Rightarrow> Some (False, sw')
              | (True, sw') \<Rightarrow>
                  if next_cursor cursor c = ''0'' then Some (True, sw')
                  else scan_loop H pat f fuel (next_cursor cursor c) sw')))"

section \<open>The pollers\<close>

definition KPIDASH_KEY_SERVICES_PREFIX :: string where "KPIDASH_KEY_SERVICES_PREFIX = ''kpidash:services:''"
definition KPIDASH_KEY_SERVICES_PATTERN :: string where "KPIDASH_KEY_SERVICES_PATTERN = ''kpidash:services:*:*''"
definition KPIDASH_KEY_APTTEMPS_PREFIX :: string where "KPIDASH_KEY_APTTEMPS_PREFIX = ''kpidash:apttemps:''"
definition KPIDASH_KEY_APTTEMPS_PATTERN :: string where "KPIDASH_KEY_APTTEMPS_PATTERN = ''kpidash:apttemps:*''"
definition KDASH_KEY_STALE_PATTERN :: string where "KDASH_KEY_STALE_PATTERN = ''kdash:stale:*''"

text \<open>The name and host of a service key; the server returns keys of the pattern only, so the
  prefix is there.\<close>

definition service_key_parts :: "string \<Rightarrow> (string \<times> string) option" where
  "service_key_parts key =
     (case split_at (CHR '':'') (drop (length KPIDASH_KEY_SERVICES_PREFIX) key) of
        (_, None) \<Rightarrow> None
      | (name, Some host) \<Rightarrow>
          if name = [] \<or> host = [] then None
          else if snd (split_at (CHR '':'') host) \<noteq> None then None
          else if 64 \<le> length name then None
          else Some (name, buf_copy 64 host))"

definition poll_service_key ::
  "'w hiredis \<Rightarrow> 'j cjson \<Rightarrow> string \<Rightarrow> service_entry list \<times> 'w \<Rightarrow> bool \<times> service_entry list \<times> 'w" where
  "poll_service_key H J key sw =
     (case service_key_parts key of
        None \<Rightarrow> (True, sw)
      | Some k \<Rightarrow>
          (case hr_command H (snd sw) [''GET'', key] of (gr, w') \<Rightarrow>
             (True, (case Option.bind (string_reply gr) (redis_parse_service_payload J) of
                       None \<Rightarrow> fst sw
                     | Some parsed \<Rightarrow> service_observe k parsed (fst sw)), w')))"

definition redis_poll_services ::
  "'w hiredis \<Rightarrow> 'j cjson \<Rightarrow> bool \<Rightarrow> nat \<Rightarrow> service_entry list \<times> 'w \<Rightarrow> (service_entry list \<times> 'w) option" where
  "redis_poll_services H J ctx fuel sw =
     (if \<not> ctx \<or> hr_err H (snd sw) then Some sw
      else map_option snd (scan_loop H KPIDASH_KEY_SERVICES_PATTERN (poll_service_key H J) fuel ''0'' sw))"

definition apttemps_observe ::
  "string \<Rightarrow> apttemps_entry \<Rightarrow> apttemps_entry list \<Rightarrow> apttemps_entry list" where
  "apttemps_observe slug p t =
     (case apttemps_registry_find_or_create slug t of
        (None, t') \<Rightarrow> t'
      | (Some i, t') \<Rightarrow> apttemps_registry_apply_payload i p t')"

definition poll_apttemps_key ::
  "'w hiredis \<Rightarrow> 'j cjson \<Rightarrow> string \<Rightarrow> apttemps_entry list \<times> 'w \<Rightarrow> bool \<times> apttemps_entry list \<times> 'w" where
  "poll_apttemps_key H J key sw =
     (let slug = drop (length KPIDASH_KEY_APTTEMPS_PREFIX) key
      in if slug = [] \<or> snd (split_at (CHR '':'') slug) \<noteq> None then (True, sw)
         else (case hr_command H (snd sw) [''GET'', key] of (gr, w') \<Rightarrow>
             (True, (case Option.bind (string_reply gr) (redis_parse_apttemps_payload J) of
                       None \<Rightarrow> fst sw
                     | Some parsed \<Rightarrow> apttemps_observe (buf_copy 64 slug) parsed (fst sw)), w')))"

definition redis_poll_apttemps ::
  "'w hiredis \<Rightarrow> 'j cjson \<Rightarrow> bool \<Rightarrow> nat \<Rightarrow> apttemps_entry list \<times> 'w \<Rightarrow> (apttemps_entry list \<times> 'w) option" where
  "redis_poll_apttemps H J ctx fuel sw =
     (if \<not> ctx \<or> hr_err H (snd sw) then Some sw
      else map_option snd (scan_loop H KPIDASH_KEY_APTTEMPS_PATTERN (poll_apttemps_key H J) fuel ''0'' sw))"

text \<open>A lost connection ends the scan; a key deleted in the meantime is skipped; any other reply
  that is not a string raises the host without its age.\<close>

definition poll_stale_key ::
  "'w hiredis \<Rightarrow> 'j cjson \<Rightarrow> string \<Rightarrow> stale_state \<times> 'w \<Rightarrow> bool \<times> stale_state \<times> 'w" where
  "poll_stale_key H J key sw =
     (case hr_command H (snd sw) [''GET'', key] of
        (None, w') \<Rightarrow> (False, fst sw, w')
      | (Some RNil, w') \<Rightarrow> (True, fst sw, w')
      | (gr, w') \<Rightarrow> (True, snd (redis_stale_apply_record J key (string_reply gr) (fst sw)), w'))"

text \<open>\<open>clk\<close> is \<open>time(NULL)\<close>.\<close>

definition redis_poll_stale ::
  "'w hiredis \<Rightarrow> 'j cjson \<Rightarrow> ('w \<Rightarrow> double) \<Rightarrow> bool \<Rightarrow> nat \<Rightarrow> stale_state \<times> 'w \<Rightarrow> (stale_state \<times> 'w) option" where
  "redis_poll_stale H J clk ctx fuel sw =
     (if \<not> ctx \<or> hr_err H (snd sw) then Some sw
      else case scan_loop H KDASH_KEY_STALE_PATTERN (poll_stale_key H J) fuel ''0''
                  (stale_registry_begin_cycle (fst sw), snd sw) of
          None \<Rightarrow> None
        | Some (False, s', w') \<Rightarrow> Some (stale_registry_abort_cycle s', w')
        | Some (True, s', w') \<Rightarrow> Some (stale_registry_commit_cycle_at (clk w') s', w'))"

section \<open>What a poller's work per key keeps\<close>

locale scan_step =
  fixes step :: "string \<Rightarrow> 's \<times> 'w \<Rightarrow> bool \<times> 's \<times> 'w"
    and inv :: "'s \<Rightarrow> bool"
  assumes step_keeps: "inv s \<Longrightarrow> inv (fst (snd (step k (s, w))))"
begin

lemma each_keeps: "inv s \<Longrightarrow> inv (fst (snd (each_key step ks (s, w))))"
proof (induction ks arbitrary: s w)
  case (Cons k ks)
  obtain b s' w' where st: "step k (s, w) = (b, s', w')" by (cases "step k (s, w)")
  have "inv s'" using step_keeps [OF Cons.prems, of k w] by (simp add: st)
  then show ?case using Cons.IH by (cases b) (simp_all add: st)
qed simp

lemma scan_keeps:
  "inv s \<Longrightarrow> scan_loop H pat step fuel cursor (s, w) = Some (b, s', w') \<Longrightarrow> inv s'"
proof (induction fuel arbitrary: cursor s w)
  case (Suc fuel)
  obtain sr w1 where c: "scan_command H pat cursor w = (sr, w1)" by (cases "scan_command H pat cursor w")
  show ?case
  proof (cases "scan_page sr")
    case None
    then show ?thesis using Suc.prems by (simp add: c)
  next
    case (Some p)
    obtain cc ks where p: "p = (cc, ks)" by (cases p)
    obtain b2 s2 w2 where e: "each_key step (page_keys ks) (s, w1) = (b2, s2, w2)"
      by (cases "each_key step (page_keys ks) (s, w1)")
    have "inv s2" using each_keeps [OF Suc.prems(1), of "page_keys ks" w1] by (simp add: e)
    then show ?thesis
      using Suc.prems(2) Suc.IH by (auto simp: c Some p e split: bool.splits if_splits)
  qed
qed simp

end

text \<open>The tables the pollers feed: bounded, and no two cards for one key.\<close>

definition service_key :: "service_entry \<Rightarrow> string \<times> string" where
  "service_key e = (se_name e, se_host e)"

definition services_inv :: "service_entry list \<Rightarrow> bool" where
  "services_inv t \<longleftrightarrow> length t \<le> SERVICE_REGISTRY_MAX \<and> slots_unique service_matches service_key_ok t \<and>
     (\<forall>k \<in> set (map service_key t). service_key_ok k)"

definition apttemps_inv :: "apttemps_entry list \<Rightarrow> bool" where
  "apttemps_inv t \<longleftrightarrow> length t \<le> APTTEMPS_REGISTRY_MAX \<and> slots_unique apttemps_matches slug_ok t \<and>
     (\<forall>k \<in> set (map at_slug t). slug_ok k)"

lemma service_key_new: "service_key_ok k \<Longrightarrow> service_key (new_service k) = k"
  by (cases k) (simp add: service_key_def new_service_def service_key_ok_def)

lemma services_observe_inv:
  assumes "services_inv t" "service_key_ok k"
  shows "services_inv (service_observe k p t)"
proof -
  obtain o' u where foc: "service_registry_find_or_create k t = (o', u)"
    by (cases "service_registry_find_or_create k t")
  have u: "services_inv u"
    using assms(2)
  proof (rule svc.cases_foc [of k t])
    assume "service_registry_find_or_create k t = (Some (length t), t @ [new_service k])"
    then show ?thesis
      using svc.foc_bounded [OF assms(2), of t] svc.foc_unique [OF assms(2), of t] assms foc
      by (simp add: services_inv_def service_key_new)
  qed (use foc assms in auto)
  have "services_inv (service_registry_apply_payload i p u)" for i
  proof -
    have "map service_key (service_registry_apply_payload i p u) = map service_key u"
      unfolding service_key_def by (rule apply_payload_names)
    then show ?thesis
      using u slots_unique_names [OF apply_payload_names [of i p u], of service_key_ok]
      by (simp add: services_inv_def del: set_map)
  qed
  with u show ?thesis by (simp add: service_observe_def foc split: option.split)
qed

lemma service_parts_ok: "service_key_parts key = Some k \<Longrightarrow> service_key_ok k"
  by (auto simp: service_key_parts_def service_key_ok_def split: prod.splits option.splits if_splits)

lemma apttemps_apply_slugs: "map at_slug (apttemps_registry_apply_payload i p t) = map at_slug t"
  by (simp add: apttemps_registry_apply_payload_def map_update)
    (metis (mono_tags, lifting) list_update_beyond list_update_id nth_map not_less length_map)

lemma apttemps_unique_slugs:
  assumes "map at_slug t = map at_slug u"
  shows "slots_unique apttemps_matches ok t = slots_unique apttemps_matches ok u"
proof -
  have len: "length t = length u" using assms by (metis length_map)
  moreover have "apttemps_matches k (t ! i) = apttemps_matches k (u ! i)" if "i < length t" for k i
    using arg_cong [OF assms, of "\<lambda>l. l ! i"] that len by (simp add: apttemps_matches_def)
  ultimately show ?thesis by (auto simp: slots_unique_def)
qed

lemma apttemps_observe_inv:
  assumes "apttemps_inv t" "slug_ok k"
  shows "apttemps_inv (apttemps_observe k p t)"
proof -
  obtain o' u where foc: "apttemps_registry_find_or_create k t = (o', u)"
    by (cases "apttemps_registry_find_or_create k t")
  have u: "apttemps_inv u"
    using assms(2)
  proof (rule apt.cases_foc [of k t])
    assume "apttemps_registry_find_or_create k t = (Some (length t), t @ [new_apttemps k])"
    then show ?thesis
      using apt.foc_bounded [OF assms(2), of t] apt.foc_unique [OF assms(2), of t] assms foc
      by (simp add: apttemps_inv_def new_apttemps_def slug_ok_def)
  qed (use foc assms in auto)
  have "length (apttemps_registry_apply_payload i p u) = length u" for i
    by (simp add: apttemps_registry_apply_payload_def)
  then have "apttemps_inv (apttemps_registry_apply_payload i p u)" for i
    using u apttemps_unique_slugs [OF apttemps_apply_slugs [of i p u], of slug_ok]
      apttemps_apply_slugs [of i p u]
    by (simp add: apttemps_inv_def del: set_map)
  with u show ?thesis by (simp add: apttemps_observe_def foc split: option.split)
qed

interpretation services_step: scan_step "poll_service_key H J" services_inv
  for H :: "'w hiredis" and J :: "'j cjson"
proof unfold_locales
  fix s :: "service_entry list" and k and w :: 'w
  assume "services_inv s"
  then show "services_inv (fst (snd (poll_service_key H J k (s, w))))"
    by (auto simp: poll_service_key_def services_observe_inv service_parts_ok split: option.split prod.split)
qed

interpretation apttemps_step: scan_step "poll_apttemps_key H J" apttemps_inv
  for H :: "'w hiredis" and J :: "'j cjson"
proof unfold_locales
  fix s :: "apttemps_entry list" and k and w :: 'w
  assume inv: "apttemps_inv s"
  have "x \<noteq> [] \<Longrightarrow> slug_ok (buf_copy 64 x)" for x by (simp add: slug_ok_def buf_copy_def)
  with inv show "apttemps_inv (fst (snd (poll_apttemps_key H J k (s, w))))"
    by (auto simp: poll_apttemps_key_def Let_def apttemps_observe_inv split: option.split prod.split)
qed

text \<open>The cards of both families stay bounded and unique whatever the server answers.\<close>

lemma poll_services_keeps:
  assumes "services_inv t" "redis_poll_services H J ctx fuel (t, w) = Some (t', w')"
  shows "services_inv t'"
proof (cases "\<not> ctx \<or> hr_err H w")
  case False
  then obtain b where "scan_loop H KPIDASH_KEY_SERVICES_PATTERN (poll_service_key H J) fuel ''0'' (t, w) = Some (b, t', w')"
    using assms(2) by (auto simp: redis_poll_services_def)
  then show ?thesis by (rule services_step.scan_keeps [OF assms(1)])
qed (use assms in \<open>auto simp: redis_poll_services_def\<close>)

lemma poll_apttemps_keeps:
  assumes "apttemps_inv t" "redis_poll_apttemps H J ctx fuel (t, w) = Some (t', w')"
  shows "apttemps_inv t'"
proof (cases "\<not> ctx \<or> hr_err H w")
  case False
  then obtain b where "scan_loop H KPIDASH_KEY_APTTEMPS_PATTERN (poll_apttemps_key H J) fuel ''0'' (t, w) = Some (b, t', w')"
    using assms(2) by (auto simp: redis_poll_apttemps_def)
  then show ?thesis by (rule apttemps_step.scan_keeps [OF assms(1)])
qed (use assms in \<open>auto simp: redis_poll_apttemps_def\<close>)

section \<open>Scans that run to their end\<close>

text \<open>The records of one page, if every GET was answered.\<close>

fun read_keys :: "'w hiredis \<Rightarrow> string list \<Rightarrow> 'w \<Rightarrow> (string \<times> reply) list option \<times> 'w" where
  "read_keys H [] w = (Some [], w)"
| "read_keys H (k # ks) w =
     (case hr_command H w [''GET'', k] of
        (None, w') \<Rightarrow> (None, w')
      | (Some r, w') \<Rightarrow> (case read_keys H ks w' of (rs, w'') \<Rightarrow> (map_option (Cons (k, r)) rs, w'')))"

text \<open>\<open>full_scan H pat cursor w n recs w'\<close>: from \<open>cursor\<close>, \<open>n\<close> pages bring the scan to cursor 0, every
  GET is answered, and \<open>recs\<close> are the keys with their replies.\<close>

inductive full_scan :: "'w hiredis \<Rightarrow> string \<Rightarrow> string \<Rightarrow> 'w \<Rightarrow> nat \<Rightarrow> (string \<times> reply) list \<Rightarrow> 'w \<Rightarrow> bool" where
  last_page: "scan_command H pat cursor w = (sr, w1) \<Longrightarrow> scan_page sr = Some (c, ks) \<Longrightarrow>
     read_keys H (page_keys ks) w1 = (Some recs, w2) \<Longrightarrow> next_cursor cursor c = ''0'' \<Longrightarrow>
     full_scan H pat cursor w 1 recs w2"
| more_pages: "scan_command H pat cursor w = (sr, w1) \<Longrightarrow> scan_page sr = Some (c, ks) \<Longrightarrow>
     read_keys H (page_keys ks) w1 = (Some recs, w2) \<Longrightarrow> next_cursor cursor c \<noteq> ''0'' \<Longrightarrow>
     full_scan H pat (next_cursor cursor c) w2 n recs' w3 \<Longrightarrow>
     full_scan H pat cursor w (Suc n) (recs @ recs') w3"

text \<open>What a record that was read contributes.\<close>

definition apply_stale :: "'j cjson \<Rightarrow> string \<times> reply \<Rightarrow> stale_state \<Rightarrow> stale_state" where
  "apply_stale J kr s =
     (if snd kr = RNil then s
      else snd (redis_stale_apply_record J (fst kr) (string_reply (Some (snd kr))) s))"

lemma poll_stale_key_None: "hr_command H w [''GET'', k] = (None, w') \<Longrightarrow> poll_stale_key H J k (s, w) = (False, s, w')"
  by (simp add: poll_stale_key_def)

lemma poll_stale_key_Some:
  "hr_command H w [''GET'', k] = (Some r, w') \<Longrightarrow> poll_stale_key H J k (s, w) = (True, apply_stale J (k, r) s, w')"
  by (cases r) (simp_all add: poll_stale_key_def apply_stale_def)

lemma apply_stale_live [simp]:
  "st_live (apply_stale J kr s) = st_live s" "st_intermittent (apply_stale J kr s) = st_intermittent s"
  by (simp_all add: apply_stale_def redis_stale_apply_record_def Let_def split: option.split prod.split)

lemma apply_all_live [simp]:
  "st_live (fold (apply_stale J) recs s) = st_live s"
  "st_intermittent (fold (apply_stale J) recs s) = st_intermittent s"
  by (induction recs arbitrary: s) simp_all

lemma each_stale_key:
  "case read_keys H ks w of
     (Some recs, w') \<Rightarrow> each_key (poll_stale_key H J) ks (s, w) = (True, fold (apply_stale J) recs s, w')
   | (None, w') \<Rightarrow> \<exists>s'. each_key (poll_stale_key H J) ks (s, w) = (False, s', w') \<and> st_live s' = st_live s \<and>
        st_intermittent s' = st_intermittent s"
proof (induction ks arbitrary: s w)
  case (Cons k ks)
  obtain r w1 where g: "hr_command H w [''GET'', k] = (r, w1)" by (cases "hr_command H w [''GET'', k]")
  show ?case
  proof (cases r)
    case None
    then show ?thesis using g by (simp add: poll_stale_key_None)
  next
    case (Some r')
    obtain rs w2 where rk: "read_keys H ks w1 = (rs, w2)" by (cases "read_keys H ks w1")
    have st: "poll_stale_key H J k (s, w) = (True, apply_stale J (k, r') s, w1)"
      using g Some by (simp add: poll_stale_key_Some)
    show ?thesis using Cons.IH [where w = w1 and s = "apply_stale J (k, r') s"] g Some rk st by (cases rs) auto
  qed
qed simp

lemma full_scan_loop:
  "full_scan H pat cursor w n recs w' \<Longrightarrow> n \<le> fuel \<Longrightarrow>
     scan_loop H pat (poll_stale_key H J) fuel cursor (s, w) = Some (True, fold (apply_stale J) recs s, w')"
proof (induction arbitrary: fuel s rule: full_scan.induct)
  case (last_page H pat cursor w sr w1 c ks recs w2)
  then obtain f where f: "fuel = Suc f" by (cases fuel) auto
  show ?case using last_page(1-4) each_stale_key [where H = H and ks = "page_keys ks" and w = w1 and J = J and s = s] by (simp add: f)
next
  case (more_pages H pat cursor w sr w1 c ks recs w2 n recs' w3)
  then obtain f where f: "fuel = Suc f" "n \<le> f" by (cases fuel) auto
  show ?case
    using more_pages(1-4) each_stale_key [where H = H and ks = "page_keys ks" and w = w1 and J = J and s = s] more_pages.IH [OF f(2)] by (simp add: f(1))
qed

lemma scan_loop_outcome:
  "scan_loop H pat (poll_stale_key H J) fuel cursor (s, w) = Some (b, s', w') \<Longrightarrow>
     (if b then \<exists>n recs. full_scan H pat cursor w n recs w' \<and> s' = fold (apply_stale J) recs s
      else st_live s' = st_live s \<and> st_intermittent s' = st_intermittent s)"
proof (induction fuel arbitrary: cursor s w)
  case (Suc fuel)
  obtain sr w1 where c: "scan_command H pat cursor w = (sr, w1)" by (cases "scan_command H pat cursor w")
  show ?case
  proof (cases "scan_page sr")
    case None
    then show ?thesis using Suc.prems by (auto simp: c)
  next
    case (Some p)
    obtain cc ks where p: "p = (cc, ks)" by (cases p)
    note page = c Some [unfolded p]
    obtain rs w2 where rk: "read_keys H (page_keys ks) w1 = (rs, w2)" by (cases "read_keys H (page_keys ks) w1")
    note each = each_stale_key [where H = H and ks = "page_keys ks" and w = w1 and J = J and s = s, unfolded rk]
    show ?thesis
    proof (cases rs)
      case None
      then show ?thesis using Suc.prems each by (auto simp: page)
    next
      case (Some recs)
      let ?s = "fold (apply_stale J) recs s"
      have e: "each_key (poll_stale_key H J) (page_keys ks) (s, w1) = (True, ?s, w2)" using each Some by simp
      show ?thesis
      proof (cases "next_cursor cursor cc = ''0''")
        case True
        then have "b" "s' = ?s" "w' = w2" using Suc.prems by (auto simp: page e)
        moreover have "full_scan H pat cursor w 1 recs w2"
          using page rk Some True by (intro last_page) auto
        ultimately show ?thesis by auto
      next
        case False
        then have "scan_loop H pat (poll_stale_key H J) fuel (next_cursor cursor cc) (?s, w2) = Some (b, s', w')"
          using Suc.prems by (simp add: page e)
        note IH = Suc.IH [OF this]
        show ?thesis
        proof (cases b)
          case True
          then obtain n recs' where sc: "full_scan H pat (next_cursor cursor cc) w2 n recs' w'"
            and s': "s' = fold (apply_stale J) recs' ?s" using IH by auto
          have "full_scan H pat cursor w (Suc n) (recs @ recs') w'"
            using page rk Some False sc by (intro more_pages) auto
          moreover have "s' = fold (apply_stale J) (recs @ recs') s" using s' by simp
          ultimately show ?thesis using True by (simp del: fold_append) blast
        next
          case False
          then show ?thesis using IH by simp
        qed
      qed
    qed
  qed
qed simp

section \<open>What a poll of the flags does to the cards\<close>

text \<open>The observation a record amounts to.\<close>

definition observation_of :: "'j cjson \<Rightarrow> string \<times> reply \<Rightarrow> observation option" where
  "observation_of J kr =
     (if snd kr = RNil then None
      else (case redis_parse_stale_key (fst kr) 64 64 of
          None \<Rightarrow> None
        | Some (host, deployer) \<Rightarrow>
            (let since = stated_since J (string_reply (Some (snd kr)))
             in Some (host, deployer, set_if since 0, since \<noteq> None))))"

definition stale_feed :: "'j cjson \<Rightarrow> (string \<times> reply) list \<Rightarrow> observation list" where
  "stale_feed J recs = List.map_filter (observation_of J) recs"

lemma apply_stale_observation:
  "apply_stale J kr s =
     (case observation_of J kr of None \<Rightarrow> s
      | Some (h, d, since, known) \<Rightarrow> stale_registry_observe h d since known s)"
  by (auto simp: apply_stale_def observation_of_def redis_stale_apply_record_def stated_since_def Let_def
      split: option.split)

lemma apply_all_feed: "fold (apply_stale J) recs s = observe_feed (stale_feed J recs) s"
proof (induction recs arbitrary: s)
  case (Cons kr recs)
  show ?case
  proof (cases "observation_of J kr")
    case None
    then show ?thesis using Cons by (simp add: stale_feed_def apply_stale_observation)
  next
    case (Some ob)
    obtain h d since known where ob: "ob = (h, d, since, known)" by (cases ob)
    show ?thesis using Cons Some by (simp add: stale_feed_def apply_stale_observation ob observe_feed_def)
  qed
qed (simp add: stale_feed_def observe_feed_def)

lemma parse_stale_key_fits:
  "redis_parse_stale_key key 64 64 = Some (h, d) \<Longrightarrow> h \<noteq> [] \<and> length h < 64 \<and> length d < 64"
  by (auto simp: redis_parse_stale_key_def Let_def split: if_splits prod.splits)

lemma observation_fits:
  assumes "observation_of J kr = Some (h, d, since, known)"
  shows "h \<noteq> [] \<and> length h < 64 \<and> length d < 64"
proof -
  have "redis_parse_stale_key (fst kr) 64 64 = Some (h, d)"
    using assms by (auto simp: observation_of_def Let_def split: if_splits option.splits)
  then show ?thesis by (rule parse_stale_key_fits)
qed

lemma stale_feed_ok: "feed_ok (stale_feed J recs)"
proof -
  have "h \<noteq> [] \<and> length h < 64 \<and> length d < 64"
    if ob: "(h, d, since, known) \<in> set (stale_feed J recs)" for h d since known
  proof -
    obtain kr where "observation_of J kr = Some (h, d, since, known)"
      using ob by (auto simp: stale_feed_def List.map_filter_def)
    then show ?thesis by (rule observation_fits)
  qed
  then show ?thesis unfolding feed_ok_def by blast
qed

text \<open>C8: the staleness poll never takes a card down on a partial view: either the live set is
  untouched, or a scan from cursor 0 back to cursor 0 was answered in every page and every GET,
  and the new state is the committed cycle of exactly the records it read.\<close>

theorem stale_poll_safe:
  assumes "redis_poll_stale H J clk ctx fuel (s, w) = Some (s', w')"
  shows "st_live s' = st_live s \<and> st_intermittent s' = st_intermittent s \<or>
    (\<exists>n recs. full_scan H KDASH_KEY_STALE_PATTERN ''0'' w n recs w' \<and>
       s' = stale_cycle (clk w') (stale_feed J recs) s)"
proof (cases "\<not> ctx \<or> hr_err H w")
  case True
  then show ?thesis using assms by (auto simp: redis_poll_stale_def)
next
  case False
  let ?b = "stale_registry_begin_cycle s"
  obtain b t w1 where l: "scan_loop H KDASH_KEY_STALE_PATTERN (poll_stale_key H J) fuel ''0'' (?b, w) = Some (b, t, w1)"
    using assms False by (auto simp: redis_poll_stale_def split: option.splits)
  note out = scan_loop_outcome [OF l]
  show ?thesis
  proof (cases b)
    case True
    then have "w1 = w'" "s' = stale_registry_commit_cycle_at (clk w') t"
      using assms False by (auto simp: redis_poll_stale_def l)
    with out True show ?thesis by (auto simp: apply_all_feed stale_cycle_def)
  next
    case False
    with assms \<open>\<not> (\<not> ctx \<or> hr_err H w)\<close> have "s' = stale_registry_abort_cycle t"
      by (auto simp: redis_poll_stale_def l)
    with out False show ?thesis by (simp add: stale_registry_abort_cycle_def stale_registry_begin_cycle_def)
  qed
qed

text \<open>C9: a scan that the server lets run to its end in at most as many pages as the fuel is
  committed, and then, room provided, the cards are exactly the hosts that some existing key of the
  scan raises, grace of sleeping hosts apart.\<close>

theorem stale_poll_complete:
  assumes "full_scan H KDASH_KEY_STALE_PATTERN ''0'' w n recs w'" "n \<le> fuel" "\<not> hr_err H w" "stale_inv s"
    and "card (sx_host ` set (st_live s) \<union> set (flagged (stale_feed J recs))) \<le> STALE_REGISTRY_MAX"
  shows "\<exists>s'. redis_poll_stale H J clk True fuel (s, w) = Some (s', w') \<and>
    shown s' = {h \<in> set (flagged (stale_feed J recs)).
       \<not> graced (st_intermittent s) (clk w') (stale_feed J recs) h}"
proof -
  have "redis_poll_stale H J clk True fuel (s, w) = Some (stale_cycle (clk w') (stale_feed J recs) s, w')"
    using assms(3) full_scan_loop [OF assms(1,2), of J "stale_registry_begin_cycle s"]
    by (simp add: redis_poll_stale_def apply_all_feed stale_cycle_def)
  moreover have "shown (stale_cycle (clk w') (stale_feed J recs) s) = {h \<in> set (flagged (stale_feed J recs)).
       \<not> graced (st_intermittent s) (clk w') (stale_feed J recs) h}"
  proof -
    have "card (set (flagged (stale_feed J recs))) \<le> card (sx_host ` set (st_live s) \<union> set (flagged (stale_feed J recs)))"
      by (rule card_mono) auto
    then show ?thesis using assms(4,5) by (intro cycle_shown stale_feed_ok) auto
  qed
  ultimately show ?thesis by blast
qed

text \<open>The server of the witnesses, one page with one key; in the second script the connection dies
  before the key is read.\<close>

definition one_flag_page :: reply where
  "one_flag_page = RArray [RString ''0'', RArray [RString ''kdash:stale:kai:nix'']]"

definition nas_up :: stale_state where
  "nas_up = \<lparr>st_live = [\<lparr>sx_host = ''nas'', sx_deployers = [\<lparr>sd_name = ''nix'', sd_since = 1, sd_known = True\<rparr>],
     sx_container = Some 7\<rparr>], st_pending = [], st_intermittent = []\<rparr>"

abbreviation no_json :: "jv cjson" where "no_json \<equiv> tree_cjson (\<lambda>_. None)"

theorem stale_poll_safe_witness:
  "\<exists>s' w'. redis_poll_stale scripted no_json (\<lambda>_. 100) True 5 (nas_up, [Some one_flag_page]) = Some (s', w') \<and>
     st_live s' = st_live nas_up \<and>
     (st_live s' = st_live nas_up \<and> st_intermittent s' = st_intermittent nas_up \<or>
      (\<exists>n recs. full_scan scripted KDASH_KEY_STALE_PATTERN ''0'' [Some one_flag_page] n recs w' \<and>
         s' = stale_cycle 100 (stale_feed no_json recs) nas_up))"
proof -
  have e: "redis_poll_stale scripted no_json (\<lambda>_. 100) True 5 (nas_up, [Some one_flag_page]) = Some (nas_up, [])"
    by code_simp
  from stale_poll_safe [OF e] e show ?thesis by auto
qed

theorem stale_poll_complete_witness:
  "\<exists>s'. redis_poll_stale scripted no_json (\<lambda>_. 100) True 1 (no_stale, [Some one_flag_page, Some (RString ''?'')]) =
     Some (s', []) \<and> shown s' = {''kai''}"
proof -
  let ?recs = "[(''kdash:stale:kai:nix'', RString ''?'')]"
  have scan: "full_scan scripted KDASH_KEY_STALE_PATTERN ''0'' [Some one_flag_page, Some (RString ''?'')] 1 ?recs []"
    by (rule last_page [where sr = "Some one_flag_page" and ?w1.0 = "[Some (RString ''?'')]" and c = "RString ''0''" and ks = "RArray [RString ''kdash:stale:kai:nix'']"])
      (simp_all add: scan_command_def scripted_def one_flag_page_def List.map_filter_def)
  have feed: "stale_feed no_json ?recs = [(''kai'', ''nix'', 0, False)]" by code_simp
  have fl: "flagged [(''kai'', ''nix'', 0, False)] = [''kai'']"
    by (simp add: flagged_def STALE_EXCLUDED_HOST_def)
  have "\<exists>s'. redis_poll_stale scripted no_json (\<lambda>_. 100) True 1
        (no_stale, [Some one_flag_page, Some (RString ''?'')]) = Some (s', []) \<and>
      shown s' = {h \<in> set (flagged (stale_feed no_json ?recs)).
        \<not> graced (st_intermittent no_stale) 100 (stale_feed no_json ?recs) h}"
    by (rule stale_poll_complete [OF scan]) (simp_all add: feed fl no_stale_def stale_inv_def scripted_def)
  then show ?thesis by (simp add: feed fl no_stale_def graced_def cong: conj_cong)
qed

end
