(* ===== verification/Fortune.thy ===== *)
theory Fortune
  imports KLibs
begin

text \<open>
  The fortune widget's content (\<open>src/src/fortune.c\<close>): the font ladder, the rotation that asks
  fortune(6) up to ten times, the canned messages and the pushed fortunes.  What a run of the
  program prints (\<open>popen\<close> and \<open>fread\<close>), the clock and the printed JSON are arguments.
\<close>

section \<open>The font ladder\<close>

definition FONT_LADDER :: "(int \<times> nat \<times> nat) list" where
  "FONT_LADDER = [(36, 45, 5), (28, 60, 7), (24, 75, 9), (20, 90, 11)]"

text \<open>The inner loop: lines so far, length of the current one, longest finished one.\<close>

fun measure_text :: "nat \<times> nat \<times> nat \<Rightarrow> string \<Rightarrow> nat \<times> nat \<times> nat" where
  "measure_text (nl, cur, mx) [] = (nl, cur, if mx < cur then cur else mx)"
| "measure_text (nl, cur, mx) (c # s) =
     (if c = CHR 0x0A then measure_text (nl + 1, 0, if mx < cur then cur else mx) s
      else measure_text (nl, cur + 1, mx) s)"

fun pick_from :: "(int \<times> nat \<times> nat) list \<Rightarrow> string \<Rightarrow> int" where
  "pick_from [] tx = - 1"
| "pick_from ((pt, max_line, max_lines) # steps) tx =
     (case measure_text (1, 0, 0) tx of (nl, _, mx) \<Rightarrow>
        if mx \<le> max_line \<and> nl \<le> max_lines then pt else pick_from steps tx)"

definition fortune_pick_font :: "string \<Rightarrow> int" where
  "fortune_pick_font tx = (if tx = [] then - 1 else pick_from FONT_LADDER tx)"

section \<open>State and operations\<close>

definition CANNED_ERRORS :: "string list" where
  "CANNED_ERRORS =
     [''Fortune not found. Please shake device vigorously and try again.'',
      ''Today'' @ [CHR 0x27] @ ''s fortune is on strike. It demands better working conditions and fewer cows.'',
      ''Segmentation fault: fortune tried to divide by zen.'',
      ''No fortune today. The universe is buffering.'',
      ''Your fortune wandered off. It left a note: '' @ [CHR 0x27] @ ''BRB, consulting the Oracle.'' @ [CHR 0x27],
      ''404: Wisdom not found. Try enlightenment.exe?'']"

abbreviation "FORTUNE_MAX_RETRIES \<equiv> 10 :: nat"

text \<open>\<open>ft_shown\<close> is the text and the font the widget was last given; \<open>ft_overlay\<close> the numbers of
  the overlay.\<close>

record fortune_state =
  ft_widget :: bool
  ft_available :: bool
  ft_pushed :: bool
  ft_rejects :: nat
  ft_elapsed_ms :: int
  ft_shown :: "(string \<times> int) option"
  ft_overlay :: "(bool \<times> nat \<times> int) option"

definition update_widget :: "string \<Rightarrow> int \<Rightarrow> fortune_state \<Rightarrow> fortune_state" where
  "update_widget tx pt f = (if \<not> ft_widget f then f else f\<lparr>ft_shown := Some (tx, pt)\<rparr>)"

definition update_dev_overlay :: "bool \<Rightarrow> fortune_state \<Rightarrow> fortune_state" where
  "update_dev_overlay dev f =
     (if \<not> ft_widget f then f else f\<lparr>ft_overlay := Some (dev, ft_rejects f, ft_elapsed_ms f)\<rparr>)"

text \<open>The candidates of \<open>fortune_binary\<close>, the first that \<open>access\<close> allows.\<close>

definition fortune_binary :: "(string \<Rightarrow> bool) \<Rightarrow> string option" where
  "fortune_binary can_run = find can_run [''/usr/bin/fortune'', ''/usr/games/fortune'']"

definition strip_newlines :: "string \<Rightarrow> string" where
  "strip_newlines s = rev (dropWhile (\<lambda>c. c = CHR 0x0A \<or> c = CHR 0x0D) (rev s))"

text \<open>
  The retry loop.  \<open>out i\<close> is what the \<open>i\<close>-th run prints, \<open>None\<close> when \<open>popen\<close> fails; the result is
  the accepted text with its font and the rejections before it.
\<close>

function try_fortunes :: "(nat \<Rightarrow> string option) \<Rightarrow> nat \<Rightarrow> nat \<Rightarrow> (string \<times> int \<times> nat) option" where
  "try_fortunes out attempt rejects =
     (if \<not> attempt < FORTUNE_MAX_RETRIES then None
      else case out attempt of
          None \<Rightarrow> None
        | Some printed \<Rightarrow>
            let buf = strip_newlines (cstr (take 1023 printed)); pt = fortune_pick_font buf
            in if pt < 0 then try_fortunes out (attempt + 1) (rejects + 1)
               else Some (buf, pt, rejects))"
  by pat_completeness auto
termination by (relation "measure (\<lambda>(out, attempt, rejects). FORTUNE_MAX_RETRIES - attempt)") auto

declare try_fortunes.simps [simp del]

text \<open>\<open>redis_write_fortune_current\<close>: nothing without a live connection.\<close>

definition redis_write_fortune_current :: "'w hiredis \<Rightarrow> bool \<Rightarrow> string \<Rightarrow> 'w \<Rightarrow> 'w" where
  "redis_write_fortune_current H ctx json w =
     (if \<not> ctx \<or> hr_err H w then w
      else snd (hr_command H w [''SET'', ''kpidash:fortune:current'', json]))"

definition run_fortune_or_canned ::
  "'w hiredis \<Rightarrow> bool \<Rightarrow> (string \<Rightarrow> string option) \<Rightarrow> (string \<Rightarrow> bool) \<Rightarrow> (nat \<Rightarrow> string option) \<Rightarrow> int \<Rightarrow> nat \<Rightarrow> bool \<Rightarrow>
   fortune_state \<times> 'w \<Rightarrow> fortune_state \<times> 'w" where
  "run_fortune_or_canned H ctx pr can_run out elapsed now dev fw =
     (case fw of (f, w) \<Rightarrow>
        (case (if ft_available f \<and> fortune_binary can_run \<noteq> None then try_fortunes out 0 0 else None) of
           Some (buf, pt, rejects) \<Rightarrow>
             (update_dev_overlay dev (update_widget buf pt
                (f\<lparr>ft_rejects := rejects, ft_elapsed_ms := elapsed\<rparr>)),
              case pr buf of None \<Rightarrow> w | Some json \<Rightarrow> redis_write_fortune_current H ctx json w)
         | None \<Rightarrow>
             (update_dev_overlay dev (update_widget (CANNED_ERRORS ! (now mod length CANNED_ERRORS)) 36
                (f\<lparr>ft_rejects := FORTUNE_MAX_RETRIES, ft_elapsed_ms := 0\<rparr>)), w)))"

definition fortune_timer_cb ::
  "'w hiredis \<Rightarrow> bool \<Rightarrow> (string \<Rightarrow> string option) \<Rightarrow> (string \<Rightarrow> bool) \<Rightarrow> (nat \<Rightarrow> string option) \<Rightarrow> int \<Rightarrow> nat \<Rightarrow> bool \<Rightarrow>
   fortune_state \<times> 'w \<Rightarrow> fortune_state \<times> 'w" where
  "fortune_timer_cb H ctx pr can_run out elapsed now dev fw =
     (if ft_pushed (fst fw) then ((fst fw)\<lparr>ft_pushed := False\<rparr>, snd fw)
      else run_fortune_or_canned H ctx pr can_run out elapsed now dev fw)"

definition fortune_on_pushed :: "'j cjson \<Rightarrow> bool \<Rightarrow> string \<Rightarrow> fortune_state \<Rightarrow> fortune_state" where
  "fortune_on_pushed J dev json f =
     (case cj_parse J json of
        None \<Rightarrow> f
      | Some v \<Rightarrow>
          (case item_string J v ''text'' of
             None \<Rightarrow> f
           | Some tx \<Rightarrow>
               let pt = fortune_pick_font tx; pt' = (if pt < 0 then 20 else pt)
               in (update_dev_overlay dev (update_widget tx pt' f))\<lparr>ft_pushed := True\<rparr>))"

section \<open>What is shown fits\<close>

fun split_lines :: "string \<Rightarrow> string list" where
  "split_lines [] = [[]]"
| "split_lines (c # s) =
     (if c = CHR 0x0A then [] # split_lines s
      else (case split_lines s of [] \<Rightarrow> [[c]] | l # ls \<Rightarrow> (c # l) # ls))"

definition text_fits :: "nat \<Rightarrow> nat \<Rightarrow> string \<Rightarrow> bool" where
  "text_fits max_line max_lines tx \<longleftrightarrow>
     list_all (\<lambda>l. length l \<le> max_line) (split_lines tx) \<and> length (split_lines tx) \<le> max_lines"

lemma split_lines_not_Nil [simp]: "split_lines s \<noteq> []"
  by (cases s) (auto split: list.split)

lemma measure_lines:
  "fst (measure_text (nl, cur, mx) s) + 1 = nl + length (split_lines s) \<and>
   (snd (snd (measure_text (nl, cur, mx) s)) \<le> k \<longleftrightarrow> mx \<le> k \<and> cur + length (hd (split_lines s)) \<le> k \<and>
        list_all (\<lambda>l. length l \<le> k) (tl (split_lines s)))"
proof (induction s arbitrary: nl cur mx)
  case Nil
  show ?case by auto
next
  case (Cons c s)
  obtain l ls where sp: "split_lines s = l # ls" using split_lines_not_Nil [of s] by (cases "split_lines s") auto
  note IH = Cons.IH [unfolded sp, simplified]
  show ?case
  proof (cases "c = CHR 0x0A")
    case True
    then have e: "measure_text (nl, cur, mx) (c # s) = measure_text (nl + 1, 0, if mx < cur then cur else mx) s"
      "split_lines (c # s) = [] # l # ls" by (simp_all add: sp)
    show ?thesis unfolding e using IH [of "nl + 1" 0 "if mx < cur then cur else mx"] by auto
  next
    case False
    then have e: "measure_text (nl, cur, mx) (c # s) = measure_text (nl, cur + 1, mx) s"
      "split_lines (c # s) = (c # l) # ls" by (simp_all add: sp)
    show ?thesis unfolding e using IH [of nl "cur + 1" mx] by auto
  qed
qed

lemma pick_from_find:
  "pick_from steps tx =
     (case find (\<lambda>(pt, a, b). text_fits a b tx) steps of Some (pt, a, b) \<Rightarrow> pt | None \<Rightarrow> - 1)"
proof (induction steps)
  case (Cons st steps)
  obtain pt a b where st: "st = (pt, a, b)" by (cases st)
  obtain nl c mx where m: "measure_text (1, 0, 0) tx = (nl, c, mx)" by (cases "measure_text (1, 0, 0) tx")
  obtain l ls where sp: "split_lines tx = l # ls" using split_lines_not_Nil [of tx] by (cases "split_lines tx") auto
  have "(mx \<le> a \<and> nl \<le> b) = text_fits a b tx"
    using measure_lines [of 1 0 0 tx a, unfolded m] by (auto simp: sp text_fits_def)
  then show ?case using Cons by (simp add: st m [unfolded One_nat_def])
qed simp

lemma pick_font_cases:
  "fortune_pick_font tx = - 1 \<or> (\<exists>a b. (fortune_pick_font tx, a, b) \<in> set FONT_LADDER \<and> text_fits a b tx)"
proof (cases "tx = []")
  case False
  show ?thesis
  proof (cases "find (\<lambda>(pt, a, b). text_fits a b tx) FONT_LADDER")
    case None
    then show ?thesis using False by (simp add: fortune_pick_font_def pick_from_find)
  next
    case (Some st)
    obtain pt a b where st: "st = (pt, a, b)" by (cases st)
    have "(pt, a, b) \<in> set FONT_LADDER" "text_fits a b tx"
      using Some by (auto simp: st find_Some_iff dest: nth_mem)
    then show ?thesis using False Some by (auto simp: fortune_pick_font_def pick_from_find st)
  qed
qed (simp add: fortune_pick_font_def)

text \<open>The first step of the ladder that every line and the number of lines fit.\<close>

theorem fortune_font_exact:
  "fortune_pick_font tx =
     (if tx = [] then - 1
      else case find (\<lambda>(pt, a, b). text_fits a b tx) FONT_LADDER of Some (pt, a, b) \<Rightarrow> pt | None \<Rightarrow> - 1)"
  by (simp add: fortune_pick_font_def pick_from_find)

lemma try_fortunes_fits:
  "try_fortunes out attempt rejects = Some (buf, pt, n) \<Longrightarrow>
     buf \<noteq> [] \<and> (\<exists>a b. (pt, a, b) \<in> set FONT_LADDER \<and> text_fits a b buf) \<and>
     n + attempt < rejects + FORTUNE_MAX_RETRIES"
proof (induction out attempt rejects rule: try_fortunes.induct)
  case (1 out attempt rejects)
  have lt: "attempt < FORTUNE_MAX_RETRIES" using 1(2) by (subst (asm) try_fortunes.simps) (simp split: if_splits)
  then obtain printed where o': "out attempt = Some printed"
    using 1(2) by (subst (asm) try_fortunes.simps) (simp split: option.splits)
  define b where "b = strip_newlines (cstr (take 1023 printed))"
  have e: "try_fortunes out attempt rejects =
      (if fortune_pick_font b < 0 then try_fortunes out (attempt + 1) (rejects + 1)
       else Some (b, fortune_pick_font b, rejects))"
    using lt o' by (subst try_fortunes.simps) (simp add: b_def Let_def)
  show ?case
  proof (cases "fortune_pick_font b < 0")
    case True
    have "try_fortunes out (attempt + 1) (rejects + 1) = Some (buf, pt, n)" using 1(2) e True by simp
    then show ?thesis using 1(1) [OF _ o', of b "fortune_pick_font b"] lt True by (simp add: b_def)
  next
    case False
    have p: "buf = b" "pt = fortune_pick_font b" "n = rejects" using 1(2) e False by auto
    then have "buf \<noteq> []" using False by (auto simp: fortune_pick_font_def)
    then show ?thesis using pick_font_cases [of b] False p lt by auto
  qed
qed

text \<open>The canned messages are shown at 36 points, which four of the six do not fit.\<close>

theorem canned_overflow:
  "map fortune_pick_font CANNED_ERRORS = [24, 20, 28, 36, 24, 36]"
  by code_simp

text \<open>What a run printed, as it is shown: a NUL ends it, and newlines at the end go.\<close>

definition fortune_text :: "string \<Rightarrow> string" where
  "fortune_text printed = strip_newlines (cstr (take 1023 printed))"

lemma strip_newlines_parts:
  "\<exists>nl. s = strip_newlines s @ nl \<and> set nl \<subseteq> {CHR 0x0A, CHR 0x0D}"
  "strip_newlines s \<noteq> [] \<Longrightarrow> last (strip_newlines s) \<notin> {CHR 0x0A, CHR 0x0D}"
proof -
  let ?P = "\<lambda>c. c = CHR 0x0A \<or> c = CHR 0x0D"
  have "s = rev (takeWhile ?P (rev s) @ dropWhile ?P (rev s))" by (simp only: takeWhile_dropWhile_id rev_rev_ident)
  then have "s = strip_newlines s @ rev (takeWhile ?P (rev s))" by (simp only: rev_append strip_newlines_def)
  moreover have "set (rev (takeWhile ?P (rev s))) \<subseteq> {CHR 0x0A, CHR 0x0D}" by (auto dest: set_takeWhileD)
  ultimately show "\<exists>nl. s = strip_newlines s @ nl \<and> set nl \<subseteq> {CHR 0x0A, CHR 0x0D}" by blast
  assume "strip_newlines s \<noteq> []"
  then have "dropWhile ?P (rev s) \<noteq> []" by (simp add: strip_newlines_def)
  from hd_dropWhile [OF this] show "last (strip_newlines s) \<notin> {CHR 0x0A, CHR 0x0D}"
    using \<open>dropWhile ?P (rev s) \<noteq> []\<close> by (simp add: strip_newlines_def last_rev)
qed

definition rejected :: "string \<Rightarrow> bool" where
  "rejected tx \<longleftrightarrow> tx = [] \<or> list_all (\<lambda>(pt, a, b). \<not> text_fits a b tx) FONT_LADDER"

lemma pick_rejected: "fortune_pick_font tx < 0 \<longleftrightarrow> rejected tx"
proof (cases "find (\<lambda>(pt, a, b). text_fits a b tx) FONT_LADDER")
  case None
  then have "rejected tx" by (auto simp: rejected_def list_all_iff find_None_iff)
  then show ?thesis using None by (simp add: fortune_pick_font_def pick_from_find)
next
  case (Some st)
  obtain pt a b where st: "st = (pt, a, b)" by (cases st)
  have "(pt, a, b) \<in> set FONT_LADDER" "text_fits a b tx" using Some by (auto simp: st find_Some_iff dest: nth_mem)
  moreover from this(1) have "0 < pt" by (auto simp: FONT_LADDER_def)
  ultimately have "\<not> list_all (\<lambda>(pt, a, b). \<not> text_fits a b tx) FONT_LADDER" "0 < pt"
    by (auto simp: list_all_iff intro!: bexI [of _ "(pt, a, b)"])
  then show ?thesis using Some by (simp add: st fortune_pick_font_def pick_from_find rejected_def)
qed

lemma pick_first: "\<not> rejected tx \<Longrightarrow> \<exists>a b. find (\<lambda>(pt, a, b). text_fits a b tx) FONT_LADDER = Some (fortune_pick_font tx, a, b)"
  by (cases "find (\<lambda>(pt, a, b). text_fits a b tx) FONT_LADDER")
    (auto simp: fortune_pick_font_def pick_from_find rejected_def list_all_iff find_None_iff)

text \<open>Every run from \<open>a\<close> up to \<open>b\<close> printed something that was rejected.\<close>

definition all_rejected :: "(nat \<Rightarrow> string option) \<Rightarrow> nat \<Rightarrow> nat \<Rightarrow> bool" where
  "all_rejected out a b \<longleftrightarrow> (\<forall>j. a \<le> j \<longrightarrow> j < b \<longrightarrow> (\<exists>p. out j = Some p \<and> rejected (fortune_text p)))"

lemma try_fortunes_exact:
  "case try_fortunes out attempt rejects of
     Some (buf, pt, n) \<Rightarrow> \<exists>i p. attempt \<le> i \<and> i < FORTUNE_MAX_RETRIES \<and> all_rejected out attempt i \<and> out i = Some p \<and>
       buf = fortune_text p \<and> \<not> rejected buf \<and> pt = fortune_pick_font buf \<and> n = rejects + (i - attempt)
   | None \<Rightarrow> \<exists>i. attempt \<le> i \<and> all_rejected out attempt i \<and> (FORTUNE_MAX_RETRIES \<le> i \<or> out i = None)"
proof (induction out attempt rejects rule: try_fortunes.induct)
  case (1 out attempt rejects)
  have grow: "all_rejected out attempt i"
    if "out attempt = Some p" "rejected (fortune_text p)" "all_rejected out (Suc attempt) i" for p i
    using that unfolding all_rejected_def by (metis Suc_leI le_neq_implies_less)
  show ?case
  proof (cases "attempt < FORTUNE_MAX_RETRIES")
    case False
    then show ?thesis by (subst try_fortunes.simps) (auto simp: all_rejected_def intro: exI [of _ attempt])
  next
    case lt: True
    show ?thesis
    proof (cases "out attempt")
      case None
      then show ?thesis using lt by (subst try_fortunes.simps) (auto simp: all_rejected_def intro: exI [of _ attempt])
    next
      case (Some p)
      have e: "try_fortunes out attempt rejects =
          (if rejected (fortune_text p) then try_fortunes out (Suc attempt) (Suc rejects)
           else Some (fortune_text p, fortune_pick_font (fortune_text p), rejects))"
        using lt Some by (subst try_fortunes.simps) (simp add: fortune_text_def Let_def pick_rejected)
      show ?thesis
      proof (cases "rejected (fortune_text p)")
        case False
        then show ?thesis using lt Some e by (auto simp: all_rejected_def intro!: exI [of _ attempt])
      next
        case True
        note IH = 1 [OF _ Some refl refl, folded fortune_text_def, unfolded pick_rejected, OF _ True]
        then have IH: "case try_fortunes out (Suc attempt) (Suc rejects) of
             Some (buf, pt, n) \<Rightarrow> \<exists>i p. Suc attempt \<le> i \<and> i < FORTUNE_MAX_RETRIES \<and> all_rejected out (Suc attempt) i \<and> out i = Some p \<and>
               buf = fortune_text p \<and> \<not> rejected buf \<and> pt = fortune_pick_font buf \<and> n = Suc rejects + (i - Suc attempt)
           | None \<Rightarrow> \<exists>i. Suc attempt \<le> i \<and> all_rejected out (Suc attempt) i \<and> (FORTUNE_MAX_RETRIES \<le> i \<or> out i = None)"
          using lt by (simp only: Suc_eq_plus1 simp_thms)
        show ?thesis
        proof (cases "try_fortunes out (Suc attempt) (Suc rejects)")
          case None
          then obtain i where i: "Suc attempt \<le> i" "all_rejected out (Suc attempt) i" "FORTUNE_MAX_RETRIES \<le> i \<or> out i = None"
            using IH by auto
          then have "attempt \<le> i \<and> all_rejected out attempt i \<and> (FORTUNE_MAX_RETRIES \<le> i \<or> out i = None)"
            using grow [OF Some True] by simp
          then show ?thesis using True None by (simp add: e) blast
        next
          case r: (Some r)
          obtain buf pt n where r': "r = (buf, pt, n)" by (cases r)
          obtain i q where i: "Suc attempt \<le> i" "i < FORTUNE_MAX_RETRIES" "all_rejected out (Suc attempt) i" "out i = Some q"
              "buf = fortune_text q" "\<not> rejected buf" "pt = fortune_pick_font buf" "n = Suc rejects + (i - Suc attempt)"
            using IH unfolding r r' option.case prod.case by blast
          have "attempt \<le> i" "n = rejects + (i - attempt)" using i(1,8) by simp_all
          with i grow [OF Some True i(3)] show ?thesis
            unfolding e r r' if_P [OF True] option.case prod.case by blast
        qed
      qed
    qed
  qed
qed

text \<open>C36: a rotation of a widget that is there shows the first text that fortune prints, of at most ten, that
  fits one of the fonts, whole but for its newlines at the end and what is past 1023 bytes or a NUL, in the
  greatest font that it fits; its number counts the rejections.  Only when fortune is missing, fails, or all
  ten texts are rejected, a canned message is shown, and then Redis is not written.  A pushed fortune puts a
  rotation off: then nothing on the screen changes.\<close>

theorem fortune_rotation:
  assumes "ft_widget f" "fortune_timer_cb H ctx pr can_run out elapsed now dev (f, w) = (f', w')"
  shows "if ft_pushed f then ft_shown f' = ft_shown f \<and> w' = w
    else (\<exists>i p tx nl pt a b. i < FORTUNE_MAX_RETRIES \<and> out i = Some p \<and> cstr (take 1023 p) = tx @ nl \<and>
        set nl \<subseteq> {CHR 0x0A, CHR 0x0D} \<and> tx \<noteq> [] \<and> last tx \<notin> {CHR 0x0A, CHR 0x0D} \<and>
        find (\<lambda>(pt, a, b). text_fits a b tx) FONT_LADDER = Some (pt, a, b) \<and>
        ft_shown f' = Some (tx, pt) \<and> ft_rejects f' = i \<and> all_rejected out 0 i) \<or>
      (\<exists>tx \<in> set CANNED_ERRORS. ft_shown f' = Some (tx, 36) \<and> w' = w \<and>
        (\<not> ft_available f \<or> fortune_binary can_run = None \<or>
         (\<exists>i. all_rejected out 0 i \<and> (FORTUNE_MAX_RETRIES \<le> i \<or> out i = None))))"
proof (cases "ft_pushed f")
  case True
  then show ?thesis using assms(2) by (auto simp: fortune_timer_cb_def)
next
  case False
  then have run: "run_fortune_or_canned H ctx pr can_run out elapsed now dev (f, w) = (f', w')"
    using assms(2) by (simp add: fortune_timer_cb_def)
  note ex = try_fortunes_exact [where out = out and attempt = 0 and rejects = 0]
  show ?thesis
  proof (cases "if ft_available f \<and> fortune_binary can_run \<noteq> None then try_fortunes out 0 0 else None")
    case None
    have "f' = update_dev_overlay dev (update_widget (CANNED_ERRORS ! (now mod length CANNED_ERRORS)) 36
        (f\<lparr>ft_rejects := FORTUNE_MAX_RETRIES, ft_elapsed_ms := 0\<rparr>))" "w' = w"
      using run [unfolded run_fortune_or_canned_def prod.case None] by simp_all
    moreover have "CANNED_ERRORS ! (now mod length CANNED_ERRORS) \<in> set CANNED_ERRORS"
      by (rule nth_mem) (simp add: CANNED_ERRORS_def)
    moreover have "\<not> ft_available f \<or> fortune_binary can_run = None \<or>
        (\<exists>i. all_rejected out 0 i \<and> (FORTUNE_MAX_RETRIES \<le> i \<or> out i = None))"
      using None ex by (auto split: if_splits)
    ultimately show ?thesis using assms(1) False by (simp add: update_dev_overlay_def update_widget_def)
  next
    case (Some r)
    obtain buf pt n where r: "r = (buf, pt, n)" by (cases r)
    have f': "f' = update_dev_overlay dev (update_widget buf pt (f\<lparr>ft_rejects := n, ft_elapsed_ms := elapsed\<rparr>))"
      using run [unfolded run_fortune_or_canned_def prod.case Some r] by simp
    have "try_fortunes out 0 0 = Some (buf, pt, n)" using Some r by (simp split: if_splits)
    then obtain i p where i: "i < FORTUNE_MAX_RETRIES" "all_rejected out 0 i" "out i = Some p" "buf = fortune_text p"
        "\<not> rejected buf" "pt = fortune_pick_font buf" "n = i"
      using ex by auto
    obtain a b where "find (\<lambda>(pt, a, b). text_fits a b buf) FONT_LADDER = Some (pt, a, b)" using pick_first [OF i(5)] i(6) by blast
    moreover obtain nl where "cstr (take 1023 p) = buf @ nl" "set nl \<subseteq> {CHR 0x0A, CHR 0x0D}"
      using strip_newlines_parts(1) [of "cstr (take 1023 p)"] i(4) unfolding fortune_text_def by metis
    moreover have "buf \<noteq> []" using i(5) by (auto simp: rejected_def)
    moreover have "last buf \<notin> {CHR 0x0A, CHR 0x0D}"
      using strip_newlines_parts(2) [of "cstr (take 1023 p)"] \<open>buf \<noteq> []\<close> i(4) unfolding fortune_text_def by metis
    moreover have "ft_shown f' = Some (buf, pt)" "ft_rejects f' = i"
      using assms(1) i(7) by (simp_all add: f' update_dev_overlay_def update_widget_def)
    ultimately show ?thesis using i(1,2,3) False by (simp only: if_False) blast
  qed
qed

definition one_rejected :: "nat \<Rightarrow> string option" where
  "one_rejected i = (if i = 0 then Some (replicate 91 CHR ''a'') else Some (''be brief'' @ [CHR 0x0A]))"

definition blank_fortune :: fortune_state where
  "blank_fortune = \<lparr>ft_widget = True, ft_available = True, ft_pushed = False, ft_rejects = 0, ft_elapsed_ms = 0,
     ft_shown = None, ft_overlay = None\<rparr>"

theorem fortune_rotation_witness:
  "\<exists>f'. fortune_timer_cb scripted True (\<lambda>_. None) (\<lambda>_. True) one_rejected 3 0 False (blank_fortune, []) = (f', []) \<and>
     ft_shown f' = Some (''be brief'', 36) \<and> ft_rejects f' = 1 \<and> all_rejected one_rejected 0 1"
proof -
  define fw where "fw = fortune_timer_cb scripted True (\<lambda>_. None) (\<lambda>_. True) one_rejected 3 0 False (blank_fortune, [])"
  have s: "ft_shown (fst fw) = Some (''be brief'', 36)" "ft_rejects (fst fw) = 1" "snd fw = []"
    unfolding fw_def by code_simp+
  have c: "''be brief'' \<notin> set CANNED_ERRORS" by (simp add: CANNED_ERRORS_def)
  have e: "fortune_timer_cb scripted True (\<lambda>_. None) (\<lambda>_. True) one_rejected 3 0 False (blank_fortune, []) = (fst fw, snd fw)"
    by (simp add: fw_def)
  have b: "ft_widget blank_fortune" "\<not> ft_pushed blank_fortune" by (simp_all add: blank_fortune_def)
  from fortune_rotation [OF b(1) e] b(2) have "all_rejected one_rejected 0 1" using s(1,2) c by auto
  then show ?thesis using s e by auto
qed

end
