(* ===== verification/Redis_Poll.thy ===== *)
theory Redis_Poll
  imports Redis_Scan Netstate Status_Queue Fortune
begin

text \<open>
  The connection and the poll cycle of \<open>src/src/redis.c\<close>.  \<open>dash\<close> is what the process keeps
  between polls: the connection's settings, the overlay that covers the screen while Redis is
  away, and the state of every component the poll feeds.  The server, the network and the clock
  are one unknown world \<open>'w\<close>: \<open>H\<close> answers commands, \<open>E\<close> opens connections and tells the time, \<open>J\<close>
  is cJSON and \<open>P\<close> prints the documents the program writes.  The value of \<open>redis_poll\<close> is \<open>None\<close>
  only when one of its SCAN loops runs out of fuel.
\<close>

section \<open>State\<close>

record 'w net_env =
  ev_connect :: "'w \<Rightarrow> string \<Rightarrow> int \<Rightarrow> bool \<times> 'w"
  ev_set_timeout :: "'w \<Rightarrow> bool \<times> 'w"
  ev_free :: "'w \<Rightarrow> 'w"
  ev_time :: "'w \<Rightarrow> double"
  ev_hostname :: "'w \<Rightarrow> string option"

record mem_sample =
  ms_t :: int
  ms_uptime_s :: int
  ms_rss_bytes :: int
  ms_vsize_bytes :: int
  ms_lvgl_total :: int
  ms_lvgl_free :: int
  ms_lvgl_used :: int
  ms_lvgl_max_used :: int
  ms_lvgl_frag_pct :: int
  ms_lvgl_free_biggest :: int

text \<open>\<open>cJSON_PrintUnformatted\<close> of the documents the code builds, \<open>None\<close> when it fails.\<close>

record printers =
  pr_status :: "status_message \<Rightarrow> string option"
  pr_service :: "double \<Rightarrow> string \<Rightarrow> string \<Rightarrow> string option"
  pr_mem :: "mem_sample \<Rightarrow> string option"

record conn =
  cn_ctx :: bool
  cn_host :: string
  cn_port :: int
  cn_auth :: string
  cn_version :: string
  cn_last_publish :: double

record activity =
  ac_id :: string
  ac_host :: string
  ac_name :: string
  ac_is_done :: bool
  ac_start_ts :: double
  ac_end_ts :: double

record evict_target =
  et_kind :: string
  et_name :: string
  et_host :: string

record dash =
  da_conn :: conn
  da_overlay :: "string option"
  da_reg :: registry
  da_services :: "service_entry list"
  da_apttemps :: "apttemps_entry list"
  da_stale :: stale_state
  da_graphs :: "graph_host_series list"
  da_net :: net_state
  da_status :: status
  da_fortune :: fortune_state
  da_activities :: "activity list"
  da_repos :: "repo_entry list"
  da_cmd :: dev_cmd_state
  da_devtel :: dev_telemetry
  da_evict :: "evict_target list"
  da_shots :: "string option list"

section \<open>Connection\<close>

text \<open>The overlay of \<open>ui.c\<close>: its text while it is shown.\<close>

definition ui_show_redis_error :: "string \<Rightarrow> string option" where
  "ui_show_redis_error msg = Some (buf_copy 256 (''Redis unavailable: '' @ msg))"

definition ui_hide_redis_error :: "string option" where
  "ui_hide_redis_error = None"

fun auth_accepted :: "reply option \<Rightarrow> bool" where
  "auth_accepted None = False"
| "auth_accepted (Some (RError _)) = False"
| "auth_accepted (Some _) = True"

definition do_connect :: "'w net_env \<Rightarrow> 'w hiredis \<Rightarrow> conn \<times> 'w \<Rightarrow> bool \<times> conn \<times> 'w" where
  "do_connect E H cw =
     (case cw of (c, w) \<Rightarrow>
        (case ev_connect E w (cn_host c) (cn_port c) of
           (False, w1) \<Rightarrow> (False, c, w1)
         | (True, w1) \<Rightarrow>
             (case ev_set_timeout E w1 of
                (False, w2) \<Rightarrow> (False, c, ev_free E w2)
              | (True, w2) \<Rightarrow>
                  if cn_auth c = [] then (True, c\<lparr>cn_ctx := True\<rparr>, w2)
                  else (case hr_command H w2 [''AUTH'', cn_auth c] of (r, w3) \<Rightarrow>
                    if \<not> auth_accepted r then (False, c, ev_free E w3)
                    else (True, c\<lparr>cn_ctx := True\<rparr>, w3)))))"

definition redis_connect ::
  "'w net_env \<Rightarrow> 'w hiredis \<Rightarrow> string option \<Rightarrow> int \<Rightarrow> string option \<Rightarrow> conn \<times> 'w \<Rightarrow> bool \<times> conn \<times> 'w" where
  "redis_connect E H host port auth cw =
     do_connect E H
       ((fst cw)\<lparr>cn_host := buf_copy 128 (set_if host ''127.0.0.1''),
                 cn_port := (if 0 < port then port else 6379),
                 cn_auth := set_if (map_option (buf_copy 256) auth) (cn_auth (fst cw))\<rparr>, snd cw)"

definition redis_disconnect :: "'w net_env \<Rightarrow> conn \<times> 'w \<Rightarrow> conn \<times> 'w" where
  "redis_disconnect E cw =
     (if cn_ctx (fst cw) then ((fst cw)\<lparr>cn_ctx := False\<rparr>, ev_free E (snd cw)) else cw)"

definition redis_is_connected :: "'w hiredis \<Rightarrow> conn \<times> 'w \<Rightarrow> bool" where
  "redis_is_connected H cw \<longleftrightarrow> cn_ctx (fst cw) \<and> \<not> hr_err H (snd cw)"

definition redis_reconnect_if_needed ::
  "'w net_env \<Rightarrow> 'w hiredis \<Rightarrow> dash \<times> 'w \<Rightarrow> bool \<times> dash \<times> 'w" where
  "redis_reconnect_if_needed E H dw =
     (case dw of (d, w) \<Rightarrow>
        if redis_is_connected H (da_conn d, w) then (True, d, w)
        else (case do_connect E H (redis_disconnect E (da_conn d, w)) of (ok, c, w') \<Rightarrow>
          (ok, d\<lparr>da_conn := c,
                 da_overlay := (if ok then ui_hide_redis_error else ui_show_redis_error ''connection failed'')\<rparr>, w')))"

section \<open>What the dashboard writes\<close>

text \<open>The result and the line printed.\<close>

definition redis_roundtrip_check :: "'w hiredis \<Rightarrow> (('w \<Rightarrow> string)) \<Rightarrow> bool \<Rightarrow> 'w \<Rightarrow> bool \<times> string \<times> 'w" where
  "redis_roundtrip_check H errstr ctx w =
     (if \<not> ctx \<or> hr_err H w then (False, ''ERROR: Round trip to redis failed (no connection)'', w)
      else case hr_command H w [''SET'', ''kpidash:system:ping'', ''1'', ''EX'', ''10''] of (wr, w1) \<Rightarrow>
        (case wr of
           Some (RStatus _) \<Rightarrow>
             (case hr_command H w1 [''GET'', ''kpidash:system:ping''] of (rr, w2) \<Rightarrow>
                if string_reply rr = Some ''1'' then (True, ''INFO: Round trip to redis success'', w2)
                else (False, ''ERROR: Round trip to redis failed (GET mismatch)'', w2))
         | Some (RError e) \<Rightarrow> (False, ''ERROR: Round trip to redis failed (SET rejected: '' @ e @ '')'', w1)
         | _ \<Rightarrow> if hr_err H w1
                then (False, ''ERROR: Round trip to redis failed (SET failed: '' @ errstr w1 @ '')'', w1)
                else (False, ''ERROR: Round trip to redis failed (SET failed)'', w1)))"

text \<open>The version is the literal of the only caller, never NULL.\<close>

definition redis_write_system_info ::
  "'w hiredis \<Rightarrow> string \<Rightarrow> string \<Rightarrow> conn \<times> 'w \<Rightarrow> conn \<times> 'w" where
  "redis_write_system_info H logpath version cw =
     (if \<not> redis_is_connected H cw then cw
      else let w1 = snd (hr_command H (snd cw) [''SET'', ''kpidash:system:logpath'', logpath]);
               w2 = snd (hr_command H w1 [''SET'', ''kpidash:system:version'', version])
           in ((fst cw)\<lparr>cn_version := buf_copy 80 version\<rparr>, w2))"

text \<open>At most one card in fifteen seconds; the host name up to its first dot.\<close>

definition redis_publish_self_service ::
  "'w net_env \<Rightarrow> 'w hiredis \<Rightarrow> printers \<Rightarrow> conn \<times> 'w \<Rightarrow> conn \<times> 'w" where
  "redis_publish_self_service E H P cw =
     (case cw of (c, w) \<Rightarrow>
        if \<not> redis_is_connected H cw then cw
        else let now = ev_time E w in
          if now - cn_last_publish c < 15 then cw
          else let host = fst (split_at (CHR ''.'') (buf_copy 64 (set_if (ev_hostname E w) ''dashboard'')));
                   c' = c\<lparr>cn_last_publish := now\<rparr>
               in (case pr_service P now (cn_version c) host of
                     None \<Rightarrow> (c', w)
                   | Some json \<Rightarrow> (c', snd (hr_command H w [''SET'', ''kpidash:services:rpidash:'' @ host, json]))))"

definition redis_write_mem_sample :: "'w hiredis \<Rightarrow> printers \<Rightarrow> bool \<Rightarrow> mem_sample \<Rightarrow> 'w \<Rightarrow> 'w" where
  "redis_write_mem_sample H P ctx s w =
     (if \<not> ctx \<or> hr_err H w then w
      else case pr_mem P s of
          None \<Rightarrow> w
        | Some json \<Rightarrow>
            let w1 = snd (hr_command H w [''SET'', ''kpidash:system:mem:current'', json]);
                w2 = snd (hr_command H w1 [''LPUSH'', ''kpidash:system:mem:ring'', json])
            in snd (hr_command H w2 [''LTRIM'', ''kpidash:system:mem:ring'', ''0'', ''1499'']))"

section \<open>Activities and repositories\<close>

definition is_digit :: "char \<Rightarrow> bool" where
  "is_digit c \<longleftrightarrow> CHR ''0'' \<le> c \<and> c \<le> CHR ''9''"

definition digits_val :: "string \<Rightarrow> int" where
  "digits_val s = fold (\<lambda>c n. n * 10 + (int (of_char c) - 48)) s 0"

definition take_sign :: "string \<Rightarrow> bool \<times> string" where
  "take_sign s = (case s of c # t \<Rightarrow> if c = CHR ''-'' then (True, t) else if c = CHR ''+'' then (False, t) else (False, s)
     | [] \<Rightarrow> (False, s))"

text \<open>\<open>atof\<close> on decimal numbers, zero when there is none; its hexadecimal, infinite and NaN forms
  are not modelled.\<close>

definition decimal_exponent :: "string \<Rightarrow> int" where
  "decimal_exponent s =
     (case s of
        c # t \<Rightarrow> if c \<noteq> CHR ''e'' \<and> c \<noteq> CHR ''E'' then 0
          else (case take_sign t of (neg, u) \<Rightarrow>
            let n = digits_val (takeWhile is_digit u) in if neg then - n else n)
      | [] \<Rightarrow> 0)"

definition atof :: "string \<Rightarrow> double" where
  "atof s =
     (case take_sign (dropWhile (\<lambda>c. c = CHR '' '' \<or> (CHR 0x09 \<le> c \<and> c \<le> CHR 0x0D)) s) of (neg, u) \<Rightarrow>
        let ip = takeWhile is_digit u; r = dropWhile is_digit u;
            fp = (case r of c # t \<Rightarrow> if c = CHR ''.'' then takeWhile is_digit t else [] | [] \<Rightarrow> []);
            r' = (case r of c # t \<Rightarrow> if c = CHR ''.'' then dropWhile is_digit t else r | [] \<Rightarrow> []);
            e = decimal_exponent r';
            m = of_int (digits_val (ip @ fp)) / 10 ^ length fp *
                (if 0 \<le> e then 10 ^ nat e else 1 / 10 ^ nat (- e))
        in if ip = [] \<and> fp = [] then 0 else if neg then - m else m)"

text \<open>The fields of a HGETALL reply; a pair with an element that is no string is skipped.\<close>

fun string_pairs :: "reply list \<Rightarrow> (string \<times> string) list" where
  "string_pairs (k # v # es) =
     (case (reply_str k, reply_str v) of
        (Some k', Some v') \<Rightarrow> (k', v') # string_pairs es
      | _ \<Rightarrow> string_pairs es)"
| "string_pairs _ = []"

fun reply_elements :: "reply option \<Rightarrow> reply list option" where
  "reply_elements (Some (RArray es)) = Some es"
| "reply_elements _ = None"

definition activity_field :: "string \<times> string \<Rightarrow> activity \<Rightarrow> activity" where
  "activity_field kv a =
     (case kv of (k, v) \<Rightarrow>
        if k = ''host'' then a\<lparr>ac_host := buf_copy 64 v\<rparr>
        else if k = ''name'' then a\<lparr>ac_name := buf_copy 128 v\<rparr>
        else if k = ''state'' then a\<lparr>ac_is_done := (v = ''done'')\<rparr>
        else if k = ''start_ts'' then a\<lparr>ac_start_ts := atof v\<rparr>
        else if k = ''end_ts'' then a\<lparr>ac_end_ts := atof v\<rparr>
        else a)"

definition new_activity :: "string \<Rightarrow> activity" where
  "new_activity i = \<lparr>ac_id = buf_copy 37 i, ac_host = [], ac_name = [], ac_is_done = False,
     ac_start_ts = 0, ac_end_ts = 0\<rparr>"

abbreviation "ACTIVITY_MAX_DISPLAY \<equiv> 10 :: nat"
abbreviation "MAX_REPO_ENTRIES \<equiv> 128 :: nat"

text \<open>A bulk-string element; a reply without a string would be a NULL name, which the server does
  not send here.\<close>

definition element_name :: "reply \<Rightarrow> string" where
  "element_name e = set_if (reply_str e) []"

fun activity_loop :: "'w hiredis \<Rightarrow> reply list \<Rightarrow> activity list \<Rightarrow> 'w \<Rightarrow> activity list \<times> 'w" where
  "activity_loop H [] acc w = (acc, w)"
| "activity_loop H (e # es) acc w =
     (if \<not> length acc < ACTIVITY_MAX_DISPLAY then (acc, w)
      else case hr_command H w [''HGETALL'', buf_copy 256 (''kpidash:activity:'' @ element_name e)] of (hr, w1) \<Rightarrow>
        (case reply_elements hr of
           None \<Rightarrow> activity_loop H es acc w1
         | Some fs \<Rightarrow>
             activity_loop H es
               (acc @ [fold activity_field (string_pairs fs) (new_activity (element_name e))]) w1))"

definition poll_activities :: "'w hiredis \<Rightarrow> 'w \<Rightarrow> activity list \<times> 'w" where
  "poll_activities H w =
     (case hr_command H w [''ZREVRANGE'', ''kpidash:activities'', ''0'', ''9''] of (zr, w1) \<Rightarrow>
        (case reply_elements zr of None \<Rightarrow> ([], w1) | Some es \<Rightarrow> activity_loop H es [] w1))"

text \<open>One host's repositories, while there is room.\<close>

definition add_repo :: "'j cjson \<Rightarrow> string \<Rightarrow> string \<times> string \<Rightarrow> repo_entry list \<Rightarrow> repo_entry list" where
  "add_repo J host pj acc =
     (if MAX_REPO_ENTRIES \<le> length acc then acc
      else case redis_parse_repo_json J (snd pj) (new_repo host (fst pj)) of
          None \<Rightarrow> acc
        | Some re \<Rightarrow> acc @ [re])"

fun repo_loop :: "'w hiredis \<Rightarrow> 'j cjson \<Rightarrow> string list \<Rightarrow> repo_entry list \<Rightarrow> 'w \<Rightarrow> repo_entry list \<times> 'w" where
  "repo_loop H J [] acc w = (acc, w)"
| "repo_loop H J (h # hs) acc w =
     (if \<not> length acc < MAX_REPO_ENTRIES then (acc, w)
      else case hr_command H w [''HGETALL'', buf_copy 256 (''kpidash:repos:'' @ h)] of (hr, w1) \<Rightarrow>
        (case reply_elements hr of
           None \<Rightarrow> repo_loop H J hs acc w1
         | Some fs \<Rightarrow> repo_loop H J hs (fold (add_repo J h) (string_pairs fs) acc) w1))"

text \<open>\<open>qsort\<close> leaves the order of equal elements open; the model keeps the order in which they
  were read.\<close>

definition poll_repos :: "'w hiredis \<Rightarrow> 'j cjson \<Rightarrow> string list \<Rightarrow> 'w \<Rightarrow> repo_entry list \<times> 'w" where
  "poll_repos H J hosts w =
     (case repo_loop H J hosts [] w of (rs, w') \<Rightarrow> (c_isort (\<lambda>a b. 0 < repo_cmp a b) rs, w'))"

section \<open>Clients\<close>

definition client_key :: "string \<Rightarrow> string \<Rightarrow> string" where
  "client_key h what = buf_copy 256 (''kpidash:client:'' @ h @ '':'' @ what)"

text \<open>The members of \<open>kpidash:clients\<close>, whatever the type of the reply: only an array has elements.\<close>

definition member_names :: "reply \<Rightarrow> string list" where
  "member_names r = map element_name (take MAX_CLIENTS (set_if (reply_elements (Some r)) []))"

text \<open>What the payloads of a member write into its slot.\<close>

definition member_update ::
  "'j cjson \<Rightarrow> string option \<Rightarrow> string option \<Rightarrow> client_info \<Rightarrow> client_info" where
  "member_update J health telemetry c =
     (let c1 = (case health of
            Some s \<Rightarrow> set_if (redis_parse_health_json J s c) c
          | None \<Rightarrow> c\<lparr>ci_online := False\<rparr>)
      in case telemetry of Some s \<Rightarrow> set_if (redis_parse_telemetry_json J s c1) c1 | None \<Rightarrow> c1)"

definition poll_member :: "'w hiredis \<Rightarrow> 'j cjson \<Rightarrow> string \<Rightarrow> registry \<times> 'w \<Rightarrow> registry \<times> 'w" where
  "poll_member H J h rw =
     (case hr_command H (snd rw) [''GET'', client_key h ''health''] of (hr, w1) \<Rightarrow>
        (case hr_command H w1 [''GET'', client_key h ''telemetry''] of (tr, w2) \<Rightarrow>
           (case registry_admit h (string_reply hr \<noteq> None \<or> string_reply tr \<noteq> None) (fst rw) of
              (None, r') \<Rightarrow> (r', w2)
            | (Some i, r') \<Rightarrow> (update_client i (member_update J (string_reply hr) (string_reply tr)) r', w2))))"

definition poll_members ::
  "'w hiredis \<Rightarrow> 'j cjson \<Rightarrow> string list \<Rightarrow> registry \<times> 'w \<Rightarrow> registry \<times> 'w" where
  "poll_members H J hosts rw = fold (poll_member H J) hosts (registry_remove_absent hosts (fst rw), snd rw)"

section \<open>Development commands and telemetry\<close>

definition get_string :: "'w hiredis \<Rightarrow> string \<Rightarrow> 'w \<Rightarrow> string option \<times> 'w" where
  "get_string H key w = (case hr_command H w [''GET'', key] of (r, w') \<Rightarrow> (string_reply r, w'))"

text \<open>The per-host overrides of the graph switch.\<close>

fun graph_overrides ::
  "'w hiredis \<Rightarrow> 'j cjson \<Rightarrow> string list \<Rightarrow> (string \<times> bool) list \<Rightarrow> 'w \<Rightarrow> (string \<times> bool) list \<times> 'w" where
  "graph_overrides H J [] acc w = (acc, w)"
| "graph_overrides H J (h # hs) acc w =
     (if \<not> length acc < MAX_CLIENTS then (acc, w)
      else case get_string H (buf_copy 256 (''kpidash:cmd:graph:'' @ h)) w of (s, w1) \<Rightarrow>
        (case s of
           None \<Rightarrow> graph_overrides H J hs acc w1
         | Some json \<Rightarrow>
             (case redis_parse_cmd_graph_json J (Some json) blank_dev_cmd of
                (False, _) \<Rightarrow> graph_overrides H J hs acc w1
              | (True, hc) \<Rightarrow> graph_overrides H J hs (acc @ [(buf_copy 64 h, dc_graph_enabled hc)]) w1)))"

definition poll_dev_commands :: "'w hiredis \<Rightarrow> 'j cjson \<Rightarrow> string list \<Rightarrow> 'w \<Rightarrow> dev_cmd_state \<times> 'w" where
  "poll_dev_commands H J hosts w =
     (let (grid, w1) = get_string H ''kpidash:cmd:grid'' w;
          c1 = snd (redis_parse_cmd_grid_json J grid blank_dev_cmd);
          (size, w2) = get_string H ''kpidash:cmd:textsize'' w1;
          c2 = snd (redis_parse_cmd_textsize_json J size c1);
          (graph, w3) = get_string H ''kpidash:cmd:graph'' w2;
          c3 = snd (redis_parse_cmd_graph_json J graph c2);
          (over, w4) = graph_overrides H J hosts [] w3;
          (fdev, w5) = get_string H ''kpidash:cmd:fortune_dev'' w4
      in (snd (redis_parse_cmd_fortune_dev_json J fdev (c3\<lparr>dc_graph_hosts := over\<rparr>)), w5))"

text \<open>One host's sample: its series, and the legacy snapshot with the flag that a host which is
  not legacy has filled it.\<close>

definition store_dev_sample ::
  "double \<Rightarrow> dev_telemetry \<Rightarrow> graph_host_series list \<times> dev_telemetry \<times> bool \<Rightarrow> graph_host_series list \<times> dev_telemetry \<times> bool" where
  "store_dev_sample now parsed st =
     (case st of (graphs, legacy, named) \<Rightarrow>
        let g1 = (case graph_host_find_or_create (dt_host parsed) graphs of
              (Some i, t) \<Rightarrow> t[i := (t ! i)\<lparr>gh_telemetry := parsed\<rparr>]
            | (None, t) \<Rightarrow> t);
            g2 = graph_host_touch (dt_host parsed) now g1;
            is_legacy = (dt_host parsed = ''(legacy)'')
        in if \<not> is_legacy \<and> \<not> named then (g2, parsed, True)
           else if \<not> named then (g2, parsed, named)
           else (g2, legacy, named))"

definition poll_dev_telemetry ::
  "'w net_env \<Rightarrow> 'w hiredis \<Rightarrow> 'j cjson \<Rightarrow> string \<Rightarrow> (graph_host_series list \<times> dev_telemetry \<times> bool) \<times> 'w \<Rightarrow>
   (graph_host_series list \<times> dev_telemetry \<times> bool) \<times> 'w" where
  "poll_dev_telemetry E H J h sw =
     (case get_string H (client_key h ''dev_telemetry'') (snd sw) of
        (None, w1) \<Rightarrow> (fst sw, w1)
      | (Some json, w1) \<Rightarrow>
          (case redis_parse_dev_telemetry_json J (Some json) of (ok, parsed) \<Rightarrow>
             if ok \<and> dt_valid parsed then (store_dev_sample (ev_time E w1) parsed (fst sw), w1)
             else (fst sw, w1)))"

section \<open>Eviction commands\<close>

abbreviation "EVICT_TARGETS_MAX \<equiv> 16 :: nat"

definition evict_target_of :: "'j cjson \<Rightarrow> 'j \<Rightarrow> evict_target option" where
  "evict_target_of J v =
     (if \<not> cj_object J v then None
      else case item_string J v ''name'' of
          None \<Rightarrow> None
        | Some name \<Rightarrow>
            if name = [] then None
            else Some \<lparr>et_kind = buf_copy 16 (set_if (item_string J v ''kind'') ''service''),
                       et_name = buf_copy 64 name,
                       et_host = buf_copy 64 (set_if (item_string J v ''host'') [])\<rparr>)"

fun stash_targets :: "'j cjson \<Rightarrow> 'j list \<Rightarrow> evict_target list \<Rightarrow> evict_target list" where
  "stash_targets J [] acc = acc"
| "stash_targets J (v # vs) acc =
     (if \<not> length acc < EVICT_TARGETS_MAX then acc
      else case evict_target_of J v of
          None \<Rightarrow> stash_targets J vs acc
        | Some t \<Rightarrow> stash_targets J vs (acc @ [t]))"

definition redis_poll_evict ::
  "'w hiredis \<Rightarrow> 'j cjson \<Rightarrow> bool \<Rightarrow> evict_target list \<times> 'w \<Rightarrow> evict_target list \<times> 'w" where
  "redis_poll_evict H J ctx ew =
     (if \<not> ctx \<or> hr_err H (snd ew) then ew
      else case hr_command H (snd ew) [''GETDEL'', ''kpidash:cmd:services:evict''] of (r, w') \<Rightarrow>
        ((case Option.bind (Option.bind (string_reply r) (cj_parse J)) (cj_array J) of
            None \<Rightarrow> fst ew
          | Some vs \<Rightarrow> stash_targets J vs (fst ew)), w'))"

definition redis_take_evict_targets :: "nat \<Rightarrow> evict_target list \<Rightarrow> evict_target list \<times> evict_target list" where
  "redis_take_evict_targets m es = (take m es, [])"

section \<open>The network card\<close>

definition net_keys :: "string list \<Rightarrow> string list" where
  "net_keys hosts = map (\<lambda>h. buf_copy 79 (''kdash:net:'' @ h)) hosts @
     map (\<lambda>h. buf_copy 79 (''kdash:net:ack:'' @ h)) hosts"

text \<open>The loop over the reply: host \<open>i\<close> takes its ack from element \<open>n + i\<close>, then its record.\<close>

definition net_observe_all ::
  "'j cjson \<Rightarrow> string list \<Rightarrow> reply list \<Rightarrow> double \<Rightarrow> net_state \<Rightarrow> net_state" where
  "net_observe_all J hosts es now s =
     fold (\<lambda>i s. net_observe J (hosts ! i) (string_reply (Some (es ! i))) now
                  (net_observe_ack J (hosts ! i) (string_reply (Some (es ! (length hosts + i)))) s))
       [0..<length hosts] s"

definition redis_poll_net ::
  "'w net_env \<Rightarrow> 'w hiredis \<Rightarrow> 'j cjson \<Rightarrow> bool \<Rightarrow> net_state \<times> 'w \<Rightarrow> net_state \<times> 'w" where
  "redis_poll_net E H J ctx sw =
     (case sw of (s, w) \<Rightarrow>
        if \<not> ctx \<or> hr_err H w then sw
        else if net_host_count s = 0 then sw
        else let hosts = map nh_host (ns_hosts s) in
          (case hr_command H w (''MGET'' # net_keys hosts) of (r, w') \<Rightarrow>
             (case reply_elements r of
                None \<Rightarrow> (s, w')
              | Some es \<Rightarrow>
                  if length es \<noteq> 2 * length hosts then (s, w')
                  else (net_observe_all J hosts es (ev_time E w') s, w'))))"

section \<open>The poll\<close>

text \<open>Step 6: a fortune pushed to Redis.\<close>

definition poll_pushed_fortune ::
  "'w hiredis \<Rightarrow> 'j cjson \<Rightarrow> bool \<Rightarrow> fortune_state \<times> 'w \<Rightarrow> fortune_state \<times> 'w" where
  "poll_pushed_fortune H J dev fw =
     (case hr_command H (snd fw) [''EXISTS'', ''kpidash:fortune:pushed''] of (r, w1) \<Rightarrow>
        if r \<noteq> Some (RInteger 1) then (fst fw, w1)
        else (case get_string H ''kpidash:fortune:pushed'' w1 of
            (None, w2) \<Rightarrow> (fst fw, w2)
          | (Some json, w2) \<Rightarrow> (fortune_on_pushed J dev json (fst fw), w2)))"

text \<open>Step 10: \<open>None\<close> in the list of shots is the default path.\<close>

definition poll_screenshot :: "'w hiredis \<Rightarrow> bool \<Rightarrow> string option list \<times> 'w \<Rightarrow> string option list \<times> 'w" where
  "poll_screenshot H ctx sw =
     (if \<not> ctx \<or> hr_err H (snd sw) then sw
      else case hr_command H (snd sw) [''GETDEL'', ''kpidash:screenshot''] of (r, w') \<Rightarrow>
        (case string_reply r of
           Some (c # s) \<Rightarrow> (fst sw @ [if c = CHR ''/'' then Some (c # s) else None], w')
         | _ \<Rightarrow> (fst sw, w')))"

text \<open>The way out of a poll whose connection failed.\<close>

definition drop_connection :: "'w net_env \<Rightarrow> string \<Rightarrow> dash \<times> 'w \<Rightarrow> dash \<times> 'w" where
  "drop_connection E msg dw =
     ((fst dw)\<lparr>da_conn := (da_conn (fst dw))\<lparr>cn_ctx := False\<rparr>, da_overlay := ui_show_redis_error msg\<rparr>,
      ev_free E (snd dw))"

text \<open>Steps 2 to 5.\<close>

definition poll_clients ::
  "'w hiredis \<Rightarrow> 'j cjson \<Rightarrow> printers \<Rightarrow> string list \<Rightarrow> dash \<times> 'w \<Rightarrow> dash \<times> 'w" where
  "poll_clients H J P hosts dw =
     (case dw of (d, w) \<Rightarrow>
        let (reg, w2) = poll_members H J hosts (da_reg d, w);
            (acts, w3) = poll_activities H w2;
            (repos, w4) = poll_repos H J hosts w3;
            (st, w5) = status_redis_check_ack H (pr_status P) (da_status d, w4)
        in (d\<lparr>da_reg := reg, da_activities := acts, da_repos := repos, da_status := st\<rparr>, w5))"

text \<open>Steps 6 to 8.\<close>

definition poll_development ::
  "'w net_env \<Rightarrow> 'w hiredis \<Rightarrow> 'j cjson \<Rightarrow> string list \<Rightarrow> dash \<times> 'w \<Rightarrow> dash \<times> 'w" where
  "poll_development E H J hosts dw =
     (case dw of (d, w) \<Rightarrow>
        let (ft, w1) = poll_pushed_fortune H J (dc_fortune_dev_enabled (da_cmd d)) (da_fortune d, w);
            (cmd, w2) = poll_dev_commands H J hosts w1;
            ((graphs, legacy, named), w3) = fold (poll_dev_telemetry E H J) hosts
               ((da_graphs d, (da_devtel d)\<lparr>dt_valid := False\<rparr>, False), w2)
        in (d\<lparr>da_fortune := ft, da_cmd := cmd, da_graphs := graphs, da_devtel := legacy\<rparr>, w3))"

text \<open>Steps 9 and 10.\<close>

definition poll_cards ::
  "'w net_env \<Rightarrow> 'w hiredis \<Rightarrow> 'j cjson \<Rightarrow> printers \<Rightarrow> nat \<Rightarrow> dash \<times> 'w \<Rightarrow> (dash \<times> 'w) option" where
  "poll_cards E H J P fuel dw =
     (case dw of (d, w) \<Rightarrow>
        let ctx = cn_ctx (da_conn d) in
        (case redis_poll_services H J ctx fuel (da_services d, w) of
           None \<Rightarrow> None
         | Some (svcs, w1) \<Rightarrow>
        (case redis_poll_apttemps H J ctx fuel (da_apttemps d, w1) of
           None \<Rightarrow> None
         | Some (apts, w2) \<Rightarrow>
        (case redis_poll_stale H J (ev_time E) ctx fuel (da_stale d, w2) of
           None \<Rightarrow> None
         | Some (stl, w3) \<Rightarrow>
             let (ev, w4) = redis_poll_evict H J ctx (da_evict d, w3);
                 (net, w5) = redis_poll_net E H J ctx (da_net d, w4);
                 (c, w6) = redis_publish_self_service E H P (da_conn d, w5);
                 (shots, w7) = poll_screenshot H ctx (da_shots d, w6)
             in Some (d\<lparr>da_services := svcs, da_apttemps := apts, da_stale := stl, da_evict := ev,
                        da_net := net, da_conn := c, da_shots := shots\<rparr>, w7)))))"

definition redis_poll ::
  "'w net_env \<Rightarrow> 'w hiredis \<Rightarrow> 'j cjson \<Rightarrow> printers \<Rightarrow> nat \<Rightarrow> dash \<times> 'w \<Rightarrow> (dash \<times> 'w) option" where
  "redis_poll E H J P fuel dw =
     (case dw of (d, w) \<Rightarrow>
        if \<not> redis_is_connected H (da_conn d, w) then Some dw
        else (case hr_command H w [''SMEMBERS'', ''kpidash:clients''] of
          (None, w1) \<Rightarrow> Some (drop_connection E ''connection lost'' (d, w1))
        | (Some smr, w1) \<Rightarrow>
            if hr_err H w1 then Some (drop_connection E ''connection lost'' (d, w1))
            else let hosts = member_names smr; dw2 = poll_clients H J P hosts (d, w1)
              in if hr_err H (snd dw2) then Some (drop_connection E ''connection lost during poll'' dw2)
                 else poll_cards E H J P fuel (poll_development E H J hosts dw2)))"

section \<open>The client step\<close>

lemma member_update_keeps [simp]: "keeps_name (member_update J hp tp)"
  by (auto simp: keeps_name_def member_update_def redis_parse_health_json_def redis_parse_telemetry_json_def
      Let_def set_if_def split: option.splits)

text \<open>The members with what was read for them: the entries of \<open>poll_client\<close>.\<close>

fun read_members ::
  "'w hiredis \<Rightarrow> 'j cjson \<Rightarrow> string list \<Rightarrow> 'w \<Rightarrow> (string \<times> bool \<times> (client_info \<Rightarrow> client_info)) list \<times> 'w" where
  "read_members H J [] w = ([], w)"
| "read_members H J (h # hs) w =
     (case get_string H (client_key h ''health'') w of (hp, w1) \<Rightarrow>
        (case get_string H (client_key h ''telemetry'') w1 of (tp, w2) \<Rightarrow>
           ((h, hp \<noteq> None \<or> tp \<noteq> None, member_update J hp tp) # fst (read_members H J hs w2),
            snd (read_members H J hs w2))))"

lemma poll_member_client:
  "poll_member H J h (r, w) =
     (case get_string H (client_key h ''health'') w of (hp, w1) \<Rightarrow>
        (case get_string H (client_key h ''telemetry'') w1 of (tp, w2) \<Rightarrow>
           (poll_client (h, hp \<noteq> None \<or> tp \<noteq> None, member_update J hp tp) r, w2)))"
  by (simp add: poll_member_def get_string_def poll_client_def split: prod.split option.split)

lemma fold_poll_member:
  "fold (poll_member H J) hs (r, w) =
     (fold poll_client (fst (read_members H J hs w)) r, snd (read_members H J hs w))"
proof (induction hs arbitrary: r w)
  case (Cons h hs)
  obtain hp w1 where g1: "get_string H (client_key h ''health'') w = (hp, w1)" by (cases "get_string H (client_key h ''health'') w")
  obtain tp w2 where g2: "get_string H (client_key h ''telemetry'') w1 = (tp, w2)" by (cases "get_string H (client_key h ''telemetry'') w1")
  show ?case using Cons.IH [of _ w2] by (simp add: poll_member_client g1 g2)
qed simp

lemma read_members_names [simp]: "map fst (fst (read_members H J hs w)) = hs"
  by (induction hs arbitrary: w) (simp_all split: prod.split)

lemma read_members_keep: "(h, d, f) \<in> set (fst (read_members H J hs w)) \<Longrightarrow> h \<in> set hs \<and> keeps_name f"
  by (induction hs arbitrary: w) (auto split: prod.splits)

lemma poll_members_fold:
  "poll_members H J hosts (r, w) =
     (fold poll_client (fst (read_members H J hosts w)) (registry_remove_absent hosts r),
      snd (read_members H J hosts w))"
  by (simp add: poll_members_def fold_poll_member)

lemma length_member_names: "length (member_names r) \<le> 16"
  by (simp add: member_names_def)

text \<open>The registry after a poll is that of its client step.\<close>

lemma poll_development_reg [simp]:
  "da_reg (fst (poll_development E H J hosts dw)) = da_reg (fst dw)"
  by (auto simp: poll_development_def Let_def split: prod.split)

lemma poll_cards_reg:
  "poll_cards E H J P fuel dw = Some (d', w') \<Longrightarrow> da_reg d' = da_reg (fst dw)"
  by (auto simp: poll_cards_def Let_def split: prod.splits option.splits)

lemma poll_clients_reg [simp]:
  "da_reg (fst (poll_clients H J P hosts (d, w))) = fst (poll_members H J hosts (da_reg d, w))"
  by (auto simp: poll_clients_def Let_def split: prod.split)

lemma redis_poll_reg:
  assumes "redis_poll E H J P fuel (d, w) = Some (d', w')" "redis_is_connected H (da_conn d, w)"
    and "hr_command H w [''SMEMBERS'', ''kpidash:clients''] = (Some smr, w1)" "\<not> hr_err H w1"
  shows "da_reg d' = fst (poll_members H J (member_names smr) (da_reg d, w1))"
proof -
  let ?dw = "poll_clients H J P (member_names smr) (d, w1)"
  have "(if hr_err H (snd ?dw) then Some (drop_connection E ''connection lost during poll'' ?dw)
      else poll_cards E H J P fuel (poll_development E H J (member_names smr) ?dw)) = Some (d', w')"
    using assms by (simp add: redis_poll_def Let_def)
  then have "da_reg d' = da_reg (fst ?dw)"
    using poll_cards_reg [of E H J P fuel "poll_development E H J (member_names smr) ?dw" d' w']
    by (auto simp: drop_connection_def split: if_splits)
  then show ?thesis by simp
qed

section \<open>What every poll keeps\<close>

lemma repo_cmp_gt:
  "0 < repo_cmp a b \<longleftrightarrow> re_sort_order b < re_sort_order a \<or>
     (re_sort_order a = re_sort_order b \<and> take 64 (re_name b) < take 64 (re_name a))"
  by (auto simp: repo_cmp_def strncmp_pos)

interpretation by_repo: isort_order "\<lambda>a b. 0 < repo_cmp a b"
  by unfold_locales (auto simp: repo_cmp_gt)

definition repos_sorted :: "repo_entry list \<Rightarrow> bool" where
  "repos_sorted rs \<longleftrightarrow> sorted_wrt (\<lambda>a b. \<not> 0 < repo_cmp a b) rs"

lemma add_repos_bound: "length acc \<le> 128 \<Longrightarrow> length (fold (add_repo J h) ps acc) \<le> 128"
proof (induction ps arbitrary: acc)
  case (Cons p ps)
  have "length (add_repo J h p acc) \<le> 128"
    using Cons.prems by (simp add: add_repo_def split: option.split)
  then show ?case using Cons.IH by simp
qed simp

lemma repo_loop_bound: "length acc \<le> 128 \<Longrightarrow> length (fst (repo_loop H J hs acc w)) \<le> 128"
  by (induction H J hs acc w rule: repo_loop.induct) (simp_all add: add_repos_bound split: prod.split option.split)

lemma poll_repos_ok: "poll_repos H J hs w = (rs, w') \<Longrightarrow> length rs \<le> 128 \<and> repos_sorted rs"
proof -
  assume p: "poll_repos H J hs w = (rs, w')"
  obtain r0 w0 where l: "repo_loop H J hs [] w = (r0, w0)" by (cases "repo_loop H J hs [] w")
  have rs: "rs = c_isort (\<lambda>a b. 0 < repo_cmp a b) r0" using p by (simp add: poll_repos_def l)
  have "length rs = length r0" unfolding rs by (metis mset_c_isort size_mset)
  then show ?thesis
    using repo_loop_bound [of "[]" H J hs w] by (simp add: l repos_sorted_def rs by_repo.sorted_isort)
qed

lemma activity_loop_bound: "length acc \<le> 10 \<Longrightarrow> length (fst (activity_loop H es acc w)) \<le> 10"
  by (induction H es acc w rule: activity_loop.induct) (simp_all split: prod.split option.split)

lemma poll_activities_bound: "poll_activities H w = (as, w') \<Longrightarrow> length as \<le> 10"
  using activity_loop_bound [of "[]" H]
  by (auto simp: poll_activities_def split: prod.splits option.splits) (metis fst_conv)

lemma stash_bound: "length acc \<le> 16 \<Longrightarrow> length (stash_targets J vs acc) \<le> 16"
  by (induction J vs acc rule: stash_targets.induct) (auto split: option.split)

lemma poll_evict_bound:
  "length es \<le> 16 \<Longrightarrow> redis_poll_evict H J ctx (es, w) = (es', w') \<Longrightarrow> length es' \<le> 16"
  using stash_bound by (auto simp: redis_poll_evict_def split: if_splits prod.splits option.splits)

lemma parsed_host_ok:
  "redis_parse_dev_telemetry_json J (Some s) = (ok, p) \<Longrightarrow> dt_valid p \<Longrightarrow> graph_key_ok (dt_host p)"
  by (auto simp: redis_parse_dev_telemetry_json_def graph_key_ok_def Let_def blank_dev_telemetry_def
      split: option.splits if_splits)

lemma store_dev_sample_inv:
  assumes "graph_inv g" "graph_key_ok (dt_host p)"
  shows "graph_inv (fst (store_dev_sample now p (g, l, n)))"
proof -
  obtain o' t where foc: "graph_host_find_or_create (dt_host p) g = (o', t)"
    by (cases "graph_host_find_or_create (dt_host p) g")
  have t: "graph_inv t" using graph_inv_create [OF assms] foc by simp
  have "graph_inv (t[i := (t ! i)\<lparr>gh_telemetry := p\<rparr>])" for i by (rule graph_inv_update [OF t]) simp
  then have "graph_inv (case o' of Some i \<Rightarrow> t[i := (t ! i)\<lparr>gh_telemetry := p\<rparr>] | None \<Rightarrow> t)"
    by (simp add: t split: option.split)
  note touched = graph_inv_touch [OF this, of "dt_host p" now]
  have "fst (store_dev_sample now p (g, l, n)) = graph_host_touch (dt_host p) now
      (case o' of Some i \<Rightarrow> t[i := (t ! i)\<lparr>gh_telemetry := p\<rparr>] | None \<Rightarrow> t)"
    unfolding store_dev_sample_def prod.case foc Let_def by (cases o') simp_all
  with touched show ?thesis by simp
qed

lemma poll_dev_telemetry_inv:
  assumes "graph_inv (fst (fst sw))" shows "graph_inv (fst (fst (poll_dev_telemetry E H J h sw)))"
proof -
  obtain g l n w where sw: "sw = ((g, l, n), w)" by (cases sw) auto
  obtain s w1 where gs: "get_string H (client_key h ''dev_telemetry'') w = (s, w1)"
    by (cases "get_string H (client_key h ''dev_telemetry'') w")
  show ?thesis
  proof (cases s)
    case (Some json)
    obtain ok p where p: "redis_parse_dev_telemetry_json J (Some json) = (ok, p)"
      by (cases "redis_parse_dev_telemetry_json J (Some json)")
    show ?thesis using assms parsed_host_ok [OF p]
      by (auto simp: poll_dev_telemetry_def sw gs Some p intro: store_dev_sample_inv)
  qed (use assms in \<open>simp add: poll_dev_telemetry_def sw gs\<close>)
qed

lemma fold_dev_telemetry_inv:
  "graph_inv (fst (fst sw)) \<Longrightarrow> graph_inv (fst (fst (fold (poll_dev_telemetry E H J) hs sw)))"
  by (induction hs arbitrary: sw) (simp_all add: poll_dev_telemetry_inv)

lemma net_observe_all_inv: "net_inv s \<Longrightarrow> net_inv (net_observe_all J hosts es now s)"
proof -
  have "net_inv s \<Longrightarrow> net_inv (fold (\<lambda>i s. net_observe J (hosts ! i) (string_reply (Some (es ! i))) now
                  (net_observe_ack J (hosts ! i) (string_reply (Some (es ! (length hosts + i)))) s)) is s)" for "is"
    by (induction "is" arbitrary: s) (simp_all add: observe_inv observe_ack_inv)
  then show "net_inv s \<Longrightarrow> net_inv (net_observe_all J hosts es now s)" by (simp add: net_observe_all_def)
qed

lemma poll_net_inv: "net_inv s \<Longrightarrow> redis_poll_net E H J ctx (s, w) = (s', w') \<Longrightarrow> net_inv s'"
  by (auto simp: redis_poll_net_def Let_def net_observe_all_inv split: if_splits prod.splits option.splits)

lemma status_ack_inv:
  assumes "status_inv s" "texts_fit s" "status_redis_check_ack H pr (s, w) = (s', w')"
  shows "status_inv s' \<and> texts_fit s'"
  using poll_effect(1) [OF assms] step_texts_fit [OF assms(1,2), of H pr Poll w] assms(3) by simp

text \<open>The staleness registry between and during scans.\<close>

definition flags_inv :: "stale_state \<Rightarrow> bool" where
  "flags_inv s \<longleftrightarrow> stale_inv s \<and> pending_ok (st_pending s)"

lemma apply_stale_inv: assumes "flags_inv s" shows "flags_inv (apply_stale J kr s)"
proof (cases "observation_of J kr")
  case None
  then show ?thesis using assms by (simp add: apply_stale_observation)
next
  case (Some ob)
  obtain h d since known where ob: "ob = (h, d, since, known)" by (cases ob)
  have "length h < 64" using observation_fits Some ob by blast
  then show ?thesis
    using assms observe_pending_ok [of s h d since known]
      stale_inv_cong [of "stale_registry_observe h d since known s" s]
    by (simp add: apply_stale_observation Some ob flags_inv_def)
qed

interpretation stale_step: scan_step "poll_stale_key H J" flags_inv
  for H :: "'w hiredis" and J :: "'j cjson"
proof unfold_locales
  fix s k and w :: 'w
  assume inv: "flags_inv s"
  obtain r w1 where g: "hr_command H w [''GET'', k] = (r, w1)" by (cases "hr_command H w [''GET'', k]")
  show "flags_inv (fst (snd (poll_stale_key H J k (s, w))))"
  proof (cases r)
    case None
    then show ?thesis using inv g by (simp add: poll_stale_key_None)
  next
    case (Some r')
    then show ?thesis using apply_stale_inv [OF inv] g by (simp add: poll_stale_key_Some)
  qed
qed

lemma poll_stale_inv:
  assumes "flags_inv s" "redis_poll_stale H J clk ctx fuel (s, w) = Some (s', w')"
  shows "flags_inv s'"
proof (cases "\<not> ctx \<or> hr_err H w")
  case True
  then show ?thesis using assms by (auto simp: redis_poll_stale_def)
next
  case False
  let ?b = "stale_registry_begin_cycle s"
  have b: "flags_inv ?b"
    using assms(1) by (simp add: flags_inv_def stale_registry_begin_cycle_def pending_ok_def)
  obtain c t w1 where l: "scan_loop H KDASH_KEY_STALE_PATTERN (poll_stale_key H J) fuel ''0'' (?b, w) = Some (c, t, w1)"
    using assms False by (auto simp: redis_poll_stale_def split: option.splits)
  have t: "flags_inv t" by (rule stale_step.scan_keeps [OF b l])
  have "flags_inv (stale_registry_commit_cycle_at now t)" for now
    using t commit_inv [of t now] by (simp add: flags_inv_def pending_ok_def)
  moreover have "flags_inv (stale_registry_abort_cycle t)"
    using t by (simp add: flags_inv_def stale_registry_abort_cycle_def pending_ok_def)
  ultimately show ?thesis using assms(2) False by (auto simp: redis_poll_stale_def l split: bool.splits)
qed

text \<open>The panel: what the renderer relies on.\<close>

definition dash_inv :: "dash \<Rightarrow> bool" where
  "dash_inv d \<longleftrightarrow> registry_inv (da_reg d) \<and> services_inv (da_services d) \<and> apttemps_inv (da_apttemps d) \<and>
     flags_inv (da_stale d) \<and> graph_inv (da_graphs d) \<and> net_inv (da_net d) \<and>
     status_inv (da_status d) \<and> texts_fit (da_status d) \<and> length (da_activities d) \<le> ACTIVITY_MAX_DISPLAY \<and>
     length (da_repos d) \<le> MAX_REPO_ENTRIES \<and> repos_sorted (da_repos d) \<and>
     length (da_evict d) \<le> EVICT_TARGETS_MAX"

lemma poll_members_inv:
  assumes "registry_inv r" "\<forall>h \<in> set hosts. fits h" "length hosts \<le> 16"
  shows "registry_inv (fst (poll_members H J hosts (r, w)))"
proof -
  let ?es = "fst (read_members H J hosts w)" and ?r = "registry_remove_absent hosts r"
  have names: "map fst ?es = hosts" by simp
  have "set (card_hosts ?r) \<subseteq> set hosts"
    using remove_absent_cards [OF assms(1), of hosts] assms(2) by auto
  moreover have "\<forall>(h, d, f) \<in> set ?es. h \<in> set hosts \<and> fits h \<and> keeps_name f"
    using read_members_keep [of _ _ _ H J hosts w] assms(2) by fast
  moreover have "card (set hosts) \<le> 16" using card_length [of hosts] assms(3) by simp
  ultimately show ?thesis
    using poll_fold_effect [OF remove_absent_inv [OF assms(1)], of hosts "set hosts" ?es]
    by (simp add: poll_members_fold)
qed

lemma poll_clients_inv:
  assumes "dash_inv d" "\<forall>h \<in> set hosts. fits h" "length hosts \<le> 16"
  shows "dash_inv (fst (poll_clients H J P hosts (d, w)))"
proof -
  obtain reg w2 where m: "poll_members H J hosts (da_reg d, w) = (reg, w2)" by (cases "poll_members H J hosts (da_reg d, w)")
  obtain acts w3 where a: "poll_activities H w2 = (acts, w3)" by (cases "poll_activities H w2")
  obtain repos w4 where r: "poll_repos H J hosts w3 = (repos, w4)" by (cases "poll_repos H J hosts w3")
  obtain st w5 where s: "status_redis_check_ack H (pr_status P) (da_status d, w4) = (st, w5)"
    by (cases "status_redis_check_ack H (pr_status P) (da_status d, w4)")
  have "registry_inv reg" using poll_members_inv [OF _ assms(2,3), of "da_reg d" H J w] assms(1) m
    by (simp add: dash_inv_def)
  moreover have "status_inv st \<and> texts_fit st" using status_ack_inv [OF _ _ s] assms(1) by (simp add: dash_inv_def)
  ultimately show ?thesis
    using assms(1) poll_activities_bound [OF a] poll_repos_ok [OF r]
    by (simp add: poll_clients_def m a r s dash_inv_def)
qed

lemma poll_development_inv:
  assumes "dash_inv (fst dw)" shows "dash_inv (fst (poll_development E H J hosts dw))"
proof -
  obtain d w where dw: "dw = (d, w)" by (cases dw)
  obtain ft w1 where f: "poll_pushed_fortune H J (dc_fortune_dev_enabled (da_cmd d)) (da_fortune d, w) = (ft, w1)"
    by (cases "poll_pushed_fortune H J (dc_fortune_dev_enabled (da_cmd d)) (da_fortune d, w)")
  obtain cmd w2 where c: "poll_dev_commands H J hosts w1 = (cmd, w2)" by (cases "poll_dev_commands H J hosts w1")
  let ?fold = "fold (poll_dev_telemetry E H J) hosts ((da_graphs d, (da_devtel d)\<lparr>dt_valid := False\<rparr>, False), w2)"
  obtain g l n w3 where t: "?fold = ((g, l, n), w3)" by (cases ?fold) auto
  have "graph_inv g"
    using fold_dev_telemetry_inv [of "((da_graphs d, (da_devtel d)\<lparr>dt_valid := False\<rparr>, False), w2)" E H J hosts]
      assms by (simp add: t dw dash_inv_def)
  then show ?thesis using assms by (simp add: poll_development_def dw f c t dash_inv_def)
qed

lemma poll_cards_inv:
  assumes "dash_inv d" "poll_cards E H J P fuel (d, w) = Some (d', w')"
  shows "dash_inv d'"
proof -
  let ?ctx = "cn_ctx (da_conn d)"
  obtain svcs w1 where sv: "redis_poll_services H J ?ctx fuel (da_services d, w) = Some (svcs, w1)"
    using assms(2) by (auto simp: poll_cards_def Let_def split: option.splits)
  obtain apts w2 where ap: "redis_poll_apttemps H J ?ctx fuel (da_apttemps d, w1) = Some (apts, w2)"
    using assms(2) by (auto simp: poll_cards_def Let_def sv split: option.splits)
  obtain stl w3 where stl: "redis_poll_stale H J (ev_time E) ?ctx fuel (da_stale d, w2) = Some (stl, w3)"
    using assms(2) by (auto simp: poll_cards_def Let_def sv ap split: option.splits)
  obtain ev w4 where ev: "redis_poll_evict H J ?ctx (da_evict d, w3) = (ev, w4)"
    by (cases "redis_poll_evict H J ?ctx (da_evict d, w3)")
  obtain net w5 where net: "redis_poll_net E H J ?ctx (da_net d, w4) = (net, w5)"
    by (cases "redis_poll_net E H J ?ctx (da_net d, w4)")
  note d = assms(1) [unfolded dash_inv_def]
  have "services_inv svcs" "apttemps_inv apts" "flags_inv stl" "length ev \<le> 16" "net_inv net"
    using d poll_services_keeps [OF _ sv] poll_apttemps_keeps [OF _ ap] poll_stale_inv [OF _ stl]
      poll_evict_bound [OF _ ev] poll_net_inv [OF _ net] by blast+
  then show ?thesis using assms(2) d
    by (auto simp: poll_cards_def Let_def sv ap stl ev net dash_inv_def split: prod.splits)
qed

end
