(* ===== verification/Poll_Safety.thy ===== *)
theory Poll_Safety
  imports Redis_Poll
begin

text \<open>
  What a whole poll guarantees: the panel's invariant survives every answer of the server, the
  cards after the client step, what a server error does to them, and the overlay that says that
  Redis is away.
\<close>

lemma drop_connection_inv [simp]: "dash_inv (fst (drop_connection E msg dw)) = dash_inv (fst dw)"
  by (simp add: drop_connection_def dash_inv_def)

lemma drop_connection_dest: "drop_connection E msg dw = (d', w') \<Longrightarrow> dash_inv d' = dash_inv (fst dw)"
  by (metis drop_connection_inv fst_conv)

text \<open>The names of this poll's clients fit a slot, as the key schema documents.\<close>

definition names_fit :: "'w hiredis \<Rightarrow> 'w \<Rightarrow> bool" where
  "names_fit H w \<longleftrightarrow>
     (case fst (hr_command H w [''SMEMBERS'', ''kpidash:clients'']) of
        None \<Rightarrow> True | Some r \<Rightarrow> list_all fits (member_names r))"

lemma redis_poll_inv:
  assumes "dash_inv d" "names_fit H w" "redis_poll E H J P fuel (d, w) = Some (d', w')"
  shows "dash_inv d'"
proof (cases "redis_is_connected H (da_conn d, w)")
  case False
  then show ?thesis using assms by (simp add: redis_poll_def)
next
  case True
  obtain r w1 where s: "hr_command H w [''SMEMBERS'', ''kpidash:clients''] = (r, w1)"
    by (cases "hr_command H w [''SMEMBERS'', ''kpidash:clients'']")
  show ?thesis
  proof (cases "r = None \<or> hr_err H w1")
    case lost: True
    then have "(d', w') = drop_connection E ''connection lost'' (d, w1)"
      using assms(3) True by (auto simp: redis_poll_def s split: option.splits)
    then show ?thesis using assms(1) drop_connection_dest [of E "''connection lost''" "(d, w1)" d' w'] by simp
  next
    case False
    then obtain smr where r: "r = Some smr" "\<not> hr_err H w1" by auto
    let ?dw = "poll_clients H J P (member_names smr) (d, w1)"
    have inv: "dash_inv (fst ?dw)"
      using assms(2) s r by (intro poll_clients_inv [OF assms(1)]) (simp_all add: names_fit_def length_member_names list_all_iff)
    have "(if hr_err H (snd ?dw) then Some (drop_connection E ''connection lost during poll'' ?dw)
        else poll_cards E H J P fuel (poll_development E H J (member_names smr) ?dw)) = Some (d', w')"
      using assms(3) True s r by (simp add: redis_poll_def Let_def)
    moreover have "poll_cards E H J P fuel dw = Some (d', w') \<Longrightarrow> dash_inv (fst dw) \<Longrightarrow> dash_inv d'" for dw
      by (cases dw) (simp add: poll_cards_inv)
    ultimately show ?thesis
      using inv poll_development_inv [OF inv, of E H J "member_names smr"]
        drop_connection_dest [of E "''connection lost during poll''" ?dw d' w']
      by (auto split: if_splits)
  qed
qed

section \<open>Properties\<close>

text \<open>A panel before its first poll, and a world that is a list of replies.\<close>

definition blank_conn :: conn where
  "blank_conn = \<lparr>cn_ctx = True, cn_host = ''127.0.0.1'', cn_port = 6379, cn_auth = [], cn_version = ''unknown'',
     cn_last_publish = 0\<rparr>"

definition blank_dash :: dash where
  "blank_dash = \<lparr>da_conn = blank_conn, da_overlay = None,
     da_reg = \<lparr>reg_clients = [], reg_admitted = [], reg_dirty = False, reg_priority = []\<rparr>,
     da_services = [], da_apttemps = [], da_stale = no_stale, da_graphs = [],
     da_net = \<lparr>ns_hosts = [], ns_admitted = [], ns_dirty = False\<rparr>, da_status = status_start,
     da_fortune = blank_fortune, da_activities = [], da_repos = [], da_cmd = blank_dev_cmd,
     da_devtel = blank_dev_telemetry, da_evict = [], da_shots = []\<rparr>"

definition quiet_env :: "'w net_env" where
  "quiet_env = \<lparr>ev_connect = (\<lambda>w _ _. (True, w)), ev_set_timeout = (\<lambda>w. (True, w)), ev_free = (\<lambda>w. w),
     ev_time = (\<lambda>_. 1000), ev_hostname = (\<lambda>_. Some ''rpi53'')\<rparr>"

definition no_print :: printers where
  "no_print = \<lparr>pr_status = (\<lambda>_. None), pr_service = (\<lambda>_ _ _. None), pr_mem = (\<lambda>_. None)\<rparr>"

text \<open>Two members; the first has published a health payload, the second nothing.\<close>

definition two_members :: "reply option list" where
  "two_members = [Some (RArray [RString ''kai'', RString ''kwork'']), Some (RString ''{}''), None, None, None]"

lemma poll_two_members:
  "\<exists>d' w'. redis_poll quiet_env scripted no_json no_print 3 (blank_dash, two_members) = Some (d', w') \<and>
     map ci_hostname (reg_clients (da_reg d')) = [''kai''] \<and> \<not> cn_ctx (da_conn d') = False"
proof -
  define r where "r = redis_poll quiet_env scripted no_json no_print 3 (blank_dash, two_members)"
  have "map_option (\<lambda>(d', w'). map ci_hostname (reg_clients (da_reg d'))) r = Some [''kai'']"
    "map_option (\<lambda>(d', w'). cn_ctx (da_conn d')) r = Some True"
    unfolding r_def by code_simp+
  then show ?thesis unfolding r_def [symmetric] by auto
qed

lemma blank_dash_inv: "dash_inv blank_dash"
  by (simp add: dash_inv_def blank_dash_def registry_inv_def services_inv_def apttemps_inv_def flags_inv_def
      no_stale_def stale_inv_def pending_ok_def graph_inv_def net_inv_def status_inv_start repos_sorted_def)



text \<open>The cards after a poll.\<close>

lemma polled_cards:
  assumes "redis_poll E H J P fuel (d, w) = Some (d', w')" "redis_is_connected H (da_conn d, w)"
    and "hr_command H w [''SMEMBERS'', ''kpidash:clients''] = (Some smr, w1)" "\<not> hr_err H w1"
    and "registry_inv (da_reg d)" "list_all fits (member_names smr)"
  shows "set (card_hosts (da_reg d')) =
      {h \<in> set (member_names smr). h \<in> set (card_hosts (da_reg d)) \<or> h \<in> set (reg_admitted (da_reg d)) \<or>
         h \<in> published (fst (read_members H J (member_names smr) w1))} \<and>
    (\<exists>new. card_hosts (da_reg d') =
       filter (\<lambda>h. h \<in> set (member_names smr)) (card_hosts (da_reg d)) @ new) \<and>
    (reg_dirty (da_reg d') \<longleftrightarrow> reg_dirty (da_reg d) \<or> reg_admitted (da_reg d') \<noteq> reg_admitted (da_reg d))"
proof -
  let ?es = "fst (read_members H J (member_names smr) w1)"
  have names: "map fst ?es = member_names smr" by simp
  then have set_names: "fst ` set ?es = set (member_names smr)" by (metis set_map)
  have len: "length ?es \<le> MAX_CLIENTS" using names length_member_names [of smr] by (metis length_map)
  have ok: "\<forall>(h, d, f) \<in> set ?es. fits h \<and> keeps_name f"
    using read_members_keep [of _ _ _ H J "member_names smr" w1] assms(6) by (fastforce simp: list_all_iff)
  have "da_reg d' = fold poll_client ?es (registry_remove_absent (map fst ?es) (da_reg d))"
    using redis_poll_reg [OF assms(1-4)] by (simp add: poll_members_fold)
  then show ?thesis using poll_cards_exact [OF assms(5) len ok] unfolding set_names by simp
qed



text \<open>When SMEMBERS is answered by an error (a key of another type, a server still loading its
  data, a denied command), the poll reads an empty member list and removes every card.\<close>

theorem error_reply_clears_cards:
  assumes "redis_poll E H J P fuel (d, w) = Some (d', w')" "redis_is_connected H (da_conn d, w)"
    and "hr_command H w [''SMEMBERS'', ''kpidash:clients''] = (Some (RError e), w1)" "\<not> hr_err H w1"
  shows "reg_clients (da_reg d') = []"
proof -
  have "member_names (RError e) = []" by (simp add: member_names_def)
  then have "da_reg d' = registry_remove_absent [] (da_reg d)"
    using redis_poll_reg [OF assms] by (simp add: poll_members_def)
  then show ?thesis by (simp add: registry_remove_absent_def)
qed

theorem error_reply_clears_cards_witness:
  "\<exists>d' w'. redis_poll quiet_env scripted no_json no_print 3 (blank_dash\<lparr>da_reg := kai\<rparr>,
       [Some (RError ''LOADING Redis is loading the dataset in memory'')]) = Some (d', w') \<and>
     reg_clients kai \<noteq> [] \<and> reg_clients (da_reg d') = []"
proof -
  let ?w = "[Some (RError ''LOADING Redis is loading the dataset in memory'')]"
  define r where "r = redis_poll quiet_env scripted no_json no_print 3 (blank_dash\<lparr>da_reg := kai\<rparr>, ?w)"
  have "r \<noteq> None" unfolding r_def by code_simp
  then obtain d' w' where p: "redis_poll quiet_env scripted no_json no_print 3 (blank_dash\<lparr>da_reg := kai\<rparr>, ?w) = Some (d', w')"
    unfolding r_def by auto
  have "reg_clients (da_reg d') = []"
    by (rule error_reply_clears_cards [OF p, where e = "''LOADING Redis is loading the dataset in memory''" and ?w1.0 = "[]"])
      (simp_all add: redis_is_connected_def blank_dash_def blank_conn_def scripted_def)
  then show ?thesis using p by (auto simp: kai_def)
qed

end
