(* ===== verification/Logfilter.thy ===== *)
theory Logfilter
  imports KPrelude
begin

text \<open>
  The filter on LVGL's missing-glyph warning (\<open>src/src/logfilter.c\<close>): the codepoint is parsed
  out of a log line, and a table of at most 64 codepoints decides whether the line is printed.
  The state is that table.
\<close>

section \<open>Operations\<close>

abbreviation "LOGFILTER_MAX_CODEPOINTS \<equiv> 64 :: nat"

datatype logfilter_verdict = LOGFILTER_EMIT | LOGFILTER_EMIT_FIRST | LOGFILTER_SUPPRESS

definition MARKER :: string where
  "MARKER = ''glyph dsc. not found for U+''"

definition hex_digit :: "char \<Rightarrow> nat option" where
  "hex_digit c =
     (if CHR ''0'' \<le> c \<and> c \<le> CHR ''9'' then Some (of_char c - 48)
      else if CHR ''a'' \<le> c \<and> c \<le> CHR ''f'' then Some (of_char c - 97 + 10)
      else if CHR ''A'' \<le> c \<and> c \<le> CHR ''F'' then Some (of_char c - 65 + 10)
      else None)"

text \<open>\<open>strstr\<close>, with the pointer already moved behind the needle.\<close>

fun after_first :: "string \<Rightarrow> string \<Rightarrow> string option" where
  "after_first needle s =
     (if take (length needle) s = needle then Some (drop (length needle) s)
      else case s of [] \<Rightarrow> None | c # t \<Rightarrow> after_first needle t)"

declare after_first.simps [simp del]

fun parse_hex :: "nat \<Rightarrow> 32 word \<Rightarrow> string \<Rightarrow> 32 word option" where
  "parse_hex digits cp [] = Some cp"
| "parse_hex digits cp (c # s) =
     (case hex_digit c of
        None \<Rightarrow> Some cp
      | Some d \<Rightarrow>
          if 6 < digits + 1 then None
          else parse_hex (digits + 1) (or (push_bit 4 cp) (of_nat d)) s)"

definition logfilter_parse_codepoint :: "string option \<Rightarrow> 32 word option" where
  "logfilter_parse_codepoint msg =
     (case msg of
        None \<Rightarrow> None
      | Some m \<Rightarrow>
          (case after_first MARKER m of
             None \<Rightarrow> None
           | Some p \<Rightarrow> if p = [] \<or> hex_digit (hd p) = None then None else parse_hex 0 0 p))"

definition logfilter_check :: "string option \<Rightarrow> 32 word list \<Rightarrow> logfilter_verdict \<times> 32 word list" where
  "logfilter_check msg seen =
     (case logfilter_parse_codepoint msg of
        None \<Rightarrow> (LOGFILTER_EMIT, seen)
      | Some cp \<Rightarrow>
          if list_ex (\<lambda>x. x = cp) seen then (LOGFILTER_SUPPRESS, seen)
          else if LOGFILTER_MAX_CODEPOINTS \<le> length seen then (LOGFILTER_SUPPRESS, seen)
          else (LOGFILTER_EMIT_FIRST, seen @ [cp]))"

definition logfilter_reset :: "32 word list \<Rightarrow> 32 word list" where
  "logfilter_reset seen = []"

definition logfilter_reported_count :: "32 word list \<Rightarrow> nat" where
  "logfilter_reported_count seen = length seen"

text \<open>The sink of \<open>main.c\<close>: the lines that reach standard output.\<close>

definition SUPPRESSED_NOTE :: string where
  "SUPPRESSED_NOTE = ''kpidash: further reports for this codepoint suppressed (WI #2646); '' @
     ''add it to RANGE in fonts/generate.sh to render it'' @ [CHR 0x0A]"

definition lv_log_print_cb :: "string \<Rightarrow> 32 word list \<times> string list \<Rightarrow> 32 word list \<times> string list" where
  "lv_log_print_cb buf so =
     (case so of (seen, out) \<Rightarrow>
        (case logfilter_check (Some buf) seen of
           (LOGFILTER_SUPPRESS, seen') \<Rightarrow> (seen', out)
         | (LOGFILTER_EMIT_FIRST, seen') \<Rightarrow> (seen', out @ [buf, SUPPRESSED_NOTE])
         | (LOGFILTER_EMIT, seen') \<Rightarrow> (seen', out @ [buf])))"

section \<open>The table as a function of the history\<close>

definition codepoints :: "string list \<Rightarrow> 32 word list" where
  "codepoints hist = List.map_filter (\<lambda>m. logfilter_parse_codepoint (Some m)) hist"

definition seen_after :: "string list \<Rightarrow> 32 word list" where
  "seen_after hist = fold (\<lambda>m seen. snd (logfilter_check (Some m) seen)) hist []"

lemma codepoints_snoc:
  "codepoints (hist @ [m]) = codepoints hist @
     (case logfilter_parse_codepoint (Some m) of None \<Rightarrow> [] | Some cp \<Rightarrow> [cp])"
  by (simp add: codepoints_def List.map_filter_def split: option.split)

lemma set_firsts_self [simp]: "set (firsts (\<lambda>x. x) xs) = set xs"
  using keys_firsts [of "\<lambda>x. x" xs] by simp

lemma seen_after_firsts: "seen_after hist = take 64 (firsts (\<lambda>x. x) (codepoints hist))"
proof (induction hist rule: rev_induct)
  case Nil
  show ?case by (simp add: seen_after_def codepoints_def List.map_filter_def)
next
  case (snoc m hist)
  let ?fs = "firsts (\<lambda>x. x) (codepoints hist)"
  have "seen_after (hist @ [m]) = snd (logfilter_check (Some m) (seen_after hist))"
    by (simp add: seen_after_def)
  also have "\<dots> = snd (logfilter_check (Some m) (take 64 ?fs))" unfolding snoc ..
  finally have step: "seen_after (hist @ [m]) = snd (logfilter_check (Some m) (take 64 ?fs))" .
  show ?case
  proof (cases "logfilter_parse_codepoint (Some m)")
    case None
    then show ?thesis by (simp add: step codepoints_snoc logfilter_check_def)
  next
    case (Some cp)
    have in_take: "cp \<in> set (take 64 ?fs) \<Longrightarrow> cp \<in> set (codepoints hist)"
      by (metis in_set_takeD set_firsts_self)
    show ?thesis
    proof (cases "length ?fs < 64")
      case True
      then show ?thesis using Some
        by (simp add: step codepoints_snoc logfilter_check_def firsts_snoc list_ex_iff)
    next
      case False
      then show ?thesis using Some
        by (simp add: step codepoints_snoc logfilter_check_def firsts_snoc)
    qed
  qed
qed

section \<open>Properties\<close>

text \<open>C34: after any history of lines, a line is printed unless it is a missing-glyph warning whose
  codepoint was reported before or for which the table of 64 has no room; the first report of a
  codepoint is printed with the note.\<close>

theorem logfilter_exact:
  "fst (logfilter_check (Some m) (seen_after hist)) =
     (case logfilter_parse_codepoint (Some m) of
        None \<Rightarrow> LOGFILTER_EMIT
      | Some cp \<Rightarrow>
          if cp \<notin> set (codepoints hist) \<and> card (set (codepoints hist)) < LOGFILTER_MAX_CODEPOINTS
          then LOGFILTER_EMIT_FIRST else LOGFILTER_SUPPRESS)"
proof (cases "logfilter_parse_codepoint (Some m)")
  case None
  then show ?thesis by (simp add: logfilter_check_def)
next
  case (Some cp)
  let ?fs = "firsts (\<lambda>x. x) (codepoints hist)"
  have "distinct ?fs" using distinct_firsts [of "\<lambda>x. x" "codepoints hist"] by simp
  then have card: "card (set (codepoints hist)) = length ?fs"
    by (metis distinct_card set_firsts_self)
  show ?thesis
  proof (cases "length ?fs < 64")
    case True
    then show ?thesis using Some by (simp add: seen_after_firsts logfilter_check_def list_ex_iff card)
  next
    case False
    then show ?thesis using Some by (simp add: seen_after_firsts logfilter_check_def card)
  qed
qed

section \<open>Parsing what LVGL prints\<close>

text \<open>\<open>%X\<close>.\<close>

definition hex_char :: "nat \<Rightarrow> char" where
  "hex_char d = (if d < 10 then char_of (48 + d) else char_of (65 + (d - 10)))"

fun hex_upper :: "nat \<Rightarrow> string" where
  "hex_upper n = (if n < 16 then [hex_char n] else hex_upper (n div 16) @ [hex_char (n mod 16)])"

declare hex_upper.simps [simp del]

lemma hex_digit_char: "d < 16 \<Longrightarrow> hex_digit (hex_char d) = Some d"
proof -
  have "\<forall>d \<in> set [0..<16]. hex_digit (hex_char d) = Some d" by code_simp
  then show "d < 16 \<Longrightarrow> hex_digit (hex_char d) = Some d" by simp
qed

lemma after_first_plain:
  "CHR ''g'' \<notin> set pre \<Longrightarrow> after_first MARKER (pre @ MARKER @ t) = Some t"
proof (induction pre)
  case Nil
  show ?case by (subst after_first.simps) simp
next
  case (Cons c pre)
  then have "take (length MARKER) ((c # pre) @ MARKER @ t) \<noteq> MARKER" by (auto simp: MARKER_def)
  then show ?case using Cons by (subst after_first.simps) simp
qed

lemma or_nibble: "d < 16 \<Longrightarrow> or (push_bit 4 cp) (of_nat d) = cp * 16 + (of_nat d :: 32 word)"
proof -
  assume d: "d < 16"
  have "and (push_bit 4 cp) (of_nat d :: 32 word) = 0"
  proof (rule bit_eqI)
    fix n
    show "bit (and (push_bit 4 cp) (of_nat d :: 32 word)) n = bit (0 :: 32 word) n"
    proof (cases "n < 4")
      case False
      then have "(2 :: nat) ^ 4 \<le> 2 ^ n" by (intro power_increasing) auto
      then have "\<not> bit d n" using d by (simp add: bit_iff_odd)
      then show ?thesis by (simp add: bit_simps)
    qed (simp add: bit_simps)
  qed
  from disjunctive_add_eq_or [OF this] show ?thesis by (simp add: push_bit_eq_mult)
qed

text \<open>A run of digits of at most six, then the end or a character that is no digit.\<close>

lemma parse_hex_run:
  assumes "\<forall>d \<in> set ds. d < 16" "post = [] \<or> hex_digit (hd post) = None"
  shows "n + length ds \<le> 6 \<Longrightarrow> parse_hex n cp (map hex_char ds @ post) =
    Some (fold (\<lambda>d cp. cp * 16 + of_nat d) ds cp)"
  using assms(1)
proof (induction ds arbitrary: n cp)
  case Nil
  then show ?case using assms(2) by (cases post) simp_all
next
  case (Cons d ds)
  then show ?case by (simp add: hex_digit_char or_nibble)
qed

fun nibbles :: "nat \<Rightarrow> nat list" where
  "nibbles n = (if n < 16 then [n] else nibbles (n div 16) @ [n mod 16])"

declare nibbles.simps [simp del]

lemma hex_upper_nibbles: "hex_upper n = map hex_char (nibbles n)"
  by (induction n rule: nibbles.induct) (subst nibbles.simps, subst hex_upper.simps, simp)

lemma nibbles_lt: "\<forall>d \<in> set (nibbles n). d < 16"
  by (induction n rule: nibbles.induct) (subst nibbles.simps, simp)

lemma length_nibbles: "0 < k \<Longrightarrow> n < 16 ^ k \<Longrightarrow> 0 < length (nibbles n) \<and> length (nibbles n) \<le> k"
proof (induction k arbitrary: n)
  case (Suc k)
  show ?case
  proof (cases "n < 16")
    case True
    then show ?thesis by (subst (1 2) nibbles.simps) simp
  next
    case False
    then have "0 < k" using Suc.prems(2) by (cases k) auto
    moreover have "n div 16 < 16 ^ k" using Suc.prems(2) by (simp add: less_mult_imp_div_less)
    ultimately have "length (nibbles (n div 16)) \<le> k" using Suc.IH by blast
    then show ?thesis using False by (subst (1 2) nibbles.simps) simp
  qed
qed simp

lemma fold_nibbles: "fold (\<lambda>d cp. cp * 16 + of_nat d) (nibbles n) 0 = (of_nat n :: 32 word)"
proof (induction n rule: nibbles.induct)
  case (1 n)
  show ?case
  proof (cases "n < 16")
    case True
    then show ?thesis by (subst nibbles.simps) simp
  next
    case False
    have "of_nat (n div 16) * 16 + of_nat (n mod 16) = (of_nat n :: 32 word)"
      by (metis div_mult_mod_eq of_nat_add of_nat_mult of_nat_numeral)
    then show ?thesis using 1 False by (subst nibbles.simps) simp
  qed
qed

text \<open>The codepoint LVGL prints in a warning is read back, wherever the warning stands in the
  line: any codepoint of up to 24 bits, a prefix without the letter g (LVGL's own has none) and any
  text that does not go on with a hexadecimal digit.\<close>

theorem logfilter_reads_codepoint:
  assumes "unat cp < 2 ^ 24" "CHR ''g'' \<notin> set pre" "post = [] \<or> hex_digit (hd post) = None"
  shows "logfilter_parse_codepoint (Some (pre @ MARKER @ hex_upper (unat cp) @ post)) = Some cp"
proof -
  let ?ds = "nibbles (unat cp)"
  have len: "0 < length ?ds" "length ?ds \<le> 6" using length_nibbles [of 6 "unat cp"] assms(1) by simp_all
  then obtain d ds where ds: "?ds = d # ds" by (cases ?ds) auto
  have "d < 16" using nibbles_lt [of "unat cp"] ds by simp
  moreover have "parse_hex 0 0 (map hex_char ?ds @ post) = Some cp"
    using parse_hex_run [OF nibbles_lt assms(3), of 0 "unat cp" 0] len by (simp add: fold_nibbles)
  ultimately show ?thesis
    using after_first_plain [OF assms(2), of "hex_upper (unat cp) @ post"]
    by (simp add: logfilter_parse_codepoint_def hex_upper_nibbles ds hex_digit_char)
qed

theorem logfilter_reads_codepoint_witness:
  "logfilter_parse_codepoint (Some (''[Warn] lv_draw_letter: '' @ MARKER @ ''B7'' @ '' lv_draw_label.c:312'')) = Some 0xB7"
proof -
  have h: "hex_upper (unat (0xB7 :: 32 word)) = ''B7''"
    by code_simp
  have "logfilter_parse_codepoint (Some (''[Warn] lv_draw_letter: '' @ MARKER @ hex_upper (unat (0xB7 :: 32 word)) @
      '' lv_draw_label.c:312'')) = Some 0xB7"
    by (rule logfilter_reads_codepoint) (simp_all add: hex_digit_def)
  then show ?thesis by (simp only: h)
qed

end
