(* ===== verification/Icons.thy ===== *)
theory Icons
  imports KPrelude
begin

text \<open>
  The glyphs of the service cards (\<open>src/src/icons.c\<close>): the registry, the UTF-8 encoder, and the
  lookup with its cache of encoded glyphs.  The state is the cache, by position in the registry.
\<close>

unbundle bit_operations_syntax

section \<open>Operations\<close>

record icon_entry =
  ic_index :: int
  ic_codepoint :: "32 word"
  ic_label :: string

definition ICON_REGISTRY :: "icon_entry list" where
  "ICON_REGISTRY =
     [\<lparr>ic_index = 0, ic_codepoint = 0xF300, ic_label = ''alpine''\<rparr>,
      \<lparr>ic_index = 1, ic_codepoint = 0xF301, ic_label = ''aosc''\<rparr>,
      \<lparr>ic_index = 2, ic_codepoint = 0xF302, ic_label = ''apple''\<rparr>,
      \<lparr>ic_index = 3, ic_codepoint = 0xF303, ic_label = ''archlinux''\<rparr>,
      \<lparr>ic_index = 4, ic_codepoint = 0xF304, ic_label = ''centos''\<rparr>,
      \<lparr>ic_index = 5, ic_codepoint = 0xF305, ic_label = ''coreos''\<rparr>,
      \<lparr>ic_index = 6, ic_codepoint = 0xF306, ic_label = ''debian''\<rparr>,
      \<lparr>ic_index = 7, ic_codepoint = 0xF307, ic_label = ''devuan''\<rparr>,
      \<lparr>ic_index = 8, ic_codepoint = 0xF308, ic_label = ''docker''\<rparr>,
      \<lparr>ic_index = 9, ic_codepoint = 0xF309, ic_label = ''elementary''\<rparr>,
      \<lparr>ic_index = 10, ic_codepoint = 0xF30A, ic_label = ''fedora''\<rparr>,
      \<lparr>ic_index = 11, ic_codepoint = 0xF30B, ic_label = ''fedora_inverse''\<rparr>,
      \<lparr>ic_index = 12, ic_codepoint = 0xF30C, ic_label = ''freebsd''\<rparr>,
      \<lparr>ic_index = 13, ic_codepoint = 0xF30D, ic_label = ''gentoo''\<rparr>,
      \<lparr>ic_index = 14, ic_codepoint = 0xF30E, ic_label = ''linuxmint''\<rparr>,
      \<lparr>ic_index = 15, ic_codepoint = 0xF30F, ic_label = ''linuxmint_inverse''\<rparr>,
      \<lparr>ic_index = 16, ic_codepoint = 0xF31A, ic_label = ''tux''\<rparr>,
      \<lparr>ic_index = 17, ic_codepoint = 0xF323, ic_label = ''ferris''\<rparr>,
      \<lparr>ic_index = 18, ic_codepoint = 0xF315, ic_label = ''raspberry_pi''\<rparr>,
      \<lparr>ic_index = 19, ic_codepoint = 0xF31B, ic_label = ''ubuntu''\<rparr>,
      \<lparr>ic_index = 20, ic_codepoint = 0xF0A07, ic_label = ''monitor_dashboard''\<rparr>]"

text \<open>The bytes before the terminator.\<close>

definition encode_utf8 :: "32 word \<Rightarrow> 8 word list" where
  "encode_utf8 cp =
     (if cp < 0x80 then [ucast cp]
      else if cp < 0x800 then [ucast (0xC0 OR drop_bit 6 cp), ucast (0x80 OR (cp AND 0x3F))]
      else if cp < 0x10000
      then [ucast (0xE0 OR drop_bit 12 cp), ucast (0x80 OR (drop_bit 6 cp AND 0x3F)), ucast (0x80 OR (cp AND 0x3F))]
      else [ucast (0xF0 OR drop_bit 18 cp), ucast (0x80 OR (drop_bit 12 cp AND 0x3F)),
            ucast (0x80 OR (drop_bit 6 cp AND 0x3F)), ucast (0x80 OR (cp AND 0x3F))])"

type_synonym icon_cache = "nat \<Rightarrow> 8 word list option"

text \<open>The loop over a registry from position \<open>i\<close> on.\<close>

fun lookup_from :: "nat \<Rightarrow> icon_entry list \<Rightarrow> int \<Rightarrow> icon_cache \<Rightarrow> 8 word list option \<times> icon_cache" where
  "lookup_from i [] index cache = (None, cache)"
| "lookup_from i (e # es) index cache =
     (if ic_index e = index
      then let cache' = (if i < 64 \<and> cache i = None then cache(i \<mapsto> encode_utf8 (ic_codepoint e)) else cache)
           in (if i < 64 then cache' i else None, cache')
      else lookup_from (i + 1) es index cache)"

definition icons_lookup :: "icon_entry list \<Rightarrow> int \<Rightarrow> icon_cache \<Rightarrow> 8 word list option \<times> icon_cache" where
  "icons_lookup reg index cache = (if index < 0 then (None, cache) else lookup_from 0 reg index cache)"

definition icons_codepoint :: "icon_entry list \<Rightarrow> int \<Rightarrow> 32 word" where
  "icons_codepoint reg index =
     (if index < 0 then 0
      else case find (\<lambda>e. ic_index e = index) reg of None \<Rightarrow> 0 | Some e \<Rightarrow> ic_codepoint e)"

section \<open>Decoding\<close>

text \<open>A reader of UTF-8: the codepoint of the first character and the bytes behind it.\<close>

definition cont :: "8 word \<Rightarrow> bool" where
  "cont b \<longleftrightarrow> b AND 0xC0 = 0x80"

definition low6 :: "8 word \<Rightarrow> 32 word" where
  "low6 b = ucast (b AND 0x3F)"

fun decode_utf8 :: "8 word list \<Rightarrow> (32 word \<times> 8 word list) option" where
  "decode_utf8 [] = None"
| "decode_utf8 (a # s) =
     (if a AND 0x80 = 0 then Some (ucast a, s)
      else if a AND 0xE0 = 0xC0 then
        (case s of b # t \<Rightarrow> if cont b then Some (push_bit 6 (ucast (a AND 0x1F)) OR low6 b, t) else None | _ \<Rightarrow> None)
      else if a AND 0xF0 = 0xE0 then
        (case s of b # c # t \<Rightarrow>
           if cont b \<and> cont c then Some (push_bit 12 (ucast (a AND 0x0F)) OR push_bit 6 (low6 b) OR low6 c, t) else None
         | _ \<Rightarrow> None)
      else if a AND 0xF8 = 0xF0 then
        (case s of b # c # d # t \<Rightarrow>
           if cont b \<and> cont c \<and> cont d
           then Some (push_bit 18 (ucast (a AND 0x07)) OR push_bit 12 (low6 b) OR push_bit 6 (low6 c) OR low6 d, t)
           else None
         | _ \<Rightarrow> None)
      else None)"

lemma word8_eq_iff: "(a :: 8 word) = b \<longleftrightarrow> list_all (\<lambda>n. bit a n = bit b n) [0..<8]"
  by (auto simp: list_all_iff bit_eq_iff dest: bit_imp_le_length)

lemma word32_eq_iff: "(a :: 32 word) = b \<longleftrightarrow> list_all (\<lambda>n. bit a n = bit b n) [0..<32]"
  by (auto simp: list_all_iff bit_eq_iff dest: bit_imp_le_length)

lemma high_bits_zero:
  assumes "unat cp < 2 ^ k" "k \<le> n" shows "\<not> bit (cp :: 32 word) n"
proof -
  have "unat cp < 2 ^ k" by fact
  also have "(2 :: nat) ^ k \<le> 2 ^ n" using assms(2) by (intro power_increasing) auto
  finally have "unat cp div 2 ^ n = 0" by simp
  then have "\<not> bit (unat cp) n" by (simp add: bit_iff_odd)
  then show ?thesis by (simp add: bit_simps)
qed

lemma upt8: "[0..<8] = [0, 1, 2, 3, 4, 5, 6, 7 :: nat]"
  by code_simp

lemma upt32: "[0..<32] = [0, 1, 2, 3, 4, 5, 6, 7, 8, 9, 10, 11, 12, 13, 14, 15, 16, 17, 18, 19, 20, 21, 22, 23,
    24, 25, 26, 27, 28, 29, 30, 31 :: nat]"
  by code_simp

lemmas utf8_bits = word8_eq_iff word32_eq_iff upt8 upt32 bit_simps cont_def low6_def

lemma two_bytes:
  assumes "cp < 0x800"
  shows "decode_utf8 (ucast (0xC0 OR drop_bit 6 cp) # ucast (0x80 OR (cp AND 0x3F)) # s) = Some (cp, s)"
proof -
  have hi: "\<not> bit cp n" if "11 \<le> n" for n
    by (rule high_bits_zero [of _ 11]) (use assms that in \<open>auto simp: word_less_nat_alt\<close>)
  show ?thesis by (simp add: utf8_bits hi)
qed

lemma three_bytes:
  assumes "cp < 0x10000"
  shows "decode_utf8 (ucast (0xE0 OR drop_bit 12 cp) # ucast (0x80 OR (drop_bit 6 cp AND 0x3F)) #
    ucast (0x80 OR (cp AND 0x3F)) # s) = Some (cp, s)"
proof -
  have hi: "\<not> bit cp n" if "16 \<le> n" for n
    by (rule high_bits_zero [of _ 16]) (use assms that in \<open>auto simp: word_less_nat_alt\<close>)
  show ?thesis by (simp add: utf8_bits hi)
qed

lemma four_bytes:
  assumes "cp < 0x200000"
  shows "decode_utf8 (ucast (0xF0 OR drop_bit 18 cp) # ucast (0x80 OR (drop_bit 12 cp AND 0x3F)) #
    ucast (0x80 OR (drop_bit 6 cp AND 0x3F)) # ucast (0x80 OR (cp AND 0x3F)) # s) = Some (cp, s)"
proof -
  have hi: "\<not> bit cp n" if "21 \<le> n" for n
    by (rule high_bits_zero [of _ 21]) (use assms that in \<open>auto simp: word_less_nat_alt\<close>)
  show ?thesis by (simp add: utf8_bits hi)
qed

lemma one_byte:
  assumes "cp < 0x80" shows "decode_utf8 (ucast cp # s) = Some (cp, s)"
proof -
  have hi: "\<not> bit cp n" if "7 \<le> n" for n
    by (rule high_bits_zero [of _ 7]) (use assms that in \<open>auto simp: word_less_nat_alt\<close>)
  show ?thesis by (simp add: utf8_bits hi)
qed

section \<open>Properties\<close>

text \<open>C35: every codepoint of up to 21 bits is encoded so that a UTF-8 reader reads it back and goes
  on right behind it.\<close>

theorem utf8_round_trip:
  "cp < 0x200000 \<Longrightarrow> decode_utf8 (encode_utf8 cp @ s) = Some (cp, s)"
  unfolding encode_utf8_def
  using one_byte [of cp s] two_bytes [of cp s] three_bytes [of cp s] four_bytes [of cp s]
  by (simp del: decode_utf8.simps)

theorem utf8_round_trip_witness:
  "decode_utf8 (encode_utf8 0xF0A07 @ [0x20]) = Some (0xF0A07, [0x20])"
  by (rule utf8_round_trip) simp

text \<open>A cache as lookups leave it: what it holds is the encoding of the entry at its place.\<close>

definition cache_ok :: "icon_entry list \<Rightarrow> icon_cache \<Rightarrow> bool" where
  "cache_ok reg cache \<longleftrightarrow>
     (\<forall>i bs. cache i = Some bs \<longrightarrow> i < length reg \<and> bs = encode_utf8 (ic_codepoint (reg ! i)))"

lemma lookup_from_cached:
  assumes "cache_ok reg cache" "drop i reg = es" "i + length es \<le> 64"
  shows "fst (lookup_from i es index cache) =
      map_option (\<lambda>e. encode_utf8 (ic_codepoint e)) (find (\<lambda>e. ic_index e = index) es) \<and>
    cache_ok reg (snd (lookup_from i es index cache))"
  using assms(2,3)
proof (induction es arbitrary: i)
  case Nil
  then show ?case using assms(1) by simp
next
  case (Cons e es)
  have i: "i < length reg" "reg ! i = e" "drop (i + 1) reg = es"
    using Cons.prems(1) by (metis drop_eq_Nil linorder_not_le list.distinct(1))
      (metis Cons.prems(1) nth_via_drop, metis Cons.prems(1) drop_Suc_Cons drop_drop drop_0 add.commute plus_1_eq_Suc)
  show ?case
  proof (cases "ic_index e = index")
    case True
    have "i < 64" using Cons.prems(2) by simp
    show ?thesis
    proof (cases "cache i")
      case None
      then show ?thesis using True \<open>i < 64\<close> assms(1) i by (auto simp: cache_ok_def)
    next
      case (Some bs)
      then show ?thesis using True \<open>i < 64\<close> assms(1) i by (auto simp: cache_ok_def)
    qed
  next
    case False
    then show ?thesis using Cons.IH [OF i(3)] Cons.prems(2) by simp
  qed
qed

text \<open>The cache is invisible: as long as lookups are the only writers, every lookup answers the
  encoding of the codepoint the other accessor gives, or NULL exactly for an index the registry
  lacks.\<close>

theorem icons_lookup_exact:
  assumes "cache_ok reg cache" "length reg \<le> 64"
  shows "fst (icons_lookup reg index cache) =
      (if 0 \<le> index \<and> index \<in> ic_index ` set reg then Some (encode_utf8 (icons_codepoint reg index)) else None) \<and>
    cache_ok reg (snd (icons_lookup reg index cache))"
proof (cases "index < 0")
  case True
  then show ?thesis using assms by (simp add: icons_lookup_def)
next
  case False
  have "find (\<lambda>e. ic_index e = index) reg = None \<longleftrightarrow> index \<notin> ic_index ` set reg"
    by (auto simp: find_None_iff)
  then show ?thesis
    using lookup_from_cached [OF assms(1), of 0 reg index] assms(2) False
    by (auto simp: icons_lookup_def icons_codepoint_def split: option.splits)
qed

theorem icons_lookup_exact_witness:
  "fst (icons_lookup ICON_REGISTRY 18 (snd (icons_lookup ICON_REGISTRY 18 Map.empty))) =
     Some [0xEF, 0x8C, 0x95]"
proof -
  have "cache_ok ICON_REGISTRY (snd (icons_lookup ICON_REGISTRY 18 Map.empty))"
    by (rule icons_lookup_exact [THEN conjunct2]) (simp_all add: cache_ok_def ICON_REGISTRY_def)
  note * = icons_lookup_exact [OF this, of 18, THEN conjunct1]
  have "encode_utf8 (icons_codepoint ICON_REGISTRY 18) = [0xEF, 0x8C, 0x95]" by code_simp
  then show ?thesis using * by (simp add: ICON_REGISTRY_def)
qed

text \<open>The registry in use: positions are indices, all of them below the size of the cache.\<close>

lemma icon_registry_ok: "map ic_index ICON_REGISTRY = map int [0..<21]" "length ICON_REGISTRY \<le> 64"
  by code_simp+

end
