(* ===== verification/Bmp_Write.thy ===== *)
theory Bmp_Write
  imports KPrelude
begin

text \<open>
  The BMP encoder of the self-screenshot (\<open>src/src/bmp_write.c\<close>) and its caller
  (\<open>src/src/screenshot.c\<close>).  The output stream is a device with room for \<open>room\<close> bytes: \<open>fwrite\<close>
  appends what fits and answers how much that was.  The buffer is the list of its bytes.
\<close>

unbundle bit_operations_syntax

section \<open>Operations\<close>

type_synonym byte = "8 word"

definition fwrite :: "nat \<Rightarrow> byte list \<Rightarrow> byte list \<Rightarrow> nat \<times> byte list" where
  "fwrite room out bs = (length (take (room - length out) bs), out @ take (room - length out) bs)"

definition put16 :: "nat \<Rightarrow> 16 word \<Rightarrow> byte list \<Rightarrow> byte list" where
  "put16 p v hdr = (hdr[p := ucast (v AND 0xFF)])[p + 1 := ucast (drop_bit 8 v)]"

definition put32 :: "nat \<Rightarrow> 32 word \<Rightarrow> byte list \<Rightarrow> byte list" where
  "put32 p v hdr = (((hdr[p := ucast (v AND 0xFF)])[p + 1 := ucast (drop_bit 8 v AND 0xFF)])
     [p + 2 := ucast (drop_bit 16 v AND 0xFF)])[p + 3 := ucast (drop_bit 24 v AND 0xFF)]"

definition bmp_row_bytes :: "int \<Rightarrow> 32 word" where
  "bmp_row_bytes w = of_int w * 3"

definition bmp_row_pad :: "int \<Rightarrow> 32 word" where
  "bmp_row_pad w = (4 - (bmp_row_bytes w AND 3)) AND 3"

definition bmp_header :: "int \<Rightarrow> int \<Rightarrow> byte list" where
  "bmp_header w h =
     (let image_size = (bmp_row_bytes w + bmp_row_pad w) * of_int h; data_off = 14 + 40;
          h0 = (replicate 54 0)[0 := 0x42, 1 := 0x4D];
          h1 = put32 2 (data_off + image_size) h0;
          h2 = put32 10 data_off h1;
          h3 = put32 14 40 h2;
          h4 = put32 18 (of_int w) h3;
          h5 = put32 22 (of_int h) h4;
          h6 = put16 26 1 h5;
          h7 = put16 28 24 h6;
          h8 = put32 34 image_size h7;
          h9 = put32 38 2835 h8
      in put32 42 2835 h9)"

text \<open>A sequence of writes that ends at the first short one.\<close>

fun write_chunks :: "nat \<Rightarrow> byte list \<Rightarrow> byte list list \<Rightarrow> bool \<times> byte list" where
  "write_chunks room out [] = (True, out)"
| "write_chunks room out (c # cs) =
     (case fwrite room out c of (n, out') \<Rightarrow>
        if n \<noteq> length c then (False, out') else write_chunks room out' cs)"

text \<open>The three bytes of a pixel, and the writes of one row: a pixel each, then the padding.\<close>

definition pixel :: "byte list \<Rightarrow> int \<Rightarrow> nat \<Rightarrow> nat \<Rightarrow> byte list" where
  "pixel px stride y x = take 3 (drop (y * nat stride + x * 4) px)"

definition row_chunks :: "byte list \<Rightarrow> int \<Rightarrow> int \<Rightarrow> nat \<Rightarrow> byte list list" where
  "row_chunks px w stride y =
     map (pixel px stride y) [0..<nat w] @
     (if bmp_row_pad w = 0 then [] else [replicate (unat (bmp_row_pad w)) 0])"

definition bmp_write_xrgb8888 ::
  "nat \<Rightarrow> byte list option \<Rightarrow> int \<Rightarrow> int \<Rightarrow> int \<Rightarrow> byte list \<Rightarrow> bool \<times> byte list" where
  "bmp_write_xrgb8888 room px w h stride out =
     (case px of
        None \<Rightarrow> (False, out)
      | Some px \<Rightarrow>
          if w \<le> 0 \<or> h \<le> 0 \<or> stride < w * 4 then (False, out)
          else write_chunks room out
                 (bmp_header w h # concat (map (row_chunks px w stride) (rev [0..<nat h]))))"

text \<open>\<open>screenshot_save\<close>: the rendered screen (\<open>None\<close> when LVGL fails), whether the file opens and
  closes, the room on its device; the result and the file's content.\<close>

definition SCREENSHOT_DEFAULT_PATH :: string where
  "SCREENSHOT_DEFAULT_PATH = ''/tmp/kpidash-screenshot.bmp''"

definition screenshot_save ::
  "(byte list \<times> int \<times> int \<times> int) option \<Rightarrow> bool \<Rightarrow> nat \<Rightarrow> bool \<Rightarrow> string option \<Rightarrow> (string \<Rightarrow> byte list option) \<Rightarrow>
   bool \<times> (string \<Rightarrow> byte list option)" where
  "screenshot_save shot opens room closes path fs =
     (let p = (case path of Some (c # s) \<Rightarrow> c # s | _ \<Rightarrow> SCREENSHOT_DEFAULT_PATH) in
      case shot of
        None \<Rightarrow> (False, fs)
      | Some (px, w, h, stride) \<Rightarrow>
          if \<not> opens then (False, fs)
          else (case bmp_write_xrgb8888 room (Some px) w h stride [] of (ok, out) \<Rightarrow>
                  (ok \<and> closes, fs(p \<mapsto> out))))"

section \<open>What is written\<close>

lemma write_chunks_take:
  "length out \<le> room \<Longrightarrow>
     write_chunks room out cs = (length (out @ concat cs) \<le> room, take room (out @ concat cs))"
proof (induction cs arbitrary: out)
  case (Cons c cs)
  show ?case
  proof (cases "length out + length c \<le> room")
    case True
    then show ?thesis using Cons.IH [of "out @ c"] by (simp add: fwrite_def)
  next
    case False
    then have "length (take (room - length out) c) \<noteq> length c" "room - length out \<le> length c"
      using Cons.prems by auto
    then show ?thesis using Cons.prems False by (simp add: fwrite_def)
  qed
qed simp

lemma nth_concat_blocks:
  "\<forall>xs \<in> set xss. length xs = n \<Longrightarrow> i < length xss \<Longrightarrow> j < n \<Longrightarrow> concat xss ! (i * n + j) = xss ! i ! j"
proof (induction xss arbitrary: i)
  case (Cons xs xss)
  show ?case
  proof (cases i)
    case (Suc k)
    then show ?thesis using Cons by (simp add: nth_append algebra_simps)
  qed (use Cons.prems in \<open>simp add: nth_append\<close>)
qed simp

lemma length_concat_blocks:
  "\<forall>xs \<in> set xss. length xs = n \<Longrightarrow> length (concat xss) = length xss * n"
  by (induction xss) simp_all

lemma length_put [simp]: "length (put16 p v hdr) = length hdr" "length (put32 p w hdr) = length hdr"
  by (simp_all add: put16_def put32_def)

lemma length_header [simp]: "length (bmp_header w h) = 54"
  by (simp add: bmp_header_def Let_def)

text \<open>The padding brings a row to a multiple of four bytes.\<close>

definition padding :: "int \<Rightarrow> nat" where
  "padding w = unat (bmp_row_pad w)"

lemma row_bytes_nat:
  assumes "0 < w" "w * 3 < 2 ^ 32"
  shows "unat (bmp_row_bytes w) = nat w * 3"
proof -
  have "bmp_row_bytes w = of_int (w * 3)" by (simp add: bmp_row_bytes_def)
  then have "uint (bmp_row_bytes w) = w * 3"
    using assms by (simp add: unsigned_of_int take_bit_eq_mod del: of_int_mult)
  then show ?thesis using assms by (simp add: nat_uint_eq [symmetric] nat_mult_distrib)
qed

lemma padding_of_rest:
  "unat ((4 - (r AND 3)) AND (3 :: 32 word)) = (4 - unat r mod 4) mod 4"
proof -
  let ?k = "r AND 3"
  have "unat ?k = unat r AND mask 2" by (simp add: unsigned_and_eq mask_eq_exp_minus_1)
  then have k: "unat ?k = unat r mod 4" by (simp add: take_bit_eq_mask [symmetric] take_bit_eq_mod)
  then have "unat ?k < 4" by simp
  then have "unat ?k = unat (0 :: 32 word) \<or> unat ?k = unat (1 :: 32 word) \<or>
      unat ?k = unat (2 :: 32 word) \<or> unat ?k = unat (3 :: 32 word)" by simp linarith
  then have "?k = 0 \<or> ?k = 1 \<or> ?k = 2 \<or> ?k = 3" unfolding word_unat_eq_iff .
  then show ?thesis unfolding k [symmetric] by (elim disjE) simp_all
qed

lemma to_next_multiple: "(4 - n mod 4) mod 4 < (4 :: nat) \<and> (n + (4 - n mod 4) mod 4) mod 4 = 0"
proof -
  have "n mod 4 < 4" by simp
  then have "n mod 4 = 0 \<or> n mod 4 = 1 \<or> n mod 4 = 2 \<or> n mod 4 = 3" by linarith
  then have "(n mod 4 + (4 - n mod 4) mod 4) mod 4 = 0" by (elim disjE) simp_all
  then show ?thesis by (simp add: mod_add_left_eq)
qed

lemma padding_nat:
  assumes "0 < w" "w * 3 < 2 ^ 32"
  shows "padding w < 4 \<and> (nat w * 3 + padding w) mod 4 = 0"
  using to_next_multiple [of "nat w * 3"] row_bytes_nat [OF assms]
  by (simp only: padding_def bmp_row_pad_def padding_of_rest)

text \<open>Reading a little-endian 32-bit field, as a viewer of the file does.\<close>

definition get32 :: "byte list \<Rightarrow> nat \<Rightarrow> nat" where
  "get32 bs p = unat (bs ! p) + 256 * (unat (bs ! (p + 1)) + 256 * (unat (bs ! (p + 2)) + 256 * unat (bs ! (p + 3))))"

lemma unat_low_byte: "unat (ucast (v AND 0xFF) :: byte) = unat (v :: 32 word) mod 256"
proof -
  have "unat (v AND 0xFF) = unat v AND mask 8" by (simp add: unsigned_and_eq mask_eq_exp_minus_1)
  then have "unat (v AND 0xFF) = unat v mod 256"
    by (simp add: take_bit_eq_mask [symmetric] take_bit_eq_mod)
  then show ?thesis by (simp add: unsigned_ucast_eq take_bit_eq_mod)
qed

lemma unat_drop: "unat (drop_bit n (v :: 32 word)) = unat v div 2 ^ n"
  unfolding unat_drop_bit_eq by (rule drop_bit_eq_div)

lemma bytes_of_nat:
  "n mod 256 + 256 * (n div 256 mod 256 + 256 * (n div 65536 mod 256 + 256 * (n div 16777216))) = (n :: nat)"
  using div_mult2_eq [of n 256 256] div_mult2_eq [of n 65536 256] by simp

lemma get32_put32:
  assumes "p + 3 < length hdr" shows "get32 (put32 p v hdr) p = unat v"
proof -
  have "unat v div 16777216 < 256" by (rule less_mult_imp_div_less) (rule unsigned_less [of v, THEN order_less_le_trans], simp)
  then show ?thesis
    using assms bytes_of_nat [of "unat v"]
    by (simp add: get32_def put32_def unat_low_byte unat_drop)
qed

lemma get32_put32_other:
  "q + 3 < p \<or> p + 3 < q \<Longrightarrow> get32 (put32 p v hdr) q = get32 hdr q"
  by (auto simp: get32_def put32_def)

lemma get32_put16_other:
  "q + 3 < p \<or> p + 1 < q \<Longrightarrow> get32 (put16 p v hdr) q = get32 hdr q"
  by (auto simp: get32_def put16_def)

definition get16 :: "byte list \<Rightarrow> nat \<Rightarrow> nat" where
  "get16 bs p = unat (bs ! p) + 256 * unat (bs ! (p + 1))"

lemma get16_put16:
  assumes "p + 1 < length hdr" shows "get16 (put16 p v hdr) p = unat v"
proof -
  have "unat (v AND 0xFF) = unat v AND mask 8" by (simp add: unsigned_and_eq mask_eq_exp_minus_1)
  then have low: "unat (ucast (v AND 0xFF) :: byte) = unat v mod 256"
    by (simp add: unsigned_ucast_eq take_bit_eq_mask [symmetric] take_bit_eq_mod)
  have "unat v < 65536" using unsigned_less [of v] by simp
  then have "unat (ucast (drop_bit 8 v) :: byte) = unat v div 256"
    using unat_drop_bit_eq [of 8 v] by (simp only: unsigned_ucast_eq take_bit_eq_mod drop_bit_eq_div) simp
  then show ?thesis using assms low by (simp add: get16_def put16_def)
qed

lemma get16_other:
  "q + 1 < p \<or> p + 3 < q \<Longrightarrow> get16 (put32 p w hdr) q = get16 hdr q"
  "q + 1 < p \<or> p + 1 < q \<Longrightarrow> get16 (put16 p v hdr) q = get16 hdr q"
  by (auto simp: get16_def put32_def put16_def)

lemma nth_put_other:
  "q < p \<or> p + 3 < q \<Longrightarrow> put32 p w hdr ! q = hdr ! q" "q < p \<or> p + 1 < q \<Longrightarrow> put16 p v hdr ! q = hdr ! q"
  by (auto simp: put32_def put16_def)

lemmas header_fields = get32_put32 get32_put32_other get32_put16_other get16_put16 get16_other nth_put_other

text \<open>The rest of the header, which does not depend on the buffer.\<close>

definition fixed_fields :: "byte list \<Rightarrow> bool" where
  "fixed_fields bs \<longleftrightarrow> bs ! 0 = 0x42 \<and> bs ! 1 = 0x4D \<and> get32 bs 6 = 0 \<and> get32 bs 10 = 54 \<and> get32 bs 14 = 40 \<and>
     get16 bs 26 = 1 \<and> get16 bs 28 = 24 \<and> get32 bs 30 = 0 \<and> get32 bs 38 = 2835 \<and> get32 bs 42 = 2835 \<and>
     get32 bs 46 = 0 \<and> get32 bs 50 = 0"

lemma header_fixed: "fixed_fields (bmp_header w h)"
proof -
  have z: "get32 ((replicate 54 0)[0 := 0x42, 1 := 0x4D]) p = 0" if "p \<in> {6, 30, 46, 50}" for p
    using that by (auto simp: get32_def nth_list_update)
  have s: "(replicate 54 0)[0 := 0x42, 1 := 0x4D] ! 0 = (0x42 :: byte)" "(replicate 54 0)[0 := 0x42, 1 := 0x4D] ! 1 = (0x4D :: byte)"
    by (simp_all add: nth_list_update)
  show ?thesis using z s unfolding fixed_fields_def
    by (intro conjI) (simp_all add: bmp_header_def Let_def header_fields)
qed

text \<open>The image the encoder writes on a device that has the room: the header, then the rows from the
  bottom one up.\<close>

definition bmp_image :: "byte list \<Rightarrow> int \<Rightarrow> int \<Rightarrow> int \<Rightarrow> byte list" where
  "bmp_image px w h stride =
     bmp_header w h @ concat (map (\<lambda>y. concat (row_chunks px w stride y)) (rev [0..<nat h]))"

definition row_length :: "int \<Rightarrow> nat" where
  "row_length w = nat w * 3 + padding w"

lemma length_pixel: "y * nat stride + x * 4 + 3 \<le> length px \<Longrightarrow> length (pixel px stride y x) = 3"
  by (simp add: pixel_def)

lemma pixel_in_buffer:
  assumes "nat h * nat stride \<le> length px" "w * 4 \<le> stride" "y < nat h" "x < nat w"
  shows "y * nat stride + x * 4 + 4 \<le> length px"
proof -
  have "Suc y * nat stride \<le> nat h * nat stride" using assms(3) by (intro mult_right_mono) simp_all
  moreover have "Suc x * 4 \<le> nat stride" using assms(2,4) by simp
  ultimately show ?thesis using assms(1) by simp
qed

lemma concat_row:
  "concat (row_chunks px w stride y) = concat (map (pixel px stride y) [0..<nat w]) @ replicate (padding w) 0"
  by (simp add: row_chunks_def padding_def unat_eq_zero)

lemma row_blocks:
  assumes "nat h * nat stride \<le> length px" "w * 4 \<le> stride" "y < nat h"
  shows "\<forall>c \<in> set (map (pixel px stride y) [0..<nat w]). length c = 3"
  using pixel_in_buffer [OF assms] by (fastforce intro!: length_pixel)

lemma length_row:
  assumes "nat h * nat stride \<le> length px" "w * 4 \<le> stride" "y < nat h"
  shows "length (concat (row_chunks px w stride y)) = row_length w"
  using length_concat_blocks [OF row_blocks [OF assms]] by (simp add: concat_row row_length_def)

lemma nth_row:
  assumes "nat h * nat stride \<le> length px" "w * 4 \<le> stride" "y < nat h" "x < nat w" "c < 3"
  shows "concat (row_chunks px w stride y) ! (x * 3 + c) = px ! (y * nat stride + x * 4 + c)"
proof -
  note b = row_blocks [OF assms(1,2,3)]
  have "x * 3 + c < nat w * 3" using assms(4,5) by simp
  then have "concat (row_chunks px w stride y) ! (x * 3 + c) = pixel px stride y x ! c"
    using nth_concat_blocks [OF b, of x c] length_concat_blocks [OF b] assms(4,5)
    by (simp add: concat_row nth_append)
  also have "\<dots> = px ! (y * nat stride + x * 4 + c)"
    using pixel_in_buffer [OF assms(1-4)] assms(5) by (simp add: pixel_def)
  finally show ?thesis .
qed

lemma image_rows:
  assumes "nat h * nat stride \<le> length px" "w * 4 \<le> stride"
  shows "length (bmp_image px w h stride) = 54 + nat h * row_length w"
    and "y < nat h \<Longrightarrow> i < row_length w \<Longrightarrow>
      bmp_image px w h stride ! (54 + (nat h - Suc y) * row_length w + i) =
      concat (row_chunks px w stride y) ! i"
proof -
  let ?rows = "map (\<lambda>y. concat (row_chunks px w stride y)) (rev [0..<nat h])"
  have b: "\<forall>r \<in> set ?rows. length r = row_length w" using length_row [OF assms] by auto
  show "length (bmp_image px w h stride) = 54 + nat h * row_length w"
    using length_concat_blocks [OF b] by (simp add: bmp_image_def)
  assume y: "y < nat h" and i: "i < row_length w"
  have "?rows ! (nat h - Suc y) = concat (row_chunks px w stride y)"
    using y by (simp add: rev_nth)
  then show "bmp_image px w h stride ! (54 + (nat h - Suc y) * row_length w + i) =
      concat (row_chunks px w stride y) ! i"
    using nth_concat_blocks [OF b, of "nat h - Suc y" i] y i by (simp add: bmp_image_def nth_append add.assoc)
qed

lemma concat_rows: "concat (concat (map f ys)) = concat (map (\<lambda>y. concat (f y)) ys)"
  by (induction ys) simp_all

lemma write_image:
  assumes "0 < w" "0 < h" "w * 4 \<le> stride"
  shows "bmp_write_xrgb8888 room (Some px) w h stride [] =
    (length (bmp_image px w h stride) \<le> room, take room (bmp_image px w h stride))"
  using assms write_chunks_take [of "[]" room]
  by (simp add: bmp_write_xrgb8888_def bmp_image_def concat_rows del: write_chunks.simps)

lemma image_fixed: "fixed_fields (bmp_image px w h stride)"
  using header_fixed [of w h] by (simp add: fixed_fields_def get32_def get16_def bmp_image_def nth_append)

lemma header_of_image:
  "p + 3 < 54 \<Longrightarrow> get32 (bmp_image px w h stride) p = get32 (bmp_header w h) p"
  by (simp add: get32_def bmp_image_def nth_append)

lemma image_size_nat:
  assumes "0 < w" "0 < h" "54 + h * (w * 3 + 3) < 2 ^ 32"
  shows "unat (54 + (bmp_row_bytes w + bmp_row_pad w) * of_int h :: 32 word) = 54 + nat h * row_length w"
    and "w * 3 < 2 ^ 32" and "h < 2 ^ 32"
proof -
  have le: "w * 3 + 3 \<le> h * (w * 3 + 3)" "h \<le> h * (w * 3 + 3)"
    using assms mult_right_mono [of 1 h "w * 3 + 3"] mult_left_mono [of 1 "w * 3 + 3" h] by simp_all
  show w: "w * 3 < 2 ^ 32" and h: "h < 2 ^ 32" using le assms(3) by simp_all
  have pad: "padding w < 4" using padding_nat [OF assms(1) w] by simp
  have rl: "int (row_length w) \<le> w * 3 + 3" using pad assms(1) by (simp add: row_length_def)
  have "h * int (row_length w) \<le> h * (w * 3 + 3)" using rl assms(2) by (intro mult_left_mono) simp_all
  then have small: "54 + h * int (row_length w) < 2 ^ 32" using assms(3) by linarith
  have "bmp_row_bytes w + bmp_row_pad w = of_nat (unat (bmp_row_bytes w) + padding w)"
    by (simp add: padding_def)
  then have "bmp_row_bytes w + bmp_row_pad w = of_nat (row_length w)"
    by (simp only: row_bytes_nat [OF assms(1) w] row_length_def)
  then have "54 + (bmp_row_bytes w + bmp_row_pad w) * of_int h = of_nat (54 + nat h * row_length w)"
    using assms(2) by (simp add: of_nat_nat mult.commute)
  moreover have "54 + nat h * row_length w < 2 ^ 32"
    using small assms(2) by (simp add: nat_less_iff flip: of_nat_less_iff [where 'a = int])
  ultimately show "unat (54 + (bmp_row_bytes w + bmp_row_pad w) * of_int h :: 32 word) =
      54 + nat h * row_length w"
    by (simp only: unat_of_nat) simp
qed

lemma header_values:
  assumes "0 < w" "0 < h" "54 + h * (w * 3 + 3) < 2 ^ 32"
  shows "get32 (bmp_header w h) 2 = 54 + nat h * row_length w" "get32 (bmp_header w h) 10 = 54"
    "get32 (bmp_header w h) 18 = nat w" "get32 (bmp_header w h) 22 = nat h" "get32 (bmp_header w h) 34 = nat h * row_length w"
proof -
  note sz = image_size_nat [OF assms]
  have w: "unat (of_int w :: 32 word) = nat w" and h: "unat (of_int h :: 32 word) = nat h"
    using sz assms by (simp_all add: unsigned_of_int take_bit_int_eq_self)
  show "get32 (bmp_header w h) 2 = 54 + nat h * row_length w" "get32 (bmp_header w h) 10 = 54"
    "get32 (bmp_header w h) 18 = nat w" "get32 (bmp_header w h) 22 = nat h"
    using sz(1) w h by (simp_all add: bmp_header_def Let_def header_fields)
  let ?size = "(bmp_row_bytes w + bmp_row_pad w) * of_int h"
  have "54 + ?size = of_nat (54 + nat h * row_length w)" using sz(1) by (metis of_nat_unat ucast_id)
  then have "?size = of_nat (nat h * row_length w)" by simp
  moreover have "unat (54 + ?size) < 2 ^ LENGTH(32)" by (rule unsigned_less)
  then have "nat h * row_length w < 2 ^ 32" using sz(1) by simp
  ultimately have "unat ?size = nat h * row_length w" by (simp only: unat_of_nat) simp
  then show "get32 (bmp_header w h) 34 = nat h * row_length w"
    by (simp add: bmp_header_def Let_def header_fields)
qed

section \<open>Properties\<close>

text \<open>C37: the encoder of the self-screenshot, on a device with room for \<open>room\<close> bytes and a buffer that
  holds \<open>h\<close> rows of \<open>stride\<close> bytes: what reaches the device is the first \<open>room\<close> bytes of one image,
  and the answer is true exactly when that is all of it; the image begins with "BM" and a header of 14 and 40
  bytes (one plane, 24 bits, no compression, no palette) that gives its length, width, height and the size
  of its pixels; its rows are padded with zeros to multiples of four bytes, and every pixel of the buffer
  stands, blue, green and red, at the place a bottom-up viewer looks for it.  Width and height are positive,
  the stride holds a row, and the file stays below 4 GiB.\<close>

theorem bmp_faithful:
  assumes "0 < w" "0 < h" "w * 4 \<le> stride" "nat h * nat stride \<le> length px"
    "54 + h * (w * 3 + 3) < 2 ^ 32"
  shows "\<exists>img pad.
    bmp_write_xrgb8888 room (Some px) w h stride [] = (length img \<le> room, take room img) \<and>
    pad < 4 \<and> (nat w * 3 + pad) mod 4 = 0 \<and>
    length img = 54 + nat h * (nat w * 3 + pad) \<and>
    fixed_fields img \<and> get32 img 2 = length img \<and> get32 img 18 = nat w \<and> get32 img 22 = nat h \<and>
    get32 img 34 = length img - 54 \<and>
    (\<forall>y < nat h. \<forall>i < pad. img ! (54 + y * (nat w * 3 + pad) + (nat w * 3 + i)) = 0) \<and>
    (\<forall>y < nat h. \<forall>x < nat w. \<forall>c < 3.
       img ! (54 + (nat h - Suc y) * (nat w * 3 + pad) + (x * 3 + c)) =
       px ! (y * nat stride + x * 4 + c))"
proof (intro exI [of _ "bmp_image px w h stride"] exI [of _ "padding w"] conjI allI impI)
  note sz = image_size_nat [OF assms(1,2,5)]
  note rows = image_rows [OF assms(4,3)] and vals = header_values [OF assms(1,2,5)]
  show "bmp_write_xrgb8888 room (Some px) w h stride [] =
      (length (bmp_image px w h stride) \<le> room, take room (bmp_image px w h stride))"
    by (rule write_image [OF assms(1-3)])
  show "padding w < 4" "(nat w * 3 + padding w) mod 4 = 0"
    using padding_nat [OF assms(1) sz(2)] by simp_all
  show "length (bmp_image px w h stride) = 54 + nat h * (nat w * 3 + padding w)"
    using rows(1) by (simp add: row_length_def)
  show "get32 (bmp_image px w h stride) 2 = length (bmp_image px w h stride)"
    "get32 (bmp_image px w h stride) 18 = nat w" "get32 (bmp_image px w h stride) 22 = nat h"
    "get32 (bmp_image px w h stride) 34 = length (bmp_image px w h stride) - 54"
    using vals rows(1) by (simp_all add: header_of_image)
  show "fixed_fields (bmp_image px w h stride)" by (rule image_fixed)
  {
    fix y i :: nat
    assume y: "y < nat h" and i: "i < padding w"
    let ?y = "nat h - Suc y"
    have "concat (row_chunks px w stride ?y) ! (nat w * 3 + i) = 0"
      using i length_concat_blocks [OF row_blocks [OF assms(4,3), of ?y]] y by (simp add: concat_row nth_append)
    then show "bmp_image px w h stride ! (54 + y * (nat w * 3 + padding w) + (nat w * 3 + i)) = 0"
      using rows(2) [of ?y "nat w * 3 + i"] y i by (simp add: row_length_def Suc_diff_Suc)
  }
  fix y x c :: nat
  assume "y < nat h" "x < nat w" "c < 3"
  then show "bmp_image px w h stride ! (54 + (nat h - Suc y) * (nat w * 3 + padding w) + (x * 3 + c)) =
      px ! (y * nat stride + x * 4 + c)"
    using rows(2) [of y "x * 3 + c"] nth_row [OF assms(4,3)] by (simp add: row_length_def)
qed

theorem bmp_faithful_witness:
  "\<exists>img. bmp_write_xrgb8888 62 (Some [1, 2, 3, 0, 4, 5, 6, 0]) 1 2 4 [] = (True, img) \<and> fixed_fields img \<and> get32 img 34 = 8 \<and>
     take 4 (drop 54 img) = [4, 5, 6, 0]"
proof -
  let ?px = "[1, 2, 3, 0, 4, 5, 6, 0] :: byte list"
  obtain img pad where img: "bmp_write_xrgb8888 62 (Some ?px) 1 2 4 [] = (length img \<le> 62, take 62 img)"
    "pad < 4" "(nat 1 * 3 + pad) mod 4 = 0" "length img = 54 + nat 2 * (nat 1 * 3 + pad)" "fixed_fields img"
    "get32 img 34 = length img - 54"
    using bmp_faithful [of 1 2 4 ?px 62] by auto
  have "pad = 1" using img(2,3) by simp presburger
  then have n: "length img = 62" using img(4) by simp
  then have e: "bmp_write_xrgb8888 62 (Some ?px) 1 2 4 [] = (True, img)" using img(1) by simp
  have "take 4 (drop 54 (snd (bmp_write_xrgb8888 62 (Some ?px) 1 2 4 []))) = [4, 5, 6, 0]" by code_simp
  then show ?thesis using e img(5,6) n by simp
qed

end
