(* ===== verification/Config.thy ===== *)
theory Config
  imports Redis_Poll
begin

text \<open>
  The configuration (\<open>src/src/config.c\<close>): what \<open>config_load\<close> makes of the environment, which is a map
  from names to values.  \<open>atoi\<close> is glibc's: \<open>strtol\<close>, which saturates at the ends of \<open>long\<close>, and the
  conversion to \<open>int\<close>.
\<close>

section \<open>Operations\<close>

abbreviation "PRIORITY_CLIENTS_MAX \<equiv> 16 :: nat"
abbreviation "NET_HOSTS_CONFIG_MAX \<equiv> 8 :: nat"

record kpidash_config =
  cf_redis_host :: string
  cf_redis_port :: int
  cf_redis_auth :: string
  cf_drm_dev :: string
  cf_max_clients :: int
  cf_activity_max :: int
  cf_log_file :: string
  cf_state_file :: string
  cf_priority_clients :: "string list"
  cf_net_hosts :: "string list"
  cf_intermittent_hosts :: "string list"

type_synonym environment = "string \<Rightarrow> string option"

definition is_space :: "char \<Rightarrow> bool" where
  "is_space c \<longleftrightarrow> c = CHR '' '' \<or> (CHR 0x09 \<le> c \<and> c \<le> CHR 0x0D)"

definition saturate_long :: "int \<Rightarrow> int" where
  "saturate_long n = max (- (2 ^ 63)) (min n (2 ^ 63 - 1))"

definition atoi :: "string \<Rightarrow> int" where
  "atoi s =
     (case take_sign (dropWhile is_space s) of (neg, u) \<Rightarrow>
        let n = digits_val (takeWhile is_digit u) in c_int (saturate_long (if neg then - n else n)))"

definition parse_int_env :: "environment \<Rightarrow> string \<Rightarrow> int \<Rightarrow> int \<Rightarrow> int \<Rightarrow> int" where
  "parse_int_env env name default_val min_val max_val =
     (case env name of
        None \<Rightarrow> default_val
      | Some v \<Rightarrow> let n = atoi v in if n < min_val \<or> max_val < n then default_val else n)"

definition parse_str_env :: "environment \<Rightarrow> string \<Rightarrow> string \<Rightarrow> nat \<Rightarrow> string" where
  "parse_str_env env name default_val out_len = buf_copy out_len (set_if (env name) default_val)"

text \<open>\<open>strtok\<close>: the pieces between separators that are not empty.\<close>

fun pieces :: "char \<Rightarrow> string \<Rightarrow> string list" where
  "pieces x [] = [[]]"
| "pieces x (c # s) =
     (if c = x then [] # pieces x s
      else case pieces x s of [] \<Rightarrow> [[c]] | p # ps \<Rightarrow> (c # p) # ps)"

definition strtok :: "char \<Rightarrow> string \<Rightarrow> string list" where
  "strtok x s = filter (\<lambda>p. p \<noteq> []) (pieces x s)"

definition skip_spaces :: "string \<Rightarrow> string" where
  "skip_spaces s = dropWhile (\<lambda>c. c = CHR '' '') s"

text \<open>The loop over the tokens of a host list: \<open>out\<close> is what is stored so far.\<close>

fun host_tokens :: "nat \<Rightarrow> string list \<Rightarrow> string list \<Rightarrow> string list" where
  "host_tokens mx out [] = out"
| "host_tokens mx out (tok # toks) =
     (if \<not> length out < mx then out
      else let t = buf_copy HOSTNAME_LEN (skip_spaces tok);
               name = rev (skip_spaces (rev t))
           in if name = [] then host_tokens mx out toks else host_tokens mx (out @ [name]) toks)"

definition parse_host_list_env :: "environment \<Rightarrow> string \<Rightarrow> string \<Rightarrow> nat \<Rightarrow> string list" where
  "parse_host_list_env env name default_val mx =
     host_tokens mx [] (strtok (CHR '','') (parse_str_env env name default_val (16 * HOSTNAME_LEN)))"

text \<open>The loop over the tokens of the priority list.\<close>

fun priority_tokens :: "string list \<Rightarrow> string list \<Rightarrow> string list" where
  "priority_tokens out [] = out"
| "priority_tokens out (tok # toks) =
     (if \<not> length out < PRIORITY_CLIENTS_MAX then out
      else priority_tokens (out @ [buf_copy HOSTNAME_LEN (skip_spaces tok)]) toks)"

definition NET_HOSTS_DEFAULT :: string where
  "NET_HOSTS_DEFAULT = ''kubs0,kubsdb,kai,gratch,cleo''"

definition INTERMITTENT_HOSTS_DEFAULT :: string where
  "INTERMITTENT_HOSTS_DEFAULT = ''komarchy,kbook2,kimac,thrall''"

definition config_load :: "environment \<Rightarrow> kpidash_config" where
  "config_load env =
     \<lparr>cf_redis_host = parse_str_env env ''KPIDASH_REDIS_HOST'' ''127.0.0.1'' 128,
      cf_redis_port = parse_int_env env ''KPIDASH_REDIS_PORT'' 6379 1 65535,
      cf_redis_auth = (case env ''REDISCLI_AUTH'' of None \<Rightarrow> [] | Some auth \<Rightarrow> buf_copy 256 auth),
      cf_drm_dev = parse_str_env env ''KPIDASH_DRM_DEV'' ''/dev/dri/card1'' 256,
      cf_max_clients = parse_int_env env ''KPIDASH_MAX_CLIENTS'' (int MAX_CLIENTS) 1 (int MAX_CLIENTS),
      cf_activity_max = parse_int_env env ''KPIDASH_ACTIVITY_MAX'' (int ACTIVITY_MAX_DISPLAY) 1 100,
      cf_log_file = parse_str_env env ''KPIDASH_LOG_FILE'' ''/var/log/kpidash/kpidash.log'' 512,
      cf_state_file = parse_str_env env ''KPIDASH_STATE_FILE'' ''/var/lib/kpidash/admitted'' 512,
      cf_priority_clients =
        (case env ''KPIDASH_PRIORITY_CLIENTS'' of
           None \<Rightarrow> []
         | Some pc \<Rightarrow>
             priority_tokens [] (strtok (CHR '','') (buf_copy (HOSTNAME_LEN * PRIORITY_CLIENTS_MAX) pc))),
      cf_net_hosts = parse_host_list_env env ''KPIDASH_NET_HOSTS'' NET_HOSTS_DEFAULT NET_HOSTS_CONFIG_MAX,
      cf_intermittent_hosts =
        parse_host_list_env env ''KPIDASH_INTERMITTENT_HOSTS'' INTERMITTENT_HOSTS_DEFAULT INTERMITTENT_HOSTS_MAX\<rparr>"

section \<open>Tokens\<close>

lemma pieces_nonempty [simp]: "pieces x s \<noteq> []"
  by (induction s) (auto split: list.split)

lemma pieces_free: "p \<in> set (pieces x s) \<Longrightarrow> x \<notin> set p"
  by (induction s arbitrary: p) (auto split: list.splits if_splits)

lemma pieces_one: "x \<notin> set s \<Longrightarrow> pieces x s = [s]"
  by (induction s) auto

lemma pieces_append: "x \<notin> set s \<Longrightarrow> pieces x (s @ x # t) = s # pieces x t"
  by (induction s) auto

lemma strtok_free: "p \<in> set (strtok x s) \<Longrightarrow> p \<noteq> [] \<and> x \<notin> set p"
  by (auto simp: strtok_def dest: pieces_free)

lemma set_skip_spaces: "set (skip_spaces s) \<subseteq> set s"
  by (simp add: skip_spaces_def set_dropWhileD subsetI)

lemma skip_spaces_hd: "skip_spaces s = [] \<or> hd (skip_spaces s) \<noteq> CHR '' ''"
  unfolding skip_spaces_def using hd_dropWhile [of "\<lambda>c. c = CHR '' ''" s] by blast

lemma skip_spaces_suffix: "\<exists>u. s = u @ skip_spaces s"
  unfolding skip_spaces_def by (metis takeWhile_dropWhile_id)

text \<open>A host name as the lists hold it.\<close>

definition tidy :: "string \<Rightarrow> bool" where
  "tidy h \<longleftrightarrow> h \<noteq> [] \<and> length h < HOSTNAME_LEN \<and> CHR '','' \<notin> set h \<and> hd h \<noteq> CHR '' '' \<and> last h \<noteq> CHR '' ''"

definition trimmed :: "string \<Rightarrow> string" where
  "trimmed tok = rev (skip_spaces (rev (buf_copy HOSTNAME_LEN (skip_spaces tok))))"

lemma host_tokens_eq:
  "length out \<le> mx \<Longrightarrow>
     host_tokens mx out toks = out @ take (mx - length out) (filter (\<lambda>h. h \<noteq> []) (map trimmed toks))"
proof (induction mx out toks rule: host_tokens.induct)
  case (2 mx out tok toks)
  show ?case
  proof (cases "length out < mx")
    case True
    then have "Suc (mx - Suc (length out)) = mx - length out" by simp
    then show ?thesis using 2 True
      by (simp add: trimmed_def Let_def del: take_Suc_Cons) (metis take_Suc_Cons)
  qed (use 2 in simp)
qed simp

lemma trimmed_tidy:
  assumes "trimmed tok \<noteq> []" "CHR '','' \<notin> set tok"
  shows "tidy (trimmed tok)"
proof -
  let ?t = "buf_copy HOSTNAME_LEN (skip_spaces tok)"
  obtain u where u: "rev ?t = u @ skip_spaces (rev ?t)" using skip_spaces_suffix by blast
  then have t: "?t = trimmed tok @ rev u" unfolding trimmed_def by (metis rev_append rev_rev_ident)
  have "hd (trimmed tok) = hd ?t" using assms(1) by (subst t) simp
  also have "\<dots> = hd (skip_spaces tok)" by (simp add: buf_copy_def hd_take)
  finally have "hd (trimmed tok) \<noteq> CHR '' ''"
    using skip_spaces_hd [of tok] t assms(1) by (auto simp: buf_copy_def)
  moreover have "last (trimmed tok) \<noteq> CHR '' ''"
    using skip_spaces_hd [of "rev ?t"] assms(1) by (simp add: trimmed_def last_rev)
  moreover have "length (trimmed tok) \<le> length ?t" by (subst t) simp
  moreover have "set (trimmed tok) \<subseteq> set tok"
  proof -
    have "set (trimmed tok) \<subseteq> set ?t" by (subst t) simp
    also have "\<dots> \<subseteq> set (skip_spaces tok)" by (simp add: buf_copy_def set_take_subset)
    also have "\<dots> \<subseteq> set tok" by (rule set_skip_spaces)
    finally show ?thesis .
  qed
  ultimately show ?thesis
    using assms le_less_trans [OF _ length_buf_copy [of HOSTNAME_LEN "skip_spaces tok"]]
    by (auto simp: tidy_def)
qed

lemma skip_padding: "h \<noteq> [] \<Longrightarrow> hd h \<noteq> CHR '' '' \<Longrightarrow> skip_spaces (replicate k CHR '' '' @ h @ t) = h @ t"
  by (induction k) (cases h, simp_all add: skip_spaces_def)

lemma trimmed_padded:
  assumes "tidy h" shows "trimmed (replicate l CHR '' '' @ h @ replicate r CHR '' '') = h"
proof -
  have h: "h \<noteq> []" "hd h \<noteq> CHR '' ''" "hd (rev h) \<noteq> CHR '' ''" "rev h \<noteq> []" "length h \<le> 63"
    using assms by (auto simp: tidy_def hd_rev)
  have "trimmed (replicate l CHR '' '' @ h @ replicate r CHR '' '') =
      rev (skip_spaces (rev (h @ take (63 - length h) (replicate r CHR '' ''))))"
    using h by (simp add: trimmed_def skip_padding buf_copy_def)
  then show ?thesis
    using skip_padding [OF h(4,3), of _ "[]"] by simp
qed

lemma host_list_eq:
  "parse_host_list_env env name d mx =
     take mx (filter (\<lambda>h. h \<noteq> []) (map trimmed (strtok (CHR '','') (parse_str_env env name d (16 * HOSTNAME_LEN)))))"
  unfolding parse_host_list_env_def by (simp add: host_tokens_eq)

lemma host_list_tidy: "h \<in> set (parse_host_list_env env name d mx) \<Longrightarrow> tidy h"
  unfolding host_list_eq by (auto dest!: in_set_takeD dest: strtok_free intro!: trimmed_tidy)

lemma length_host_list: "length (parse_host_list_env env name d mx) \<le> mx"
  unfolding host_list_eq by simp

lemma priority_tokens_bound:
  "length out \<le> PRIORITY_CLIENTS_MAX \<Longrightarrow> length (priority_tokens out toks) \<le> PRIORITY_CLIENTS_MAX"
  by (induction out toks rule: priority_tokens.induct) auto

lemma priority_tokens_names:
  "\<forall>p \<in> set out. length p < HOSTNAME_LEN \<and> CHR '','' \<notin> set p \<Longrightarrow> \<forall>t \<in> set toks. CHR '','' \<notin> set t \<Longrightarrow>
     \<forall>p \<in> set (priority_tokens out toks). length p < HOSTNAME_LEN \<and> CHR '','' \<notin> set p"
proof (induction out toks rule: priority_tokens.induct)
  case (2 out tok toks)
  have "CHR '','' \<notin> set (buf_copy HOSTNAME_LEN (skip_spaces tok))"
    using 2(3) set_skip_spaces [of tok] set_take_subset [of 63 "skip_spaces tok"] by (auto simp: buf_copy_def)
  then show ?case using 2 by auto
qed simp

lemma parse_int_bound: "lo \<le> d \<Longrightarrow> d \<le> hi \<Longrightarrow> parse_int_env env name d lo hi \<in> {lo..hi}"
  by (auto simp: parse_int_env_def Let_def split: option.split)

lemma parse_str_bound: "0 < n \<Longrightarrow> length (parse_str_env env name d n) < n"
  by (simp add: parse_str_env_def)

section \<open>Properties\<close>

text \<open>C38: whatever the environment holds, the configuration is one the rest of the program can use: the
  numbers are in their ranges, every string fits its buffer, and the two host lists hold at most eight
  names, each non-empty, shorter than a name buffer, without a comma and without a space at either end.\<close>

theorem config_bounds:
  "let c = config_load env in
     cf_redis_port c \<in> {1..65535} \<and> cf_max_clients c \<in> {1..16} \<and> cf_activity_max c \<in> {1..100} \<and>
     length (cf_redis_host c) < 128 \<and> length (cf_redis_auth c) < 256 \<and> length (cf_drm_dev c) < 256 \<and>
     length (cf_log_file c) < 512 \<and> length (cf_state_file c) < 512 \<and>
     length (cf_priority_clients c) \<le> 16 \<and> list_all (\<lambda>p. length p < HOSTNAME_LEN) (cf_priority_clients c) \<and>
     length (cf_net_hosts c) \<le> 8 \<and> list_all tidy (cf_net_hosts c) \<and>
     length (cf_intermittent_hosts c) \<le> 8 \<and> list_all tidy (cf_intermittent_hosts c)"
proof -
  have p: "list_all (\<lambda>p. length p < HOSTNAME_LEN) (priority_tokens [] (strtok (CHR '','') s))" for s
    using priority_tokens_names [of "[]" "strtok (CHR '','') s"] strtok_free [of _ "CHR '',''" s]
    by (auto simp: list_all_iff)
  show ?thesis
    using parse_int_bound [of 1 6379 65535 env "''KPIDASH_REDIS_PORT''"]
      parse_int_bound [of 1 "int MAX_CLIENTS" "int MAX_CLIENTS" env "''KPIDASH_MAX_CLIENTS''"]
      parse_int_bound [of 1 "int ACTIVITY_MAX_DISPLAY" 100 env "''KPIDASH_ACTIVITY_MAX''"]
      length_host_list host_list_tidy p priority_tokens_bound [of "[]"] parse_str_bound
    by (simp add: config_load_def Let_def list_all_iff split: option.split)
qed

text \<open>The text a host list is written as.\<close>

fun commas :: "string list \<Rightarrow> string" where
  "commas [] = []"
| "commas [h] = h"
| "commas (h # hs) = h @ CHR '','' # commas hs"

lemma strtok_commas: "\<forall>h \<in> set hs. h \<noteq> [] \<and> CHR '','' \<notin> set h \<Longrightarrow> strtok (CHR '','') (commas hs) = hs"
  by (induction hs rule: commas.induct) (auto simp: strtok_def pieces_one pieces_append)

text \<open>A host list written with commas is read back name by name in its order, whatever spaces stand
  around the names, as long as the variable has at most 1023 bytes; names beyond the table's size are
  dropped from the end.\<close>

theorem host_list_round_trip:
  assumes "list_all tidy hs" "length pads = length hs" "length v < 16 * HOSTNAME_LEN" "env name = Some v"
    and "v = commas (map2 (\<lambda>h (l, r). replicate l CHR '' '' @ h @ replicate r CHR '' '') hs pads)"
  shows "parse_host_list_env env name d mx = take mx hs"
proof -
  let ?pad = "\<lambda>h (l, r). replicate l CHR '' '' @ h @ replicate r CHR '' ''"
  have ok: "\<forall>t \<in> set (map2 ?pad hs pads). t \<noteq> [] \<and> CHR '','' \<notin> set t"
    using assms(1) by (auto simp: tidy_def list_all_iff dest!: set_zip_leftD)
  have "map trimmed (map2 ?pad hs pads) = hs"
    using assms(1,2)
  proof (induction hs pads rule: list_induct2')
    case (4 h hs p pads)
    then show ?case by (cases p) (simp add: trimmed_padded)
  qed simp_all
  moreover have "filter (\<lambda>h. h \<noteq> []) hs = hs"
    using assms(1) by (auto simp: tidy_def list_all_iff intro: filter_True)
  ultimately show ?thesis
    using assms(3,4) strtok_commas [OF ok] by (simp add: host_list_eq parse_str_env_def assms(5))
qed

theorem host_list_round_trip_witness:
  "parse_host_list_env (\<lambda>x. Some '' kai , kubs0'') ''KPIDASH_NET_HOSTS'' NET_HOSTS_DEFAULT 8 = [''kai'', ''kubs0'']"
proof -
  let ?v = "'' kai , kubs0''"
  let ?pads = "[(1, 1), (1, 0)] :: (nat \<times> nat) list"
  have t: "list_all tidy [''kai'', ''kubs0'']" by code_simp
  have l: "length ?v < 16 * HOSTNAME_LEN" by simp
  have v: "?v = commas (map2 (\<lambda>h (l, r). replicate l CHR '' '' @ h @ replicate r CHR '' '') [''kai'', ''kubs0''] ?pads)"
    by code_simp
  have "parse_host_list_env (\<lambda>x. Some ?v) ''KPIDASH_NET_HOSTS'' NET_HOSTS_DEFAULT 8 = take 8 [''kai'', ''kubs0'']"
    by (rule host_list_round_trip [OF t _ l _ v]) simp_all
  then show ?thesis by simp
qed

text \<open>The priority list is not trimmed at the right end and keeps blank tokens: a space before a comma
  makes a name that no host has, a blank token takes a place.\<close>

theorem priority_names_untrimmed:
  "cf_priority_clients (config_load (\<lambda>x. if x = ''KPIDASH_PRIORITY_CLIENTS'' then Some ''kai , ,kwork'' else None)) =
     [''kai '', [], ''kwork'']"
proof -
  have "priority_tokens [] (strtok (CHR '','') (buf_copy 1024 ''kai , ,kwork'')) = [''kai '', [], ''kwork'']"
    by code_simp
  then show ?thesis by (simp add: config_load_def del: priority_tokens.simps pieces.simps)
qed

text \<open>The number of a port is taken modulo two to the 32nd before its range is checked.\<close>

theorem port_wraps:
  "cf_redis_port (config_load (\<lambda>x. if x = ''KPIDASH_REDIS_PORT'' then Some ''4294973675'' else None)) = 6379"
proof -
  have "parse_int_env (\<lambda>x. Some ''4294973675'') ''KPIDASH_REDIS_PORT'' 6379 1 65535 = 6379"
    by code_simp
  then show ?thesis by (simp add: config_load_def parse_int_env_def)
qed

end
