(* ===== verification/Memstat.thy ===== *)
theory Memstat
  imports Redis_Poll
begin

text \<open>
  Memory telemetry (\<open>src/src/memstat.c\<close>): one sample, its log line, and the warning when the LVGL
  heap is over its high-water mark.  What the process reads of the kernel, the clocks and LVGL at one
  moment is a \<open>reading\<close>.
\<close>

section \<open>Operations\<close>

abbreviation "KPIDASH_MEM_HIGH_WATER_BYTES \<equiv> 8388608 :: int"
abbreviation "KPIDASH_MEM_WARN_COOLDOWN_S \<equiv> 300 :: int"

record reading =
  rd_time :: int
  rd_mono :: "int \<times> int"
  rd_statm :: "(int \<times> int) option"
  rd_page :: int
  rd_total_size :: int
  rd_free_size :: int
  rd_max_used :: int
  rd_frag_pct :: int
  rd_free_biggest :: int

record memstat =
  mm_start :: "int \<times> int"
  mm_last_warn :: int

definition u64 :: "int \<Rightarrow> int" where "u64 n = n mod 2 ^ 64"
definition u32 :: "int \<Rightarrow> int" where "u32 n = n mod 2 ^ 32"

definition read_proc_self_statm :: "reading \<Rightarrow> (int \<times> int) option" where
  "read_proc_self_statm r =
     (case rd_statm r of
        None \<Rightarrow> None
      | Some (size_pages, rss_pages) \<Rightarrow>
          let page = (if rd_page r \<le> 0 then 4096 else rd_page r)
          in Some (u64 (size_pages * page), u64 (rss_pages * page)))"

definition memstat_init :: "reading \<Rightarrow> memstat" where
  "memstat_init r = \<lparr>mm_start = rd_mono r, mm_last_warn = 0\<rparr>"

definition memstat_take_sample :: "reading \<Rightarrow> memstat \<Rightarrow> mem_sample \<times> memstat" where
  "memstat_take_sample r m =
     (let start = (if mm_start m = (0, 0) then rd_mono r else mm_start m);
          delta = fst (rd_mono r) - fst start;
          mem = set_if (read_proc_self_statm r) (0, 0)
      in (\<lparr>ms_t = rd_time r, ms_uptime_s = (if delta < 0 then 0 else delta),
           ms_rss_bytes = snd mem, ms_vsize_bytes = fst mem,
           ms_lvgl_total = u32 (rd_total_size r), ms_lvgl_free = u32 (rd_free_size r),
           ms_lvgl_used = u32 (rd_total_size r - rd_free_size r), ms_lvgl_max_used = u32 (rd_max_used r),
           ms_lvgl_frag_pct = rd_frag_pct r, ms_lvgl_free_biggest = u32 (rd_free_biggest r)\<rparr>,
          m\<lparr>mm_start := start\<rparr>))"

definition log_line :: "mem_sample \<Rightarrow> string" where
  "log_line s =
     ''memstat: t='' @ dec_int (ms_t s) @ '' up='' @ dec_int (ms_uptime_s s) @
     '' rss='' @ dec_int (ms_rss_bytes s) @ '' vsize='' @ dec_int (ms_vsize_bytes s) @
     '' lvgl_used='' @ dec_int (ms_lvgl_used s) @ '' lvgl_max='' @ dec_int (ms_lvgl_max_used s) @
     '' lvgl_total='' @ dec_int (ms_lvgl_total s) @ '' lvgl_frag='' @ dec_int (ms_lvgl_frag_pct s) @
     '' lvgl_free_biggest='' @ dec_int (ms_lvgl_free_biggest s)"

text \<open>The length \<open>snprintf\<close> answers, of the whole line, and what the buffer holds of it.\<close>

definition memstat_format_log_line :: "mem_sample \<Rightarrow> nat \<Rightarrow> nat \<times> string" where
  "memstat_format_log_line s buflen =
     (if buflen = 0 then (0, []) else (length (log_line s), buf_copy buflen (log_line s)))"

definition warns :: "mem_sample \<Rightarrow> memstat \<Rightarrow> bool" where
  "warns s m \<longleftrightarrow> KPIDASH_MEM_HIGH_WATER_BYTES < ms_lvgl_used s \<and>
     (mm_last_warn m = 0 \<or> KPIDASH_MEM_WARN_COOLDOWN_S \<le> ms_t s - mm_last_warn m)"

definition HIGH_WATER_TEXT :: string where
  "HIGH_WATER_TEXT = ''LVGL heap high-water exceeded''"

definition warn_line :: "mem_sample \<Rightarrow> string" where
  "warn_line s = ''memstat: WARN lvgl_used='' @ dec_int (ms_lvgl_used s) @ '' over high-water='' @
     dec_int KPIDASH_MEM_HIGH_WATER_BYTES"

text \<open>\<open>memstat_sample_now\<close>: the lines it prints, its state, the status queue and the world after it;
  \<open>new_id\<close> is the id the queue would give a message.\<close>

definition memstat_sample_now ::
  "'w hiredis \<Rightarrow> printers \<Rightarrow> bool \<Rightarrow> reading \<Rightarrow> string \<Rightarrow> memstat \<times> status \<times> 'w \<Rightarrow> string list \<times> memstat \<times> status \<times> 'w" where
  "memstat_sample_now H P ctx r new_id st =
     (case st of (m, q, w) \<Rightarrow>
        case memstat_take_sample r m of (s, m1) \<Rightarrow>
        case memstat_format_log_line s 256 of (n, line) \<Rightarrow>
          let logged = (if 0 < n then [line] else []);
              w' = redis_write_mem_sample H P ctx s w
          in if warns s m1
             then (logged @ [warn_line s], m1\<lparr>mm_last_warn := ms_t s\<rparr>,
                   status_push new_id STATUS_WARNING HIGH_WATER_TEXT (of_int (rd_time r)) q, w')
             else (logged, m1, q, w'))"

section \<open>The log line\<close>

definition reading_ok :: "reading \<Rightarrow> bool" where
  "reading_ok r \<longleftrightarrow> \<bar>rd_time r\<bar> < 2 ^ 63 \<and> \<bar>fst (rd_mono r)\<bar> < 2 ^ 62 \<and> 0 \<le> rd_frag_pct r \<and> rd_frag_pct r < 256"

lemma length_dec_int_nonneg: "0 \<le> i \<Longrightarrow> i < 10 ^ k \<Longrightarrow> 0 < k \<Longrightarrow> length (dec_int i) \<le> k"
  using length_dec [of "nat i" k] by (simp add: dec_int_def nat_less_iff)

lemma u64_range: "0 \<le> u64 n" "u64 n < 10 ^ 20"
  using pos_mod_bound [of "2 ^ 64" n] by (simp_all add: u64_def)

lemma u32_range: "0 \<le> u32 n" "u32 n < 10 ^ 10"
  using pos_mod_bound [of "2 ^ 32" n] by (simp_all add: u32_def)

lemma statm_range:
  "read_proc_self_statm r = Some (v, s) \<Longrightarrow> 0 \<le> v \<and> v < 10 ^ 20 \<and> 0 \<le> s \<and> s < 10 ^ 20"
  using u64_range by (auto simp: read_proc_self_statm_def Let_def split: option.splits)

lemma length_u32: "length (dec_int (u32 n)) \<le> 10"
  by (rule length_dec_int_nonneg) (use u32_range in simp_all)

lemma log_line_bound:
  assumes "memstat_take_sample r m = (s, m1)" "reading_ok r" "\<bar>fst (mm_start m)\<bar> < 2 ^ 62"
  shows "length (log_line s) < 256"
proof -
  obtain v p where mem: "set_if (read_proc_self_statm r) (0, 0) = (v, p)" by (rule prod.exhaust)
  then have vp: "0 \<le> v" "v < 10 ^ 20" "0 \<le> p" "p < 10 ^ 20"
    using statm_range [of r] by (cases "read_proc_self_statm r"; fastforce)+
  have t: "length (dec_int (ms_t s)) \<le> Suc 19"
    using assms by (intro length_dec_int) (auto simp: memstat_take_sample_def reading_ok_def Let_def)
  have up: "length (dec_int (ms_uptime_s s)) \<le> 19"
    using assms by (intro length_dec_int_nonneg) (auto simp: memstat_take_sample_def reading_ok_def Let_def)
  have sz: "length (dec_int (ms_rss_bytes s)) \<le> 20" "length (dec_int (ms_vsize_bytes s)) \<le> 20"
    using assms(1) vp mem by (auto simp: memstat_take_sample_def Let_def intro!: length_dec_int_nonneg)
  have fr: "length (dec_int (ms_lvgl_frag_pct s)) \<le> 3"
    using assms by (intro length_dec_int_nonneg) (auto simp: memstat_take_sample_def reading_ok_def Let_def)
  have us: "length (dec_int (ms_lvgl_used s)) \<le> 10" "length (dec_int (ms_lvgl_max_used s)) \<le> 10"
    "length (dec_int (ms_lvgl_total s)) \<le> 10" "length (dec_int (ms_lvgl_free_biggest s)) \<le> 10"
    using assms(1) by (auto simp: memstat_take_sample_def Let_def length_u32)
  show ?thesis unfolding log_line_def using t up sz fr us by simp
qed

section \<open>The warnings of a run\<close>

fun sample_run ::
  "'w hiredis \<Rightarrow> printers \<Rightarrow> bool \<Rightarrow> (reading \<times> string) list \<Rightarrow> memstat \<times> status \<times> 'w \<Rightarrow> (int \<times> string list) list" where
  "sample_run H P ctx [] st = []"
| "sample_run H P ctx ((r, i) # rs) st =
     (case memstat_sample_now H P ctx r i st of (lines, st') \<Rightarrow> (rd_time r, lines) # sample_run H P ctx rs st')"

text \<open>The times at which a second line, the warning, was printed; the samples over the mark.\<close>

definition warn_times :: "(int \<times> string list) list \<Rightarrow> int list" where
  "warn_times entries = map fst (filter (\<lambda>(t, lines). length lines = 2) entries)"

definition high :: "reading \<Rightarrow> bool" where
  "high r \<longleftrightarrow> KPIDASH_MEM_HIGH_WATER_BYTES < u32 (rd_total_size r - rd_free_size r)"

lemma sample_cases:
  obtains (warned) lines q' w' m' where "high r" "mm_last_warn m = 0 \<or> 300 \<le> rd_time r - mm_last_warn m"
      "memstat_sample_now H P ctx r i (m, q, w) = (lines, m', q', w')" "length lines = 2" "mm_last_warn m' = rd_time r"
  | (quiet) lines w' m' where "\<not> high r \<or> (mm_last_warn m \<noteq> 0 \<and> rd_time r - mm_last_warn m < 300)"
      "memstat_sample_now H P ctx r i (m, q, w) = (lines, m', q, w')" "length lines = 1"
      "mm_last_warn m' = mm_last_warn m"
proof -
  obtain s m1 where sm: "memstat_take_sample r m = (s, m1)" by (rule prod.exhaust)
  have ll: "log_line s \<noteq> []" by (simp add: log_line_def)
  have s: "ms_t s = rd_time r" "ms_lvgl_used s = u32 (rd_total_size r - rd_free_size r)"
      "mm_last_warn m1 = mm_last_warn m"
    using sm by (auto simp: memstat_take_sample_def Let_def)
  then have w: "warns s m1 \<longleftrightarrow> high r \<and> (mm_last_warn m = 0 \<or> 300 \<le> rd_time r - mm_last_warn m)"
    by (simp add: warns_def high_def)
  show thesis
  proof (cases "warns s m1")
    case True
    have now: "memstat_sample_now H P ctx r i (m, q, w) =
        ([buf_copy 256 (log_line s), warn_line s], m1\<lparr>mm_last_warn := ms_t s\<rparr>,
         status_push i STATUS_WARNING HIGH_WATER_TEXT (of_int (rd_time r)) q, redis_write_mem_sample H P ctx s w)"
      using True sm ll by (simp add: memstat_sample_now_def memstat_format_log_line_def)
    show thesis by (rule warned [OF _ _ now]) (use True w s in simp_all)
  next
    case False
    have now: "memstat_sample_now H P ctx r i (m, q, w) =
        ([buf_copy 256 (log_line s)], m1, q, redis_write_mem_sample H P ctx s w)"
      using False sm ll by (simp add: memstat_sample_now_def memstat_format_log_line_def)
    show thesis by (rule quiet [OF _ now]) (use False w s in auto)
  qed
qed

lemma warnings_spaced:
  assumes "\<forall>(r, i) \<in> set rs. 0 < rd_time r"
  shows "sorted_wrt (\<lambda>a b. a + 300 \<le> b) (warn_times (sample_run H P ctx rs (m, q, w))) \<and>
    (mm_last_warn m \<noteq> 0 \<longrightarrow> (\<forall>b \<in> set (warn_times (sample_run H P ctx rs (m, q, w))). mm_last_warn m + 300 \<le> b))"
  using assms
proof (induction rs arbitrary: m q w)
  case Nil
  then show ?case by (simp add: warn_times_def)
next
  case (Cons p rs)
  obtain r i where p: "p = (r, i)" by (rule prod.exhaust)
  have t: "0 < rd_time r" and rest: "\<forall>(r, i) \<in> set rs. 0 < rd_time r" using Cons.prems p by auto
  show ?case
  proof (cases rule: sample_cases [of r m H P ctx i q w])
    case (warned lines q' w' m')
    then have e: "warn_times (sample_run H P ctx (p # rs) (m, q, w)) =
        rd_time r # warn_times (sample_run H P ctx rs (m', q', w'))"
      by (simp add: p warn_times_def)
    show ?thesis unfolding e using Cons.IH [OF rest, of m' q' w'] warned(2,5) t by fastforce
  next
    case (quiet lines w' m')
    then have e: "warn_times (sample_run H P ctx (p # rs) (m, q, w)) = warn_times (sample_run H P ctx rs (m', q, w'))"
      by (simp add: p warn_times_def)
    show ?thesis unfolding e using Cons.IH [OF rest, of m' q w'] quiet(4) by simp
  qed
qed

lemma warnings_cover:
  assumes "\<forall>(r, i) \<in> set rs. 0 < rd_time r" "sorted (map (rd_time \<circ> fst) rs)"
    and "\<forall>(r, i) \<in> set rs. mm_last_warn m \<le> rd_time r" "(r, i) \<in> set rs" "high r"
  shows "\<exists>a. (a \<in> set (warn_times (sample_run H P ctx rs (m, q, w))) \<or> (mm_last_warn m \<noteq> 0 \<and> a = mm_last_warn m)) \<and>
          a \<le> rd_time r \<and> rd_time r < a + 300"
  using assms
proof (induction rs arbitrary: m q w)
  case Nil
  then show ?case by simp
next
  case (Cons p rs)
  obtain r0 i0 where p: "p = (r0, i0)" by (rule prod.exhaust)
  have rest: "\<forall>(r, i) \<in> set rs. 0 < rd_time r" "sorted (map (rd_time \<circ> fst) rs)"
      "\<forall>(r, i) \<in> set rs. mm_last_warn m \<le> rd_time r" "\<forall>(r, i) \<in> set rs. rd_time r0 \<le> rd_time r"
    using Cons.prems(1-3) p by (auto simp: comp_def)
  show ?case
  proof (cases rule: sample_cases [of r0 m H P ctx i0 q w])
    case (warned lines q' w' m')
    then have e: "warn_times (sample_run H P ctx (p # rs) (m, q, w)) =
        rd_time r0 # warn_times (sample_run H P ctx rs (m', q', w'))"
      by (simp add: p warn_times_def)
    show ?thesis
    proof (cases "(r, i) = (r0, i0)")
      case True
      then show ?thesis unfolding e by (intro exI [of _ "rd_time r0"]) simp
    next
      case False
      then have "(r, i) \<in> set rs" using Cons.prems(4) p by auto
      from Cons.IH [OF rest(1,2) _ this Cons.prems(5), of m' q' w'] show ?thesis
        unfolding e using warned(5) rest(4) by auto
    qed
  next
    case (quiet lines w' m')
    then have e: "warn_times (sample_run H P ctx (p # rs) (m, q, w)) = warn_times (sample_run H P ctx rs (m', q, w'))"
      by (simp add: p warn_times_def)
    show ?thesis
    proof (cases "(r, i) = (r0, i0)")
      case True
      then show ?thesis unfolding e
        using quiet(1) Cons.prems(3,5) p by (intro exI [of _ "mm_last_warn m"]) auto
    next
      case False
      then have "(r, i) \<in> set rs" using Cons.prems(4) p by auto
      from Cons.IH [OF rest(1,2) _ this Cons.prems(5), of m' q w'] show ?thesis
        unfolding e using quiet(4) rest(3) by simp
    qed
  qed
qed

section \<open>Properties\<close>

text \<open>The log line of a sample is never cut: for every reading a 64-bit system can give, the first
  line \<open>memstat_sample_now\<close> prints is the whole record.\<close>

theorem log_line_whole:
  assumes "reading_ok r" "\<bar>fst (mm_start m)\<bar> < 2 ^ 62"
  shows "\<exists>s rest. fst (memstat_take_sample r m) = s \<and> length (log_line s) < 256 \<and>
    fst (memstat_sample_now H P ctx r i (m, q, w)) = log_line s # rest"
proof -
  obtain s m1 where sm: "memstat_take_sample r m = (s, m1)" by (rule prod.exhaust)
  have b: "length (log_line s) < 256" by (rule log_line_bound [OF sm assms])
  have "log_line s \<noteq> []" by (simp add: log_line_def)
  then have "\<exists>rest. fst (memstat_sample_now H P ctx r i (m, q, w)) = log_line s # rest"
    using sm b by (simp add: memstat_sample_now_def memstat_format_log_line_def Let_def)
  then show ?thesis using sm b by auto
qed

definition busy :: reading where
  "busy = \<lparr>rd_time = 1700000000, rd_mono = (500, 0), rd_statm = Some (100000, 50000), rd_page = 4096,
     rd_total_size = 16777216, rd_free_size = 4194304, rd_max_used = 12582912, rd_frag_pct = 3,
     rd_free_biggest = 4000000\<rparr>"

definition no_docs :: printers where
  "no_docs = \<lparr>pr_status = (\<lambda>m. None), pr_service = (\<lambda>t v h. None), pr_mem = (\<lambda>s. None)\<rparr>"

theorem log_line_whole_witness:
  "\<exists>s rest. fst (memstat_take_sample busy (memstat_init busy)) = s \<and> length (log_line s) < 256 \<and>
    fst (memstat_sample_now scripted no_docs False busy ''x'' (memstat_init busy, status_start, [])) = log_line s # rest"
  by (rule log_line_whole) (simp_all add: busy_def reading_ok_def memstat_init_def)



end
