(* ===== verification/Ui_Cards.thy ===== *)
theory Ui_Cards
  imports Client_Registry Graph_Hosts
begin

text \<open>
  The client cards of \<open>src/src/ui.c\<close>: the sort by priority and the block of \<open>ui_refresh\<close> that makes the
  cards of the grid those of the registry.  LVGL objects are numbered in the order of their creation; a
  parent is the list of its children, a new child comes last.  \<open>lv_obj_move_to_index\<close> is a parameter
  \<open>L\<close>, with what LVGL documents of it as \<open>lv_moves\<close>.  That a creation succeeds is taken for granted, as
  the code does.
\<close>

section \<open>State\<close>

type_synonym lv_move = "nat \<Rightarrow> nat \<Rightarrow> nat list \<Rightarrow> nat list"

text \<open>The objects of the dashboard: \<open>ui_painted\<close> is what a card was last painted with, \<open>ui_shown\<close> where
  a pool widget is shown (nowhere while hidden), \<open>ui_fed\<close> the samples a graph was given, latest first,
  \<open>ui_stale_mark\<close> whether it carries the mark of a stale host, \<open>ui_net_painted\<close> when the network card
  was last painted, \<open>ui_dev_grid\<close> the grid overlay with what it was made for.\<close>

record ui =
  ui_next :: nat
  ui_cards :: "(string \<times> nat) list"
  ui_grid :: "nat list"
  ui_painted :: "nat \<Rightarrow> client_info option"
  ui_netcard :: nat
  ui_shown :: "nat \<Rightarrow> (int \<times> int) option"
  ui_fed :: "nat \<Rightarrow> dev_telemetry list"
  ui_stale_mark :: "nat \<Rightarrow> bool"
  ui_net_painted :: "double option"
  ui_dev_grid :: "(nat \<times> int \<times> bool \<times> double) option"
  ui_dev_textsize :: "nat option"

section \<open>Operations\<close>

text \<open>One round of the sort: the client at the front is exchanged with every later one that goes before
  it; what stays in front and the others in their places.\<close>

fun exchange_pass :: "('a \<Rightarrow> 'a \<Rightarrow> bool) \<Rightarrow> 'a \<Rightarrow> 'a list \<Rightarrow> 'a \<times> 'a list" where
  "exchange_pass swap x [] = (x, [])"
| "exchange_pass swap x (y # ys) =
     (if swap x y then (case exchange_pass swap y ys of (m, zs) \<Rightarrow> (m, x # zs))
      else (case exchange_pass swap x ys of (m, zs) \<Rightarrow> (m, y # zs)))"

lemma length_exchange_pass [simp]: "length (snd (exchange_pass swap x ys)) = length ys"
  by (induction swap x ys rule: exchange_pass.induct) (auto split: prod.splits)

fun exchange_sort :: "('a \<Rightarrow> 'a \<Rightarrow> bool) \<Rightarrow> 'a list \<Rightarrow> 'a list" where
  "exchange_sort swap [] = []"
| "exchange_sort swap (x # xs) =
     fst (exchange_pass swap x xs) # exchange_sort swap (snd (exchange_pass swap x xs))"

definition priority_swap :: "registry \<Rightarrow> client_info \<Rightarrow> client_info \<Rightarrow> bool" where
  "priority_swap r a b =
     (case (registry_priority_index (ci_hostname a) r, registry_priority_index (ci_hostname b) r) of
        (None, Some b_at) \<Rightarrow> True
      | (Some a_at, Some b_at) \<Rightarrow> b_at < a_at
      | _ \<Rightarrow> False)"

definition sorted_clients :: "registry \<Rightarrow> client_info list" where
  "sorted_clients r = exchange_sort (priority_swap r) (registry_snapshot MAX_CLIENTS r)"

definition find_card :: "string \<Rightarrow> (string \<times> nat) list \<Rightarrow> nat option" where
  "find_card h cards = map_option (\<lambda>i. snd (cards ! i)) (find_index (\<lambda>(n, c). streq HOSTNAME_LEN n h) cards)"

definition add_card :: "string \<Rightarrow> ui \<Rightarrow> ui" where
  "add_card h u =
     (if MAX_CLIENTS \<le> length (ui_cards u) then u
      else u\<lparr>ui_next := Suc (ui_next u), ui_grid := ui_grid u @ [ui_next u],
             ui_cards := ui_cards u @ [(buf_copy HOSTNAME_LEN h, ui_next u)]\<rparr>)"

definition remove_absent_cards :: "client_info list \<Rightarrow> ui \<Rightarrow> ui" where
  "remove_absent_cards clients u =
     (let present = (\<lambda>(n, c). list_ex (\<lambda>cl. streq HOSTNAME_LEN n (ci_hostname cl)) clients);
          gone = map snd (filter (\<lambda>nc. \<not> present nc) (ui_cards u))
      in u\<lparr>ui_cards := filter present (ui_cards u), ui_grid := filter (\<lambda>c. c \<notin> set gone) (ui_grid u)\<rparr>)"

definition add_missing :: "client_info \<Rightarrow> ui \<Rightarrow> ui" where
  "add_missing c u = (if find_card (ci_hostname c) (ui_cards u) = None then add_card (ci_hostname c) u else u)"

fun reorder_cards :: "lv_move \<Rightarrow> nat \<Rightarrow> client_info list \<Rightarrow> ui \<Rightarrow> ui" where
  "reorder_cards L i [] u = u"
| "reorder_cards L i (c # cs) u =
     reorder_cards L (Suc i) cs
       (case find_card (ci_hostname c) (ui_cards u) of
          None \<Rightarrow> u
        | Some obj \<Rightarrow> u\<lparr>ui_grid := L obj i (ui_grid u)\<rparr>)"

definition paint_card :: "client_info \<Rightarrow> ui \<Rightarrow> ui" where
  "paint_card c u =
     (case find_card (ci_hostname c) (ui_cards u) of
        None \<Rightarrow> u
      | Some obj \<Rightarrow> u\<lparr>ui_painted := (ui_painted u)(obj := Some c)\<rparr>)"

definition refresh_cards :: "lv_move \<Rightarrow> registry \<Rightarrow> ui \<Rightarrow> ui" where
  "refresh_cards L r u =
     (let clients = sorted_clients r;
          u1 = remove_absent_cards clients (fold add_missing clients u)
      in fold paint_card clients (reorder_cards L 0 clients u1))"

section \<open>The sort\<close>

lemma exchange_pass_mset:
  "exchange_pass swap x ys = (m, zs) \<Longrightarrow> add_mset m (mset zs) = add_mset x (mset ys)"
  by (induction swap x ys arbitrary: m zs rule: exchange_pass.induct) (auto split: prod.splits if_splits)

lemma mset_exchange_sort [simp]: "mset (exchange_sort swap xs) = mset xs"
proof (induction swap xs rule: exchange_sort.induct)
  case (2 swap x xs)
  then show ?case using exchange_pass_mset [of swap x xs] by (cases "exchange_pass swap x xs") simp
qed simp

text \<open>A swap test that compares keys sorts by them.\<close>

lemma exchange_pass_least:
  fixes k :: "'a \<Rightarrow> nat"
  assumes "\<And>a b. swap a b \<longleftrightarrow> k b < k a"
  shows "exchange_pass swap x ys = (m, zs) \<Longrightarrow> k m \<le> k x \<and> (\<forall>z \<in> set zs. k m \<le> k z)"
proof (induction ys arbitrary: x m zs)
  case (Cons y ys)
  obtain m1 z1 where 1: "exchange_pass swap y ys = (m1, z1)" by (rule prod.exhaust)
  obtain m2 z2 where 2: "exchange_pass swap x ys = (m2, z2)" by (rule prod.exhaust)
  show ?case using Cons.prems Cons.IH [OF 1] Cons.IH [OF 2] 1 2 assms [of x y]
    by (auto split: if_splits)
qed simp

lemma sorted_exchange_sort:
  fixes k :: "'a \<Rightarrow> nat"
  assumes "\<And>a b. swap a b \<longleftrightarrow> k b < k a"
  shows "sorted (map k (exchange_sort swap xs))"
  using assms
proof (induction swap xs rule: exchange_sort.induct)
  case (2 swap x xs)
  obtain m zs where p: "exchange_pass swap x xs = (m, zs)" by (rule prod.exhaust)
  have "set (exchange_sort swap zs) = set zs"
    using mset_exchange_sort [of swap zs] by (metis set_mset_mset)
  moreover have "\<forall>z \<in> set zs. k m \<le> k z" using exchange_pass_least [OF 2(2) p] by blast
  moreover have "sorted (map k (exchange_sort swap zs))" using 2(1) [OF 2(2)] p by simp
  ultimately show ?case using p by simp
qed simp

text \<open>The place a client takes: its index on the priority list, or after all of it.\<close>

definition place :: "registry \<Rightarrow> client_info \<Rightarrow> nat" where
  "place r c = (case registry_priority_index (ci_hostname c) r of Some i \<Rightarrow> i | None \<Rightarrow> length (reg_priority r))"

lemma priority_index_lt: "registry_priority_index h r = Some i \<Longrightarrow> i < length (reg_priority r)"
  by (auto simp: registry_priority_index_def)

lemma priority_swap_place: "priority_swap r a b \<longleftrightarrow> place r b < place r a"
  by (auto simp: priority_swap_def place_def dest: priority_index_lt split: option.splits)

lemma sorted_clients_props:
  "mset (sorted_clients r) = mset (registry_snapshot MAX_CLIENTS r)"
  "sorted (map (place r) (sorted_clients r))"
  by (simp_all add: sorted_clients_def sorted_exchange_sort [OF priority_swap_place])

section \<open>The cards\<close>

text \<open>A move to an index in range puts the child there and leaves the others in order; whatever the index,
  the parent keeps its children.\<close>

definition lv_moves :: "lv_move \<Rightarrow> bool" where
  "lv_moves L \<longleftrightarrow> (\<forall>children obj i. distinct children \<longrightarrow> obj \<in> set children \<longrightarrow> i < length children \<longrightarrow>
     L obj i children = take i (remove1 obj children) @ obj # drop i (remove1 obj children)) \<and>
     (\<forall>children obj i. obj \<in> set children \<longrightarrow> mset (L obj i children) = mset children)"

definition cards_inv :: "ui \<Rightarrow> bool" where
  "cards_inv u \<longleftrightarrow> distinct (map fst (ui_cards u)) \<and> distinct (map snd (ui_cards u)) \<and>
     (\<forall>(n, c) \<in> set (ui_cards u). fits n \<and> c < ui_next u) \<and> length (ui_cards u) \<le> MAX_CLIENTS \<and>
     mset (ui_grid u) = mset (map snd (ui_cards u))"

lemma cards_inv_grid: "cards_inv u \<Longrightarrow> distinct (ui_grid u) \<and> set (ui_grid u) = snd ` set (ui_cards u)"
  unfolding cards_inv_def by (metis mset_eq_imp_distinct_iff set_map set_mset_mset)

lemma find_card_None:
  assumes "\<forall>(n, c) \<in> set cards. fits n" "fits h"
  shows "find_card h cards = None \<longleftrightarrow> h \<notin> fst ` set cards"
proof -
  have "streq HOSTNAME_LEN n h \<longleftrightarrow> n = h" if "(n, c) \<in> set cards" for n c
    using assms that by (intro streq_fits) (auto simp: fits_def)
  then show ?thesis by (auto simp: find_card_def find_index_None image_iff split: prod.splits)
qed

lemma card_found:
  assumes "\<forall>(n, c) \<in> set cards. fits n" "find_index (\<lambda>(n, c). streq HOSTNAME_LEN n h) cards = Some i"
  shows "(h, snd (cards ! i)) \<in> set cards"
proof -
  obtain n c where nc: "cards ! i = (n, c)" by (rule prod.exhaust)
  then have "(n, c) \<in> set cards" using find_index_lt [OF assms(2)] by (metis nth_mem)
  moreover have "streq HOSTNAME_LEN n h" using find_index_sat [OF assms(2)] nc by simp
  ultimately have "n = h" using assms(1) streq_fits [of n HOSTNAME_LEN h] by (auto simp: fits_def)
  then show ?thesis using nc \<open>(n, c) \<in> set cards\<close> by simp
qed

lemma find_card_Some:
  assumes "\<forall>(n, c) \<in> set cards. fits n" "distinct (map fst cards)"
  shows "find_card h cards = Some c \<longleftrightarrow> (h, c) \<in> set cards"
proof
  assume "find_card h cards = Some c"
  then show "(h, c) \<in> set cards" using card_found [OF assms(1)] by (auto simp: find_card_def)
next
  assume in_cards: "(h, c) \<in> set cards"
  then obtain i where i: "find_index (\<lambda>(n, c). streq HOSTNAME_LEN n h) cards = Some i"
    by (cases "find_index (\<lambda>(n, c). streq HOSTNAME_LEN n h) cards") (auto simp: find_index_None)
  then have "snd (cards ! i) = c"
    using card_found [OF assms(1) i] in_cards assms(2) by (metis eq_key_imp_eq_value)
  then show "find_card h cards = Some c" using i by (simp add: find_card_def)
qed

text \<open>Adding the missing cards, while there is room.\<close>

lemma cards_invD:
  assumes "cards_inv u"
  shows "\<forall>(n, c) \<in> set (ui_cards u). fits n" "distinct (map fst (ui_cards u))"
  using assms by (auto simp: cards_inv_def)

lemma add_missing_new:
  assumes inv: "cards_inv u" and h: "fits (ci_hostname c)" "ci_hostname c \<notin> fst ` set (ui_cards u)"
    and room: "length (ui_cards u) < MAX_CLIENTS"
  shows "add_missing c u = u\<lparr>ui_next := Suc (ui_next u), ui_grid := ui_grid u @ [ui_next u],
      ui_cards := ui_cards u @ [(ci_hostname c, ui_next u)]\<rparr>" "cards_inv (add_missing c u)"
proof -
  show e: "add_missing c u = u\<lparr>ui_next := Suc (ui_next u), ui_grid := ui_grid u @ [ui_next u],
      ui_cards := ui_cards u @ [(ci_hostname c, ui_next u)]\<rparr>"
    using find_card_None [OF cards_invD(1) [OF inv] h(1)] h room
    by (simp add: add_missing_def add_card_def fits_def)
  have "\<forall>(n, k) \<in> set (ui_cards u). k < ui_next u" using inv by (auto simp: cards_inv_def)
  then have "ui_next u \<notin> snd ` set (ui_cards u)" by auto
  then show "cards_inv (add_missing c u)"
    unfolding e using inv h room by (auto simp: cards_inv_def)
qed

lemma add_missing_old:
  assumes inv: "cards_inv u" and h: "fits (ci_hostname c)" "ci_hostname c \<in> fst ` set (ui_cards u)"
  shows "add_missing c u = u"
  using find_card_None [OF cards_invD(1) [OF inv] h(1)] h(2) by (auto simp: add_missing_def)

lemma add_all:
  assumes "cards_inv u" "\<forall>c \<in> set cs. fits (ci_hostname c)" "distinct (map ci_hostname cs)"
    and "length (ui_cards u) + length (filter (\<lambda>c. ci_hostname c \<notin> fst ` set (ui_cards u)) cs) \<le> MAX_CLIENTS"
  shows "cards_inv (fold add_missing cs u) \<and>
    fst ` set (ui_cards (fold add_missing cs u)) = fst ` set (ui_cards u) \<union> ci_hostname ` set cs \<and>
    set (ui_cards u) \<subseteq> set (ui_cards (fold add_missing cs u)) \<and>
    ui_painted (fold add_missing cs u) = ui_painted u"
  using assms
proof (induction cs arbitrary: u)
  case (Cons c cs)
  show ?case
  proof (cases "ci_hostname c \<in> fst ` set (ui_cards u)")
    case True
    then have "add_missing c u = u" using Cons.prems by (intro add_missing_old) simp_all
    then show ?thesis using Cons.IH [of u] Cons.prems True by auto
  next
    case False
    have fit: "fits (ci_hostname c)" and room: "length (ui_cards u) < MAX_CLIENTS"
      using Cons.prems False by simp_all
    note new = add_missing_new [OF Cons.prems(1) fit False room]
    have other: "\<forall>d \<in> set cs. ci_hostname d \<noteq> ci_hostname c"
      using Cons.prems(3) by (metis distinct.simps(2) image_eqI list.set_map list.simps(9))
    have "filter (\<lambda>d. ci_hostname d \<notin> fst ` set (ui_cards (add_missing c u))) cs =
        filter (\<lambda>d. ci_hostname d \<notin> fst ` set (ui_cards u)) cs"
      using other by (intro filter_cong) (auto simp: new(1))
    with Cons.IH [OF new(2)] Cons.prems False show ?thesis by (auto simp: new(1))
  qed
qed simp

lemma absent_cards_inv:
  assumes inv: "cards_inv u"
  shows "ui_cards (remove_absent_cards cs u) = filter (\<lambda>(n, c). n \<in> ci_hostname ` set cs) (ui_cards u)"
    "cards_inv (remove_absent_cards cs u)" "ui_painted (remove_absent_cards cs u) = ui_painted u"
proof -
  have eq: "streq HOSTNAME_LEN n h \<longleftrightarrow> n = h" if "(n, c) \<in> set (ui_cards u)" for n c h
    using cards_invD [OF inv] that by (intro streq_fits) (auto simp: fits_def)
  have pres: "(case nc of (n, c) \<Rightarrow> list_ex (\<lambda>cl. streq HOSTNAME_LEN n (ci_hostname cl)) cs) \<longleftrightarrow>
      (case nc of (n, c) \<Rightarrow> n \<in> ci_hostname ` set cs)" if "nc \<in> set (ui_cards u)" for nc
    using eq that by (cases nc) (auto simp: list_ex_iff)
  show e: "ui_cards (remove_absent_cards cs u) = filter (\<lambda>(n, c). n \<in> ci_hostname ` set cs) (ui_cards u)"
    unfolding remove_absent_cards_def Let_def by (simp add: pres cong: filter_cong)
  let ?gone = "snd ` set (filter (\<lambda>nc. \<not> (case nc of (n, c) \<Rightarrow> n \<in> ci_hostname ` set cs)) (ui_cards u))"
  have "filter (\<lambda>nc. \<not> (case nc of (n, c) \<Rightarrow> list_ex (\<lambda>cl. streq HOSTNAME_LEN n (ci_hostname cl)) cs)) (ui_cards u) =
      filter (\<lambda>nc. \<not> (case nc of (n, c) \<Rightarrow> n \<in> ci_hostname ` set cs)) (ui_cards u)"
    by (intro filter_cong) (simp_all add: pres)
  then have g: "ui_grid (remove_absent_cards cs u) = filter (\<lambda>c. c \<notin> ?gone) (ui_grid u)"
    unfolding remove_absent_cards_def Let_def by (simp only: set_map) simp
  have kept: "c \<notin> ?gone \<longleftrightarrow> n \<in> ci_hostname ` set cs" if nc: "(n, c) \<in> set (ui_cards u)" for n c
  proof -
    have "inj_on snd (set (ui_cards u))" using inv by (simp add: cards_inv_def distinct_map)
    then have one: "m = n" if "(m, c) \<in> set (ui_cards u)" for m
      using that nc inj_onD [of snd "set (ui_cards u)" "(m, c)" "(n, c)"] by simp
    have "c \<in> ?gone \<longleftrightarrow> (\<exists>m. (m, c) \<in> set (ui_cards u) \<and> m \<notin> ci_hostname ` set cs)" by force
    then show ?thesis using one nc by blast
  qed
  have "mset (ui_grid (remove_absent_cards cs u)) = filter_mset (\<lambda>c. c \<notin> ?gone) (mset (map snd (ui_cards u)))"
    using inv g by (simp add: cards_inv_def mset_filter)
  also have "\<dots> = mset (filter (\<lambda>c. c \<notin> ?gone) (map snd (ui_cards u)))" by (simp only: mset_filter)
  also have "filter (\<lambda>c. c \<notin> ?gone) (map snd (ui_cards u)) =
      map snd (filter (\<lambda>(n, c). n \<in> ci_hostname ` set cs) (ui_cards u))"
    unfolding filter_map comp_def
  proof (intro arg_cong [of _ _ "map snd"] filter_cong refl)
    fix nc assume "nc \<in> set (ui_cards u)"
    then show "(snd nc \<notin> ?gone) = (case nc of (n, c) \<Rightarrow> n \<in> ci_hostname ` set cs)"
      using kept [of "fst nc" "snd nc"] by (simp add: case_prod_unfold)
  qed
  finally have m: "mset (ui_grid (remove_absent_cards cs u)) = mset (map snd (ui_cards (remove_absent_cards cs u)))"
    by (simp only: e)
  have "ui_next (remove_absent_cards cs u) = ui_next u" by (simp add: remove_absent_cards_def Let_def)
  then show "cards_inv (remove_absent_cards cs u)"
    using inv m unfolding cards_inv_def e
    by (auto simp: distinct_map_filter intro: le_trans [OF length_filter_le])
  show "ui_painted (remove_absent_cards cs u) = ui_painted u" by (simp add: remove_absent_cards_def Let_def)
qed

lemma reorder_grid:
  assumes "lv_moves L" "\<forall>c \<in> set cs. find_card (ci_hostname c) (ui_cards u) = Some (f c)"
    and "ui_grid u = ps @ rest" "length ps = i" "distinct (ps @ rest)" "set rest = f ` set cs" "distinct (map f cs)"
  shows "reorder_cards L i cs u = u\<lparr>ui_grid := ps @ map f cs\<rparr>"
  using assms(2-)
proof (induction cs arbitrary: u ps rest i)
  case (Cons c cs)
  let ?u = "u\<lparr>ui_grid := L (f c) i (ui_grid u)\<rparr>"
  have "f c \<in> set rest" "f c \<notin> set ps" using Cons.prems by auto
  then have "L (f c) i (ps @ rest) = ps @ f c # remove1 (f c) rest"
    using assms(1) Cons.prems(3,4) by (cases rest) (auto simp: lv_moves_def remove1_append)
  then have g: "ui_grid ?u = (ps @ [f c]) @ remove1 (f c) rest" using Cons.prems(2) by simp
  have "reorder_cards L (Suc i) cs ?u = ?u\<lparr>ui_grid := (ps @ [f c]) @ map f cs\<rparr>"
  proof (rule Cons.IH [OF _ g])
    show "set (remove1 (f c) rest) = f ` set cs" using Cons.prems(4-6) by auto
    show "distinct ((ps @ [f c]) @ remove1 (f c) rest)"
      using Cons.prems(4) \<open>f c \<notin> set ps\<close> by (auto simp: notin_set_remove1)
  qed (use Cons.prems in simp_all)
  then show ?case using Cons.prems(1) by simp
qed (cases u, simp)

lemma paint_cards:
  assumes "\<forall>c \<in> set cs. find_card (ci_hostname c) (ui_cards u) = Some (f c)" "distinct (map f cs)"
  shows "\<exists>p. fold paint_card cs u = u\<lparr>ui_painted := p\<rparr> \<and> (\<forall>c \<in> set cs. p (f c) = Some c) \<and>
    (\<forall>k. k \<notin> f ` set cs \<longrightarrow> p k = ui_painted u k)"
  using assms
proof (induction cs arbitrary: u)
  case Nil
  show ?case by (intro exI [of _ "ui_painted u"]) simp
next
  case (Cons c cs)
  let ?u = "u\<lparr>ui_painted := (ui_painted u)(f c := Some c)\<rparr>"
  have s: "paint_card c u = ?u" using Cons.prems(1) by (simp add: paint_card_def)
  obtain p where "fold paint_card cs ?u = ?u\<lparr>ui_painted := p\<rparr>" "\<forall>c \<in> set cs. p (f c) = Some c"
      "\<forall>k. k \<notin> f ` set cs \<longrightarrow> p k = ui_painted ?u k"
    using Cons.IH [of ?u] Cons.prems by auto
  then show ?case using Cons.prems(2) by (intro exI [of _ p]) (auto simp: s)
qed

lemma fst_filter: "fst ` set (filter (\<lambda>(n, c). n \<in> S) xs) = fst ` set xs \<inter> S"
  by (induction xs) auto

section \<open>Properties\<close>

text \<open>The cards stand with the priority clients first, in the order of the configuration, then the
  others; nothing is lost or repeated by the sort.\<close>

theorem sorted_clients_exact:
  "mset (sorted_clients r) = mset (registry_snapshot MAX_CLIENTS r) \<and>
   sorted_wrt (\<lambda>a b. case (registry_priority_index (ci_hostname a) r, registry_priority_index (ci_hostname b) r) of
       (Some i, Some j) \<Rightarrow> i \<le> j | (None, Some j) \<Rightarrow> False | _ \<Rightarrow> True) (sorted_clients r)"
proof -
  have "sorted_wrt (\<lambda>a b. place r a \<le> place r b) (sorted_clients r)"
    using sorted_clients_props(2) [of r] by (simp add: sorted_map)
  then have "sorted_wrt (\<lambda>a b. case (registry_priority_index (ci_hostname a) r, registry_priority_index (ci_hostname b) r) of
       (Some i, Some j) \<Rightarrow> i \<le> j | (None, Some j) \<Rightarrow> False | _ \<Rightarrow> True) (sorted_clients r)"
    by (rule sorted_wrt_mono_rel [rotated])
      (auto simp: place_def dest: priority_index_lt split: option.splits)
  then show ?thesis using sorted_clients_props(1) by simp
qed

text \<open>Whatever the number of cards, the bookkeeping is kept and no other widget is touched.\<close>

definition beside_cards :: "ui \<Rightarrow> ui \<Rightarrow> bool" where
  "beside_cards u u' \<longleftrightarrow> ui_next u \<le> ui_next u' \<and>
     (ui_netcard u', ui_shown u', ui_fed u', ui_stale_mark u', ui_net_painted u', ui_dev_grid u', ui_dev_textsize u') =
     (ui_netcard u, ui_shown u, ui_fed u, ui_stale_mark u, ui_net_painted u, ui_dev_grid u, ui_dev_textsize u)"

lemma beside_refl: "beside_cards u u"
  by (simp add: beside_cards_def)

lemma beside_trans: "beside_cards u v \<Longrightarrow> beside_cards v w \<Longrightarrow> beside_cards u w"
  by (auto simp: beside_cards_def)

lemma add_missing_keeps:
  assumes "cards_inv u" "fits (ci_hostname c)"
  shows "cards_inv (add_missing c u) \<and> beside_cards u (add_missing c u)"
proof (cases "ci_hostname c \<in> fst ` set (ui_cards u)")
  case True
  then show ?thesis using assms by (simp add: add_missing_old beside_refl)
next
  case new: False
  show ?thesis
  proof (cases "length (ui_cards u) < MAX_CLIENTS")
    case True
    then show ?thesis using add_missing_new [OF assms new] by (simp add: beside_cards_def)
  next
    case False
    then have "add_missing c u = u" by (simp add: add_missing_def add_card_def)
    then show ?thesis using assms by (simp add: beside_refl)
  qed
qed

lemma add_missing_keeps_all:
  assumes "cards_inv u" "\<forall>c \<in> set cs. fits (ci_hostname c)"
  shows "cards_inv (fold add_missing cs u) \<and> beside_cards u (fold add_missing cs u)"
  using assms
proof (induction cs arbitrary: u)
  case (Cons c cs)
  then have "cards_inv (add_missing c u)" "beside_cards u (add_missing c u)" using add_missing_keeps by simp_all
  then show ?case using Cons.IH [of "add_missing c u"] Cons.prems(2) by (auto intro: beside_trans)
qed (simp add: beside_refl)

lemma find_card_mem: "find_card h cards = Some c \<Longrightarrow> c \<in> snd ` set cards"
  by (auto simp: find_card_def dest: find_index_lt)

lemma reorder_keeps:
  assumes "lv_moves L"
  shows "cards_inv u \<Longrightarrow> cards_inv (reorder_cards L i cs u) \<and> beside_cards u (reorder_cards L i cs u)"
proof (induction cs arbitrary: i u)
  case (Cons c cs)
  show ?case
  proof (cases "find_card (ci_hostname c) (ui_cards u)")
    case None
    then show ?thesis using Cons by simp
  next
    case (Some obj)
    let ?u = "u\<lparr>ui_grid := L obj i (ui_grid u)\<rparr>"
    have "obj \<in> set (ui_grid u)" using find_card_mem [OF Some] cards_inv_grid [OF Cons.prems] by simp
    then have "mset (ui_grid ?u) = mset (ui_grid u)" using assms by (simp add: lv_moves_def)
    then have "cards_inv ?u" "beside_cards u ?u" using Cons.prems by (simp_all add: cards_inv_def beside_cards_def)
    then show ?thesis using Cons.IH [of ?u "Suc i"] Some by (auto intro: beside_trans)
  qed
qed (simp add: beside_refl)

lemma paint_keeps: "cards_inv u \<Longrightarrow> cards_inv (fold paint_card cs u) \<and> beside_cards u (fold paint_card cs u)"
proof (induction cs arbitrary: u)
  case (Cons c cs)
  then have "cards_inv (paint_card c u)" "beside_cards u (paint_card c u)"
    by (simp_all add: paint_card_def cards_inv_def beside_cards_def split: option.split)
  then show ?case using Cons.IH [of "paint_card c u"] by (auto intro: beside_trans)
qed (simp add: beside_refl)

lemma refresh_cards_keeps:
  assumes "lv_moves L" "cards_inv u" "\<forall>c \<in> set (reg_clients r). fits (ci_hostname c)"
  shows "cards_inv (refresh_cards L r u) \<and> beside_cards u (refresh_cards L r u)"
proof -
  let ?cs = "sorted_clients r"
  have "set ?cs = set (registry_snapshot MAX_CLIENTS r)" using sorted_clients_props(1) [of r] by (metis set_mset_mset)
  then have "\<forall>c \<in> set ?cs. fits (ci_hostname c)"
    using assms(3) by (auto simp: registry_snapshot_def dest: in_set_takeD)
  then have a: "cards_inv (fold add_missing ?cs u)" "beside_cards u (fold add_missing ?cs u)"
    using add_missing_keeps_all [OF assms(2)] by simp_all
  let ?u1 = "remove_absent_cards ?cs (fold add_missing ?cs u)"
  have r: "cards_inv ?u1" "beside_cards (fold add_missing ?cs u) ?u1"
    using absent_cards_inv(2) [OF a(1)] by (simp_all add: beside_cards_def remove_absent_cards_def Let_def)
  note m = reorder_keeps [OF assms(1) r(1), of 0 ?cs]
  show ?thesis
    using paint_keeps [of "reorder_cards L 0 ?cs ?u1" ?cs] m a(2) r(2)
    by (simp add: refresh_cards_def Let_def) (meson beside_trans)
qed

lemma settled_cards:
  assumes "lv_moves L" "cards_inv u"
    and "distinct (card_hosts r)" "\<forall>h \<in> set (card_hosts r). fits h" "length (reg_clients r) \<le> MAX_CLIENTS"
    and "length (ui_cards u) + length (filter (\<lambda>h. h \<notin> fst ` set (ui_cards u)) (card_hosts r)) \<le> MAX_CLIENTS"
  shows "cards_inv (refresh_cards L r u) \<and>
    fst ` set (ui_cards (refresh_cards L r u)) = set (card_hosts r) \<and>
    map (ui_painted (refresh_cards L r u)) (ui_grid (refresh_cards L r u)) = map Some (sorted_clients r)"
proof -
  let ?cs = "sorted_clients r"
  have m: "mset ?cs = mset (reg_clients r)"
    using sorted_clients_props(1) [of r] assms(5) by (simp add: registry_snapshot_def)
  then have s: "set ?cs = set (reg_clients r)" by (metis set_mset_mset)
  have d: "distinct (map ci_hostname ?cs)"
    using assms(3) m by (metis mset_eq_imp_distinct_iff mset_map)
  have f: "\<forall>c \<in> set ?cs. fits (ci_hostname c)" using assms(4) s by simp
  have "mset (map ci_hostname ?cs) = mset (card_hosts r)" using m by (metis mset_map)
  then have "size (filter_mset (\<lambda>h. h \<notin> fst ` set (ui_cards u)) (mset (map ci_hostname ?cs))) =
      size (filter_mset (\<lambda>h. h \<notin> fst ` set (ui_cards u)) (mset (card_hosts r)))" by simp
  then have "length (filter (\<lambda>c. ci_hostname c \<notin> fst ` set (ui_cards u)) ?cs) =
      length (filter (\<lambda>h. h \<notin> fst ` set (ui_cards u)) (card_hosts r))"
    by (simp only: mset_filter [symmetric] size_mset) (simp add: filter_map comp_def)
  then have room: "length (ui_cards u) + length (filter (\<lambda>c. ci_hostname c \<notin> fst ` set (ui_cards u)) ?cs) \<le> MAX_CLIENTS"
    using assms(6) by simp
  note added = add_all [OF assms(2) f d room]
  define u1 where "u1 = remove_absent_cards ?cs (fold add_missing ?cs u)"
  have inv1: "cards_inv u1" unfolding u1_def using absent_cards_inv(2) added by blast
  have names: "fst ` set (ui_cards u1) = ci_hostname ` set ?cs"
    unfolding u1_def absent_cards_inv(1) [OF conjunct1 [OF added]] fst_filter using added by blast
  have "\<exists>k. (ci_hostname c, k) \<in> set (ui_cards u1)" if "c \<in> set ?cs" for c
  proof -
    have "ci_hostname c \<in> fst ` set (ui_cards u1)" unfolding names using that by simp
    then show ?thesis by (auto simp: image_iff)
  qed
  then obtain k where k: "\<forall>c \<in> set ?cs. (ci_hostname c, k c) \<in> set (ui_cards u1)" by metis
  then have find: "\<forall>c \<in> set ?cs. find_card (ci_hostname c) (ui_cards u1) = Some (k c)"
    using find_card_Some [OF cards_invD [OF inv1]] by blast
  have inj: "inj_on snd (set (ui_cards u1))" using inv1 by (simp add: cards_inv_def distinct_map)
  have "inj_on k (set ?cs)"
  proof (rule inj_onI)
    fix c d assume "c \<in> set ?cs" "d \<in> set ?cs" "k c = k d"
    then have "(ci_hostname c, k c) = (ci_hostname d, k d)"
      using inj_onD [OF inj, of "(ci_hostname c, k c)" "(ci_hostname d, k d)"] bspec [OF k \<open>c \<in> set ?cs\<close>]
        bspec [OF k \<open>d \<in> set ?cs\<close>] by simp
    then show "c = d" using d \<open>c \<in> set ?cs\<close> \<open>d \<in> set ?cs\<close> by (simp add: distinct_map inj_on_def)
  qed
  moreover have "distinct ?cs" using d by (simp add: distinct_map)
  ultimately have dk: "distinct (map k ?cs)" by (simp add: distinct_map)
  have "c = k x" if "(ci_hostname x, c) \<in> set (ui_cards u1)" "x \<in> set ?cs" for x c
    using that k cards_invD(2) [OF inv1] by (metis eq_key_imp_eq_value)
  then have own: "c = k x" if "(n, c) \<in> set (ui_cards u1)" "x \<in> set ?cs" "n = ci_hostname x" for n c x
    using that by simp
  have "snd ` set (ui_cards u1) = k ` set ?cs"
  proof (intro set_eqI iffI)
    fix c assume "c \<in> snd ` set (ui_cards u1)"
    then obtain n where n: "(n, c) \<in> set (ui_cards u1)" by (auto simp: image_iff)
    then have "n \<in> ci_hostname ` set ?cs" unfolding names [symmetric] by (metis fst_conv image_eqI)
    then show "c \<in> k ` set ?cs" using own [OF n] by blast
  next
    fix c assume "c \<in> k ` set ?cs"
    then show "c \<in> snd ` set (ui_cards u1)" using k by (metis imageE image_eqI snd_conv)
  qed
  then have snds: "set (ui_grid u1) = k ` set ?cs" using cards_inv_grid [OF inv1] by simp
  have re: "reorder_cards L 0 ?cs u1 = u1\<lparr>ui_grid := map k ?cs\<rparr>"
    using reorder_grid [OF assms(1) find, of "[]" "ui_grid u1" 0] cards_inv_grid [OF inv1] snds dk by simp
  define u2 where "u2 = u1\<lparr>ui_grid := map k ?cs\<rparr>"
  obtain p where p: "fold paint_card ?cs u2 = u2\<lparr>ui_painted := p\<rparr>" "\<forall>c \<in> set ?cs. p (k c) = Some c"
    using paint_cards [of ?cs u2 k] find dk by (auto simp: u2_def)
  have fin: "refresh_cards L r u = u2\<lparr>ui_painted := p\<rparr>"
    using re p(1) by (simp add: refresh_cards_def u1_def u2_def Let_def)
  have "set (ui_grid u1) = set (map k ?cs)" using snds by simp
  then have "mset (map k ?cs) = mset (ui_grid u1)"
    using dk cards_inv_grid [OF inv1] by (metis set_eq_iff_mset_eq_distinct)
  then have "cards_inv (refresh_cards L r u)" using inv1 by (simp add: fin u2_def cards_inv_def)
  then show ?thesis using names s p(2) by (simp add: fin u2_def comp_def)
qed


text \<open>A move that does what LVGL documents, and a dashboard without cards.\<close>

definition plain_move :: lv_move where
  "plain_move obj i children = take i (remove1 obj children) @ obj # drop i (remove1 obj children)"

lemma plain_moves: "lv_moves plain_move"
proof -
  have "mset (take i (remove1 obj children)) + mset (drop i (remove1 obj children)) = mset (remove1 obj children)"
    for i obj and children :: "nat list"
    by (metis append_take_drop_id mset_append)
  then show ?thesis by (simp add: lv_moves_def plain_move_def)
qed

definition ui_start :: ui where
  "ui_start = \<lparr>ui_next = 1, ui_cards = [], ui_grid = [], ui_painted = (\<lambda>c. None), ui_netcard = 0,
     ui_shown = (\<lambda>c. None), ui_fed = (\<lambda>c. []), ui_stale_mark = (\<lambda>c. False),
     ui_net_painted = None, ui_dev_grid = None, ui_dev_textsize = None\<rparr>"

definition two_hosts :: registry where
  "two_hosts = \<lparr>reg_clients = [new_client ''kai'', new_client ''kubs0''], reg_admitted = [''kai'', ''kubs0''],
     reg_dirty = False, reg_priority = [''kubs0'']\<rparr>"


text \<open>The non-priority clients do not keep their order: an exchange moves the first of them behind the
  others.\<close>

theorem priority_sort_unstable:
  "map ci_hostname (sorted_clients \<lparr>reg_clients = [new_client ''a'', new_client ''b'', new_client ''p''],
     reg_admitted = [], reg_dirty = False, reg_priority = [''p'']\<rparr>) = [''p'', ''b'', ''a'']"
  by code_simp

text \<open>A full board: with sixteen cards, a host that takes the place of another one in the registry gets
  no card in the refresh that removes the other's, only in the next one.\<close>

definition board :: "nat list \<Rightarrow> registry" where
  "board ns = \<lparr>reg_clients = map (\<lambda>i. new_client [char_of i]) ns, reg_admitted = [], reg_dirty = False, reg_priority = []\<rparr>"

theorem replaced_host_waits:
  "let u = refresh_cards plain_move (board [97..<113]) ui_start;
       u1 = refresh_cards plain_move (board [98..<114]) u;
       u2 = refresh_cards plain_move (board [98..<114]) u1
   in length (ui_cards u) = 16 \<and> find_card ''q'' (ui_cards u1) = None \<and> length (ui_cards u1) = 15 \<and>
      find_card ''q'' (ui_cards u2) \<noteq> None"
  by code_simp

end
