(* ===== verification/Ui_Pool.thy ===== *)
theory Ui_Pool
  imports Ui_Cards Layout_Pool Redis_Parse
begin

text \<open>
  Rows 2-3 of the dashboard (\<open>src/src/ui.c\<close>, the blocks of \<open>ui_refresh\<close> on graphs): the eviction of
  silent series with their widgets, one request per enabled graph host and one for the network card, the
  placement in the grid of \<open>src/src/layout.h\<close>, and the widgets shown and hidden.  The activities, the
  repository and the fortune widgets are compiled out, as in the code.
\<close>

section \<open>The grid of cells\<close>

abbreviation "SCR_W \<equiv> 3840 :: int"
abbreviation "SCR_H \<equiv> 2160 :: int"
abbreviation "COLS \<equiv> 6 :: nat"
abbreviation "UNIT_W \<equiv> 632 :: int"
abbreviation "UNIT_H \<equiv> 628 :: int"
abbreviation "PAD_TOP \<equiv> 0 :: int"
abbreviation "PAD_LEFT \<equiv> 24 :: int"
abbreviation "FOOTER_H \<equiv> 276 :: int"
abbreviation "WIDGET_CELLS_GRAPH \<equiv> 2 :: 8 word"
abbreviation "WIDGET_CELLS_NETCARD \<equiv> 2 :: 8 word"

definition COL_X :: "nat \<Rightarrow> int" where "COL_X c = PAD_LEFT + int c * UNIT_W"
definition ROW_Y :: "nat \<Rightarrow> int" where "ROW_Y r = PAD_TOP + int r * UNIT_H"

text \<open>The running row and column of the placement loop, over the sizes of the placed widgets.\<close>

fun slots :: "nat \<Rightarrow> nat \<Rightarrow> nat list \<Rightarrow> (int \<times> int) list" where
  "slots row col [] = []"
| "slots row col (n # ns) =
     (if COLS < col + n then (COL_X 0, ROW_Y (Suc row)) # slots (Suc row) n ns
      else (COL_X col, ROW_Y row) # slots row (col + n) ns)"

section \<open>Operations\<close>

type_synonym pool = "graph_host_series list \<times> ui"

definition new_object :: "ui \<Rightarrow> nat \<times> ui" where
  "new_object u = (ui_next u, u\<lparr>ui_next := Suc (ui_next u)\<rparr>)"

text \<open>\<open>dev_graph_destroy\<close> and \<open>lv_obj_add_flag(\<dots>, LV_OBJ_FLAG_HIDDEN)\<close>.\<close>

definition hide :: "nat \<Rightarrow> ui \<Rightarrow> ui" where
  "hide w u = u\<lparr>ui_shown := (ui_shown u)(w := None)\<rparr>"

definition evict_series :: "double \<Rightarrow> graph_host_series \<Rightarrow> pool \<Rightarrow> pool" where
  "evict_series now s tu =
     (if now - gh_last_sample_ts s < GRAPH_HOST_EVICT_SECONDS then tu
      else case graph_host_find_or_create (gh_host s) (fst tu) of
          (None, t) \<Rightarrow> (snd (graph_host_remove (gh_host s) t), snd tu)
        | (Some i, t) \<Rightarrow>
            (case gh_widget (t ! i) of
               None \<Rightarrow> (snd (graph_host_remove (gh_host s) t), snd tu)
             | Some w \<Rightarrow> (snd (graph_host_remove (gh_host s) (t[i := (t ! i)\<lparr>gh_widget := None\<rparr>])),
                          hide w (snd tu))))"

definition evict_graphs :: "double \<Rightarrow> pool \<Rightarrow> pool" where
  "evict_graphs now tu = fold (evict_series now) (graph_host_snapshot GRAPH_HOST_MAX (fst tu)) tu"

definition strcmp :: "string \<Rightarrow> string \<Rightarrow> int" where
  "strcmp a b = strncmp (Suc (max (length a) (length b))) a b"

definition sorted_hosts :: "graph_host_series list \<Rightarrow> string list" where
  "sorted_hosts t =
     map gh_host (c_isort (\<lambda>a b. 0 < strcmp (gh_host a) (gh_host b)) (graph_host_snapshot GRAPH_HOST_MAX t))"

definition graph_enabled_for :: "dev_cmd_state \<Rightarrow> string \<Rightarrow> bool" where
  "graph_enabled_for cmd h =
     (case find_index (\<lambda>(n, e). streq HOSTNAME_LEN n h) (dc_graph_hosts cmd) of
        None \<Rightarrow> True
      | Some i \<Rightarrow> snd (dc_graph_hosts cmd ! i))"

text \<open>The requests, with the host name as payload (\<open>None\<close> for the network card).\<close>

definition pool_requests :: "dev_cmd_state \<Rightarrow> string list \<Rightarrow> string option widget_request list" where
  "pool_requests cmd hosts =
     (if dc_graph_enabled cmd
      then map (\<lambda>h. \<lparr>wr_kind = WIDGET_GRAPH, wr_cells = WIDGET_CELLS_GRAPH, wr_payload = Some h\<rparr>)
             (filter (graph_enabled_for cmd) hosts)
      else []) @
     [\<lparr>wr_kind = WIDGET_NETCARD, wr_cells = WIDGET_CELLS_NETCARD, wr_payload = None\<rparr>]"

text \<open>The graph of a placed host: made when it is missing, shown at its place, fed and marked.\<close>

definition paint_graph :: "double \<Rightarrow> graph_host_series \<Rightarrow> nat \<Rightarrow> ui \<Rightarrow> ui" where
  "paint_graph now s w u =
     u\<lparr>ui_fed := (if dt_valid (gh_telemetry s) then (ui_fed u)(w := gh_telemetry s # ui_fed u w) else ui_fed u),
       ui_stale_mark := (ui_stale_mark u)(w := graph_host_is_stale s now)\<rparr>"

definition show_graph :: "double \<Rightarrow> string \<Rightarrow> int \<times> int \<Rightarrow> pool \<Rightarrow> pool" where
  "show_graph now h xy tu =
     (case graph_host_find_or_create h (fst tu) of
        (None, t) \<Rightarrow> (t, snd tu)
      | (Some i, t) \<Rightarrow>
          (case (case gh_widget (t ! i) of Some w \<Rightarrow> (w, snd tu) | None \<Rightarrow> new_object (snd tu)) of (w, u) \<Rightarrow>
             let s = (t ! i)\<lparr>gh_widget := Some w\<rparr>
             in (t[i := s], paint_graph now s w (u\<lparr>ui_shown := (ui_shown u)(w := Some xy)\<rparr>))))"

definition show_netcard :: "double \<Rightarrow> int \<times> int \<Rightarrow> pool \<Rightarrow> pool" where
  "show_netcard now xy tu =
     (fst tu, (snd tu)\<lparr>ui_shown := (ui_shown (snd tu))(ui_netcard (snd tu) := Some xy), ui_net_painted := Some now\<rparr>)"

definition show_placed ::
  "double \<Rightarrow> string option widget_request \<times> int \<times> int \<Rightarrow> pool \<Rightarrow> pool" where
  "show_placed now p tu =
     (case p of (r, xy) \<Rightarrow>
        (case wr_kind r of
           WIDGET_GRAPH \<Rightarrow> (case wr_payload r of None \<Rightarrow> tu | Some h \<Rightarrow> show_graph now h xy tu)
         | WIDGET_NETCARD \<Rightarrow> show_netcard now xy tu
         | _ \<Rightarrow> tu))"

definition hide_graph :: "string \<Rightarrow> pool \<Rightarrow> pool" where
  "hide_graph h tu =
     (case graph_host_find_or_create h (fst tu) of
        (None, t) \<Rightarrow> (t, snd tu)
      | (Some i, t) \<Rightarrow> (t, case gh_widget (t ! i) of None \<Rightarrow> snd tu | Some w \<Rightarrow> hide w (snd tu)))"

definition place_pool :: "double \<Rightarrow> dev_cmd_state \<Rightarrow> pool \<Rightarrow> pool" where
  "place_pool now cmd tu =
     (let hosts = sorted_hosts (fst tu);
          placed = layout_pool_place (pool_requests cmd hosts) (GRAPH_HOST_MAX + 4);
          tu1 = fold (show_placed now) (zip placed (slots 1 0 (map cells placed))) tu;
          host_placed = (\<lambda>h. list_ex (\<lambda>r. wr_kind r = WIDGET_GRAPH \<and> wr_payload r = Some h) placed);
          tu2 = fold hide_graph (filter (\<lambda>h. \<not> host_placed h) hosts) tu1
      in if list_ex (\<lambda>r. wr_kind r = WIDGET_NETCARD) placed then tu2
         else (fst tu2, hide (ui_netcard (snd tu2)) (snd tu2)))"

section \<open>What a host shows\<close>

definition look :: "graph_host_series list \<Rightarrow> string \<Rightarrow> graph_host_series option" where
  "look t = map_of (map (\<lambda>s. (gh_host s, s)) t)"

definition widget_of :: "graph_host_series list \<Rightarrow> string \<Rightarrow> nat option" where
  "widget_of t h = Option.bind (look t h) gh_widget"

definition shown_at :: "pool \<Rightarrow> string \<Rightarrow> (int \<times> int) option" where
  "shown_at tu h = Option.bind (widget_of (fst tu) h) (ui_shown (snd tu))"

text \<open>No two series share a widget, and none has the network card's.\<close>

definition pool_inv :: "pool \<Rightarrow> bool" where
  "pool_inv tu \<longleftrightarrow> graph_inv (fst tu) \<and> ui_netcard (snd tu) < ui_next (snd tu) \<and>
     (\<forall>h w. widget_of (fst tu) h = Some w \<longrightarrow> w < ui_next (snd tu) \<and> w \<noteq> ui_netcard (snd tu) \<and>
        (\<forall>h'. widget_of (fst tu) h' = Some w \<longrightarrow> h' = h))"

lemma look_update:
  assumes "distinct (map gh_host t)" "i < length t" "gh_host s = gh_host (t ! i)"
  shows "look (t[i := s]) = (look t)(gh_host s \<mapsto> s)"
  using assms
proof (induction t arbitrary: i)
  case (Cons x t)
  show ?case
  proof (cases i)
    case 0
    then show ?thesis using Cons.prems by (simp add: look_def fun_eq_iff)
  next
    case (Suc j)
    then have "gh_host s \<noteq> gh_host x" using Cons.prems by (metis distinct.simps(2) length_map list.simps(9)
        nth_Cons_Suc nth_map nth_mem Suc_less_eq length_Cons)
    then show ?thesis using Cons Suc by (auto simp: look_def fun_eq_iff)
  qed
qed simp

lemma known_host:
  assumes "graph_inv t" "h \<in> gh_host ` set t"
  obtains i where "graph_host_find_or_create h t = (Some i, t)" "i < length t" "gh_host (t ! i) = h"
proof -
  have m: "graph_matches h s \<longleftrightarrow> gh_host s = h" if "s \<in> set t" for s
    using assms(1) that by (simp add: graph_inv_def graph_matches_key)
  have "h \<noteq> []" using assms by (auto simp: graph_inv_def graph_key_ok_def)
  moreover obtain i where i: "find_index (graph_matches h) t = Some i"
    using assms(2) m by (cases "find_index (graph_matches h) t") (auto simp: find_index_None)
  ultimately show thesis
    using that [of i] find_index_lt [OF i] find_index_sat [OF i] m [of "t ! i"]
    by (simp add: graph_host_find_or_create_def)
qed

lemma look_nth: "distinct (map gh_host t) \<Longrightarrow> i < length t \<Longrightarrow> look t (gh_host (t ! i)) = Some (t ! i)"
  by (auto simp: look_def comp_def intro!: map_of_is_SomeI)

lemma map_host_update: "gh_host s = gh_host (t ! i) \<Longrightarrow> map gh_host (t[i := s]) = map gh_host t"
  by (metis list_update_id map_update)

lemma show_graph_known:
  assumes inv: "pool_inv tu" and h: "h \<in> gh_host ` set (fst tu)"
  shows "pool_inv (show_graph now h xy tu)"
    "shown_at (show_graph now h xy tu) h' = (if h' = h then Some xy else shown_at tu h')"
    "map gh_host (fst (show_graph now h xy tu)) = map gh_host (fst tu)"
    "ui_netcard (snd (show_graph now h xy tu)) = ui_netcard (snd tu)"
    "ui_shown (snd (show_graph now h xy tu)) (ui_netcard (snd tu)) = ui_shown (snd tu) (ui_netcard (snd tu))"
proof -
  obtain t u where tu: "tu = (t, u)" by (rule prod.exhaust)
  note inv' = inv [unfolded tu pool_inv_def fst_conv snd_conv]
  have g: "graph_inv t" and d: "distinct (map gh_host t)"
    using inv by (simp_all add: pool_inv_def graph_inv_def tu)
  obtain i where i: "graph_host_find_or_create h t = (Some i, t)" "i < length t" "gh_host (t ! i) = h"
    using known_host [OF g] h by (auto simp: tu)
  have wh: "widget_of t h = gh_widget (t ! i)" using look_nth [OF d i(2)] i(3) by (simp add: widget_of_def)
  define w where "w = (case widget_of t h of Some w \<Rightarrow> w | None \<Rightarrow> ui_next u)"
  define nx where "nx = (case widget_of t h of Some w \<Rightarrow> ui_next u | None \<Rightarrow> Suc (ui_next u))"
  define s where "s = (t ! i)\<lparr>gh_widget := Some w\<rparr>"
  obtain u' where e: "show_graph now h xy tu = (t[i := s], u')" and u': "ui_next u' = nx"
      "ui_netcard u' = ui_netcard u" "ui_shown u' = (ui_shown u)(w := Some xy)"
    using i(1) by (cases "widget_of t h")
      (auto simp: wh [symmetric] show_graph_def tu w_def nx_def s_def new_object_def paint_graph_def Let_def)
  have sh: "gh_host s = h" using i(3) by (simp add: s_def)
  have wid: "widget_of (t[i := s]) = (widget_of t)(h := Some w)"
    using look_update [OF d i(2), of s] sh i(3) by (auto simp: widget_of_def fun_eq_iff s_def)
  have fresh: "widget_of t h' = Some w \<Longrightarrow> h' = h" for h'
    using inv by (cases "widget_of t h") (force simp: pool_inv_def tu w_def)+
  have lt: "w < nx" "w \<noteq> ui_netcard u" "ui_next u \<le> nx"
    using inv by (cases "widget_of t h"; auto simp: pool_inv_def tu w_def nx_def)+
  show "pool_inv (show_graph now h xy tu)"
    using inv' fresh lt graph_inv_update [OF g, of "\<lambda>s. s\<lparr>gh_widget := Some w\<rparr>" i]
    unfolding e pool_inv_def s_def [symmetric]
    by (auto simp: wid u' split: if_splits intro: less_le_trans [OF _ lt(3)])
  show "shown_at (show_graph now h xy tu) h' = (if h' = h then Some xy else shown_at tu h')"
    using fresh [of h'] unfolding e shown_at_def by (cases "widget_of t h'") (auto simp: wid u' tu)
  show "map gh_host (fst (show_graph now h xy tu)) = map gh_host (fst tu)"
    unfolding e using sh i(3) by (simp add: tu map_host_update)
  show "ui_netcard (snd (show_graph now h xy tu)) = ui_netcard (snd tu)"
    "ui_shown (snd (show_graph now h xy tu)) (ui_netcard (snd tu)) = ui_shown (snd tu) (ui_netcard (snd tu))"
    unfolding e using lt by (simp_all add: tu u')
qed

lemma hide_graph_known:
  assumes inv: "pool_inv tu" and h: "h \<in> gh_host ` set (fst tu)"
  shows "pool_inv (hide_graph h tu)" "fst (hide_graph h tu) = fst tu"
    "shown_at (hide_graph h tu) h' = (if h' = h then None else shown_at tu h')"
    "ui_netcard (snd (hide_graph h tu)) = ui_netcard (snd tu)"
    "ui_shown (snd (hide_graph h tu)) (ui_netcard (snd tu)) = ui_shown (snd tu) (ui_netcard (snd tu))"
proof -
  have g: "graph_inv (fst tu)" and d: "distinct (map gh_host (fst tu))"
    using inv by (simp_all add: pool_inv_def graph_inv_def)
  obtain i where i: "graph_host_find_or_create h (fst tu) = (Some i, fst tu)" "i < length (fst tu)" "gh_host (fst tu ! i) = h"
    by (rule known_host [OF g h])
  have w: "widget_of (fst tu) h = gh_widget (fst tu ! i)"
    using look_nth [OF d i(2)] i(3) by (simp add: widget_of_def)
  have e: "hide_graph h tu = (fst tu, case widget_of (fst tu) h of None \<Rightarrow> snd tu | Some w \<Rightarrow> hide w (snd tu))"
    using i(1) w by (simp add: hide_graph_def)
  show "pool_inv (hide_graph h tu)" "fst (hide_graph h tu) = fst tu"
    "ui_netcard (snd (hide_graph h tu)) = ui_netcard (snd tu)"
    "ui_shown (snd (hide_graph h tu)) (ui_netcard (snd tu)) = ui_shown (snd tu) (ui_netcard (snd tu))"
    using inv unfolding e by (auto simp: pool_inv_def hide_def split: option.split)
  show "shown_at (hide_graph h tu) h' = (if h' = h then None else shown_at tu h')"
    using inv unfolding e shown_at_def
    by (cases "widget_of (fst tu) h'"; cases "widget_of (fst tu) h") (auto simp: hide_def pool_inv_def)
qed

text \<open>Showing the graphs of distinct known hosts, one slot each; hiding others.\<close>

lemma show_graphs:
  fixes now :: double
  assumes "pool_inv tu" "set hs \<subseteq> gh_host ` set (fst tu)" "distinct hs" "length xys = length hs"
  defines "tu' \<equiv> fold (\<lambda>(h, xy). show_graph now h xy) (zip hs xys) tu"
  shows "pool_inv tu' \<and> map gh_host (fst tu') = map gh_host (fst tu) \<and>
    ui_netcard (snd tu') = ui_netcard (snd tu) \<and>
    ui_shown (snd tu') (ui_netcard (snd tu)) = ui_shown (snd tu) (ui_netcard (snd tu)) \<and>
    (\<forall>h. shown_at tu' h = (case map_of (zip hs xys) h of Some xy \<Rightarrow> Some xy | None \<Rightarrow> shown_at tu h))"
  using assms(1-4) unfolding tu'_def
proof (induction hs xys arbitrary: tu rule: list_induct2')
  case (4 h hs xy xys)
  let ?tu = "show_graph now h xy tu"
  have h: "h \<in> gh_host ` set (fst tu)" using 4(3) by simp
  note s = show_graph_known [OF 4(2) h, of now xy]
  have "gh_host ` set (fst ?tu) = gh_host ` set (fst tu)" using s(3) by (metis list.set_map)
  then have IH: "pool_inv (fold (\<lambda>(h, xy). show_graph now h xy) (zip hs xys) ?tu) \<and>
      map gh_host (fst (fold (\<lambda>(h, xy). show_graph now h xy) (zip hs xys) ?tu)) = map gh_host (fst ?tu) \<and>
      ui_netcard (snd (fold (\<lambda>(h, xy). show_graph now h xy) (zip hs xys) ?tu)) = ui_netcard (snd ?tu) \<and>
      ui_shown (snd (fold (\<lambda>(h, xy). show_graph now h xy) (zip hs xys) ?tu)) (ui_netcard (snd ?tu)) =
        ui_shown (snd ?tu) (ui_netcard (snd ?tu)) \<and>
      (\<forall>h. shown_at (fold (\<lambda>(h, xy). show_graph now h xy) (zip hs xys) ?tu) h =
        (case map_of (zip hs xys) h of Some xy \<Rightarrow> Some xy | None \<Rightarrow> shown_at ?tu h))"
    using 4 s by (intro 4(1)) simp_all
  have "map_of (zip hs xys) h = None" using 4(4,5) by (simp add: map_of_zip_is_None)
  then show ?case using IH s by (simp split: option.split)
qed simp_all

lemma hide_graphs:
  assumes "pool_inv tu" "set hs \<subseteq> gh_host ` set (fst tu)"
  shows "pool_inv (fold hide_graph hs tu) \<and> fst (fold hide_graph hs tu) = fst tu \<and>
    ui_netcard (snd (fold hide_graph hs tu)) = ui_netcard (snd tu) \<and>
    ui_shown (snd (fold hide_graph hs tu)) (ui_netcard (snd tu)) = ui_shown (snd tu) (ui_netcard (snd tu)) \<and>
    (\<forall>h. shown_at (fold hide_graph hs tu) h = (if h \<in> set hs then None else shown_at tu h))"
  using assms
proof (induction hs arbitrary: tu)
  case (Cons h hs)
  have h: "h \<in> gh_host ` set (fst tu)" using Cons.prems by simp
  note s = hide_graph_known [OF Cons.prems(1) h]
  show ?case using Cons.IH [OF s(1)] Cons.prems(2) s by auto
qed simp

section \<open>The placement\<close>

lemma strcmp_pos: "0 < strcmp a b \<longleftrightarrow> b < a"
  by (simp add: strcmp_def strncmp_pos)

interpretation by_host: isort_order "\<lambda>a b. 0 < strcmp (gh_host a) (gh_host b)"
  by unfold_locales (auto simp: strcmp_pos)

lemma sorted_hosts_props:
  assumes "graph_inv t"
  shows "mset (sorted_hosts t) = mset (map gh_host t)" "sorted (sorted_hosts t)" "distinct (sorted_hosts t)"
proof -
  have snap: "graph_host_snapshot GRAPH_HOST_MAX t = t" using assms by (simp add: graph_inv_def graph_host_snapshot_def)
  show m: "mset (sorted_hosts t) = mset (map gh_host t)" by (simp add: sorted_hosts_def snap)
  show "sorted (sorted_hosts t)"
    using by_host.sorted_isort [of t] by (simp add: sorted_hosts_def snap sorted_map strcmp_pos not_less)
  show "distinct (sorted_hosts t)"
    using assms m by (metis graph_inv_def mset_eq_imp_distinct_iff)
qed

text \<open>The hosts with a graph, in alphabetical order.\<close>

definition wanted :: "dev_cmd_state \<Rightarrow> graph_host_series list \<Rightarrow> string list" where
  "wanted cmd t = (if dc_graph_enabled cmd then filter (graph_enabled_for cmd) (sorted_hosts t) else [])"

abbreviation graph_request :: "string \<Rightarrow> string option widget_request" where
  "graph_request h \<equiv> \<lparr>wr_kind = WIDGET_GRAPH, wr_cells = WIDGET_CELLS_GRAPH, wr_payload = Some h\<rparr>"

abbreviation net_request :: "string option widget_request" where
  "net_request \<equiv> \<lparr>wr_kind = WIDGET_NETCARD, wr_cells = WIDGET_CELLS_NETCARD, wr_payload = None\<rparr>"

lemma sort_key_sorted: "sorted (map f xs) \<Longrightarrow> sort_key f xs = xs"
  by (induction xs) (simp_all add: insort_is_Cons)

lemma pool_placed:
  "layout_pool_place (pool_requests cmd (sorted_hosts t)) (GRAPH_HOST_MAX + 4) =
     map graph_request (take 6 (wanted cmd t)) @ (if length (wanted cmd t) < 6 then [net_request] else [])"
proof -
  let ?r = "map graph_request (wanted cmd t) @ [net_request]"
  have r: "pool_requests cmd (sorted_hosts t) = ?r" by (simp add: pool_requests_def wanted_def)
  have "sorted (map wr_kind ?r)" by (auto simp: sorted_append less_eq_widget_kind_def comp_def map_replicate_const)
  then have "sort_key wr_kind ?r = ?r" by (rule sort_key_sorted)
  moreover have "\<forall>q \<in> set ?r. cells q = 2" by (auto simp: cells_def)
  then have "layout_pool_place ?r 12 = take (min 6 12) (sort_key wr_kind ?r)"
    by (rule layout_pool_first_six)
  ultimately show ?thesis by (simp add: r take_map)
qed

lemma slots_twos:
  assumes "n \<le> 6"
  shows "slots 1 0 (replicate n 2) =
    take n [(24, 628), (1288, 628), (2552, 628), (24, 1256), (1288, 1256), (2552, 1256)]"
proof -
  have "n = 0 \<or> n = 1 \<or> n = 2 \<or> n = 3 \<or> n = 4 \<or> n = 5 \<or> n = 6" using assms by linarith
  then show ?thesis by (elim disjE) (simp_all add: numeral_eq_Suc COL_X_def ROW_Y_def)
qed

definition slot :: "nat \<Rightarrow> int \<times> int" where
  "slot k = (PAD_LEFT + 2 * UNIT_W * int (k mod 3), UNIT_H * (1 + int (k div 3)))"

lemma slot_list: "[(24, 628), (1288, 628), (2552, 628), (24, 1256), (1288, 1256), (2552, 1256)] = map slot [0..<6]"
  by (simp add: slot_def upt_rec)

lemma slots_slot: "n \<le> 6 \<Longrightarrow> slots 1 0 (replicate n 2) = map slot [0..<n]"
  by (simp only: slots_twos slot_list take_map) simp

text \<open>The placement in terms of the wanted hosts.\<close>

lemma fold_show_placed:
  "length xys = length hs \<Longrightarrow>
     fold (show_placed now) (zip (map graph_request hs) xys) tu = fold (\<lambda>(h, xy). show_graph now h xy) (zip hs xys) tu"
  by (induction hs xys arbitrary: tu rule: list_induct2') (simp_all add: show_placed_def)

lemma hosts_placed:
  "list_ex (\<lambda>r. wr_kind r = WIDGET_GRAPH \<and> wr_payload r = Some h) (map graph_request hs) \<longleftrightarrow> h \<in> set hs"
  "\<not> list_ex (\<lambda>r. wr_kind r = WIDGET_NETCARD) (map graph_request hs)"
  by (induction hs) auto

lemma place_pool_fold:
  fixes cmd :: dev_cmd_state and now :: double
  assumes "graph_inv (fst tu)"
  defines "hs \<equiv> take 6 (wanted cmd (fst tu))"
  defines "shown_hosts \<equiv> fold (\<lambda>(h, xy). show_graph now h xy) (zip hs (map slot [0..<length hs])) tu"
  defines "others \<equiv> filter (\<lambda>h. h \<notin> set hs) (sorted_hosts (fst tu))"
  shows "place_pool now cmd tu =
    (if length (wanted cmd (fst tu)) < 6
     then fold hide_graph others (show_netcard now (slot (length hs)) shown_hosts)
     else (let tu2 = fold hide_graph others shown_hosts in (fst tu2, hide (ui_netcard (snd tu2)) (snd tu2))))"
proof -
  let ?few = "length (wanted cmd (fst tu)) < 6"
  let ?placed = "map graph_request hs @ (if ?few then [net_request] else [])"
  have n: "length hs = min 6 (length (wanted cmd (fst tu)))" by (simp add: hs_def)
  have p: "layout_pool_place (pool_requests cmd (sorted_hosts (fst tu))) (GRAPH_HOST_MAX + 4) = ?placed"
    unfolding hs_def by (rule pool_placed)
  have "map cells ?placed = replicate (length ?placed) 2"
    by (simp add: cells_def comp_def map_replicate_const replicate_append_same)
  moreover have "length ?placed \<le> 6" using n by simp
  ultimately have sl: "slots 1 0 (map cells ?placed) = map slot [0..<length ?placed]"
    by (simp only: slots_slot)
  have "fold (show_placed now) (zip ?placed (map slot [0..<length ?placed])) tu =
      (if ?few then show_netcard now (slot (length hs)) shown_hosts else shown_hosts)"
    by (simp add: fold_show_placed shown_hosts_def) (simp add: show_placed_def)
  moreover note hosts_placed
  ultimately show ?thesis
    unfolding place_pool_def Let_def p sl others_def by (cases ?few) simp_all
qed

lemma show_netcard_known:
  assumes "pool_inv tu"
  shows "pool_inv (show_netcard now xy tu)" "fst (show_netcard now xy tu) = fst tu"
    "shown_at (show_netcard now xy tu) h = shown_at tu h"
    "ui_netcard (snd (show_netcard now xy tu)) = ui_netcard (snd tu)"
    "ui_shown (snd (show_netcard now xy tu)) (ui_netcard (snd tu)) = Some xy"
  using assms by (auto simp: show_netcard_def pool_inv_def shown_at_def bind_eq_Some_conv
      split: option.split intro!: Option.bind_cong)

lemma hide_netcard_known:
  assumes "pool_inv tu"
  shows "pool_inv (fst tu, hide (ui_netcard (snd tu)) (snd tu))"
    "shown_at (fst tu, hide (ui_netcard (snd tu)) (snd tu)) h = shown_at tu h"
    "ui_shown (hide (ui_netcard (snd tu)) (snd tu)) (ui_netcard (snd tu)) = None"
  using assms by (auto simp: hide_def pool_inv_def shown_at_def intro!: Option.bind_cong)

lemma zip_upt: "length xs \<le> n \<Longrightarrow> zip xs (map f [0..<n]) = zip xs (map f [0..<length xs])"
  by (rule nth_equalityI) simp_all

section \<open>Properties\<close>

text \<open>Two rectangles of two cells do not meet, and stand in rows two and three of the screen.\<close>

definition apart :: "int \<times> int \<Rightarrow> int \<times> int \<Rightarrow> bool" where
  "apart p q \<longleftrightarrow> fst p + 2 * UNIT_W \<le> fst q \<or> fst q + 2 * UNIT_W \<le> fst p \<or>
     snd p + UNIT_H \<le> snd q \<or> snd q + UNIT_H \<le> snd p"

definition in_pool_rows :: "int \<times> int \<Rightarrow> bool" where
  "in_pool_rows p \<longleftrightarrow> 0 \<le> fst p \<and> fst p + 2 * UNIT_W \<le> SCR_W \<and> UNIT_H \<le> snd p \<and> snd p + UNIT_H \<le> SCR_H - FOOTER_H"

lemma slots_apart: "i < 6 \<Longrightarrow> j < 6 \<Longrightarrow> i \<noteq> j \<Longrightarrow> apart (slot i) (slot j)"
proof -
  have "\<forall>i \<in> {0,1,2,3,4,5}. \<forall>j \<in> {0,1,2,3,4,5}. i \<noteq> j \<longrightarrow> apart (slot i) (slot j)"
    by (simp add: apart_def slot_def)
  moreover assume "i < 6" "j < 6" "i \<noteq> j"
  moreover have "k \<in> {0,1,2,3,4,5}" if "k < 6" for k :: nat using that by (simp, linarith)
  ultimately show ?thesis by blast
qed

lemma slots_on_screen: "i < 6 \<Longrightarrow> in_pool_rows (slot i)"
proof -
  have "\<forall>i \<in> {0,1,2,3,4,5}. in_pool_rows (slot i)" by (simp add: in_pool_rows_def slot_def)
  moreover assume "i < 6"
  moreover have "k \<in> {0,1,2,3,4,5}" if "k < 6" for k :: nat using that by (simp, linarith)
  ultimately show ?thesis by blast
qed

lemma pool_placed_all:
  assumes "pool_inv tu"
  shows "pool_inv (place_pool now cmd tu) \<and>
    map gh_host (fst (place_pool now cmd tu)) = map gh_host (fst tu) \<and>
    (\<forall>h \<in> gh_host ` set (fst tu). shown_at (place_pool now cmd tu) h =
       map_of (zip (take 6 (wanted cmd (fst tu))) (map slot [0..<6])) h) \<and>
    ui_shown (snd (place_pool now cmd tu)) (ui_netcard (snd tu)) =
      (if length (wanted cmd (fst tu)) < 6 then Some (slot (length (wanted cmd (fst tu)))) else None) \<and>
    (\<forall>i < 6. in_pool_rows (slot i) \<and> (\<forall>j < 6. i \<noteq> j \<longrightarrow> apart (slot i) (slot j)))"
proof -
  have slots: "\<forall>i < 6. in_pool_rows (slot i) \<and> (\<forall>j < 6. i \<noteq> j \<longrightarrow> apart (slot i) (slot j))"
    using slots_on_screen slots_apart by blast
  define hs where "hs = take 6 (wanted cmd (fst tu))"
  define xys where "xys = map slot [0..<length hs]"
  define others where "others = filter (\<lambda>h. h \<notin> set hs) (sorted_hosts (fst tu))"
  define tu1 where "tu1 = fold (\<lambda>(h, xy). show_graph now h xy) (zip hs xys) tu"
  have g: "graph_inv (fst tu)" using assms by (simp add: pool_inv_def)
  note sh = sorted_hosts_props [OF g]
  have sset: "set (sorted_hosts (fst tu)) = gh_host ` set (fst tu)"
    using sh(1) by (metis list.set_map set_mset_mset)
  have wsub: "set (wanted cmd (fst tu)) \<subseteq> gh_host ` set (fst tu)" and wd: "distinct (wanted cmd (fst tu))"
    using sset sh(3) by (auto simp: wanted_def)
  have hsub: "set hs \<subseteq> gh_host ` set (fst tu)" unfolding hs_def using wsub set_take_subset by fast
  have hd: "distinct hs" using wd by (simp add: hs_def)
  have len: "length xys = length hs" by (simp add: xys_def)
  from show_graphs [OF assms hsub hd len, of now, folded tu1_def]
  have inv1: "pool_inv tu1" and hosts1: "map gh_host (fst tu1) = map gh_host (fst tu)"
    and net1: "ui_netcard (snd tu1) = ui_netcard (snd tu)"
    and at1: "shown_at tu1 h = (case map_of (zip hs xys) h of Some xy \<Rightarrow> Some xy | None \<Rightarrow> shown_at tu h)" for h
    by simp_all
  have "gh_host ` set (fst tu1) = gh_host ` set (fst tu)" using hosts1 by (metis list.set_map)
  then have osub: "set others \<subseteq> gh_host ` set (fst tu1)" using sset by (auto simp: others_def)
  have z: "zip hs (map slot [0..<6]) = zip hs xys" unfolding xys_def by (rule zip_upt) (simp add: hs_def)
  have at: "(if h \<in> set others then None else shown_at tu1 h) = map_of (zip hs xys) h"
    if "h \<in> gh_host ` set (fst tu)" for h
  proof (cases "h \<in> set hs")
    case True
    then obtain xy where "map_of (zip hs xys) h = Some xy"
      using map_of_zip_is_Some [OF len [symmetric], of h] by blast
    then show ?thesis using True at1 [of h] by (simp add: others_def)
  next
    case False
    then have "map_of (zip hs xys) h = None" using map_of_zip_is_None [OF len [symmetric], of h] by simp
    moreover have "h \<in> set others" using False that sset by (simp add: others_def)
    ultimately show ?thesis by simp
  qed
  show ?thesis
  proof (cases "length (wanted cmd (fst tu)) < 6")
    case True
    define tu2 where "tu2 = show_netcard now (slot (length hs)) tu1"
    note n = show_netcard_known [OF inv1, of now "slot (length hs)", folded tu2_def]
    have osub2: "set others \<subseteq> gh_host ` set (fst tu2)" using osub n(2) by simp
    have e: "place_pool now cmd tu = fold hide_graph others tu2"
      using place_pool_fold [OF g, of now cmd] True by (simp add: hs_def others_def tu2_def tu1_def xys_def)
    have "length hs = length (wanted cmd (fst tu))" using True by (simp add: hs_def)
    moreover have "\<forall>h \<in> gh_host ` set (fst tu). shown_at (fold hide_graph others tu2) h = map_of (zip hs xys) h"
      using hide_graphs [OF n(1) osub2] n(3) at by metis
    ultimately show ?thesis unfolding e hs_def [symmetric] z
      using hide_graphs [OF n(1) osub2] n hosts1 net1 True slots by (auto simp del: set_filter)
  next
    case False
    define tu2 where "tu2 = fold hide_graph others tu1"
    note n = hide_graphs [OF inv1 osub, folded tu2_def]
    have e: "place_pool now cmd tu = (fst tu2, hide (ui_netcard (snd tu2)) (snd tu2))"
      using place_pool_fold [OF g, of now cmd] False
      by (simp add: Let_def hs_def others_def tu2_def tu1_def xys_def)
    have inv2: "pool_inv tu2" using n by simp
    have "\<forall>h \<in> gh_host ` set (fst tu). shown_at (fst tu2, hide (ui_netcard (snd tu2)) (snd tu2)) h = map_of (zip hs xys) h"
      using hide_netcard_known(2) [OF inv2] n at by metis
    then show ?thesis unfolding e hs_def [symmetric] z
      using hide_netcard_known [OF inv2] n hosts1 net1 False slots by auto
  qed
qed


text \<open>Two hosts, one of them switched off; the network card has the number 0.\<close>

definition two_graphs :: "graph_host_series list" where
  "two_graphs = [(new_graph_host ''kubs0'')\<lparr>gh_last_sample_ts := 990\<rparr>, (new_graph_host ''kai'')\<lparr>gh_last_sample_ts := 100\<rparr>]"

definition one_off :: dev_cmd_state where
  "one_off = blank_dev_cmd\<lparr>dc_graph_enabled := True, dc_graph_hosts := [(''kai'', False)]\<rparr>"

lemma two_graphs_inv: "pool_inv (two_graphs, ui_start)"
  by (simp add: pool_inv_def graph_inv_def two_graphs_def new_graph_host_def graph_key_ok_def ui_start_def
      widget_of_def look_def)

lemma two_graphs_sorted: "sorted_hosts two_graphs = [''kai'', ''kubs0'']"
  by code_simp


section \<open>Eviction\<close>

lemma look_filter: "look (filter (\<lambda>s. gh_host s \<noteq> h) t) = (look t)(h := None)"
  by (induction t) (auto simp: look_def fun_eq_iff)

lemma evict_known:
  assumes inv: "pool_inv tu" and s: "s \<in> set (fst tu)" and old: "\<not> now - gh_last_sample_ts s < GRAPH_HOST_EVICT_SECONDS"
  shows "fst (evict_series now s tu) = filter (\<lambda>x. gh_host x \<noteq> gh_host s) (fst tu)"
    "pool_inv (evict_series now s tu)"
    "h \<noteq> gh_host s \<Longrightarrow> shown_at (evict_series now s tu) h = shown_at tu h"
    "ui_shown (snd (evict_series now s tu)) (ui_netcard (snd tu)) = ui_shown (snd tu) (ui_netcard (snd tu))"
    "ui_netcard (snd (evict_series now s tu)) = ui_netcard (snd tu)"
    "\<forall>w. widget_of (fst tu) (gh_host s) = Some w \<longrightarrow> ui_shown (snd (evict_series now s tu)) w = None"
proof -
  have g: "graph_inv (fst tu)" and d: "distinct (map gh_host (fst tu))"
    using inv by (simp_all add: pool_inv_def graph_inv_def)
  obtain i where i: "graph_host_find_or_create (gh_host s) (fst tu) = (Some i, fst tu)" "i < length (fst tu)"
      "gh_host (fst tu ! i) = gh_host s"
    by (rule known_host [OF g, of "gh_host s"]) (use s in auto)
  have w: "widget_of (fst tu) (gh_host s) = gh_widget (fst tu ! i)"
    using look_nth [OF d i(2)] i(3) by (simp add: widget_of_def)
  let ?s = "(fst tu ! i)\<lparr>gh_widget := None\<rparr>"
  have "?s \<in> set ((fst tu)[i := ?s])" using i(2) by (rule set_update_memI)
  moreover have "graph_inv ((fst tu)[i := ?s])"
    using graph_inv_update [OF g, of "\<lambda>s. s\<lparr>gh_widget := None\<rparr>" i] by simp
  ultimately have "snd (graph_host_remove (gh_host s) ((fst tu)[i := ?s])) =
      filter (\<lambda>x. gh_host x \<noteq> gh_host s) ((fst tu)[i := ?s])"
    using remove_in_inv [of "(fst tu)[i := ?s]" ?s] i(3) by simp
  also have "\<dots> = filter (\<lambda>x. gh_host x \<noteq> gh_host s) (fst tu)"
    using i(2,3) by (intro filter_update_skip) simp_all
  finally have e: "evict_series now s tu = (filter (\<lambda>x. gh_host x \<noteq> gh_host s) (fst tu),
      case widget_of (fst tu) (gh_host s) of None \<Rightarrow> snd tu | Some w \<Rightarrow> hide w (snd tu))"
    using old i(1) remove_in_inv [OF g s] by (simp add: evict_series_def w split: option.split)
  show "fst (evict_series now s tu) = filter (\<lambda>x. gh_host x \<noteq> gh_host s) (fst tu)" by (simp add: e)
  have wid: "widget_of (filter (\<lambda>x. gh_host x \<noteq> gh_host s) (fst tu)) h =
      (if h = gh_host s then None else widget_of (fst tu) h)" for h
    by (simp add: widget_of_def look_filter)
  show "pool_inv (evict_series now s tu)"
    using inv graph_inv_filter [OF g] unfolding e
    by (auto simp: pool_inv_def wid hide_def split: option.split if_splits)
  show "h \<noteq> gh_host s \<Longrightarrow> shown_at (evict_series now s tu) h = shown_at tu h"
    using inv unfolding e shown_at_def
    by (cases "widget_of (fst tu) h"; cases "widget_of (fst tu) (gh_host s)") (auto simp: wid hide_def pool_inv_def)
  show "ui_shown (snd (evict_series now s tu)) (ui_netcard (snd tu)) = ui_shown (snd tu) (ui_netcard (snd tu))"
    "ui_netcard (snd (evict_series now s tu)) = ui_netcard (snd tu)"
    "\<forall>w. widget_of (fst tu) (gh_host s) = Some w \<longrightarrow> ui_shown (snd (evict_series now s tu)) w = None"
    using inv unfolding e by (auto simp: hide_def pool_inv_def split: option.split)
qed

definition silent :: "double \<Rightarrow> graph_host_series \<Rightarrow> bool" where
  "silent now s \<longleftrightarrow> GRAPH_HOST_EVICT_SECONDS \<le> now - gh_last_sample_ts s"

lemma evict_fold_known:
  fixes now :: double
  assumes "pool_inv tu" "set ss \<subseteq> set (fst tu)" "distinct (map gh_host ss)"
  defines "gone \<equiv> gh_host ` set (filter (silent now) ss)"
  shows "fst (fold (evict_series now) ss tu) = filter (\<lambda>x. gh_host x \<notin> gone) (fst tu) \<and>
    pool_inv (fold (evict_series now) ss tu) \<and>
    (\<forall>h. h \<notin> gone \<longrightarrow> shown_at (fold (evict_series now) ss tu) h = shown_at tu h) \<and>
    ui_shown (snd (fold (evict_series now) ss tu)) (ui_netcard (snd tu)) = ui_shown (snd tu) (ui_netcard (snd tu))"
  using assms(1-3) unfolding gone_def
proof (induction ss arbitrary: tu)
  case (Cons s ss)
  show ?case
  proof (cases "now - gh_last_sample_ts s < GRAPH_HOST_EVICT_SECONDS")
    case True
    then have "evict_series now s tu = tu" "\<not> silent now s" by (simp_all add: evict_series_def silent_def)
    then show ?thesis using Cons.IH [of tu] Cons.prems by simp
  next
    case False
    have s: "s \<in> set (fst tu)" using Cons.prems by simp
    note e = evict_known [OF Cons.prems(1) s False]
    have "\<forall>x \<in> set ss. gh_host x \<noteq> gh_host s" using Cons.prems(3) by (auto simp: image_iff)
    then have "set ss \<subseteq> set (fst (evict_series now s tu))" using Cons.prems(2) by (auto simp: e(1))
    with Cons.IH [OF e(2)] Cons.prems(3) e False show ?thesis
      by (auto simp: silent_def not_less intro: filter_cong)
  qed
qed simp

lemma graphs_evicted:
  assumes "pool_inv tu"
  shows "fst (evict_graphs now tu) = filter (\<lambda>s. \<not> silent now s) (fst tu) \<and>
    pool_inv (evict_graphs now tu) \<and>
    (\<forall>s \<in> set (fst tu). \<not> silent now s \<longrightarrow>
       shown_at (evict_graphs now tu) (gh_host s) = shown_at tu (gh_host s)) \<and>
    ui_shown (snd (evict_graphs now tu)) (ui_netcard (snd tu)) = ui_shown (snd tu) (ui_netcard (snd tu))"
proof -
  have g: "graph_inv (fst tu)" and d: "distinct (map gh_host (fst tu))"
    using assms by (simp_all add: pool_inv_def graph_inv_def)
  have snap: "evict_graphs now tu = fold (evict_series now) (fst tu) tu"
    using g by (simp add: evict_graphs_def graph_inv_def graph_host_snapshot_def)
  have "gh_host s \<in> gh_host ` set (filter (silent now) (fst tu)) \<longleftrightarrow> silent now s" if "s \<in> set (fst tu)" for s
    using d that by (auto simp: distinct_map inj_on_def image_iff)
  then show ?thesis
    using evict_fold_known [OF assms subset_refl d, of now] unfolding snap by (auto intro: filter_cong)
qed

text \<open>The first thing a refresh does to the pool is to drop exactly the series that have been silent
  for 300 seconds, in one pass over a snapshot while the table shrinks: the others keep their order,
  their widgets and their places on screen, and no widget is shared or lost from the bookkeeping.\<close>

theorem evict_graphs_exact:
  assumes "pool_inv tu"
  shows "fst (evict_graphs now tu) = filter (\<lambda>s. \<not> silent now s) (fst tu) \<and>
    pool_inv (evict_graphs now tu) \<and>
    (\<forall>s \<in> set (fst tu). \<not> silent now s \<longrightarrow>
       shown_at (evict_graphs now tu) (gh_host s) = shown_at tu (gh_host s)) \<and>
    ui_shown (snd (evict_graphs now tu)) (ui_netcard (snd tu)) = ui_shown (snd tu) (ui_netcard (snd tu))"
  by (rule graphs_evicted [OF assms])

theorem evict_graphs_exact_witness:
  "fst (evict_graphs 1000 (two_graphs, ui_start)) = [(new_graph_host ''kubs0'')\<lparr>gh_last_sample_ts := 990\<rparr>]"
  using evict_graphs_exact [OF two_graphs_inv, of 1000]
  by (simp add: two_graphs_def silent_def)

section \<open>What the graphs are given\<close>

text \<open>The series of a host apart from its widget.\<close>

definition sample_of :: "graph_host_series list \<Rightarrow> string \<Rightarrow> graph_host_series option" where
  "sample_of t h = map_option (\<lambda>s. s\<lparr>gh_widget := None\<rparr>) (look t h)"

text \<open>A pool \<open>q\<close> after the graphs of \<open>hs\<close> were shown in \<open>p\<close>: the log of each graph on the books has grown by the
  sample of its own host, if that is valid and the host was shown, and by nothing else.\<close>

definition fed_own :: "double \<Rightarrow> string set \<Rightarrow> pool \<Rightarrow> pool \<Rightarrow> bool" where
  "fed_own now hs p q \<longleftrightarrow>
     (\<forall>h s. sample_of (fst p) h = Some s \<longrightarrow> sample_of (fst q) h = Some s) \<and>
     (\<forall>h w. widget_of (fst p) h = Some w \<longrightarrow> widget_of (fst q) h = Some w) \<and>
     (\<forall>h w. widget_of (fst q) h = Some w \<longrightarrow> widget_of (fst p) h = Some w \<or> ui_next (snd p) \<le> w) \<and>
     ui_next (snd p) \<le> ui_next (snd q) \<and>
     (\<forall>h w s. widget_of (fst q) h = Some w \<longrightarrow> sample_of (fst p) h = Some s \<longrightarrow>
        ui_fed (snd q) w = (if h \<in> hs \<and> dt_valid (gh_telemetry s) then gh_telemetry s # ui_fed (snd p) w else ui_fed (snd p) w) \<and>
        ui_stale_mark (snd q) w = (if h \<in> hs then graph_host_is_stale s now else ui_stale_mark (snd p) w))"

lemma sample_exists: "h \<in> gh_host ` set t \<Longrightarrow> \<exists>s. sample_of t h = Some s"
proof -
  assume "h \<in> gh_host ` set t"
  then have "look t h \<noteq> None" by (auto simp: look_def map_of_eq_None_iff image_image)
  then show ?thesis by (simp add: sample_of_def)
qed

lemma show_graph_feeds:
  assumes inv: "pool_inv tu" and h: "h \<in> gh_host ` set (fst tu)"
  obtains w s where "sample_of (fst tu) h = Some s" "sample_of (fst (show_graph now h xy tu)) = sample_of (fst tu)"
    "widget_of (fst (show_graph now h xy tu)) = (widget_of (fst tu))(h \<mapsto> w)"
    "widget_of (fst tu) h = None \<and> w = ui_next (snd tu) \<or> widget_of (fst tu) h = Some w"
    "ui_next (snd tu) \<le> ui_next (snd (show_graph now h xy tu))"
    "ui_fed (snd (show_graph now h xy tu)) =
       (if dt_valid (gh_telemetry s) then (ui_fed (snd tu))(w := gh_telemetry s # ui_fed (snd tu) w) else ui_fed (snd tu))"
    "ui_stale_mark (snd (show_graph now h xy tu)) = (ui_stale_mark (snd tu))(w := graph_host_is_stale s now)"
proof -
  obtain t u where tu: "tu = (t, u)" by (rule prod.exhaust)
  have g: "graph_inv t" and d: "distinct (map gh_host t)" using inv by (simp_all add: pool_inv_def graph_inv_def tu)
  obtain i where i: "graph_host_find_or_create h t = (Some i, t)" "i < length t" "gh_host (t ! i) = h"
    using known_host [OF g] h by (auto simp: tu)
  have l: "look t h = Some (t ! i)" using look_nth [OF d i(2)] i(3) by simp
  then have wh: "widget_of t h = gh_widget (t ! i)" by (simp add: widget_of_def)
  define w where "w = (case gh_widget (t ! i) of Some w \<Rightarrow> w | None \<Rightarrow> ui_next u)"
  define s where "s = (t ! i)\<lparr>gh_widget := None\<rparr>"
  define s' where "s' = (t ! i)\<lparr>gh_widget := Some w\<rparr>"
  obtain u' where e: "show_graph now h xy tu = (t[i := s'], u')"
    and u': "ui_fed u' = (if dt_valid (gh_telemetry s) then (ui_fed u)(w := gh_telemetry s # ui_fed u w) else ui_fed u)"
      "ui_stale_mark u' = (ui_stale_mark u)(w := graph_host_is_stale s now)" "ui_next u \<le> ui_next u'"
    using i(1) by (cases "gh_widget (t ! i)")
      (auto simp: show_graph_def tu w_def s_def s'_def new_object_def paint_graph_def Let_def graph_host_is_stale_def)
  have lk: "look (t[i := s']) = (look t)(h \<mapsto> s')" using look_update [OF d i(2), of s'] i(3) by (simp add: s'_def)
  have s'p: "s'\<lparr>gh_widget := None\<rparr> = (t ! i)\<lparr>gh_widget := None\<rparr>" "gh_widget s' = Some w" by (simp_all add: s'_def)
  show thesis
  proof (rule that [of s w])
    show "sample_of (fst tu) h = Some s" by (simp add: sample_of_def tu l s_def)
    show "sample_of (fst (show_graph now h xy tu)) = sample_of (fst tu)"
      using l by (auto simp: e [unfolded tu] tu sample_of_def lk s'p fun_eq_iff)
    show "widget_of (fst (show_graph now h xy tu)) = (widget_of (fst tu))(h \<mapsto> w)"
      by (auto simp: e [unfolded tu] tu widget_of_def lk s'p fun_eq_iff)
    show "widget_of (fst tu) h = None \<and> w = ui_next (snd tu) \<or> widget_of (fst tu) h = Some w"
      by (cases "gh_widget (t ! i)") (simp_all add: tu wh w_def)
  qed (simp_all add: e [unfolded tu] tu u')
qed

lemma show_graphs_feed:
  assumes "pool_inv tu" "set hs \<subseteq> gh_host ` set (fst tu)" "distinct hs" "length xys = length hs"
  shows "fed_own now (set hs) tu (fold (\<lambda>(h, xy). show_graph now h xy) (zip hs xys) tu)"
  using assms
proof (induction hs xys arbitrary: tu rule: list_induct2')
  case 1
  then show ?case by (simp add: fed_own_def)
next
  case (4 h hs xy xys)
  let ?tu = "show_graph now h xy tu"
  have h: "h \<in> gh_host ` set (fst tu)" using 4(3) by simp
  note k = show_graph_known [OF 4(2) h, of now xy]
  have sub: "set hs \<subseteq> gh_host ` set (fst ?tu)" using k(3) 4(3) by (metis list.set_map set_subset_Cons subset_trans)
  define q where "q = fold (\<lambda>(h, xy). show_graph now h xy) (zip hs xys) ?tu"
  have IH: "fed_own now (set hs) ?tu q" unfolding q_def by (rule 4(1) [OF k(1) sub]) (use 4(4,5) in simp_all)
  have qi: "pool_inv q"
    using show_graphs [OF k(1) sub, of xys now] 4(4,5) by (simp add: q_def)
  obtain w s where s: "sample_of (fst tu) h = Some s" "sample_of (fst ?tu) = sample_of (fst tu)"
      "widget_of (fst ?tu) = (widget_of (fst tu))(h \<mapsto> w)" "widget_of (fst tu) h = None \<and> w = ui_next (snd tu) \<or> widget_of (fst tu) h = Some w"
      "ui_next (snd tu) \<le> ui_next (snd ?tu)"
      "ui_fed (snd ?tu) = (if dt_valid (gh_telemetry s) then (ui_fed (snd tu))(w := gh_telemetry s # ui_fed (snd tu) w) else ui_fed (snd tu))"
      "ui_stale_mark (snd ?tu) = (ui_stale_mark (snd tu))(w := graph_host_is_stale s now)"
    by (rule show_graph_feeds [OF 4(2) h, of now xy])
  have qw: "widget_of (fst q) h = Some w" using IH s(3) by (simp add: fed_own_def)
  have h0: "h \<notin> set hs" using 4(4) by simp
  have own: "ui_fed (snd q) w' = (if h' \<in> set (h # hs) \<and> dt_valid (gh_telemetry s') then gh_telemetry s' # ui_fed (snd tu) w' else ui_fed (snd tu) w') \<and>
      ui_stale_mark (snd q) w' = (if h' \<in> set (h # hs) then graph_host_is_stale s' now else ui_stale_mark (snd tu) w')"
    if w': "widget_of (fst q) h' = Some w'" and s': "sample_of (fst tu) h' = Some s'" for h' w' s'
  proof -
    have eq: "w' = w \<longleftrightarrow> h' = h" using qi qw w' unfolding pool_inv_def by auto
    have f: "ui_fed (snd q) w' = (if h' \<in> set hs \<and> dt_valid (gh_telemetry s') then gh_telemetry s' # ui_fed (snd ?tu) w' else ui_fed (snd ?tu) w')"
        "ui_stale_mark (snd q) w' = (if h' \<in> set hs then graph_host_is_stale s' now else ui_stale_mark (snd ?tu) w')"
      using IH w' s' unfolding fed_own_def s(2) by blast+
    show ?thesis
    proof (cases "h' = h")
      case True
      then have "s' = s" "w' = w" using s' s(1) eq by simp_all
      then show ?thesis using f h0 True by (simp add: s(6,7))
    next
      case False
      then show ?thesis using f eq by (simp add: s(6,7))
    qed
  qed
  show ?case unfolding fed_own_def
  proof (intro conjI allI impI)
    fix h' s' assume "sample_of (fst tu) h' = Some s'"
    then show "sample_of (fst (fold (\<lambda>(h, xy). show_graph now h xy) (zip (h # hs) (xy # xys)) tu)) h' = Some s'"
      using IH s(2) by (simp add: fed_own_def q_def)
  next
    fix h' w' assume "widget_of (fst tu) h' = Some w'"
    then have "widget_of (fst ?tu) h' = Some w'" using s(3,4) by auto
    then show "widget_of (fst (fold (\<lambda>(h, xy). show_graph now h xy) (zip (h # hs) (xy # xys)) tu)) h' = Some w'"
      using IH by (simp add: fed_own_def q_def)
  next
    fix h' w' assume "widget_of (fst (fold (\<lambda>(h, xy). show_graph now h xy) (zip (h # hs) (xy # xys)) tu)) h' = Some w'"
    then have "widget_of (fst ?tu) h' = Some w' \<or> ui_next (snd ?tu) \<le> w'" using IH by (simp add: fed_own_def q_def)
    then show "widget_of (fst tu) h' = Some w' \<or> ui_next (snd tu) \<le> w'"
      using s(3,4,5) by (auto split: if_splits)
  next
    show "ui_next (snd tu) \<le> ui_next (snd (fold (\<lambda>(h, xy). show_graph now h xy) (zip (h # hs) (xy # xys)) tu))"
      using IH s(5) by (simp add: fed_own_def q_def)
  qed (use own in \<open>simp_all add: q_def\<close>)
qed simp_all

lemma fed_own_same:
  "fed_own now hs p q \<Longrightarrow> fst q' = fst q \<Longrightarrow> ui_next (snd q') = ui_next (snd q) \<Longrightarrow> ui_fed (snd q') = ui_fed (snd q) \<Longrightarrow>
     ui_stale_mark (snd q') = ui_stale_mark (snd q) \<Longrightarrow> fed_own now hs p q'"
  by (simp add: fed_own_def)

lemma hide_fields [simp]: "ui_next (hide w u) = ui_next u" "ui_fed (hide w u) = ui_fed u" "ui_stale_mark (hide w u) = ui_stale_mark u"
  by (simp_all add: hide_def)

lemma hide_graphs_fields:
  "ui_next (snd (fold hide_graph hs tu)) = ui_next (snd tu) \<and> ui_fed (snd (fold hide_graph hs tu)) = ui_fed (snd tu) \<and>
   ui_stale_mark (snd (fold hide_graph hs tu)) = ui_stale_mark (snd tu)"
proof (induction hs arbitrary: tu)
  case (Cons h hs)
  have "ui_next (snd (hide_graph h tu)) = ui_next (snd tu) \<and> ui_fed (snd (hide_graph h tu)) = ui_fed (snd tu) \<and>
      ui_stale_mark (snd (hide_graph h tu)) = ui_stale_mark (snd tu)"
    by (simp add: hide_graph_def split: option.split prod.split)
  then show ?case using Cons by simp
qed simp

lemma place_feeds:
  assumes "pool_inv tu"
  shows "fed_own now (set (take 6 (wanted cmd (fst tu)))) tu (place_pool now cmd tu)"
proof -
  define hs where "hs = take 6 (wanted cmd (fst tu))"
  define tu1 where "tu1 = fold (\<lambda>(h, xy). show_graph now h xy) (zip hs (map slot [0..<length hs])) tu"
  define others where "others = filter (\<lambda>h. h \<notin> set hs) (sorted_hosts (fst tu))"
  have g: "graph_inv (fst tu)" using assms by (simp add: pool_inv_def)
  note sh = sorted_hosts_props [OF g]
  have sset: "set (sorted_hosts (fst tu)) = gh_host ` set (fst tu)" using sh(1) by (metis list.set_map set_mset_mset)
  have sub: "set hs \<subseteq> gh_host ` set (fst tu)" and d: "distinct hs"
    using sset sh(3) by (auto simp: hs_def wanted_def dest!: in_set_takeD)
  have f1: "fed_own now (set hs) tu tu1" unfolding tu1_def by (rule show_graphs_feed [OF assms sub d]) simp
  have inv1: "pool_inv tu1" and hosts1: "map gh_host (fst tu1) = map gh_host (fst tu)"
    using show_graphs [OF assms sub d, of "map slot [0..<length hs]" now] by (simp_all add: tu1_def)
  have osub: "set others \<subseteq> gh_host ` set (fst tu1)" using sset hosts1 by (auto simp: others_def) (metis image_eqI list.set_map)
  show ?thesis
  proof (cases "length (wanted cmd (fst tu)) < 6")
    case True
    define tu2 where "tu2 = show_netcard now (slot (length hs)) tu1"
    note n = show_netcard_known [OF inv1, of now "slot (length hs)", folded tu2_def]
    have "place_pool now cmd tu = fold hide_graph others tu2"
      using place_pool_fold [OF g, of now cmd] True by (simp add: hs_def others_def tu2_def tu1_def)
    moreover have "fst (fold hide_graph others tu2) = fst tu2" using hide_graphs [OF n(1)] osub n(2) by simp
    moreover have "ui_next (snd tu2) = ui_next (snd tu1)" "ui_fed (snd tu2) = ui_fed (snd tu1)" "ui_stale_mark (snd tu2) = ui_stale_mark (snd tu1)"
      by (simp_all add: tu2_def show_netcard_def)
    ultimately show ?thesis unfolding hs_def [symmetric]
      using hide_graphs_fields [of others tu2] n(2) by (intro fed_own_same [OF f1]) simp_all
  next
    case False
    define tu2 where "tu2 = fold hide_graph others tu1"
    have "place_pool now cmd tu = (fst tu2, hide (ui_netcard (snd tu2)) (snd tu2))"
      using place_pool_fold [OF g, of now cmd] False by (simp add: Let_def hs_def others_def tu2_def tu1_def)
    moreover have "fst tu2 = fst tu1" using hide_graphs [OF inv1 osub] by (simp add: tu2_def)
    ultimately show ?thesis unfolding hs_def [symmetric]
      using hide_graphs_fields [of others tu1] by (intro fed_own_same [OF f1]) (simp_all add: tu2_def)
  qed
qed

lemma evicts_fields:
  "ui_next (snd (evict_graphs now tu)) = ui_next (snd tu)" "ui_fed (snd (evict_graphs now tu)) = ui_fed (snd tu)"
  "ui_stale_mark (snd (evict_graphs now tu)) = ui_stale_mark (snd tu)"
proof -
  let ?same = "\<lambda>p q. ui_next (snd p) = ui_next (snd q) \<and> ui_fed (snd p) = ui_fed (snd q) \<and> ui_stale_mark (snd p) = ui_stale_mark (snd q)"
  have "?same (evict_series now s tu) tu" for s tu
    by (simp add: evict_series_def split: option.split prod.split)
  then have "?same (fold (evict_series now) ss tu) tu" for ss
    by (induction ss arbitrary: tu) simp_all
  then show "ui_next (snd (evict_graphs now tu)) = ui_next (snd tu)" "ui_fed (snd (evict_graphs now tu)) = ui_fed (snd tu)"
    "ui_stale_mark (snd (evict_graphs now tu)) = ui_stale_mark (snd tu)"
    by (simp_all add: evict_graphs_def)
qed

text \<open>The whole pool block: the series that are left after the eviction feed their own graphs.\<close>

lemma refresh_feeds:
  assumes "pool_inv tu" "place_pool now cmd (evict_graphs now tu) = (t', u')"
    and "widget_of t' h = Some w" "sample_of (filter (\<lambda>s. \<not> silent now s) (fst tu)) h = Some s"
  shows "ui_fed u' w = (if h \<in> set (take 6 (wanted cmd (filter (\<lambda>s. \<not> silent now s) (fst tu)))) \<and> dt_valid (gh_telemetry s)
      then gh_telemetry s # ui_fed (snd tu) w else ui_fed (snd tu) w)"
    "ui_stale_mark u' w = (if h \<in> set (take 6 (wanted cmd (filter (\<lambda>s. \<not> silent now s) (fst tu))))
      then graph_host_is_stale s now else ui_stale_mark (snd tu) w)"
    "sample_of t' h = Some s" "widget_of (filter (\<lambda>s. \<not> silent now s) (fst tu)) h = Some w \<or> ui_next (snd tu) \<le> w"
proof -
  have e: "fst (evict_graphs now tu) = filter (\<lambda>s. \<not> silent now s) (fst tu)" "pool_inv (evict_graphs now tu)"
    using graphs_evicted [OF assms(1)] by simp_all
  have "fed_own now (set (take 6 (wanted cmd (filter (\<lambda>s. \<not> silent now s) (fst tu))))) (evict_graphs now tu) (t', u')"
    using place_feeds [OF e(2), of now cmd] unfolding assms(2) e(1) .
  then show "ui_fed u' w = (if h \<in> set (take 6 (wanted cmd (filter (\<lambda>s. \<not> silent now s) (fst tu)))) \<and> dt_valid (gh_telemetry s)
      then gh_telemetry s # ui_fed (snd tu) w else ui_fed (snd tu) w)"
    "ui_stale_mark u' w = (if h \<in> set (take 6 (wanted cmd (filter (\<lambda>s. \<not> silent now s) (fst tu))))
      then graph_host_is_stale s now else ui_stale_mark (snd tu) w)"
    "sample_of t' h = Some s" "widget_of (filter (\<lambda>s. \<not> silent now s) (fst tu)) h = Some w \<or> ui_next (snd tu) \<le> w"
    using assms(3,4) unfolding fed_own_def e(1) evicts_fields fst_conv snd_conv by blast+
qed

end
