(* ===== verification/Footer_Cards.thy ===== *)
theory Footer_Cards
  imports Service_Registry AptTemps_Registry Stale_Registry Icons KLibs
begin

text \<open>
  The cards of the footer strip: what a card shows (\<open>src/src/widgets/service_card.c\<close>,
  \<open>apt_temps_card.c\<close>), the body of the three paint loops of \<open>ui_refresh\<close> (\<open>paint_entry\<close>), and the
  contract of a registry whose entries own a card (locales \<open>card_group\<close> and \<open>card_group_remove\<close>): a
  group painted in the strip leaves the cards of the other groups alone.
\<close>

section \<open>Faces\<close>

datatype face =
    ServiceFace service_color_t string "string option" string "8 word list option"
  | StaleFace string string
  | AptFace apttemps_color_t string string string

record footer =
  ft_next :: nat
  ft_strip :: "nat list"
  ft_faces :: "nat \<Rightarrow> face option"

text \<open>The glyph of an icon index; the cache inside \<open>icons_lookup\<close> does not change its answer.\<close>

definition glyph :: "int \<Rightarrow> 8 word list option" where
  "glyph index = fst (icons_lookup ICON_REGISTRY index (\<lambda>i. None))"

definition service_face :: "service_color_t \<Rightarrow> service_entry \<Rightarrow> face" where
  "service_face c e =
     ServiceFace c (if se_name e = [] then ''(service)'' else se_name e)
       (if se_host e \<noteq> [] \<and> se_host e \<noteq> ''_'' then Some (se_host e) else None)
       (se_text e) (glyph (se_icon_index e))"

definition stale_face :: "stale_entry \<Rightarrow> face" where
  "stale_face e = StaleFace (stale_format_title e 512) (stale_format_body e 512)"

text \<open>\<open>%.1f\<close>, of a number that is not a negative zero.\<close>

definition one_decimal :: "double \<Rightarrow> string" where
  "one_decimal x =
     (let n = nat \<bar>round_even (10 * x)\<bar>
      in (if x < 0 then ''-'' else []) @ dec (n div 10) @ ''.'' @ dec (n mod 10))"

definition fmt_temp :: "nat \<Rightarrow> double \<Rightarrow> string" where
  "fmt_temp n t = buf_copy n (one_decimal t @ [CHR 0xC2, CHR 0xB0] @ ''F'')"

definition fmt_hum :: "nat \<Rightarrow> int \<Rightarrow> string" where
  "fmt_hum n h = buf_copy n (dec_int h @ ''%'')"

definition apt_face :: "apttemps_color_t \<Rightarrow> apttemps_entry \<Rightarrow> face" where
  "apt_face c e =
     AptFace c (if at_zone e \<noteq> [] then at_zone e else at_slug e) (fmt_temp 32 (at_temp_f e)) (fmt_hum 16 (at_humidity_pct e))"

section \<open>One card\<close>

definition delete_card :: "nat option \<Rightarrow> footer \<Rightarrow> footer" where
  "delete_card c f =
     (case c of
        None \<Rightarrow> f
      | Some c \<Rightarrow> f\<lparr>ft_strip := filter (\<lambda>x. x \<noteq> c) (ft_strip f), ft_faces := (ft_faces f)(c := None)\<rparr>)"

text \<open>The body of the three paint loops: find the entry, make its card when it has none, update the card
  and, in two of the groups, move it (\<open>after\<close>).\<close>

definition paint_entry ::
  "('k \<Rightarrow> 'e list \<Rightarrow> nat option \<times> 'e list) \<Rightarrow> ('e \<Rightarrow> nat option) \<Rightarrow> (nat option \<Rightarrow> 'e \<Rightarrow> 'e) \<Rightarrow>
   ('e \<Rightarrow> face) \<Rightarrow> ('e \<Rightarrow> face) \<Rightarrow> (nat \<Rightarrow> nat list \<Rightarrow> nat list) \<Rightarrow> 'k \<Rightarrow> 'e list \<times> footer \<Rightarrow> 'e list \<times> footer" where
  "paint_entry locate container set_container made updated after k tf =
     (case tf of (t, f) \<Rightarrow>
        (case locate k t of
           (None, t') \<Rightarrow> (t', f)
         | (Some i, t') \<Rightarrow>
             (case (case container (t' ! i) of
                      Some c \<Rightarrow> (c, f)
                    | None \<Rightarrow> (ft_next f, f\<lparr>ft_next := Suc (ft_next f), ft_strip := ft_strip f @ [ft_next f],
                                        ft_faces := (ft_faces f)(ft_next f := Some (made (t' ! i)))\<rparr>)) of (c, f1) \<Rightarrow>
                let e = set_container (Some c) (t' ! i)
                in (t'[i := e], f1\<lparr>ft_faces := (ft_faces f1)(c := Some (updated e)), ft_strip := after c (ft_strip f1)\<rparr>))))"

section \<open>The contract of a group of cards\<close>

text \<open>The containers of a table, by key.\<close>

definition held :: "('e \<Rightarrow> 'k) \<Rightarrow> ('e \<Rightarrow> nat option) \<Rightarrow> 'e list \<Rightarrow> 'k \<Rightarrow> nat option" where
  "held key container t k = Option.bind (map_of (map (\<lambda>e. (key e, e)) t) k) container"

lemma held_nth:
  assumes "distinct (map key t)" "i < length t"
  shows "held key container t (key (t ! i)) = container (t ! i)"
proof -
  have "map_of (map (\<lambda>e. (key e, e)) t) (key (t ! i)) = Some (t ! i)"
    using assms by (intro map_of_is_SomeI) (simp_all add: comp_def)
  then show ?thesis by (simp add: held_def)
qed

lemma held_own: "distinct (map key t) \<Longrightarrow> e \<in> set t \<Longrightarrow> held key container t (key e) = container e"
  using held_nth [of key t] by (auto simp: in_set_conv_nth)

lemma held_entry: "held key container t k = Some x \<Longrightarrow> \<exists>e \<in> set t. key e = k \<and> container e = Some x"
  by (auto simp: held_def bind_eq_Some_conv dest!: map_of_SomeD)

lemma map_of_key_update:
  assumes "distinct (map key t)" "i < length t" "key e = key (t ! i)"
  shows "map_of (map (\<lambda>e. (key e, e)) (t[i := e])) = (map_of (map (\<lambda>e. (key e, e)) t))(key e \<mapsto> e)"
  using assms
proof (induction t arbitrary: i)
  case (Cons x t)
  show ?case
  proof (cases i)
    case (Suc j)
    then have "key e \<noteq> key x" using Cons.prems by (metis distinct.simps(2) length_map list.simps(9)
        nth_Cons_Suc nth_map nth_mem Suc_less_eq length_Cons)
    then show ?thesis using Cons Suc by (auto simp: fun_eq_iff)
  qed (use Cons.prems in \<open>simp add: fun_eq_iff\<close>)
qed simp

text \<open>A table and the strip agree: every container is an object of the strip, held once.\<close>

definition strip_ok :: "('k \<Rightarrow> nat option) \<Rightarrow> footer \<Rightarrow> bool" where
  "strip_ok hold f \<longleftrightarrow> distinct (ft_strip f) \<and> (\<forall>x \<in> set (ft_strip f). x < ft_next f) \<and>
     (\<forall>k c. hold k = Some c \<longrightarrow> c \<in> set (ft_strip f)) \<and>
     (\<forall>k k' c. hold k = Some c \<longrightarrow> hold k' = Some c \<longrightarrow> k = k')"

text \<open>Where a loop leaves a card that it paints: in place, or last.\<close>

definition settles :: "(nat \<Rightarrow> nat list \<Rightarrow> nat list) \<Rightarrow> bool \<Rightarrow> bool" where
  "settles after moves \<longleftrightarrow> (\<forall>c xs. distinct xs \<longrightarrow> c \<in> set xs \<longrightarrow>
     after c xs = (if moves then filter (\<lambda>x. x \<noteq> c) xs @ [c] else xs))"

locale card_group =
  fixes key :: "'e \<Rightarrow> 'k"
    and locate :: "'k \<Rightarrow> 'e list \<Rightarrow> nat option \<times> 'e list"
    and container :: "'e \<Rightarrow> nat option"
    and set_container :: "nat option \<Rightarrow> 'e \<Rightarrow> 'e"
    and ok :: "'e list \<Rightarrow> bool"
  assumes ok_keys: "ok t \<Longrightarrow> distinct (map key t)"
    and finds: "ok t \<Longrightarrow> i < length t \<Longrightarrow> locate (key (t ! i)) t = (Some i, t)"
    and ok_set: "ok t \<Longrightarrow> i < length t \<Longrightarrow> ok (t[i := set_container c (t ! i)])"
    and key_set: "key (set_container c e) = key e"
    and container_set: "container (set_container c e) = c"
    and set_set: "set_container c (set_container d e) = set_container c e"
    and set_get: "set_container (container e) e = e"
begin

lemma paint_step:
  assumes ok: "ok t" and i: "i < length t" and strip: "strip_ok (held key container t) f"
    and after: "settles after moves"
  obtains c f' where
    "paint_entry locate container set_container made updated after (key (t ! i)) (t, f) =
       (t[i := set_container (Some c) (t ! i)], f')"
    "held key container t (key (t ! i)) = Some c \<and> ft_next f' = ft_next f \<or>
       held key container t (key (t ! i)) = None \<and> c = ft_next f \<and> ft_next f' = Suc (ft_next f)"
    "ft_strip f' = (if moves then filter (\<lambda>x. x \<noteq> c) (ft_strip f) @ [c]
       else if c \<in> set (ft_strip f) then ft_strip f else ft_strip f @ [c])"
    "ft_faces f' c = Some (updated (set_container (Some c) (t ! i)))"
    "\<forall>x. x \<noteq> c \<longrightarrow> ft_faces f' x = ft_faces f x"
proof (cases "container (t ! i)")
  case None
  have h: "held key container t (key (t ! i)) = None" using held_nth [OF ok_keys [OF ok] i] None by simp
  have fresh: "ft_next f \<notin> set (ft_strip f)" using strip by (auto simp: strip_ok_def)
  have "distinct (ft_strip f @ [ft_next f])" using strip fresh by (simp add: strip_ok_def)
  then have a: "after (ft_next f) (ft_strip f @ [ft_next f]) =
      (if moves then filter (\<lambda>x. x \<noteq> ft_next f) (ft_strip f @ [ft_next f]) @ [ft_next f] else ft_strip f @ [ft_next f])"
    using after by (simp add: settles_def)
  show thesis
    by (rule that [of "ft_next f" "f\<lparr>ft_next := Suc (ft_next f),
          ft_strip := after (ft_next f) (ft_strip f @ [ft_next f]),
          ft_faces := (ft_faces f)(ft_next f := Some (updated (set_container (Some (ft_next f)) (t ! i))))\<rparr>"])
      (use None h fresh a finds [OF ok i] in \<open>auto simp: paint_entry_def Let_def\<close>)
next
  case (Some c)
  have h: "held key container t (key (t ! i)) = Some c" using held_nth [OF ok_keys [OF ok] i] Some by simp
  then have c: "c \<in> set (ft_strip f)" "distinct (ft_strip f)" using strip by (auto simp: strip_ok_def)
  show thesis
    by (rule that [of c "f\<lparr>ft_strip := after c (ft_strip f),
          ft_faces := (ft_faces f)(c := Some (updated (set_container (Some c) (t ! i))))\<rparr>"])
      (use Some h c after finds [OF ok i] in \<open>auto simp: paint_entry_def Let_def settles_def\<close>)
qed

lemma step_tables:
  fixes c :: nat
  assumes "ok t" "i < length t"
  defines "t1 \<equiv> t[i := set_container (Some c) (t ! i)]"
  shows "ok t1" "map key t1 = map key t" "map (set_container None) t1 = map (set_container None) t"
    "held key container t1 = (held key container t)(key (t ! i) \<mapsto> c)"
proof -
  show "ok t1" unfolding t1_def by (rule ok_set [OF assms(1,2)])
  show "map key t1 = map key t" "map (set_container None) t1 = map (set_container None) t"
    unfolding t1_def by (metis (no_types, lifting) key_set set_set list_update_id map_update)+
  have k: "key (set_container (Some c) (t ! i)) = key (t ! i)" by (rule key_set)
  show "held key container t1 = (held key container t)(key (t ! i) \<mapsto> c)"
    using map_of_key_update [OF ok_keys [OF assms(1)] assms(2) k] k
    by (simp add: held_def t1_def fun_eq_iff container_set)
qed

lemma step_strip_ok:
  assumes strip: "strip_ok hold f"
    and c: "hold k = Some c \<and> ft_next f' = ft_next f \<or> hold k = None \<and> c = ft_next f \<and> ft_next f' = Suc (ft_next f)"
    and f': "ft_strip f' = (if moves then filter (\<lambda>x. x \<noteq> c) (ft_strip f) @ [c]
       else if c \<in> set (ft_strip f) then ft_strip f else ft_strip f @ [c])"
  shows "strip_ok (hold(k \<mapsto> c)) f'"
  using c
proof
  assume old: "hold k = Some c \<and> ft_next f' = ft_next f"
  then have "hold(k \<mapsto> c) = hold" by (simp add: fun_eq_iff)
  moreover have "c \<in> set (ft_strip f)" using strip old by (auto simp: strip_ok_def)
  then have "set (ft_strip f') = set (ft_strip f)" "distinct (ft_strip f')"
    using f' strip by (auto simp: strip_ok_def)
  ultimately show ?thesis using strip old by (simp add: strip_ok_def)
next
  assume new: "hold k = None \<and> c = ft_next f \<and> ft_next f' = Suc (ft_next f)"
  then have "c \<notin> set (ft_strip f)" using strip by (auto simp: strip_ok_def)
  then have "set (ft_strip f') = insert c (set (ft_strip f))" "distinct (ft_strip f')"
    using f' strip by (auto simp: strip_ok_def)
  moreover have "\<forall>k'. hold k' \<noteq> Some c"
    using strip \<open>c \<notin> set (ft_strip f)\<close> by (auto simp: strip_ok_def)
  ultimately show ?thesis using strip new unfolding strip_ok_def by (auto simp: less_Suc_eq)
qed

lemma paint_all:
  assumes "ok t" "strip_ok (held key container t) f" "settles after moves" "distinct ks" "set ks \<subseteq> key ` set t"
    and "fold (paint_entry locate container set_container made updated after) ks (t, f) = (t', f')"
    and "hs = map (\<lambda>k. the (held key container t' k)) ks"
  shows "ok t' \<and> map key t' = map key t \<and> map (set_container None) t' = map (set_container None) t \<and>
    strip_ok (held key container t') f' \<and>
    (\<forall>k \<in> set ks. held key container t' k \<noteq> None) \<and>
    (\<forall>k. k \<notin> set ks \<longrightarrow> held key container t' k = held key container t k) \<and>
    (\<forall>k c. held key container t k = Some c \<longrightarrow> held key container t' k = Some c) \<and>
    (\<forall>k c. held key container t' k = Some c \<longrightarrow> held key container t k = Some c \<or> c \<notin> set (ft_strip f)) \<and>
    ft_strip f' = (if moves then filter (\<lambda>x. x \<notin> set hs) (ft_strip f) @ hs
      else ft_strip f @ filter (\<lambda>x. x \<notin> set (ft_strip f)) hs) \<and>
    (\<forall>e \<in> set t'. key e \<in> set ks \<longrightarrow> ft_faces f' (the (container e)) = Some (updated e)) \<and>
    (\<forall>x. x \<notin> set hs \<longrightarrow> ft_faces f' x = ft_faces f x) \<and>
    ft_next f \<le> ft_next f' \<and>
    (\<forall>k c. held key container t' k = Some c \<longrightarrow> held key container t k = Some c \<or> ft_next f \<le> c)"
  using assms(1,2,4-7)
proof (induction ks arbitrary: t f hs)
  case Nil
  then show ?case by simp
next
  case (Cons k ks)
  obtain i where i: "i < length t" "key (t ! i) = k" using Cons.prems(4) by (force simp: in_set_conv_nth)
  obtain c f1 where step: "paint_entry locate container set_container made updated after k (t, f) =
       (t[i := set_container (Some c) (t ! i)], f1)"
    and c: "held key container t k = Some c \<and> ft_next f1 = ft_next f \<or>
       held key container t k = None \<and> c = ft_next f \<and> ft_next f1 = Suc (ft_next f)"
    and s1: "ft_strip f1 = (if moves then filter (\<lambda>x. x \<noteq> c) (ft_strip f) @ [c]
       else if c \<in> set (ft_strip f) then ft_strip f else ft_strip f @ [c])"
    and f1: "ft_faces f1 c = Some (updated (set_container (Some c) (t ! i)))" "\<forall>x. x \<noteq> c \<longrightarrow> ft_faces f1 x = ft_faces f x"
    using paint_step [OF Cons.prems(1) i(1) Cons.prems(2) assms(3), unfolded i(2)] by blast
  define t1 where "t1 = t[i := set_container (Some c) (t ! i)]"
  note tab = step_tables [OF Cons.prems(1) i(1), of c, folded t1_def, unfolded i(2)]
  have so: "strip_ok (held key container t1) f1"
    unfolding tab(4) by (rule step_strip_ok [OF Cons.prems(2) c s1])
  define hs1 where "hs1 = map (\<lambda>k. the (held key container t' k)) ks"
  have sub: "set ks \<subseteq> key ` set t1" using Cons.prems(4) tab(2) by (metis list.set_map set_subset_Cons subset_trans)
  have run: "fold (paint_entry locate container set_container made updated after) ks (t1, f1) = (t', f')"
    using Cons.prems(5) step by (simp add: t1_def)
  have dk: "distinct ks" "k \<notin> set ks" using Cons.prems(3) by simp_all
  note IH = Cons.IH [OF tab(1) so dk(1) sub run hs1_def]
  have kc: "held key container t' k = Some c" using IH dk(2) tab(4) by simp
  then have hs: "hs = c # hs1" using Cons.prems(6) by (simp add: hs1_def)
  have inj: "strip_ok (held key container t') f'" using IH by blast
  have "\<forall>k' \<in> set ks. held key container t' k' \<noteq> Some c"
    using inj kc dk(2) unfolding strip_ok_def by metis
  then have ch: "c \<notin> set hs1" using IH by (auto simp: hs1_def)
  have S: "set (ft_strip f) \<subseteq> set (ft_strip f1)" using s1 by auto
  have fresh: "held key container t k = Some c \<or> c \<notin> set (ft_strip f)"
    using c Cons.prems(2) by (auto simp: strip_ok_def)
  have dt': "distinct (map key t')" using ok_keys IH by blast
  have e: "ft_faces f' (the (container e)) = Some (updated e)" if e: "e \<in> set t'" "key e \<in> set (k # ks)" for e
  proof (cases "key e \<in> set ks")
    case True
    then show ?thesis using IH e(1) by blast
  next
    case False
    obtain j where j: "j < length t'" "t' ! j = e" using e(1) by (auto simp: in_set_conv_nth)
    have ke: "key e = k" using e(2) False by simp
    then have ce: "container e = Some c" using held_nth [OF dt' j(1)] kc j(2) by simp
    have len: "length t' = length t" using IH tab(2) by (metis length_map)
    have "key (t ! j) = k" using IH tab(2) j ke len by (metis nth_map)
    then have "j = i" using ok_keys [OF Cons.prems(1)] i j(1) len by (simp add: distinct_conv_nth) (metis nth_map)
    then have n: "set_container None e = set_container None (t ! i)"
      using IH tab(3) i(1) j len by (metis nth_map)
    have "e = set_container (Some c) (set_container None e)" using ce set_get [of e] by (simp add: set_set)
    then have "e = set_container (Some c) (t ! i)" unfolding n by (simp add: set_set)
    then show ?thesis using IH ch f1(1) ce by simp
  qed
  have "ft_strip f' = (if moves then filter (\<lambda>x. x \<notin> set hs) (ft_strip f) @ hs
      else ft_strip f @ filter (\<lambda>x. x \<notin> set (ft_strip f)) hs)"
    using IH s1 ch unfolding hs by (auto intro!: filter_cong)
  moreover have "\<forall>k' c'. held key container t' k' = Some c' \<longrightarrow> held key container t k' = Some c' \<or> c' \<notin> set (ft_strip f)"
    using IH tab(4) S fresh by (metis (no_types, lifting) fun_upd_apply option.inject subset_iff)
  moreover have "\<forall>k' c'. held key container t k' = Some c' \<longrightarrow> held key container t' k' = Some c'"
    using IH tab(4) c kc by (metis (no_types, lifting) fun_upd_apply option.distinct(1))
  moreover have "\<forall>x. x \<notin> set hs \<longrightarrow> ft_faces f' x = ft_faces f x" using IH f1(2) hs by simp
  moreover have "\<forall>k'. k' \<notin> set (k # ks) \<longrightarrow> held key container t' k' = held key container t k'"
    using IH tab(4) by simp
  moreover have "\<forall>k' \<in> set (k # ks). held key container t' k' \<noteq> None" using IH kc by simp
  moreover have "ft_next f \<le> ft_next f'" using IH c by auto
  moreover have "\<forall>k' c'. held key container t' k' = Some c' \<longrightarrow> held key container t k' = Some c' \<or> ft_next f \<le> c'"
  proof (intro allI impI)
    fix k' c' assume "held key container t' k' = Some c'"
    then have "((held key container t)(k \<mapsto> c)) k' = Some c' \<or> ft_next f1 \<le> c'" using IH unfolding tab(4) by blast
    then show "held key container t k' = Some c' \<or> ft_next f \<le> c'" using c by (auto split: if_splits)
  qed
  ultimately show ?case using IH tab e
    by (intro conjI) (simp, simp, simp, simp, blast, blast, blast, blast, blast, blast, blast, blast, blast)
qed

end

section \<open>The strip holds the cards of all groups\<close>

definition full_strip :: "('k \<Rightarrow> nat option) \<Rightarrow> footer \<Rightarrow> bool" where
  "full_strip hold f \<longleftrightarrow> strip_ok hold f \<and> (\<forall>x \<in> set (ft_strip f). \<exists>k. hold k = Some x)"

lemma strip_ok_group:
  assumes "strip_ok hold f" "inj g" "\<And>k. part k = hold (g k)" shows "strip_ok part f"
  using assms unfolding strip_ok_def inj_def by metis

lemma regroup:
  assumes old: "full_strip hold f" and part: "strip_ok part f'"
    and own: "\<And>k. hold' (g k) = part k" and others: "\<And>x. x \<notin> range g \<Longrightarrow> hold' x = hold x"
    and fresh: "\<And>k c. part k = Some c \<Longrightarrow> hold (g k) = Some c \<or> c \<notin> set (ft_strip f)"
    and keep: "\<And>k c. hold (g k) = Some c \<Longrightarrow> part k = Some c"
    and strip: "set (ft_strip f) \<subseteq> set (ft_strip f')" "\<And>x. x \<in> set (ft_strip f') \<Longrightarrow> x \<in> set (ft_strip f) \<or> (\<exists>k. part k = Some x)"
  shows "full_strip hold' f'"
proof -
  have in_old: "c \<in> set (ft_strip f)" if "hold k = Some c" for k c using old that by (auto simp: full_strip_def strip_ok_def)
  have inj: "k = k'" if "hold k = Some c" "hold k' = Some c" for k k' c
    using old that by (auto simp: full_strip_def strip_ok_def)
  have cases: "(\<exists>k. x = g k \<and> part k = Some c) \<or> (x \<notin> range g \<and> hold x = Some c)" if "hold' x = Some c" for x c
    using that own others by (cases "x \<in> range g") auto
  have "c \<in> set (ft_strip f')" if "hold' x = Some c" for x c
    using cases [OF that] part in_old strip(1) by (auto simp: strip_ok_def)
  moreover have "x = y" if "hold' x = Some c" "hold' y = Some c" for x y c
  proof -
    have pk: "k = k'" if "part k = Some c" "part k' = Some c" for k k'
      using part that by (auto simp: strip_ok_def)
    have mix: False if "part k = Some c" "z \<notin> range g" "hold z = Some c" for k z
      using fresh [OF that(1)] in_old [OF that(3)] inj [OF that(3), of "g k"] that(2) by auto
    show ?thesis using cases [OF that(1)] cases [OF that(2)] pk mix inj by metis
  qed
  moreover have "\<exists>k. hold' k = Some x" if "x \<in> set (ft_strip f')" for x
  proof -
    have "\<exists>k. hold' k = Some x" if x: "x \<in> set (ft_strip f)"
    proof -
      obtain k where k: "hold k = Some x" using old x by (auto simp: full_strip_def)
      show ?thesis
      proof (cases "k \<in> range g")
        case True
        then obtain j where "k = g j" by blast
        then show ?thesis using k keep [of j x] own [of j] by auto
      next
        case False
        then have "hold' k = Some x" using k others [of k] by simp
        then show ?thesis by blast
      qed
    qed
    then show ?thesis using strip(2) [OF \<open>x \<in> set (ft_strip f')\<close>] own by metis
  qed
  ultimately show ?thesis using part unfolding full_strip_def strip_ok_def by auto
qed

lemma shrink:
  assumes old: "full_strip hold f" and less: "\<And>k c. hold' k = Some c \<Longrightarrow> hold k = Some c"
    and strip: "ft_strip f' = filter (\<lambda>x. \<exists>k. hold' k = Some x) (ft_strip f)" "ft_next f' = ft_next f"
  shows "full_strip hold' f'"
  unfolding full_strip_def strip_ok_def strip
proof (intro conjI allI impI ballI)
  fix k c assume k: "hold' k = Some c"
  then show "c \<in> set (filter (\<lambda>x. \<exists>k. hold' k = Some x) (ft_strip f))"
    using less [OF k] old by (auto simp: full_strip_def strip_ok_def)
  fix k' assume "hold' k' = Some c"
  then show "k = k'" using less [OF k] less [of k' c] old by (auto simp: full_strip_def strip_ok_def)
qed (use old in \<open>auto simp: full_strip_def strip_ok_def\<close>)

lemma deleted_strip:
  "ft_strip (fold delete_card dead f) = filter (\<lambda>x. Some x \<notin> set dead) (ft_strip f)"
  "ft_next (fold delete_card dead f) = ft_next f"
proof (induction dead arbitrary: f)
  case (Cons d dead)
  {
    case 1
    then show ?case using Cons(1) by (cases d) (auto simp: delete_card_def intro: filter_cong)
  next
    case 2
    then show ?case using Cons(2) by (cases d) (auto simp: delete_card_def)
  }
qed simp_all

context card_group
begin

lemma paint_group:
  assumes ok: "ok t" and full: "full_strip hold f" and after: "settles after moves" and g: "inj g"
    and own: "\<And>k. hold (g k) = held key container t k"
    and ks: "distinct ks" "set ks = key ` set t"
    and run: "fold (paint_entry locate container set_container made updated after) ks (t, f) = (t', f')"
    and own': "\<And>k. hold' (g k) = held key container t' k" and others: "\<And>x. x \<notin> range g \<Longrightarrow> hold' x = hold x"
  shows "ok t' \<and> map key t' = map key t \<and> map (set_container None) t' = map (set_container None) t \<and>
    full_strip hold' f' \<and>
    (\<forall>e \<in> set t'. \<exists>c. container e = Some c \<and> ft_faces f' c = Some (updated e)) \<and>
    (\<forall>x c. x \<notin> range g \<longrightarrow> hold x = Some c \<longrightarrow> ft_faces f' c = ft_faces f c) \<and>
    (moves \<longrightarrow> ft_strip f' = filter (\<lambda>x. x \<notin> set (map (\<lambda>k. the (hold' (g k))) ks)) (ft_strip f) @
       map (\<lambda>k. the (hold' (g k))) ks) \<and>
    (\<not> moves \<longrightarrow> ft_strip f' = ft_strip f @ filter (\<lambda>x. x \<notin> set (ft_strip f)) (map (\<lambda>k. the (hold' (g k))) ks)) \<and>
    (\<forall>k c. hold' (g k) = Some c \<longrightarrow> hold (g k) = Some c \<or> ft_next f \<le> c)"
proof -
  have strip: "strip_ok (held key container t) f"
    by (rule strip_ok_group [of hold f g]) (use full g own in \<open>simp_all add: full_strip_def\<close>)
  define hs where "hs = map (\<lambda>k. the (held key container t' k)) ks"
  have sub: "set ks \<subseteq> key ` set t" using ks(2) by simp
  note main = paint_all [OF ok strip after ks(1) sub run hs_def]
  have dk: "distinct (map key t')" using ok_keys main by blast
  have keys: "key ` set t' = set ks" using main ks(2) by (metis list.set_map)
  have some: "\<exists>c. container e = Some c" if e: "e \<in> set t'" for e
  proof -
    obtain i where i: "i < length t'" "t' ! i = e" using e by (auto simp: in_set_conv_nth)
    have "held key container t' (key e) \<noteq> None" using main keys e by blast
    then show ?thesis using held_nth [OF dk i(1)] i(2) by auto
  qed
  have hsx: "\<exists>k. held key container t' k = Some x" if "x \<in> set hs" for x
    using that main by (auto simp: hs_def)
  have sx: "set (ft_strip f) \<subseteq> set (ft_strip f')" "\<And>x. x \<in> set (ft_strip f') \<Longrightarrow> x \<in> set (ft_strip f) \<or> (\<exists>k. held key container t' k = Some x)"
    using main hsx by (auto split: if_splits)
  have full': "full_strip hold' f'"
  proof (rule regroup [where part = "held key container t'" and g = g, OF full])
    show "strip_ok (held key container t') f'" using main by blast
    show "hold (g k) = Some c \<or> c \<notin> set (ft_strip f)" if "held key container t' k = Some c" for k c
      using main that own by metis
    show "held key container t' k = Some c" if "hold (g k) = Some c" for k c using main that own by metis
  qed (use own' others sx in auto)
  have "ft_faces f' c = ft_faces f c" if "x \<notin> range g" "hold x = Some c" for x c
  proof -
    have "hold' x = Some c" using others that by simp
    then have "\<forall>k. held key container t' k \<noteq> Some c"
      using full' that(1) own' unfolding full_strip_def strip_ok_def by (metis rangeI)
    then have "c \<notin> set hs" using hsx by blast
    then show ?thesis using main by blast
  qed
  moreover have "\<forall>e \<in> set t'. \<exists>c. container e = Some c \<and> ft_faces f' c = Some (updated e)"
    using main keys some by (metis image_eqI option.sel)
  moreover have "moves \<longrightarrow> ft_strip f' = filter (\<lambda>x. x \<notin> set (map (\<lambda>k. the (hold' (g k))) ks)) (ft_strip f) @
       map (\<lambda>k. the (hold' (g k))) ks"
    using main by (simp add: hs_def own')
  moreover have "\<not> moves \<longrightarrow> ft_strip f' = ft_strip f @ filter (\<lambda>x. x \<notin> set (ft_strip f)) (map (\<lambda>k. the (hold' (g k))) ks)"
    using main by (simp add: hs_def own')
  moreover have "\<forall>k c. hold' (g k) = Some c \<longrightarrow> hold (g k) = Some c \<or> ft_next f \<le> c"
    using main by (simp add: own own')
  ultimately show ?thesis using main full' by blast
qed

end

section \<open>Cards that go\<close>

lemma map_of_filter_key:
  "distinct (map key t) \<Longrightarrow> map_of (map (\<lambda>e. (key e, e)) (filter P t)) k =
     Option.bind (map_of (map (\<lambda>e. (key e, e)) t) k) (\<lambda>e. if P e then Some e else None)"
proof (induction t)
  case (Cons x t)
  have "key x \<notin> key ` set t" using Cons.prems by simp
  then have "map_of (map (\<lambda>e. (key e, e)) t) (key x) = None" by (auto simp: map_of_eq_None_iff)
  then show ?case using Cons by auto
qed simp

lemma held_filter:
  "distinct (map key t) \<Longrightarrow> held key container (filter P t) k =
     Option.bind (map_of (map (\<lambda>e. (key e, e)) t) k) (\<lambda>e. if P e then container e else None)"
  by (cases "map_of (map (\<lambda>e. (key e, e)) t) k") (auto simp: held_def map_of_filter_key)

lemma filter_held: "distinct (map key t) \<Longrightarrow> held key container (filter P t) k = Some c \<Longrightarrow> held key container t k = Some c"
  by (simp only: held_filter) (auto simp: held_def bind_eq_Some_conv split: if_splits)

text \<open>Deleting what the shrunk tables no longer hold.\<close>

lemma delete_shrink:
  assumes full: "full_strip hold f" and less: "\<And>k c. hold' k = Some c \<Longrightarrow> hold k = Some c"
    and dead: "\<And>x. Some x \<in> set dead \<longleftrightarrow> (\<exists>k. hold k = Some x \<and> hold' k = None)"
  shows "full_strip hold' (fold delete_card dead f)"
proof (rule shrink [OF full less])
  have "Some x \<notin> set dead \<longleftrightarrow> (\<exists>k. hold' k = Some x)" if x: "x \<in> set (ft_strip f)" for x
  proof -
    obtain k where k: "hold k = Some x" using full x by (auto simp: full_strip_def)
    then have "k' = k" if "hold k' = Some x" for k' using full that by (auto simp: full_strip_def strip_ok_def)
    then show ?thesis using dead [of x] less k by (cases "hold' k") (metis option.distinct(1) option.inject)+
  qed
  then show "ft_strip (fold delete_card dead f) = filter (\<lambda>x. \<exists>k. hold' k = Some x) (ft_strip f)"
    by (simp add: deleted_strip cong: filter_cong)
qed (simp_all add: deleted_strip)

lemma deleted_faces:
  "ft_faces (fold delete_card dead f) c = (if Some c \<in> set dead then None else ft_faces f c)"
proof (induction dead arbitrary: f)
  case (Cons d dead)
  then show ?case by (cases d) (auto simp: delete_card_def)
qed simp

locale card_group_remove = card_group +
  fixes remove :: "'b \<Rightarrow> 'a list \<Rightarrow> nat option \<times> 'a list"
  assumes removes: "ok t \<Longrightarrow> remove k t = (case find_index (\<lambda>e. key e = k) t of
      None \<Rightarrow> (None, t) | Some i \<Rightarrow> (container (t ! i), remove_at i t))"
    and ok_filter: "ok t \<Longrightarrow> ok (filter P t)"
begin

lemma remove_eq:
  assumes "ok t" shows "remove k t = (held key container t k, filter (\<lambda>e. key e \<noteq> k) t)"
proof (cases "find_index (\<lambda>e. key e = k) t")
  case None
  then have no: "k \<notin> key ` set t" by (auto simp: find_index_None)
  then have "map_of (map (\<lambda>e. (key e, e)) t) k = None" by (auto simp: map_of_eq_None_iff)
  moreover have "filter (\<lambda>e. key e \<noteq> k) t = t" using no by (auto intro: filter_True)
  ultimately show ?thesis using removes [OF assms] None by (simp add: held_def)
next
  case (Some i)
  obtain ys x zs where t: "t = ys @ x # zs" "key x = k" "\<forall>y \<in> set ys. key y \<noteq> k" "remove_at i t = ys @ zs"
    using remove_at_first [OF Some] by blast
  have d: "distinct (map key t)" by (rule ok_keys [OF assms])
  then have "\<forall>z \<in> set zs. key z \<noteq> k" using t(1,2) by (auto simp: image_iff)
  then have "filter (\<lambda>e. key e \<noteq> k) t = ys @ zs" using t(1-3) by (simp add: filter_id_conv)
  moreover have "held key container t k = container (t ! i)"
    using held_nth [OF d find_index_lt [OF Some]] find_index_sat [OF Some] by simp
  ultimately show ?thesis using removes [OF assms] Some t(4) by simp
qed

lemma remove_held:
  assumes "ok t" "remove k t = (c, t')"
  shows "c = held key container t k" "held key container t' = (held key container t)(k := None)"
proof -
  have t': "t' = filter (\<lambda>e. key e \<noteq> k) t" and c: "c = held key container t k"
    using assms(2) remove_eq [OF assms(1)] by simp_all
  show "c = held key container t k" by (rule c)
  note d = ok_keys [OF assms(1)]
  have "held key container t' k' = (if k' = k then None else held key container t k')" for k'
  proof (cases "map_of (map (\<lambda>e. (key e, e)) t) k'")
    case (Some e)
    then have "key e = k'" by (auto dest: map_of_SomeD)
    then show ?thesis using Some unfolding t' held_filter [OF d] by (auto simp: held_def)
  qed (unfold t' held_filter [OF d], simp add: held_def)
  then show "held key container t' = (held key container t)(k := None)" by (simp add: fun_eq_iff)
qed

lemma remove_group:
  assumes ok: "ok t" and full: "full_strip hold f" and own: "\<And>k. hold (g k) = held key container t k"
    and run: "remove k t = (c, t')"
    and own': "\<And>k. hold' (g k) = held key container t' k" and others: "\<And>x. x \<notin> range g \<Longrightarrow> hold' x = hold x"
  shows "ok t'" "full_strip hold' (delete_card c f)"
proof -
  have t': "t' = filter (\<lambda>e. key e \<noteq> k) t" using run remove_eq [OF ok] by simp
  show "ok t'" unfolding t' by (rule ok_filter [OF ok])
  note c = remove_held(1) [OF ok run]
  have h: "held key container t' k' = (if k' = k then None else held key container t k')" for k'
    by (simp add: remove_held(2) [OF ok run])
  have less: "hold x = Some y" if "hold' x = Some y" for x y
    using that h own own' others by (cases "x \<in> range g") (auto split: if_splits)
  have "full_strip hold' (fold delete_card [c] f)"
  proof (rule delete_shrink [OF full less])
    fix x
    have "(hold y = Some x \<and> hold' y = None) \<longleftrightarrow> (y = g k \<and> held key container t k = Some x)" for y
      using h own own' others by (cases "y \<in> range g") (auto split: if_splits)
    then show "Some x \<in> set [c] \<longleftrightarrow> (\<exists>y. hold y = Some x \<and> hold' y = None)" using c by auto
  qed
  then show "full_strip hold' (delete_card c f)" by simp
qed

end

end
