(* ===== verification/Ui_Strip.thy ===== *)
theory Ui_Strip
  imports Ui_Pool Footer_Cards Redis_Poll
begin

text \<open>
  The footer strip (\<open>src/src/ui.c\<close>, the blocks of \<open>ui_refresh\<close> on cards to evict, services, staleness
  and apartment temperatures).  The strip is the list of its children; the three registries are
  interpretations of \<open>card_group\<close>.
\<close>

section \<open>The blocks\<close>

text \<open>\<open>lv_obj_move_to_index(c, lv_obj_get_child_count(strip) - 1)\<close>.\<close>

definition move_last :: "lv_move \<Rightarrow> nat \<Rightarrow> nat list \<Rightarrow> nat list" where
  "move_last L c children = L c (length children - 1) children"

type_synonym tables = "service_entry list \<times> apttemps_entry list \<times> footer"

definition apply_evict :: "evict_target \<Rightarrow> tables \<Rightarrow> tables" where
  "apply_evict ev tabs =
     (case tabs of (svcs, ats, f) \<Rightarrow>
        if strcmp (et_kind ev) ''apttemps'' = 0
        then (case apttemps_registry_remove (et_name ev) ats of (c, ats') \<Rightarrow> (svcs, ats', delete_card c f))
        else (case service_registry_remove (et_name ev, et_host ev) svcs of (c, svcs') \<Rightarrow> (svcs', ats, delete_card c f)))"

definition service_gt :: "service_entry \<Rightarrow> service_entry \<Rightarrow> bool" where
  "service_gt a b \<longleftrightarrow>
     (let c = strncmp 64 (se_name a) (se_name b);
          c' = (if c = 0 then strncmp 64 (se_host a) (se_host b) else c)
      in \<not> c' \<le> 0)"

definition paint_services :: "double \<Rightarrow> service_entry list \<times> footer \<Rightarrow> service_entry list \<times> footer" where
  "paint_services now tf =
     fold (paint_entry service_registry_find_or_create se_container (\<lambda>c e. e\<lparr>se_container := c\<rparr>)
             (service_face SERVICE_COLOR_GRAY) (\<lambda>e. service_face (service_color e now) e) (\<lambda>c xs. xs))
       (map (\<lambda>e. (se_name e, se_host e)) (c_isort service_gt (service_registry_snapshot SERVICE_REGISTRY_MAX (fst tf)))) tf"

definition paint_stale :: "lv_move \<Rightarrow> stale_state \<times> footer \<Rightarrow> stale_state \<times> footer" where
  "paint_stale L sf =
     (case fold (paint_entry (\<lambda>h t. (stale_registry_find h ((fst sf)\<lparr>st_live := t\<rparr>), t)) sx_container
                   (\<lambda>c e. e\<lparr>sx_container := c\<rparr>) stale_face stale_face (move_last L))
             (map sx_host (stale_registry_snapshot STALE_REGISTRY_MAX (fst sf))) (st_live (fst sf), snd sf) of
        (t, f) \<Rightarrow> ((fst sf)\<lparr>st_live := t\<rparr>, f))"

definition reap_stale :: "stale_state \<times> footer \<Rightarrow> stale_state \<times> footer" where
  "reap_stale sf =
     (case stale_registry_reap STALE_REGISTRY_MAX (fst sf) of (dead, s) \<Rightarrow> (s, fold delete_card dead (snd sf)))"

definition apttemps_gt :: "apttemps_entry \<Rightarrow> apttemps_entry \<Rightarrow> bool" where
  "apttemps_gt a b \<longleftrightarrow> 0 < strncmp 64 (at_slug a) (at_slug b)"

definition paint_apttemps ::
  "kdash \<Rightarrow> lv_move \<Rightarrow> double \<Rightarrow> apttemps_entry list \<times> footer \<Rightarrow> apttemps_entry list \<times> footer" where
  "paint_apttemps K L now tf =
     fold (paint_entry apttemps_registry_find_or_create at_container (\<lambda>c e. e\<lparr>at_container := c\<rparr>)
             (apt_face APTTEMPS_COLOR_GRAY) (\<lambda>e. apt_face (apttemps_color K e now) e) (move_last L))
       (map at_slug (c_isort apttemps_gt (apttemps_registry_snapshot APTTEMPS_REGISTRY_MAX (fst tf)))) tf"

definition refresh_strip ::
  "kdash \<Rightarrow> lv_move \<Rightarrow> double \<Rightarrow> evict_target list \<Rightarrow> tables \<times> stale_state \<Rightarrow> tables \<times> stale_state" where
  "refresh_strip K L now evs ts =
     (case ts of (tabs, s) \<Rightarrow>
        case fold apply_evict evs tabs of (svcs, ats, f) \<Rightarrow>
        case paint_services now (svcs, f) of (svcs', f1) \<Rightarrow>
        case paint_stale L (reap_stale (s, f1)) of (s', f2) \<Rightarrow>
        case paint_apttemps K L now (ats, f2) of (ats', f3) \<Rightarrow> ((svcs', ats', f3), s'))"

text \<open>The containers of all three tables, and the strip that holds exactly them.\<close>

datatype card_key = ServiceKey "string \<times> string" | StaleKey string | AptKey string

fun holds :: "service_entry list \<Rightarrow> stale_entry list \<Rightarrow> apttemps_entry list \<Rightarrow> card_key \<Rightarrow> nat option" where
  "holds svcs st ats (ServiceKey k) = held service_key se_container svcs k"
| "holds svcs st ats (StaleKey k) = held sx_host sx_container st k"
| "holds svcs st ats (AptKey k) = held at_slug at_container ats k"

section \<open>The three groups\<close>

lemma service_matches_key: "service_key_ok (service_key e) \<Longrightarrow> service_matches k e \<longleftrightarrow> service_key e = k"
  by (cases k) (auto simp: service_matches_def service_key_def service_key_ok_def streq_fits)

lemma apttemps_matches_key: "slug_ok (at_slug e) \<Longrightarrow> apttemps_matches k e \<longleftrightarrow> at_slug e = k"
  by (auto simp: apttemps_matches_def slug_ok_def streq_fits)

lemma distinct_of_unique:
  assumes "slots_unique m okk t" "\<forall>k \<in> set (map key t). okk k" "\<And>e k. e \<in> set t \<Longrightarrow> m k e \<longleftrightarrow> key e = k"
  shows "distinct (map key t)"
  unfolding distinct_conv_nth
proof (intro allI impI)
  fix i j assume ij: "i < length (map key t)" "j < length (map key t)" "i \<noteq> j"
  then have "m (key (t ! i)) (t ! i)" "m (key (t ! j)) (t ! j)" "okk (key (t ! i))" using assms(2,3) by simp_all
  then show "map key t ! i \<noteq> map key t ! j"
    using assms(1) ij slots_uniqueD [of m okk t "key (t ! i)" i j] by auto
qed

lemma find_own:
  assumes "distinct (map key t)" "i < length t" "\<And>e. e \<in> set t \<Longrightarrow> m e \<longleftrightarrow> key e = key (t ! i)"
  shows "find_index m t = Some i"
proof -
  have "m (t ! i)" using assms(2,3) by simp
  then obtain j where j: "find_index m t = Some j"
    using assms(2) by (cases "find_index m t") (auto simp: find_index_None)
  then have "j < length t" "key (t ! j) = key (t ! i)" using assms(3) find_index_lt [OF j] find_index_sat [OF j] by auto
  then show ?thesis using j assms(1,2) by (metis distinct_conv_nth length_map nth_map)
qed

definition services_ok :: "service_entry list \<Rightarrow> bool" where
  "services_ok t \<longleftrightarrow> length t \<le> SERVICE_REGISTRY_MAX \<and> distinct (map service_key t) \<and> (\<forall>k \<in> set (map service_key t). service_key_ok k)"

definition apttemps_ok :: "apttemps_entry list \<Rightarrow> bool" where
  "apttemps_ok t \<longleftrightarrow> length t \<le> APTTEMPS_REGISTRY_MAX \<and> distinct (map at_slug t) \<and> (\<forall>k \<in> set (map at_slug t). slug_ok k)"

definition stale_ok :: "stale_entry list \<Rightarrow> bool" where
  "stale_ok t \<longleftrightarrow> length t \<le> STALE_REGISTRY_MAX \<and> distinct (map sx_host t) \<and>
     (\<forall>h \<in> set (map sx_host t). h \<noteq> [] \<and> length h < 64)"

lemma services_inv_ok: "services_inv t \<Longrightarrow> services_ok t"
  using distinct_of_unique [of service_matches service_key_ok t service_key]
  by (auto simp: services_inv_def services_ok_def service_matches_key)

lemma apttemps_inv_ok: "apttemps_inv t \<Longrightarrow> apttemps_ok t"
  using distinct_of_unique [of apttemps_matches slug_ok t at_slug]
  by (auto simp: apttemps_inv_def apttemps_ok_def apttemps_matches_key)

lemma stale_inv_ok: "stale_inv s \<Longrightarrow> stale_ok (st_live s)"
  by (auto simp: stale_inv_def stale_ok_def)

interpretation svc_cards: card_group service_key service_registry_find_or_create se_container
  "\<lambda>c e. e\<lparr>se_container := c\<rparr>" services_ok
proof unfold_locales
  fix t :: "service_entry list" and i c
  assume t: "services_ok t" and i: "i < length t"
  have "find_index (service_matches (service_key (t ! i))) t = Some i"
    using t i by (intro find_own [of service_key]) (auto simp: services_ok_def service_matches_key)
  moreover have "fst (service_key (t ! i)) \<noteq> []" "snd (service_key (t ! i)) \<noteq> []"
    using t i by (auto simp: services_ok_def service_key_ok_def)
  ultimately show "service_registry_find_or_create (service_key (t ! i)) t = (Some i, t)"
    by (simp add: service_registry_find_or_create_def)
  have "map service_key (t[i := (t ! i)\<lparr>se_container := c\<rparr>]) = map service_key t"
    by (metis (no_types, lifting) service_key_def service_entry.simps(1,2) service_entry.surjective
        service_entry.update_convs(7) list_update_id map_update)
  then show "services_ok (t[i := (t ! i)\<lparr>se_container := c\<rparr>])"
    using t unfolding services_ok_def by (metis length_list_update)
qed (auto simp: services_ok_def service_key_def)

interpretation apt_cards: card_group at_slug apttemps_registry_find_or_create at_container
  "\<lambda>c e. e\<lparr>at_container := c\<rparr>" apttemps_ok
proof unfold_locales
  fix t :: "apttemps_entry list" and i c
  assume t: "apttemps_ok t" and i: "i < length t"
  have "find_index (apttemps_matches (at_slug (t ! i))) t = Some i"
    using t i by (intro find_own [of at_slug]) (auto simp: apttemps_ok_def apttemps_matches_key)
  moreover have "at_slug (t ! i) \<noteq> []" using t i by (auto simp: apttemps_ok_def slug_ok_def)
  ultimately show "apttemps_registry_find_or_create (at_slug (t ! i)) t = (Some i, t)"
    by (simp add: apttemps_registry_find_or_create_def)
  have "map at_slug (t[i := (t ! i)\<lparr>at_container := c\<rparr>]) = map at_slug t"
    using i by (simp add: map_update) (metis list_update_id nth_map)
  then show "apttemps_ok (t[i := (t ! i)\<lparr>at_container := c\<rparr>])"
    using t unfolding apttemps_ok_def by (metis length_list_update)
qed (auto simp: apttemps_ok_def)

interpretation stale_cards: card_group sx_host "\<lambda>h t. (stale_registry_find h (s\<lparr>st_live := t\<rparr>), t)" sx_container
  "\<lambda>c e. e\<lparr>sx_container := c\<rparr>" stale_ok
  for s :: stale_state
proof unfold_locales
  fix t :: "stale_entry list" and i c
  assume t: "stale_ok t" and i: "i < length t"
  have "find_index (\<lambda>e. streq 64 (sx_host e) (sx_host (t ! i))) t = Some i"
    using t i by (intro find_own [of sx_host]) (auto simp: stale_ok_def streq_short)
  moreover have "sx_host (t ! i) \<noteq> []" using t i by (auto simp: stale_ok_def)
  ultimately show "(stale_registry_find (sx_host (t ! i)) (s\<lparr>st_live := t\<rparr>), t) = (Some i, t)"
    by (simp add: stale_registry_find_def)
  have "map sx_host (t[i := (t ! i)\<lparr>sx_container := c\<rparr>]) = map sx_host t"
    using i by (simp add: map_update) (metis list_update_id nth_map)
  then show "stale_ok (t[i := (t ! i)\<lparr>sx_container := c\<rparr>])"
    using t unfolding stale_ok_def by (metis length_list_update)
qed (auto simp: stale_ok_def)

interpretation svc_gone: card_group_remove service_key service_registry_find_or_create se_container
  "\<lambda>c e. e\<lparr>se_container := c\<rparr>" services_ok service_registry_remove
proof unfold_locales
  fix k and t :: "service_entry list" and P
  assume t: "services_ok t"
  have "find_index (service_matches k) t = find_index (\<lambda>e. service_key e = k) t"
    using t by (intro find_index_cong) (auto simp: services_ok_def service_matches_key)
  then show "service_registry_remove k t = (case find_index (\<lambda>e. service_key e = k) t of
      None \<Rightarrow> (None, t) | Some i \<Rightarrow> (se_container (t ! i), remove_at i t))"
    by (simp add: service_registry_remove_def)
  show "services_ok (filter P t)"
    using t by (auto simp: services_ok_def distinct_map_filter intro: le_trans [OF length_filter_le])
qed

interpretation apt_gone: card_group_remove at_slug apttemps_registry_find_or_create at_container
  "\<lambda>c e. e\<lparr>at_container := c\<rparr>" apttemps_ok apttemps_registry_remove
proof unfold_locales
  fix k and t :: "apttemps_entry list" and P
  assume t: "apttemps_ok t"
  have "find_index (apttemps_matches k) t = find_index (\<lambda>e. at_slug e = k) t"
    using t by (intro find_index_cong) (auto simp: apttemps_ok_def apttemps_matches_key)
  then show "apttemps_registry_remove k t = (case find_index (\<lambda>e. at_slug e = k) t of
      None \<Rightarrow> (None, t) | Some i \<Rightarrow> (at_container (t ! i), remove_at i t))"
    by (simp add: apttemps_registry_remove_def)
  show "apttemps_ok (filter P t)"
    using t by (auto simp: apttemps_ok_def distinct_map_filter intro: le_trans [OF length_filter_le])
qed

section \<open>The blocks keep the strip\<close>

definition panel_ok :: "service_entry list \<Rightarrow> apttemps_entry list \<Rightarrow> stale_state \<Rightarrow> footer \<Rightarrow> bool" where
  "panel_ok svcs ats s f \<longleftrightarrow> services_ok svcs \<and> apttemps_ok ats \<and> stale_inv s \<and>
     full_strip (holds svcs (st_live s) ats) f"

lemma other_keys:
  "x \<notin> range ServiceKey \<Longrightarrow> holds svcs st ats x = holds svcs' st ats x"
  "x \<notin> range StaleKey \<Longrightarrow> holds svcs st ats x = holds svcs st' ats x"
  "x \<notin> range AptKey \<Longrightarrow> holds svcs st ats x = holds svcs st ats' x"
  by (cases x; auto)+

lemma apply_evict_ok:
  assumes "panel_ok svcs ats s f" "apply_evict ev (svcs, ats, f) = (svcs', ats', f')"
  shows "panel_ok svcs' ats' s f'"
proof (cases "strcmp (et_kind ev) ''apttemps'' = 0")
  case True
  obtain c where r: "apttemps_registry_remove (et_name ev) ats = (c, ats')" and f': "f' = delete_card c f" "svcs' = svcs"
    using assms(2) True by (auto simp: apply_evict_def split: prod.splits)
  show ?thesis
    using apt_gone.remove_group [of ats "holds svcs (st_live s) ats" f AptKey "et_name ev" c ats' "holds svcs (st_live s) ats'", OF _ _ _ r]
      assms(1) other_keys(3) [of _ svcs "st_live s" ats' ats] by (simp add: panel_ok_def f')
next
  case False
  obtain c where r: "service_registry_remove (et_name ev, et_host ev) svcs = (c, svcs')" and f': "f' = delete_card c f" "ats' = ats"
    using assms(2) False by (auto simp: apply_evict_def split: prod.splits)
  show ?thesis
    using svc_gone.remove_group [of svcs "holds svcs (st_live s) ats" f ServiceKey "(et_name ev, et_host ev)" c svcs' "holds svcs' (st_live s) ats", OF _ _ _ r]
      assms(1) other_keys(1) [of _ svcs' "st_live s" ats svcs] by (simp add: panel_ok_def f')
qed

lemma apply_evicts_ok:
  "panel_ok svcs ats s f \<Longrightarrow> fold apply_evict evs (svcs, ats, f) = (svcs', ats', f') \<Longrightarrow> panel_ok svcs' ats' s f'"
proof (induction evs arbitrary: svcs ats f)
  case (Cons ev evs)
  obtain a b c where "apply_evict ev (svcs, ats, f) = (a, b, c)" by (metis prod_cases3)
  then show ?case using Cons apply_evict_ok [OF Cons.prems(1), of ev a b c] by simp
qed simp

lemma reap_stale_ok:
  assumes "panel_ok svcs ats s f" "reap_stale (s, f) = (s', f')"
  shows "panel_ok svcs ats s' f'" "st_live s' = filter (\<lambda>e. sx_deployers e \<noteq> []) (st_live s)"
    "holds svcs (st_live s') ats k = Some c \<Longrightarrow> ft_faces f' c = ft_faces f c"
proof -
  have inv: "stale_inv s" and full: "full_strip (holds svcs (st_live s) ats) f"
    using assms(1) by (simp_all add: panel_ok_def)
  have s': "s' = snd (stale_registry_reap 8 s)" and f': "f' = fold delete_card (fst (stale_registry_reap 8 s)) f"
    using assms(2) by (auto simp: reap_stale_def split: prod.splits)
  show live: "st_live s' = filter (\<lambda>e. sx_deployers e \<noteq> []) (st_live s)" unfolding s' by (rule reap_live [OF inv])
  have d: "distinct (map sx_host (st_live s))" using inv by (simp add: stale_inv_def)
  have own: "held sx_host sx_container (st_live s) (sx_host e) = sx_container e" if "e \<in> set (st_live s)" for e
    using that held_nth [OF d] by (auto simp: in_set_conv_nth)
  have gone: "held sx_host sx_container (st_live s') (sx_host e) = (if sx_deployers e \<noteq> [] then sx_container e else None)"
    if "e \<in> set (st_live s)" for e
  proof -
    have "map_of (map (\<lambda>e. (sx_host e, e)) (st_live s)) (sx_host e) = Some e"
      using d that by (intro map_of_is_SomeI) (auto simp: comp_def)
    then show ?thesis unfolding live held_filter [OF d] by simp
  qed
  have from_entry: "\<exists>e \<in> set (st_live s). sx_host e = h \<and> sx_container e = Some x"
    if "held sx_host sx_container (st_live s) h = Some x" for h x
    using that by (auto simp: held_def bind_eq_Some_conv dest!: map_of_SomeD)
  have "full_strip (holds svcs (st_live s') ats) f'"
    unfolding f' reap_live(2) [OF inv]
  proof (rule delete_shrink [OF full])
    fix k c assume "holds svcs (st_live s') ats k = Some c"
    then show "holds svcs (st_live s) ats k = Some c"
      using filter_held [OF d] unfolding live by (cases k) auto
  next
    fix x
    show "Some x \<in> set (map sx_container (filter (\<lambda>e. sx_deployers e = []) (st_live s))) \<longleftrightarrow>
        (\<exists>k. holds svcs (st_live s) ats k = Some x \<and> holds svcs (st_live s') ats k = None)" (is "?l \<longleftrightarrow> ?r")
    proof
      assume ?l
      then obtain e where e: "e \<in> set (st_live s)" "sx_deployers e = []" "sx_container e = Some x" by auto
      then show ?r using own [of e] gone [of e] by (intro exI [of _ "StaleKey (sx_host e)"]) simp
    next
      assume ?r
      then obtain k where k: "holds svcs (st_live s) ats k = Some x" "holds svcs (st_live s') ats k = None" by blast
      then obtain h where h: "k = StaleKey h" by (cases k) auto
      then obtain e where e: "e \<in> set (st_live s)" "sx_host e = h" "sx_container e = Some x"
        using from_entry k(1) by auto
      then have "sx_deployers e = []" using gone [of e] k(2) h by (auto split: if_splits)
      then show ?l using e by (auto simp: image_iff)
    qed
  qed
  moreover have "stale_inv s'" unfolding s' by (rule reap_inv [OF inv])
  ultimately show "panel_ok svcs ats s' f'" using assms(1) by (simp add: panel_ok_def)
  assume "holds svcs (st_live s') ats k = Some c"
  then have "c \<in> set (ft_strip f')"
    using \<open>full_strip (holds svcs (st_live s') ats) f'\<close> by (auto simp: full_strip_def strip_ok_def)
  then show "ft_faces f' c = ft_faces f c" unfolding f' by (simp add: deleted_strip deleted_faces)
qed

lemma strcmp_eq: "strcmp a b = 0 \<longleftrightarrow> a = b"
  by (simp add: strcmp_def strncmp_zero)

definition evicted_service :: "evict_target list \<Rightarrow> service_entry \<Rightarrow> bool" where
  "evicted_service evs e \<longleftrightarrow> (\<exists>ev \<in> set evs. et_kind ev \<noteq> ''apttemps'' \<and> service_key e = (et_name ev, et_host ev))"

definition evicted_apt :: "evict_target list \<Rightarrow> apttemps_entry \<Rightarrow> bool" where
  "evicted_apt evs e \<longleftrightarrow> (\<exists>ev \<in> set evs. et_kind ev = ''apttemps'' \<and> at_slug e = et_name ev)"

lemma apply_evicts_tables:
  "panel_ok svcs ats s f \<Longrightarrow> fold apply_evict evs (svcs, ats, f) = (svcs', ats', f') \<Longrightarrow>
     svcs' = filter (\<lambda>e. \<not> evicted_service evs e) svcs \<and> ats' = filter (\<lambda>e. \<not> evicted_apt evs e) ats"
proof (induction evs arbitrary: svcs ats f)
  case (Cons ev evs)
  obtain a b c where one: "apply_evict ev (svcs, ats, f) = (a, b, c)" by (metis prod_cases3)
  have "services_ok svcs" "apttemps_ok ats" using Cons.prems(1) by (simp_all add: panel_ok_def)
  then have ab: "a = (if et_kind ev = ''apttemps'' then svcs else filter (\<lambda>e. service_key e \<noteq> (et_name ev, et_host ev)) svcs)"
      "b = (if et_kind ev = ''apttemps'' then filter (\<lambda>e. at_slug e \<noteq> et_name ev) ats else ats)"
    using one by (auto simp: apply_evict_def strcmp_eq svc_gone.remove_eq apt_gone.remove_eq)
  have "svcs' = filter (\<lambda>e. \<not> evicted_service evs e) a \<and> ats' = filter (\<lambda>e. \<not> evicted_apt evs e) b"
    using Cons.IH [of a b c] Cons.prems apply_evict_ok [OF Cons.prems(1) one] one by simp
  then show ?case unfolding ab by (auto simp: evicted_service_def evicted_apt_def intro: filter_cong)
qed (simp add: evicted_service_def evicted_apt_def)

lemma settles_last:
  assumes "lv_moves L" shows "settles (move_last L) True"
  unfolding settles_def
proof (intro allI impI)
  fix c and xs :: "nat list"
  assume xs: "distinct xs" "c \<in> set xs"
  then have "length (remove1 c xs) = length xs - 1" "length xs - 1 < length xs"
    by (auto simp: length_remove1 dest: length_pos_if_in_set)
  then have "move_last L c xs = remove1 c xs @ [c]" using assms xs by (simp add: move_last_def lv_moves_def)
  also have "remove1 c xs = filter (\<lambda>x. x \<noteq> c) xs"
    using xs(1) by (auto simp: distinct_remove1_removeAll removeAll_filter_not_eq intro: filter_cong)
  finally show "move_last L c xs = (if True then filter (\<lambda>x. x \<noteq> c) xs @ [c] else xs)" by simp
qed

lemma settles_same: "settles (\<lambda>c xs. xs) False"
  by (simp add: settles_def)

text \<open>The order of the service cards: by name, then by host.\<close>

definition service_le :: "service_entry \<Rightarrow> service_entry \<Rightarrow> bool" where
  "service_le a b \<longleftrightarrow> se_name a < se_name b \<or> se_name a = se_name b \<and> se_host a \<le> se_host b"

interpretation by_service: isort_order service_gt
proof
  have e: "service_gt a b \<longleftrightarrow> take 64 (se_name b) < take 64 (se_name a) \<or>
      take 64 (se_name a) = take 64 (se_name b) \<and> take 64 (se_host b) < take 64 (se_host a)" for a b
    by (auto simp: service_gt_def Let_def not_le strncmp_pos strncmp_zero)
  show "service_gt a b \<Longrightarrow> \<not> service_gt b a" for a b unfolding e by auto
  have lex: "\<not> (n2 < n1 \<or> n1 = n2 \<and> h2 < h1) \<Longrightarrow> \<not> (n3 < n2 \<or> n2 = n3 \<and> h3 < h2) \<Longrightarrow> \<not> (n3 < n1 \<or> n1 = n3 \<and> h3 < h1)"
    for n1 n2 n3 h1 h2 h3 :: string
    by (cases n1 n2 rule: linorder_cases; cases n2 n3 rule: linorder_cases) auto
  show "\<not> service_gt a b \<Longrightarrow> \<not> service_gt b c \<Longrightarrow> \<not> service_gt a c" for a b c
    unfolding e by (rule lex)
qed

lemma services_sorted:
  assumes "services_ok es" shows "sorted_wrt service_le (c_isort service_gt es)"
proof (rule sorted_wrt_mono_rel [OF _ by_service.sorted_isort])
  fix a b assume ab: "a \<in> set (c_isort service_gt es)" "b \<in> set (c_isort service_gt es)" "\<not> service_gt a b"
  then have "length (se_name a) < 64" "length (se_name b) < 64" "length (se_host a) < 64" "length (se_host b) < 64"
    using assms by (auto simp: services_ok_def service_key_ok_def service_key_def)
  then show "service_le a b" using ab(3)
    by (auto simp: service_gt_def service_le_def Let_def not_le strncmp_pos strncmp_zero split: if_splits)
qed

text \<open>The sort looks at the key only.\<close>

lemma service_gt_key: "service_key a = service_key a' \<Longrightarrow> service_key b = service_key b' \<Longrightarrow> service_gt a b = service_gt a' b'"
proof -
  assume "service_key a = service_key a'" "service_key b = service_key b'"
  then have "se_name a = se_name a'" "se_host a = se_host a'" "se_name b = se_name b'" "se_host b = se_host b'"
    by (simp_all add: service_key_def)
  then show "service_gt a b = service_gt a' b'" by (simp only: service_gt_def)
qed

lemma insert_right_keys:
  assumes "\<And>a b a' b'. key a = key a' \<Longrightarrow> key b = key b' \<Longrightarrow> gt a b = gt a' b'"
  shows "map key xs = map key ys \<Longrightarrow> key x = key y \<Longrightarrow> map key (insert_right gt x xs) = map key (insert_right gt y ys)"
proof (induction xs arbitrary: ys rule: rev_induct)
  case (snoc z xs)
  then obtain ys' u where ys: "ys = ys' @ [u]" by (cases ys rule: rev_cases) auto
  have u: "map key xs = map key ys'" "key z = key u" using snoc.prems(1) by (simp_all add: ys)
  then have "gt z x = gt u y" using snoc.prems(2) by (intro assms) simp_all
  then show ?case using snoc.IH [OF u(1) snoc.prems(2)] u snoc.prems(2) by (simp add: ys insert_right_snoc)
qed simp

lemma isort_keys:
  assumes "map key xs = map key ys" "\<And>a b a' b'. key a = key a' \<Longrightarrow> key b = key b' \<Longrightarrow> gt a b = gt a' b'"
  shows "map key (c_isort gt xs) = map key (c_isort gt ys)"
proof -
  have "map key (fold (insert_right gt) xs acc) = map key (fold (insert_right gt) ys acc')"
    if "map key acc = map key acc'" for acc acc'
    using assms(1) that
  proof (induction xs arbitrary: ys acc acc')
    case (Cons x xs)
    then obtain y ys' where ys: "ys = y # ys'" by (cases ys) auto
    have "map key xs = map key ys'" "key x = key y" using Cons.prems(1) by (simp_all add: ys)
    moreover have "map key (insert_right gt x acc) = map key (insert_right gt y acc')"
      by (rule insert_right_keys [of key gt, OF assms(2) Cons.prems(2) \<open>key x = key y\<close>])
    ultimately show ?case using Cons.IH [of ys' "insert_right gt x acc" "insert_right gt y acc'"] by (simp only: ys fold_simps)
  qed simp
  then show ?thesis by (simp add: c_isort_fold)
qed

lemma paint_services_ok:
  assumes "panel_ok svcs ats s f" "paint_services now (svcs, f) = (svcs', f')"
  shows "panel_ok svcs' ats s f'" "map (\<lambda>e. e\<lparr>se_container := None\<rparr>) svcs' = map (\<lambda>e. e\<lparr>se_container := None\<rparr>) svcs"
    "\<forall>e \<in> set svcs'. \<exists>c. se_container e = Some c \<and> ft_faces f' c = Some (service_face (service_color e now) e)"
    "\<exists>es. mset es = mset svcs' \<and> sorted_wrt service_le es \<and>
       ft_strip f' = ft_strip f @ filter (\<lambda>x. x \<notin> set (ft_strip f)) (map (the \<circ> se_container) es)"
    "\<forall>e \<in> set svcs'. the (se_container e) \<in> set (ft_strip f) \<or> ft_next f \<le> the (se_container e)"
proof -
  have ok: "services_ok svcs" and full: "full_strip (holds svcs (st_live s) ats) f"
    using assms(1) by (simp_all add: panel_ok_def)
  let ?ks = "map service_key (c_isort service_gt svcs)"
  have "service_registry_snapshot SERVICE_REGISTRY_MAX svcs = svcs"
    using ok by (simp add: services_ok_def service_registry_snapshot_def)
  then have run: "fold (paint_entry service_registry_find_or_create se_container (\<lambda>c e. e\<lparr>se_container := c\<rparr>)
             (service_face SERVICE_COLOR_GRAY) (\<lambda>e. service_face (service_color e now) e) (\<lambda>c xs. xs)) ?ks (svcs, f) = (svcs', f')"
    using assms(2) by (simp add: paint_services_def service_key_def [abs_def])
  have ks: "distinct ?ks" "set ?ks = service_key ` set svcs" using ok by (simp_all add: services_ok_def)
  have inj: "inj ServiceKey" by (simp add: inj_def)
  note all = svc_cards.paint_group [OF ok full settles_same inj _ ks run, of "holds svcs' (st_live s) ats"]
  show "panel_ok svcs' ats s f'" "map (\<lambda>e. e\<lparr>se_container := None\<rparr>) svcs' = map (\<lambda>e. e\<lparr>se_container := None\<rparr>) svcs"
    and faces: "\<forall>e \<in> set svcs'. \<exists>c. se_container e = Some c \<and> ft_faces f' c = Some (service_face (service_color e now) e)"
    using all other_keys(1) assms(1) by (simp_all add: panel_ok_def)
  have out: "services_ok svcs'" "map service_key svcs' = map service_key svcs"
      "ft_strip f' = ft_strip f @ filter (\<lambda>x. x \<notin> set (ft_strip f)) (map (\<lambda>k. the (held service_key se_container svcs' k)) ?ks)"
      "\<forall>k c. held service_key se_container svcs' k = Some c \<longrightarrow> held service_key se_container svcs k = Some c \<or> ft_next f \<le> c"
    using all other_keys(1) by simp_all
  have d': "distinct (map service_key svcs')" using out(1) by (simp add: services_ok_def)
  have own: "held service_key se_container svcs' (service_key e) = se_container e" if "e \<in> set svcs'" for e
    by (rule held_own [OF d' that])
  have m: "map service_key (c_isort service_gt svcs') = ?ks"
    using isort_keys [OF out(2)] service_gt_key by blast
  have "map (\<lambda>k. the (held service_key se_container svcs' k)) ?ks = map (the \<circ> se_container) (c_isort service_gt svcs')"
    unfolding m [symmetric] using own by (simp add: comp_def)
  then have "ft_strip f' = ft_strip f @ filter (\<lambda>x. x \<notin> set (ft_strip f)) (map (the \<circ> se_container) (c_isort service_gt svcs'))"
    using out(3) by (simp only:)
  then show "\<exists>es. mset es = mset svcs' \<and> sorted_wrt service_le es \<and>
       ft_strip f' = ft_strip f @ filter (\<lambda>x. x \<notin> set (ft_strip f)) (map (the \<circ> se_container) es)"
    using services_sorted [OF out(1)] mset_c_isort by blast
  show "\<forall>e \<in> set svcs'. the (se_container e) \<in> set (ft_strip f) \<or> ft_next f \<le> the (se_container e)"
  proof
    fix e assume e: "e \<in> set svcs'"
    then obtain c where c: "se_container e = Some c" using faces by blast
    then have "held service_key se_container svcs (service_key e) = Some c \<or> ft_next f \<le> c" using out(4) [rule_format, of "service_key e" c] own [OF e] c by simp
    moreover have "c \<in> set (ft_strip f)" if "held service_key se_container svcs (service_key e) = Some c"
      using full that unfolding full_strip_def strip_ok_def by (metis holds.simps(1))
    ultimately show "the (se_container e) \<in> set (ft_strip f) \<or> ft_next f \<le> the (se_container e)" using c by auto
  qed
qed

lemma paint_stale_ok:
  assumes "lv_moves L" "panel_ok svcs ats s f" "paint_stale L (s, f) = (s', f')"
  shows "panel_ok svcs ats s' f'"
    "map (\<lambda>e. e\<lparr>sx_container := None\<rparr>) (st_live s') = map (\<lambda>e. e\<lparr>sx_container := None\<rparr>) (st_live s)"
    "\<forall>e \<in> set (st_live s'). \<exists>c. sx_container e = Some c \<and> ft_faces f' c = Some (stale_face e)"
    "\<forall>k c. k \<notin> range StaleKey \<longrightarrow> holds svcs (st_live s) ats k = Some c \<longrightarrow> ft_faces f' c = ft_faces f c"
    "ft_strip f' = filter (\<lambda>x. x \<notin> set (map (the \<circ> sx_container) (st_live s'))) (ft_strip f) @
       map (the \<circ> sx_container) (st_live s')"
proof -
  have inv: "stale_inv s" and ok: "stale_ok (st_live s)" and full: "full_strip (holds svcs (st_live s) ats) f"
    using assms(2) stale_inv_ok by (auto simp: panel_ok_def)
  let ?ks = "map sx_host (st_live s)"
  have "stale_registry_snapshot STALE_REGISTRY_MAX s = st_live s"
    using ok by (simp add: stale_ok_def stale_registry_snapshot_def)
  then obtain t' where s': "s' = s\<lparr>st_live := t'\<rparr>" and
    run: "fold (paint_entry (\<lambda>h t. (stale_registry_find h (s\<lparr>st_live := t\<rparr>), t)) sx_container
       (\<lambda>c e. e\<lparr>sx_container := c\<rparr>) stale_face stale_face (move_last L)) ?ks (st_live s, f) = (t', f')"
    using assms(3) by (auto simp: paint_stale_def split: prod.splits)
  have ks: "distinct ?ks" "set ?ks = sx_host ` set (st_live s)" using ok by (simp_all add: stale_ok_def)
  have inj: "inj StaleKey" by (simp add: inj_def)
  note all = stale_cards.paint_group [OF ok full settles_last [OF assms(1)] inj _ ks run, of "holds svcs t' ats"]
  have main: "stale_ok t'" "map sx_host t' = ?ks"
      "map (\<lambda>e. e\<lparr>sx_container := None\<rparr>) t' = map (\<lambda>e. e\<lparr>sx_container := None\<rparr>) (st_live s)"
      "full_strip (holds svcs t' ats) f'"
      "\<forall>e \<in> set t'. \<exists>c. sx_container e = Some c \<and> ft_faces f' c = Some (stale_face e)"
      "\<forall>k c. k \<notin> range StaleKey \<longrightarrow> holds svcs (st_live s) ats k = Some c \<longrightarrow> ft_faces f' c = ft_faces f c"
      "ft_strip f' = filter (\<lambda>x. x \<notin> set (map (\<lambda>k. the (held sx_host sx_container t' k)) ?ks)) (ft_strip f) @
         map (\<lambda>k. the (held sx_host sx_container t' k)) ?ks"
    using all other_keys(2) by simp_all
  have "distinct (map sx_host t')" using main(1) by (simp add: stale_ok_def)
  from held_nth [OF this] have "map (\<lambda>k. the (held sx_host sx_container t' k)) (map sx_host t') = map (the \<circ> sx_container) t'"
    by (intro nth_equalityI) simp_all
  then have hs: "map (\<lambda>k. the (held sx_host sx_container t' k)) ?ks = map (the \<circ> sx_container) t'"
    using main(2) by simp
  show "ft_strip f' = filter (\<lambda>x. x \<notin> set (map (the \<circ> sx_container) (st_live s'))) (ft_strip f) @
       map (the \<circ> sx_container) (st_live s')"
    using main(7) unfolding hs by (simp add: s')
  have hosts: "sx_host e \<noteq> [] \<and> length (sx_host e) < 64 \<and> sx_host e \<noteq> STALE_EXCLUDED_HOST" if "e \<in> set t'" for e
  proof -
    have "sx_host e \<in> sx_host ` set (st_live s)" using main(2) that by (metis image_eqI list.set_map)
    then show ?thesis using inv by (auto simp: stale_inv_def)
  qed
  have "length t' = length (st_live s)" using main(2) by (metis length_map)
  then have "stale_inv s'" using inv hosts main(2) by (simp add: stale_inv_def s')
  then show "panel_ok svcs ats s' f'" using main(4) assms(2) by (simp add: panel_ok_def s')
  show "map (\<lambda>e. e\<lparr>sx_container := None\<rparr>) (st_live s') = map (\<lambda>e. e\<lparr>sx_container := None\<rparr>) (st_live s)"
    "\<forall>e \<in> set (st_live s'). \<exists>c. sx_container e = Some c \<and> ft_faces f' c = Some (stale_face e)"
    "\<forall>k c. k \<notin> range StaleKey \<longrightarrow> holds svcs (st_live s) ats k = Some c \<longrightarrow> ft_faces f' c = ft_faces f c"
    using main(3,5,6) by (simp_all add: s')
qed

interpretation by_slug: isort_order apttemps_gt
  by unfold_locales (auto simp: apttemps_gt_def strncmp_pos)

lemma apttemps_sorted:
  assumes "apttemps_ok ats" shows "map at_slug (c_isort apttemps_gt ats) = sort (map at_slug ats)"
proof -
  have "sorted_wrt (\<lambda>a b. at_slug a \<le> at_slug b) (c_isort apttemps_gt ats)"
  proof (rule sorted_wrt_mono_rel [OF _ by_slug.sorted_isort])
    fix a b assume ab: "a \<in> set (c_isort apttemps_gt ats)" "b \<in> set (c_isort apttemps_gt ats)" "\<not> apttemps_gt a b"
    then have "length (at_slug a) < 64" "length (at_slug b) < 64"
      using assms by (auto simp: apttemps_ok_def slug_ok_def)
    then show "at_slug a \<le> at_slug b" using ab(3) by (simp add: apttemps_gt_def strncmp_pos not_less)
  qed
  then show ?thesis by (intro properties_for_sort [symmetric]) (simp_all add: sorted_map)
qed

lemma paint_apttemps_ok:
  assumes "lv_moves L" "panel_ok svcs ats s f" "paint_apttemps K L now (ats, f) = (ats', f')"
  shows "panel_ok svcs ats' s f'"
    "map (\<lambda>e. e\<lparr>at_container := None\<rparr>) ats' = map (\<lambda>e. e\<lparr>at_container := None\<rparr>) ats"
    "\<forall>e \<in> set ats'. \<exists>c. at_container e = Some c \<and> ft_faces f' c = Some (apt_face (apttemps_color K e now) e)"
    "\<forall>k c. k \<notin> range AptKey \<longrightarrow> holds svcs (st_live s) ats k = Some c \<longrightarrow> ft_faces f' c = ft_faces f c"
    "ft_strip f' = filter (\<lambda>x. x \<notin> set (map (the \<circ> at_container) (sort_key at_slug ats'))) (ft_strip f) @
       map (the \<circ> at_container) (sort_key at_slug ats')"
proof -
  have ok: "apttemps_ok ats" and full: "full_strip (holds svcs (st_live s) ats) f"
    using assms(2) by (auto simp: panel_ok_def)
  let ?ks = "map at_slug (c_isort apttemps_gt ats)"
  have "apttemps_registry_snapshot APTTEMPS_REGISTRY_MAX ats = ats"
    using ok by (simp add: apttemps_ok_def apttemps_registry_snapshot_def)
  then have run: "fold (paint_entry apttemps_registry_find_or_create at_container (\<lambda>c e. e\<lparr>at_container := c\<rparr>)
             (apt_face APTTEMPS_COLOR_GRAY) (\<lambda>e. apt_face (apttemps_color K e now) e) (move_last L)) ?ks (ats, f) = (ats', f')"
    using assms(3) by (simp add: paint_apttemps_def)
  have ks: "distinct ?ks" "set ?ks = at_slug ` set ats" using ok by (simp_all add: apttemps_ok_def)
  have inj: "inj AptKey" by (simp add: inj_def)
  note all = apt_cards.paint_group [OF ok full settles_last [OF assms(1)] inj _ ks run, of "holds svcs (st_live s) ats'"]
  have main: "apttemps_ok ats'" "map at_slug ats' = map at_slug ats"
      "map (\<lambda>e. e\<lparr>at_container := None\<rparr>) ats' = map (\<lambda>e. e\<lparr>at_container := None\<rparr>) ats"
      "full_strip (holds svcs (st_live s) ats') f'"
      "\<forall>e \<in> set ats'. \<exists>c. at_container e = Some c \<and> ft_faces f' c = Some (apt_face (apttemps_color K e now) e)"
      "\<forall>k c. k \<notin> range AptKey \<longrightarrow> holds svcs (st_live s) ats k = Some c \<longrightarrow> ft_faces f' c = ft_faces f c"
      "ft_strip f' = filter (\<lambda>x. x \<notin> set (map (\<lambda>k. the (held at_slug at_container ats' k)) ?ks)) (ft_strip f) @
         map (\<lambda>k. the (held at_slug at_container ats' k)) ?ks"
    using all other_keys(3) by simp_all
  have d: "distinct (map at_slug ats')" using main(1) by (simp add: apttemps_ok_def)
  have "sort (map at_slug ats') = map at_slug (sort_key at_slug ats')"
    by (rule properties_for_sort) simp_all
  then have "?ks = map at_slug (sort_key at_slug ats')"
    using apttemps_sorted [OF ok] by (simp add: main(2))
  moreover have "held at_slug at_container ats' (at_slug e) = at_container e" if "e \<in> set ats'" for e
    using that held_nth [OF d] by (auto simp: in_set_conv_nth)
  ultimately have hs: "map (\<lambda>k. the (held at_slug at_container ats' k)) ?ks = map (the \<circ> at_container) (sort_key at_slug ats')"
    by (simp add: comp_def)
  show "ft_strip f' = filter (\<lambda>x. x \<notin> set (map (the \<circ> at_container) (sort_key at_slug ats'))) (ft_strip f) @
       map (the \<circ> at_container) (sort_key at_slug ats')"
    using main(7) unfolding hs .
  show "panel_ok svcs ats' s f'" using main assms(2) by (simp add: panel_ok_def)
  show "map (\<lambda>e. e\<lparr>at_container := None\<rparr>) ats' = map (\<lambda>e. e\<lparr>at_container := None\<rparr>) ats"
    "\<forall>e \<in> set ats'. \<exists>c. at_container e = Some c \<and> ft_faces f' c = Some (apt_face (apttemps_color K e now) e)"
    "\<forall>k c. k \<notin> range AptKey \<longrightarrow> holds svcs (st_live s) ats k = Some c \<longrightarrow> ft_faces f' c = ft_faces f c"
    using main by simp_all
qed

section \<open>Where the service cards end up\<close>

lemma evicts_strip:
  "fold apply_evict evs (svcs, ats, f) = (svcs', ats', f') \<Longrightarrow>
     (\<exists>P. ft_strip f' = filter P (ft_strip f)) \<and> ft_next f' = ft_next f"
proof (induction evs arbitrary: svcs ats f)
  case Nil
  then show ?case by (auto intro: exI [of _ "\<lambda>x. True"])
next
  case (Cons ev evs)
  obtain a b c where one: "apply_evict ev (svcs, ats, f) = (a, b, c)" by (metis prod_cases3)
  have d: "(\<exists>P. ft_strip (delete_card x f) = filter P (ft_strip f)) \<and> ft_next (delete_card x f) = ft_next f" for x
    by (cases x) (auto simp: delete_card_def intro: exI [of _ "\<lambda>x. True"])
  have "(\<exists>P. ft_strip c = filter P (ft_strip f)) \<and> ft_next c = ft_next f"
    using one d by (auto simp: apply_evict_def split: if_splits prod.splits)
  moreover have "(\<exists>P. ft_strip f' = filter P (ft_strip c)) \<and> ft_next f' = ft_next c" using Cons one by simp
  ultimately show ?case by (metis filter_filter)
qed

lemma filter_kept:
  assumes "ys = filter P xs" "\<And>x. x \<in> set xs \<Longrightarrow> Q x \<Longrightarrow> x \<in> set ys" shows "filter Q ys = filter Q xs"
  unfolding assms(1) filter_filter using assms(2) unfolding assms(1) by (intro filter_cong) auto

text \<open>The service cards that were in the strip stay where they are among themselves; the new ones follow, sorted.\<close>

lemma service_front:
  assumes ok: "panel_ok svcs ats s f" and ev: "fold apply_evict evs (svcs, ats, f) = (svcs1, ats1, f1)"
    and ok3: "panel_ok svcs' ats1 s3 f3" and rp: "reap_stale (s, f2) = (s3, f3)"
    and es: "mset es = mset svcs'"
      "ft_strip f2 = ft_strip f1 @ filter (\<lambda>x. x \<notin> set (ft_strip f1)) (map (the \<circ> se_container) es)"
    and new: "\<forall>e \<in> set svcs'. the (se_container e) \<in> set (ft_strip f1) \<or> ft_next f1 \<le> the (se_container e)"
    and held: "\<forall>e \<in> set svcs'. \<exists>c. se_container e = Some c \<and> F e c"
    and front: "front = filter A (filter B (ft_strip f3))" "set front = set (map (the \<circ> se_container) svcs')"
  shows "front = filter (\<lambda>x. x \<in> set (map (the \<circ> se_container) svcs')) (ft_strip f) @
    filter (\<lambda>x. x \<notin> set (ft_strip f)) (map (the \<circ> se_container) es)"
proof -
  let ?SV = "map (the \<circ> se_container) svcs'" and ?ES = "map (the \<circ> se_container) es"
  have ESV: "set ?ES = set ?SV" using es(1) by (metis list.set_map set_mset_mset)
  have d: "distinct (map service_key svcs')" using ok3 by (simp add: panel_ok_def services_ok_def)
  have in3: "x \<in> set (ft_strip f3)" if "x \<in> set ?SV" for x
  proof -
    from that obtain e where e: "e \<in> set svcs'" "x = the (se_container e)" by auto
    then have "holds svcs' (st_live s3) ats1 (ServiceKey (service_key e)) = Some x" using held held_own [OF d e(1)] by auto
    then show ?thesis using ok3 unfolding panel_ok_def full_strip_def strip_ok_def by blast
  qed
  obtain P where P: "ft_strip f1 = filter P (ft_strip f)" and n1: "ft_next f1 = ft_next f" using evicts_strip [OF ev] by blast
  have small: "x < ft_next f" if "x \<in> set (ft_strip f)" for x
    using ok that unfolding panel_ok_def full_strip_def strip_ok_def by blast
  have old: "x \<in> set (ft_strip f1) \<longleftrightarrow> x \<in> set (ft_strip f)" if "x \<in> set ?SV" for x
  proof -
    have "x \<in> set (ft_strip f1) \<or> ft_next f \<le> x" using new that n1 by auto
    then show ?thesis using small [of x] P by auto
  qed
  have "front = filter (\<lambda>x. x \<in> set ?SV) (ft_strip f3)"
    unfolding front(2) [symmetric] by (simp add: front(1)) (auto intro: filter_cong)
  also have "\<dots> = filter (\<lambda>x. x \<in> set ?SV) (ft_strip f2)"
  proof (rule filter_kept)
    have "f3 = fold delete_card (fst (stale_registry_reap STALE_REGISTRY_MAX s)) f2"
      using rp by (auto simp: reap_stale_def split: prod.splits)
    then show "ft_strip f3 = filter (\<lambda>x. Some x \<notin> set (fst (stale_registry_reap STALE_REGISTRY_MAX s))) (ft_strip f2)"
      by (simp only: deleted_strip)
  qed (rule in3)
  also have "\<dots> = filter (\<lambda>x. x \<in> set ?SV) (ft_strip f1) @ filter (\<lambda>x. x \<notin> set (ft_strip f1)) ?ES"
    unfolding es(2) filter_append filter_filter ESV [symmetric] by (simp del: set_map) (auto intro: filter_cong)
  also have "filter (\<lambda>x. x \<notin> set (ft_strip f1)) ?ES = filter (\<lambda>x. x \<notin> set (ft_strip f)) ?ES"
    by (rule filter_cong [OF refl]) (use old ESV in blast)
  also have "filter (\<lambda>x. x \<in> set ?SV) (ft_strip f1) = filter (\<lambda>x. x \<in> set ?SV) (ft_strip f)"
    by (rule filter_kept [OF P]) (use old in blast)
  finally show ?thesis .
qed

section \<open>Properties\<close>

lemma strip_refreshed:
  assumes "lv_moves L" "panel_ok svcs ats s f"
    and "refresh_strip K L now evs ((svcs, ats, f), s) = ((svcs', ats', f'), s')"
  shows "panel_ok svcs' ats' s' f' \<and>
    (\<exists>front es. ft_strip f' = front @ map (the \<circ> sx_container) (st_live s') @ map (the \<circ> at_container) (sort_key at_slug ats') \<and>
       mset front = mset (map (the \<circ> se_container) svcs') \<and>
       front = filter (\<lambda>x. x \<in> set (map (the \<circ> se_container) svcs')) (ft_strip f) @
         filter (\<lambda>x. x \<notin> set (ft_strip f)) (map (the \<circ> se_container) es) \<and>
       mset es = mset svcs' \<and> sorted_wrt service_le es) \<and>
    map (\<lambda>e. e\<lparr>se_container := None\<rparr>) svcs' =
      map (\<lambda>e. e\<lparr>se_container := None\<rparr>) (filter (\<lambda>e. \<not> evicted_service evs e) svcs) \<and>
    map (\<lambda>e. e\<lparr>sx_container := None\<rparr>) (st_live s') =
      map (\<lambda>e. e\<lparr>sx_container := None\<rparr>) (filter (\<lambda>e. sx_deployers e \<noteq> []) (st_live s)) \<and>
    map (\<lambda>e. e\<lparr>at_container := None\<rparr>) ats' =
      map (\<lambda>e. e\<lparr>at_container := None\<rparr>) (filter (\<lambda>e. \<not> evicted_apt evs e) ats) \<and>
    (\<forall>e \<in> set svcs'. \<exists>c. se_container e = Some c \<and> ft_faces f' c = Some (service_face (service_color e now) e)) \<and>
    (\<forall>e \<in> set (st_live s'). \<exists>c. sx_container e = Some c \<and> ft_faces f' c = Some (stale_face e)) \<and>
    (\<forall>e \<in> set ats'. \<exists>c. at_container e = Some c \<and> ft_faces f' c = Some (apt_face (apttemps_color K e now) e))"
proof -
  obtain svcs1 ats1 f1 f2 f4 where ev: "fold apply_evict evs (svcs, ats, f) = (svcs1, ats1, f1)"
    and sv: "paint_services now (svcs1, f1) = (svcs', f2)"
    and st0: "paint_stale L (reap_stale (s, f2)) = (s', f4)"
    and ap: "paint_apttemps K L now (ats1, f4) = (ats', f')"
    using assms(3) by (auto simp: refresh_strip_def split: prod.splits)
  obtain s3 f3 where rp: "reap_stale (s, f2) = (s3, f3)" by (rule prod.exhaust)
  note st = st0 [unfolded rp]
  note p1 = apply_evicts_ok [OF assms(2) ev]
  note p2 = paint_services_ok [OF p1 sv]
  note p3 = reap_stale_ok [OF p2(1) rp]
  note p4 = paint_stale_ok [OF assms(1) p3(1) st]
  note p5 = paint_apttemps_ok [OF assms(1) p4(1) ap]
  let ?SV = "map (the \<circ> se_container) svcs'"
  let ?ST = "map (the \<circ> sx_container) (st_live s')"
  let ?AT = "map (the \<circ> at_container) (sort_key at_slug ats')"
  have sd: "distinct (map service_key svcs')" and td: "distinct (map sx_host (st_live s'))" and ad: "distinct (map at_slug ats')"
    using p5(1) by (auto simp: panel_ok_def services_ok_def stale_inv_def apttemps_ok_def)
  have svc_face: "\<forall>e \<in> set svcs'. \<exists>c. se_container e = Some c \<and> ft_faces f' c = Some (service_face (service_color e now) e)"
  proof
    fix e assume e: "e \<in> set svcs'"
    then obtain c where c: "se_container e = Some c" "ft_faces f2 c = Some (service_face (service_color e now) e)"
      using p2(3) by blast
    have h: "holds svcs' st ats (ServiceKey (service_key e)) = Some c" for st ats using held_own [OF sd e] c(1) by simp
    have "ft_faces f' c = ft_faces f4 c" using p5(4) h by blast
    also have "\<dots> = ft_faces f3 c" using p4(4) h by blast
    also have "\<dots> = ft_faces f2 c" by (rule p3(3) [OF h])
    finally show "\<exists>c. se_container e = Some c \<and> ft_faces f' c = Some (service_face (service_color e now) e)" using c by auto
  qed
  have st_face: "\<forall>e \<in> set (st_live s'). \<exists>c. sx_container e = Some c \<and> ft_faces f' c = Some (stale_face e)"
  proof
    fix e assume e: "e \<in> set (st_live s')"
    then obtain c where c: "sx_container e = Some c" "ft_faces f4 c = Some (stale_face e)" using p4(3) by blast
    have "holds svcs' (st_live s') ats1 (StaleKey (sx_host e)) = Some c" using held_own [OF td e] c(1) by simp
    then have "ft_faces f' c = ft_faces f4 c" using p5(4) by blast
    then show "\<exists>c. sx_container e = Some c \<and> ft_faces f' c = Some (stale_face e)" using c by auto
  qed
  have full: "full_strip (holds svcs' (st_live s') ats') f'" using p5(1) by (simp add: panel_ok_def)
  have one: "k = k'" if "holds svcs' (st_live s') ats' k = Some x" "holds svcs' (st_live s') ats' k' = Some x" for k k' x
    using full that by (auto simp: full_strip_def strip_ok_def)
  have inSV: "x \<in> set ?SV \<longleftrightarrow> (\<exists>k. holds svcs' (st_live s') ats' (ServiceKey k) = Some x)" for x
  proof
    assume "x \<in> set ?SV"
    then obtain e where e: "e \<in> set svcs'" "x = the (se_container e)" by auto
    then show "\<exists>k. holds svcs' (st_live s') ats' (ServiceKey k) = Some x"
      using svc_face held_own [OF sd e(1)] by (intro exI [of _ "service_key e"]) auto
  qed (auto dest!: held_entry simp: image_iff intro!: bexI)
  have inST: "x \<in> set ?ST \<longleftrightarrow> (\<exists>k. holds svcs' (st_live s') ats' (StaleKey k) = Some x)" for x
  proof
    assume "x \<in> set ?ST"
    then obtain e where e: "e \<in> set (st_live s')" "x = the (sx_container e)" by auto
    then show "\<exists>k. holds svcs' (st_live s') ats' (StaleKey k) = Some x"
      using st_face held_own [OF td e(1)] by (intro exI [of _ "sx_host e"]) auto
  qed (auto dest!: held_entry simp: image_iff intro!: bexI)
  have inAT: "x \<in> set ?AT \<longleftrightarrow> (\<exists>k. holds svcs' (st_live s') ats' (AptKey k) = Some x)" for x
  proof
    assume "x \<in> set ?AT"
    then obtain e where e: "e \<in> set ats'" "x = the (at_container e)" by auto
    then show "\<exists>k. holds svcs' (st_live s') ats' (AptKey k) = Some x"
      using p5(3) held_own [OF ad e(1)] by (intro exI [of _ "at_slug e"]) auto
  qed (auto dest!: held_entry simp: image_iff intro!: bexI)
  have apart: "x \<notin> set ?AT" if "x \<in> set ?ST" for x using that one unfolding inST inAT by blast
  have apart2: "x \<notin> set ?AT \<and> x \<notin> set ?ST" if "x \<in> set ?SV" for x using that one unfolding inSV inST inAT by blast
  define front where "front = filter (\<lambda>x. x \<notin> set ?AT) (filter (\<lambda>x. x \<notin> set ?ST) (ft_strip f3))"
  have strip: "ft_strip f' = front @ ?ST @ ?AT"
    using p5(5) p4(5) apart by (simp add: front_def filter_id_conv del: set_map)
  have "set front = set ?SV"
  proof (intro set_eqI iffI)
    fix x assume x: "x \<in> set front"
    then have "x \<in> set (ft_strip f')" by (simp add: strip)
    then obtain k where k: "holds svcs' (st_live s') ats' k = Some x" using full by (auto simp: full_strip_def)
    moreover have "x \<notin> set ?AT" "x \<notin> set ?ST" using x by (simp_all add: front_def)
    ultimately show "x \<in> set ?SV" unfolding inSV inST inAT by (cases k) blast+
  next
    fix x assume x: "x \<in> set ?SV"
    then have "x \<in> set (ft_strip f')" using full unfolding inSV full_strip_def strip_ok_def by blast
    then show "x \<in> set front" using apart2 [OF x] by (simp add: strip del: set_map)
  qed
  moreover have "distinct front" using full by (simp add: full_strip_def strip_ok_def strip)
  moreover have "distinct ?SV"
    unfolding distinct_map
  proof
    show "distinct svcs'" using sd by (simp add: distinct_map)
    show "inj_on (the \<circ> se_container) (set svcs')"
    proof (rule inj_onI)
      fix e e' assume e: "e \<in> set svcs'" "e' \<in> set svcs'" "(the \<circ> se_container) e = (the \<circ> se_container) e'"
      then obtain c where "se_container e = Some c" "se_container e' = Some c" using svc_face by force
      then have "ServiceKey (service_key e) = ServiceKey (service_key e')"
        using held_own [OF sd e(1)] held_own [OF sd e(2)] by (intro one) simp_all
      then show "e = e'" using sd e(1,2) by (simp add: distinct_map inj_on_def)
    qed
  qed
  ultimately have m: "mset front = mset ?SV" by (metis set_eq_iff_mset_eq_distinct)
  obtain es where es: "mset es = mset svcs'" "sorted_wrt service_le es"
      "ft_strip f2 = ft_strip f1 @ filter (\<lambda>x. x \<notin> set (ft_strip f1)) (map (the \<circ> se_container) es)"
    using p2(4) by blast
  have fr: "front = filter (\<lambda>x. x \<in> set ?SV) (ft_strip f) @ filter (\<lambda>x. x \<notin> set (ft_strip f)) (map (the \<circ> se_container) es)"
    by (rule service_front [OF assms(2) ev p3(1) rp es(1,3) p2(5) svc_face front_def mset_eq_setD [OF m]])
  have faces: "\<forall>e \<in> set ats'. \<exists>c. at_container e = Some c \<and> ft_faces f' c = Some (apt_face (apttemps_color K e now) e)"
    by (rule p5(3))
  have "\<exists>front es. ft_strip f' = front @ ?ST @ ?AT \<and> mset front = mset ?SV \<and>
       front = filter (\<lambda>x. x \<in> set ?SV) (ft_strip f) @ filter (\<lambda>x. x \<notin> set (ft_strip f)) (map (the \<circ> se_container) es) \<and>
       mset es = mset svcs' \<and> sorted_wrt service_le es"
    by (rule exI [of _ front], rule exI [of _ es]) (intro conjI strip m fr es(1,2))
  moreover have "map (\<lambda>e. e\<lparr>se_container := None\<rparr>) svcs' =
      map (\<lambda>e. e\<lparr>se_container := None\<rparr>) (filter (\<lambda>e. \<not> evicted_service evs e) svcs)"
    using p2(2) apply_evicts_tables [OF assms(2) ev] by simp
  moreover have "map (\<lambda>e. e\<lparr>sx_container := None\<rparr>) (st_live s') =
      map (\<lambda>e. e\<lparr>sx_container := None\<rparr>) (filter (\<lambda>e. sx_deployers e \<noteq> []) (st_live s))"
    using p4(2) p3(2) by simp
  moreover have "map (\<lambda>e. e\<lparr>at_container := None\<rparr>) ats' =
      map (\<lambda>e. e\<lparr>at_container := None\<rparr>) (filter (\<lambda>e. \<not> evicted_apt evs e) ats)"
    using p5(2) apply_evicts_tables [OF assms(2) ev] by simp
  ultimately show ?thesis using p5(1) svc_face st_face faces by (intro conjI) assumption+
qed


text \<open>A card that is up, a new one, and an eviction.\<close>

definition blank_footer :: footer where
  "blank_footer = \<lparr>ft_next = 0, ft_strip = [], ft_faces = (\<lambda>c. None)\<rparr>"


text \<open>The sort decides the order of the cards that are made in one refresh only: the card of a service that
  comes up later stays behind those that are there, whatever its name is.\<close>

definition late_service :: "tables \<times> stale_state" where
  "late_service =
     (case refresh_strip plain_kdash plain_move 100 []
         (([new_service (''web'', ''kai'')], [], blank_footer), \<lparr>st_live = [], st_pending = [], st_intermittent = []\<rparr>) of
        ((svcs, ats, f), s) \<Rightarrow>
          refresh_strip plain_kdash plain_move 101 [] ((svcs @ [new_service (''db'', ''kai'')], ats, f), s))"

theorem late_service_unsorted:
  "case late_service of ((svcs, ats, f), s) \<Rightarrow>
     map (\<lambda>e. (se_name e, se_container e)) svcs = [(''web'', Some 0), (''db'', Some 1)] \<and> ft_strip f = [0, 1]"
  by code_simp

end
