(* ===== verification/Ui_Refresh.thy ===== *)
theory Ui_Refresh
  imports Ui_Strip Poll_Safety
begin

text \<open>
  The whole of \<open>ui_refresh\<close> (\<open>src/src/ui.c\<close>): the blocks of \<open>Ui_Cards\<close>, \<open>Ui_Pool\<close> and \<open>Ui_Strip\<close> in the
  order of the code, then the overlays of the development commands.  What a refresh and a poll keep of
  the bookkeeping that ties the tables to the objects on screen (\<open>screen_ok\<close>).
\<close>

section \<open>The overlays\<close>

text \<open>The grid is made anew when it is missing or was made for another setting.\<close>

definition grid_overlay :: "dev_cmd_state \<Rightarrow> ui \<Rightarrow> ui" where
  "grid_overlay cmd u =
     (if dc_grid_enabled cmd then
        (let changed = (case ui_dev_grid u of
               None \<Rightarrow> True
             | Some (obj, px, in_units, unit_size) \<Rightarrow>
                 px \<noteq> dc_grid_size cmd \<or> in_units \<noteq> dc_grid_unit cmd \<or> unit_size \<noteq> dc_grid_unit_size cmd)
         in if changed
            then (case new_object u of (obj, u') \<Rightarrow>
                    u'\<lparr>ui_dev_grid := Some (obj, dc_grid_size cmd, dc_grid_unit cmd, dc_grid_unit_size cmd)\<rparr>)
            else u)
      else u\<lparr>ui_dev_grid := None\<rparr>)"

definition textsize_overlay :: "dev_cmd_state \<Rightarrow> ui \<Rightarrow> ui" where
  "textsize_overlay cmd u =
     (if dc_textsize_enabled cmd then
        (case ui_dev_textsize u of
           None \<Rightarrow> (case new_object u of (obj, u') \<Rightarrow> u'\<lparr>ui_dev_textsize := Some obj\<rparr>)
         | Some obj \<Rightarrow> u)
      else u\<lparr>ui_dev_textsize := None\<rparr>)"

section \<open>The refresh\<close>

text \<open>The panel is what the polls read, the objects of the screen and the footer strip.  \<open>now\<close> is
  \<open>time(NULL)\<close>: a refresh is taken to run within one second.\<close>

type_synonym panel = "dash \<times> ui \<times> footer"

definition ui_refresh :: "kdash \<Rightarrow> lv_move \<Rightarrow> double \<Rightarrow> panel \<Rightarrow> panel" where
  "ui_refresh K L now p =
     (case p of (d, u, f) \<Rightarrow>
        let u1 = refresh_cards L (da_reg d) u;
            (graphs, u2) = place_pool now (da_cmd d) (evict_graphs now (da_graphs d, u1));
            (evs, rest) = redis_take_evict_targets EVICT_TARGETS_MAX (da_evict d);
            ((svcs, ats, f'), st) =
              refresh_strip K L now evs ((da_services d, da_apttemps d, f), da_stale d)
        in (d\<lparr>da_graphs := graphs, da_evict := rest, da_services := svcs, da_apttemps := ats, da_stale := st\<rparr>,
            textsize_overlay (da_cmd d) (grid_overlay (da_cmd d) u2), f'))"

section \<open>What one block leaves to the others\<close>

text \<open>The pool and the overlays do not touch the client cards.\<close>

definition beside_pool :: "ui \<Rightarrow> ui \<Rightarrow> bool" where
  "beside_pool u u' \<longleftrightarrow> ui_next u \<le> ui_next u' \<and> ui_netcard u' = ui_netcard u \<and>
     (ui_cards u', ui_grid u', ui_painted u') = (ui_cards u, ui_grid u, ui_painted u)"

lemma beside_pool_refl: "beside_pool u u"
  by (simp add: beside_pool_def)

lemma beside_pool_trans: "beside_pool u v \<Longrightarrow> beside_pool v w \<Longrightarrow> beside_pool u w"
  by (auto simp: beside_pool_def)

lemma beside_pool_fold:
  assumes "\<And>x tu. beside_pool (snd tu) (snd (f x tu))"
  shows "beside_pool (snd tu) (snd (fold f xs tu))"
proof (induction xs arbitrary: tu)
  case (Cons x xs)
  have "beside_pool (snd tu) (snd (fold f xs (f x tu)))" using assms Cons by (rule beside_pool_trans)
  then show ?case by (simp only: fold_simps)
qed (simp add: beside_pool_refl)

lemma hide_beside: "beside_pool u (hide w u)"
  by (simp add: beside_pool_def hide_def)

lemma evict_series_beside: "beside_pool (snd tu) (snd (evict_series now s tu))"
  by (auto simp: evict_series_def hide_beside beside_pool_refl Let_def split: prod.split option.split)

lemma show_graph_beside: "beside_pool (snd tu) (snd (show_graph now h xy tu))"
  by (auto simp: show_graph_def beside_pool_def new_object_def paint_graph_def Let_def split: prod.split option.split)

lemma show_placed_beside: "beside_pool (snd tu) (snd (show_placed now p tu))"
proof -
  obtain r xy where p: "p = (r, xy)" by (cases p)
  have "beside_pool (snd tu) (snd (show_netcard now xy tu))" by (simp add: show_netcard_def beside_pool_def)
  then show ?thesis
    by (simp add: p show_placed_def show_graph_beside beside_pool_refl split: widget_kind.split option.split)
qed

lemma hide_graph_beside: "beside_pool (snd tu) (snd (hide_graph h tu))"
  by (auto simp: hide_graph_def hide_beside beside_pool_refl split: prod.split option.split)

lemma pool_beside: "beside_pool (snd tu) (snd (place_pool now cmd (evict_graphs now tu)))"
proof -
  have e: "beside_pool (snd tu) (snd (evict_graphs now tu))"
    unfolding evict_graphs_def by (rule beside_pool_fold) (rule evict_series_beside)
  have p: "beside_pool (snd tu) (snd (fold hide_graph hs (fold (show_placed now) ps tu)))" for hs ps tu
    by (intro beside_pool_trans [OF beside_pool_fold beside_pool_fold] show_placed_beside hide_graph_beside)
  have "beside_pool (snd tu) (snd (place_pool now cmd tu))" for tu
    unfolding place_pool_def Let_def by (simp only: snd_conv p beside_pool_trans [OF p hide_beside] split: if_split) simp
  then show ?thesis using e beside_pool_trans by blast
qed

lemma overlays_beside: "beside_pool u (textsize_overlay cmd (grid_overlay cmd u))"
  by (auto simp: beside_pool_def textsize_overlay_def grid_overlay_def new_object_def Let_def split: option.split)

lemma cards_inv_beside: "cards_inv u \<Longrightarrow> beside_pool u u' \<Longrightarrow> cards_inv u'"
  by (auto simp: cards_inv_def beside_pool_def)

text \<open>The client cards and the overlays do not touch the pool.\<close>

lemma pool_inv_grow:
  assumes "pool_inv (t, u)" "ui_netcard u' = ui_netcard u" "ui_next u \<le> ui_next u'"
  shows "pool_inv (t, u')"
  using assms less_le_trans by (fastforce simp: pool_inv_def)

section \<open>The bookkeeping of the screen\<close>

definition screen_ok :: "panel \<Rightarrow> bool" where
  "screen_ok p \<longleftrightarrow>
     (case p of (d, u, f) \<Rightarrow>
        dash_inv d \<and> cards_inv u \<and> pool_inv (da_graphs d, u) \<and>
        panel_ok (da_services d) (da_apttemps d) (da_stale d) f)"

lemma unique_of_distinct:
  assumes "distinct (map key t)" "\<And>e k. e \<in> set t \<Longrightarrow> m k e \<longleftrightarrow> key e = k"
  shows "slots_unique m okk t"
  unfolding slots_unique_def
proof (intro allI impI)
  fix k i j assume "okk k" "i < length t" "j < length t" "m k (t ! i)" "m k (t ! j)"
  then show "i = j" using assms(2) [of "t ! i" k] assms(2) [of "t ! j" k] assms(1)
    by (simp add: distinct_conv_nth) metis
qed

lemma services_ok_inv: "services_ok t \<Longrightarrow> services_inv t"
  using unique_of_distinct [of service_key t service_matches service_key_ok]
  by (simp add: services_ok_def services_inv_def service_matches_key)

lemma apttemps_ok_inv: "apttemps_ok t \<Longrightarrow> apttemps_inv t"
  using unique_of_distinct [of at_slug t apttemps_matches slug_ok]
  by (simp add: apttemps_ok_def apttemps_inv_def apttemps_matches_key)

lemma strip_keeps_pending:
  "refresh_strip K L now evs ((svcs, ats, f), s) = (r, s') \<Longrightarrow> st_pending s' = st_pending s"
  by (auto simp: refresh_strip_def paint_stale_def reap_stale_def stale_registry_reap_def split: prod.splits)

lemma refresh_keeps_screen:
  assumes "lv_moves L" "screen_ok p"
  shows "screen_ok (ui_refresh K L now p)"
proof -
  obtain d u f where p: "p = (d, u, f)" by (cases p)
  note inv = assms(2) [unfolded p screen_ok_def prod.case]
  define u1 where "u1 = refresh_cards L (da_reg d) u"
  have "\<forall>c \<in> set (reg_clients (da_reg d)). fits (ci_hostname c)"
    using inv by (auto simp: dash_inv_def registry_inv_def)
  then have c1: "cards_inv u1" "beside_cards u u1"
    using refresh_cards_keeps [OF assms(1), of u "da_reg d"] inv by (simp_all add: u1_def)
  then have g1: "pool_inv (da_graphs d, u1)" using inv by (intro pool_inv_grow [of _ u u1]) (auto simp: beside_cards_def)
  obtain g u2 where p2: "place_pool now (da_cmd d) (evict_graphs now (da_graphs d, u1)) = (g, u2)"
    by (cases "place_pool now (da_cmd d) (evict_graphs now (da_graphs d, u1))")
  have g2: "pool_inv (g, u2)"
    by (rule conjunct1 [OF pool_placed_all [OF conjunct1 [OF conjunct2 [OF graphs_evicted [OF g1]]],
        of now "da_cmd d" now, unfolded p2]])
  have b2: "beside_pool u1 u2" using pool_beside [of "(da_graphs d, u1)" now "da_cmd d"] by (simp add: p2)
  define u3 where "u3 = textsize_overlay (da_cmd d) (grid_overlay (da_cmd d) u2)"
  have b3: "beside_pool u2 u3" unfolding u3_def by (rule overlays_beside)
  have c3: "cards_inv u3" using cards_inv_beside [OF c1(1) beside_pool_trans [OF b2 b3]] .
  have g3: "pool_inv (g, u3)" using g2 b3 by (intro pool_inv_grow [of _ u2 u3]) (auto simp: beside_pool_def)
  define out where "out = refresh_strip K L now (fst (redis_take_evict_targets EVICT_TARGETS_MAX (da_evict d)))
      ((da_services d, da_apttemps d, f), da_stale d)"
  obtain svcs ats f' st where out: "out = ((svcs, ats, f'), st)"
    by (rule that [of "fst (fst out)" "fst (snd (fst out))" "snd (snd (fst out))" "snd out"]) simp
  note st = out [unfolded out_def]
  have s: "panel_ok svcs ats st f'"
    by (rule conjunct1 [OF strip_refreshed [OF assms(1) _ st]]) (use inv in blast)
  have e: "ui_refresh K L now p = (d\<lparr>da_graphs := g, da_evict := [], da_services := svcs, da_apttemps := ats, da_stale := st\<rparr>, u3, f')"
    using st by (simp add: p ui_refresh_def u1_def [symmetric] p2 redis_take_evict_targets_def u3_def Let_def)
  have "services_inv svcs" "apttemps_inv ats" "stale_inv st"
    using s services_ok_inv apttemps_ok_inv by (simp_all add: panel_ok_def)
  moreover have "pending_ok (st_pending st)"
    using strip_keeps_pending [OF st] inv by (simp add: dash_inv_def flags_inv_def)
  moreover have "graph_inv g" using g3 by (simp add: pool_inv_def)
  ultimately have "dash_inv (d\<lparr>da_graphs := g, da_evict := [], da_services := svcs, da_apttemps := ats, da_stale := st\<rparr>)"
    using inv by (simp add: dash_inv_def flags_inv_def)
  then show ?thesis using c3 g3 s by (simp add: screen_ok_def e)
qed

section \<open>What a poll leaves on screen\<close>

text \<open>The keys of a table that hold a card, with their cards.  A poll adds entries without a card and
  changes entries in place: the list stays the same.\<close>

definition card_pairs :: "('e \<Rightarrow> 'k) \<Rightarrow> ('e \<Rightarrow> nat option) \<Rightarrow> 'e list \<Rightarrow> ('k \<times> nat) list" where
  "card_pairs key container t =
     List.map_filter (\<lambda>(k, c). map_option (Pair k) c) (map (\<lambda>e. (key e, container e)) t)"

lemma pairs_update:
  assumes "key e = key (t ! i)" "container e = container (t ! i)"
  shows "card_pairs key container (t[i := e]) = card_pairs key container t"
proof -
  have "map (\<lambda>e. (key e, container e)) (t[i := e]) = map (\<lambda>e. (key e, container e)) t"
    using assms by (metis (mono_tags, lifting) list_update_id map_update)
  then show ?thesis by (simp only: card_pairs_def)
qed

lemma pairs_add: "container e = None \<Longrightarrow> card_pairs key container (t @ [e]) = card_pairs key container t"
  by (simp add: card_pairs_def map_filter_def)

lemma pairs_held:
  assumes "distinct (map key t)"
  shows "held key container t k = Some c \<longleftrightarrow> (k, c) \<in> set (card_pairs key container t)"
proof -
  have "map_of (map (\<lambda>e. (key e, e)) t) k = Some e \<longleftrightarrow> e \<in> set t \<and> key e = k" for e
    using assms by (subst map_of_eq_Some_iff) (auto simp: comp_def)
  then show ?thesis by (force simp: held_def bind_eq_Some_conv card_pairs_def map_filter_def)
qed

lemma held_kept:
  assumes "card_pairs key container t' = card_pairs key container t" "distinct (map key t)" "distinct (map key t')"
  shows "held key container t' = held key container t"
proof
  fix k
  have "held key container t' k = Some c \<longleftrightarrow> held key container t k = Some c" for c
    using assms by (simp add: pairs_held)
  then show "held key container t' k = held key container t k" by (metis option.exhaust)
qed

lemma service_observe_pairs: "card_pairs service_key se_container (service_observe k p t) = card_pairs service_key se_container t"
  by (auto simp: service_observe_def service_registry_find_or_create_def service_registry_apply_payload_def
      pairs_update pairs_add new_service_def service_key_def nth_append split: option.split)

lemma apttemps_observe_pairs: "card_pairs at_slug at_container (apttemps_observe k p t) = card_pairs at_slug at_container t"
  by (auto simp: apttemps_observe_def apttemps_registry_find_or_create_def apttemps_registry_apply_payload_def
      pairs_update pairs_add new_apttemps_def split: option.split)

interpretation services_shown: scan_step "poll_service_key H J" "\<lambda>t. card_pairs service_key se_container t = cs"
  for H :: "'w hiredis" and J :: "'j cjson" and cs
  by unfold_locales (simp add: poll_service_key_def service_observe_pairs split: option.split prod.split)

interpretation apttemps_shown: scan_step "poll_apttemps_key H J" "\<lambda>t. card_pairs at_slug at_container t = cs"
  for H :: "'w hiredis" and J :: "'j cjson" and cs
  by unfold_locales (simp add: poll_apttemps_key_def apttemps_observe_pairs Let_def split: option.split prod.split)

lemma poll_services_pairs:
  assumes "redis_poll_services H J ctx fuel (t, w) = Some (t', w')"
  shows "card_pairs service_key se_container t' = card_pairs service_key se_container t"
  using assms services_shown.scan_keeps [OF refl, where s = t]
  by (auto simp: redis_poll_services_def split: if_splits)

lemma poll_apttemps_pairs:
  assumes "redis_poll_apttemps H J ctx fuel (t, w) = Some (t', w')"
  shows "card_pairs at_slug at_container t' = card_pairs at_slug at_container t"
  using assms apttemps_shown.scan_keeps [OF refl, where s = t]
  by (auto simp: redis_poll_apttemps_def split: if_splits)

interpretation stale_shown: scan_step "poll_stale_key H J" "\<lambda>s. card_pairs sx_host sx_container (st_live s) = cs"
  for H :: "'w hiredis" and J :: "'j cjson" and cs
proof unfold_locales
  fix s :: stale_state and k and w :: 'w
  assume inv: "card_pairs sx_host sx_container (st_live s) = cs"
  obtain r w1 where g: "hr_command H w [''GET'', k] = (r, w1)" by (cases "hr_command H w [''GET'', k]")
  show "card_pairs sx_host sx_container (st_live (fst (snd (poll_stale_key H J k (s, w))))) = cs"
    using inv g by (cases r) (simp_all add: poll_stale_key_None poll_stale_key_Some)
qed

lemma raise_new_pairs: "card_pairs sx_host sx_container (raise_new ps live) = card_pairs sx_host sx_container live"
  by (induction ps live rule: raise_new.induct) (auto simp: pairs_add)

lemma commit_pairs:
  "card_pairs sx_host sx_container (st_live (stale_registry_commit_cycle_at now s)) =
   card_pairs sx_host sx_container (st_live s)"
  by (simp add: stale_registry_commit_cycle_at_def Let_def raise_new_pairs)
    (simp add: card_pairs_def adopt_pending_def comp_def)

lemma poll_stale_pairs:
  assumes "redis_poll_stale H J clk ctx fuel (s, w) = Some (s', w')"
  shows "card_pairs sx_host sx_container (st_live s') = card_pairs sx_host sx_container (st_live s)"
proof (cases "\<not> ctx \<or> hr_err H w")
  case True
  then show ?thesis using assms by (auto simp: redis_poll_stale_def)
next
  case False
  let ?b = "stale_registry_begin_cycle s"
  have b: "card_pairs sx_host sx_container (st_live ?b) = card_pairs sx_host sx_container (st_live s)"
    by (simp add: stale_registry_begin_cycle_def)
  obtain c t w1 where l: "scan_loop H KDASH_KEY_STALE_PATTERN (poll_stale_key H J) fuel ''0'' (?b, w) = Some (c, t, w1)"
    using assms False by (auto simp: redis_poll_stale_def split: option.splits)
  have "card_pairs sx_host sx_container (st_live t) = card_pairs sx_host sx_container (st_live s)"
    by (rule stale_shown.scan_keeps [OF b l])
  then show ?thesis using assms False
    by (auto simp: redis_poll_stale_def l commit_pairs stale_registry_abort_cycle_def split: bool.splits)
qed

lemma store_dev_sample_pairs:
  "card_pairs gh_host gh_widget (fst (store_dev_sample now parsed st)) = card_pairs gh_host gh_widget (fst st)"
  by (cases st) (auto simp: store_dev_sample_def graph_host_find_or_create_def graph_host_touch_def Let_def
      pairs_update pairs_add new_graph_host_def nth_append split: option.split)

lemma poll_dev_telemetry_pairs:
  "card_pairs gh_host gh_widget (fst (fst (poll_dev_telemetry E H J h sw))) = card_pairs gh_host gh_widget (fst (fst sw))"
proof -
  obtain st w where sw: "sw = (st, w)" by (cases sw)
  show ?thesis by (simp add: sw poll_dev_telemetry_def store_dev_sample_pairs split: option.split prod.split)
qed

lemma fold_dev_telemetry_pairs:
  "card_pairs gh_host gh_widget (fst (fst (fold (poll_dev_telemetry E H J) hs sw))) = card_pairs gh_host gh_widget (fst (fst sw))"
  by (induction hs arbitrary: sw) (simp_all add: poll_dev_telemetry_pairs)

definition on_screen :: "dash \<Rightarrow> ((string \<times> string) \<times> nat) list \<times> (string \<times> nat) list \<times> (string \<times> nat) list \<times> (string \<times> nat) list" where
  "on_screen d = (card_pairs service_key se_container (da_services d), card_pairs at_slug at_container (da_apttemps d),
     card_pairs sx_host sx_container (st_live (da_stale d)), card_pairs gh_host gh_widget (da_graphs d))"

lemma drop_on_screen: "on_screen (fst (drop_connection E msg dw)) = on_screen (fst dw)"
  by (simp add: drop_connection_def on_screen_def)

lemma poll_clients_on_screen: "on_screen (fst (poll_clients H J P hosts (d, w))) = on_screen d"
  by (auto simp: poll_clients_def on_screen_def split: prod.split)

lemma poll_development_on_screen: "on_screen (fst (poll_development E H J hosts dw)) = on_screen (fst dw)"
proof -
  obtain d w where dw: "dw = (d, w)" by (cases dw)
  obtain ft w1 where f: "poll_pushed_fortune H J (dc_fortune_dev_enabled (da_cmd d)) (da_fortune d, w) = (ft, w1)"
    by (cases "poll_pushed_fortune H J (dc_fortune_dev_enabled (da_cmd d)) (da_fortune d, w)")
  obtain cmd w2 where c: "poll_dev_commands H J hosts w1 = (cmd, w2)" by (cases "poll_dev_commands H J hosts w1")
  let ?fold = "fold (poll_dev_telemetry E H J) hosts ((da_graphs d, (da_devtel d)\<lparr>dt_valid := False\<rparr>, False), w2)"
  obtain g l n w3 where t: "?fold = ((g, l, n), w3)" by (cases ?fold) auto
  have "card_pairs gh_host gh_widget g = card_pairs gh_host gh_widget (da_graphs d)"
    using fold_dev_telemetry_pairs [of E H J hosts "((da_graphs d, (da_devtel d)\<lparr>dt_valid := False\<rparr>, False), w2)"]
    by (simp add: t)
  then show ?thesis by (simp add: poll_development_def dw f c t on_screen_def)
qed

lemma poll_cards_on_screen:
  assumes "poll_cards E H J P fuel (d, w) = Some (d', w')" shows "on_screen d' = on_screen d"
proof -
  let ?ctx = "cn_ctx (da_conn d)"
  obtain svcs w1 where sv: "redis_poll_services H J ?ctx fuel (da_services d, w) = Some (svcs, w1)"
    using assms by (auto simp: poll_cards_def Let_def split: option.splits)
  obtain apts w2 where ap: "redis_poll_apttemps H J ?ctx fuel (da_apttemps d, w1) = Some (apts, w2)"
    using assms by (auto simp: poll_cards_def Let_def sv split: option.splits)
  obtain stl w3 where stl: "redis_poll_stale H J (ev_time E) ?ctx fuel (da_stale d, w2) = Some (stl, w3)"
    using assms by (auto simp: poll_cards_def Let_def sv ap split: option.splits)
  show ?thesis
    using assms poll_services_pairs [OF sv] poll_apttemps_pairs [OF ap] poll_stale_pairs [OF stl]
    by (auto simp: poll_cards_def Let_def sv ap stl on_screen_def split: prod.splits)
qed

lemma redis_poll_on_screen:
  assumes "redis_poll E H J P fuel (d, w) = Some (d', w')" shows "on_screen d' = on_screen d"
proof -
  have cards: "poll_cards E H J P fuel dw = Some (d', w') \<Longrightarrow> on_screen d' = on_screen (fst dw)" for dw
    by (cases dw) (simp add: poll_cards_on_screen)
  have drop: "drop_connection E msg dw = (d', w') \<Longrightarrow> on_screen d' = on_screen (fst dw)" for msg dw
    by (metis drop_on_screen fst_conv)
  show ?thesis
    using assms
    by (auto simp: redis_poll_def Let_def poll_clients_on_screen poll_development_on_screen
        dest!: cards drop split: if_splits prod.splits option.splits)
qed

lemma poll_keeps_screen:
  assumes "screen_ok (d, u, f)" "names_fit H w" "redis_poll E H J P fuel (d, w) = Some (d', w')"
  shows "screen_ok (d', u, f)"
proof -
  have inv: "dash_inv d" "cards_inv u" "pool_inv (da_graphs d, u)"
      "panel_ok (da_services d) (da_apttemps d) (da_stale d) f"
    using assms(1) by (simp_all add: screen_ok_def)
  have inv': "dash_inv d'" by (rule redis_poll_inv [OF inv(1) assms(2,3)])
  have same: "on_screen d' = on_screen d" by (rule redis_poll_on_screen [OF assms(3)])
  have ok: "services_ok (da_services x) \<and> apttemps_ok (da_apttemps x) \<and> stale_inv (da_stale x) \<and> graph_inv (da_graphs x)"
    if "dash_inv x" for x
    using that services_inv_ok apttemps_inv_ok by (simp add: dash_inv_def flags_inv_def)
  have held: "held service_key se_container (da_services d') = held service_key se_container (da_services d)"
    "held at_slug at_container (da_apttemps d') = held at_slug at_container (da_apttemps d)"
    "held sx_host sx_container (st_live (da_stale d')) = held sx_host sx_container (st_live (da_stale d))"
    "held gh_host gh_widget (da_graphs d') = held gh_host gh_widget (da_graphs d)"
    using same ok [OF inv(1)] ok [OF inv']
    by (auto intro!: held_kept simp: on_screen_def services_ok_def apttemps_ok_def stale_inv_def graph_inv_def)
  have "holds (da_services d') (st_live (da_stale d')) (da_apttemps d') k =
      holds (da_services d) (st_live (da_stale d)) (da_apttemps d) k" for k
    by (cases k) (simp_all add: held)
  then have "holds (da_services d') (st_live (da_stale d')) (da_apttemps d') =
      holds (da_services d) (st_live (da_stale d)) (da_apttemps d)" by blast
  then have p: "panel_ok (da_services d') (da_apttemps d') (da_stale d') f"
    using inv(4) ok [OF inv'] by (simp add: panel_ok_def)
  have "widget_of (da_graphs d') = widget_of (da_graphs d)"
    using held(4) by (simp add: widget_of_def look_def held_def fun_eq_iff)
  then have "pool_inv (da_graphs d', u)" using inv(3) ok [OF inv'] by (simp add: pool_inv_def)
  then show ?thesis using inv' inv(2) p by (simp add: screen_ok_def)
qed

end
