(* ===== verification/Main_Loop.thy ===== *)
theory Main_Loop
  imports Ui_Refresh Memstat Config Admitted_File Net_Derive
begin

text \<open>
  The process (\<open>src/src/main.c\<close>): what \<open>main\<close> sets up from the environment and the admitted file, the
  timer that polls, saves and refreshes, and the memory timer.  A run is any interleaving of the two
  timers with whatever the world does in between; the last section proves what holds in all of them:
  the screen's bookkeeping, the overlay that says that Redis is away, and the record of admitted hosts.
\<close>

section \<open>The timers\<close>

text \<open>The panel, the memory telemetry, the file system, and the world of the connection.\<close>

type_synonym 'w process = "panel \<times> memstat \<times> file_system \<times> 'w"

text \<open>Both flags are taken; the last component is the outcome of a save, if there was one.\<close>

definition save_admitted_if_changed ::
  "os_outcome \<Rightarrow> string \<Rightarrow> dash \<times> file_system \<Rightarrow> (dash \<times> file_system) \<times> bool option" where
  "save_admitted_if_changed os path df =
     (case df of (d, fs) \<Rightarrow>
        let (hosts_grew, r) = registry_admitted_take_dirty (da_reg d);
            (net_grew, s) = net_admitted_take_dirty (da_net d);
            d' = d\<lparr>da_reg := r, da_net := s\<rparr>
        in if \<not> hosts_grew \<and> \<not> net_grew then ((d', fs), None)
           else (case admitted_save os path (registry_admitted_snapshot MAX_CLIENTS r)
                        (net_admitted_snapshot MAX_CLIENTS s) fs of
                   (ok, states) \<Rightarrow> ((d', last states), Some ok)))"

definition timer_poll_cb ::
  "'w net_env \<Rightarrow> 'w hiredis \<Rightarrow> 'j cjson \<Rightarrow> printers \<Rightarrow> kdash \<Rightarrow> lv_move \<Rightarrow> nat \<Rightarrow> os_outcome \<Rightarrow> string \<Rightarrow>
   'w process \<Rightarrow> ('w process \<times> bool option) option" where
  "timer_poll_cb E H J P K L fuel os path pr =
     (case pr of ((d, u, f), m, fs, w) \<Rightarrow>
        case redis_reconnect_if_needed E H (d, w) of (up, d1, w1) \<Rightarrow>
        if \<not> up then Some (((d1, u, f), m, fs, w1), None)
        else (case redis_poll E H J P fuel (d1, w1) of
                None \<Rightarrow> None
              | Some (d2, w2) \<Rightarrow>
                  (case save_admitted_if_changed os path (d2, fs) of ((d3, fs'), saved) \<Rightarrow>
                     Some ((ui_refresh K L (ev_time E w2) (d3, u, f), m, fs', w2), saved))))"

text \<open>One sample; \<open>new_id\<close> is the id of the message it may push.\<close>

definition memstat_timer_cb :: "'w hiredis \<Rightarrow> printers \<Rightarrow> reading \<Rightarrow> string \<Rightarrow> 'w process \<Rightarrow> string list \<times> 'w process" where
  "memstat_timer_cb H P r new_id pr =
     (case pr of ((d, u, f), m, fs, w) \<Rightarrow>
        case memstat_sample_now H P (cn_ctx (da_conn d)) r new_id (m, da_status d, w) of
          (lines, m', q, w') \<Rightarrow> (lines, (d\<lparr>da_status := q\<rparr>, u, f), m', fs, w'))"

section \<open>The start\<close>

text \<open>The statics before \<open>main\<close>.\<close>

definition statics :: dash where
  "statics = blank_dash\<lparr>da_conn := \<lparr>cn_ctx = False, cn_host = ''127.0.0.1'', cn_port = 6379, cn_auth = [],
     cn_version = ''unknown'', cn_last_publish = 0\<rparr>\<rparr>"

text \<open>The registries: the priority list, both admitted sets, the columns of the network card (the
  admitted set of which is seeded after \<open>net_set_hosts\<close>, which empties it), the intermittent hosts.\<close>

definition main_registries :: "kpidash_config \<Rightarrow> file_system \<Rightarrow> dash \<Rightarrow> dash" where
  "main_registries cfg fs d =
     (let r = registry_init (da_reg d);
          r1 = (if cf_priority_clients cfg \<noteq> [] then registry_set_priority_clients (cf_priority_clients cfg) r else r);
          r2 = snd (registry_seed_admitted (admitted_load fs (cf_state_file cfg) MAX_CLIENTS) r1);
          s = net_set_hosts (cf_net_hosts cfg) (da_net d);
          s1 = net_seed_admitted (admitted_load_section fs (cf_state_file cfg) ''net'' MAX_CLIENTS) s
      in d\<lparr>da_reg := r2, da_net := s1,
           da_stale := stale_registry_set_intermittent (cf_intermittent_hosts cfg) (da_stale d)\<rparr>)"

text \<open>The first connection; \<open>errstr\<close> is the error text of the context.\<close>

definition main_connect ::
  "'w net_env \<Rightarrow> 'w hiredis \<Rightarrow> ('w \<Rightarrow> string) \<Rightarrow> kpidash_config \<Rightarrow> string \<Rightarrow> dash \<times> 'w \<Rightarrow> dash \<times> 'w" where
  "main_connect E H errstr cfg version dw =
     (case redis_connect E H (Some (cf_redis_host cfg)) (cf_redis_port cfg) (Some (cf_redis_auth cfg))
             (da_conn (fst dw), snd dw) of
        (ok, c, w) \<Rightarrow>
          if \<not> ok
          then ((fst dw)\<lparr>da_conn := c,
                  da_overlay := ui_show_redis_error (''initial connection failed '' @ em_dash @ '' retrying'')\<rparr>, w)
          else (case redis_write_system_info H (cf_log_file cfg) version (c, w) of (c', w') \<Rightarrow>
                  ((fst dw)\<lparr>da_conn := c'\<rparr>, snd (snd (redis_roundtrip_check H errstr (cn_ctx c') w')))))"

definition main_start ::
  "'w net_env \<Rightarrow> 'w hiredis \<Rightarrow> ('w \<Rightarrow> string) \<Rightarrow> printers \<Rightarrow> environment \<Rightarrow> string \<Rightarrow> reading \<times> reading \<Rightarrow> string \<Rightarrow>
   file_system \<Rightarrow> 'w \<Rightarrow> string list \<times> 'w process" where
  "main_start E H errstr P env version rs new_id fs w =
     (let cfg = config_load env;
          (d, w1) = main_connect E H errstr cfg version (main_registries cfg fs statics, w)
      in memstat_timer_cb H P (snd rs) new_id ((d, ui_start, blank_footer), memstat_init (fst rs), fs, w1))"

section \<open>The record of admitted hosts during a poll\<close>

lemma observe_record:
  "ns_dirty s \<longrightarrow> ns_dirty (net_observe J host json now s)"
  "ns_dirty (net_observe J host json now s) \<or> ns_admitted (net_observe J host json now s) = ns_admitted s"
proof -
  have "(ns_dirty s \<longrightarrow> ns_dirty (net_observe J host json now s)) \<and>
    (ns_dirty (net_observe J host json now s) \<or> ns_admitted (net_observe J host json now s) = ns_admitted s)"
  proof (cases "find_host host s")
    case None
    then show ?thesis by (simp add: net_observe_def)
  next
    case (Some i)
    show ?thesis
    proof (cases "Option.bind json (net_parse_json J)")
      case None
      then show ?thesis using observe_absent [OF Some None] by (simp add: update_host_def)
    next
      case r: (Some r0)
      show ?thesis using observe_good(2,3) [OF Some r] by (auto simp: net_admit_def)
    qed
  qed
  then show "ns_dirty s \<longrightarrow> ns_dirty (net_observe J host json now s)"
    "ns_dirty (net_observe J host json now s) \<or> ns_admitted (net_observe J host json now s) = ns_admitted s"
    by blast+
qed

lemma observe_ack_record:
  "ns_dirty (net_observe_ack J host json s) = ns_dirty s" "ns_admitted (net_observe_ack J host json s) = ns_admitted s"
  by (simp_all add: net_observe_ack_def update_host_def split: option.split)

text \<open>The mark for saving stays, and without it the set is the same.\<close>

definition net_marked :: "net_state \<Rightarrow> net_state \<Rightarrow> bool" where
  "net_marked s s' \<longleftrightarrow> (ns_dirty s \<longrightarrow> ns_dirty s') \<and> (ns_dirty s' \<or> ns_admitted s' = ns_admitted s)"

lemma net_marked_refl [simp]: "net_marked s s"
  by (simp add: net_marked_def)

lemma net_marked_trans: "net_marked s t \<Longrightarrow> net_marked t v \<Longrightarrow> net_marked s v"
  by (auto simp: net_marked_def)

lemma net_observe_all_marked: "net_marked s (net_observe_all J hosts es now s)"
proof -
  have "net_marked s (fold (\<lambda>i s. net_observe J (hosts ! i) (string_reply (Some (es ! i))) now
                  (net_observe_ack J (hosts ! i) (string_reply (Some (es ! (length hosts + i)))) s)) is s)" for "is"
  proof (induction "is" arbitrary: s)
    case (Cons i "is")
    let ?a = "net_observe_ack J (hosts ! i) (string_reply (Some (es ! (length hosts + i)))) s"
    have "net_marked s (net_observe J (hosts ! i) (string_reply (Some (es ! i))) now ?a)"
      using observe_record [where s = ?a and J = J and host = "hosts ! i" and json = "string_reply (Some (es ! i))" and now = now]
      by (simp add: net_marked_def observe_ack_record)
    then show ?case using Cons by (auto intro: net_marked_trans)
  qed (simp add: net_marked_def)
  then show ?thesis by (simp add: net_observe_all_def)
qed

lemma poll_net_marked: "redis_poll_net E H J ctx (s, w) = (s', w') \<Longrightarrow> net_marked s s'"
  by (auto simp: redis_poll_net_def Let_def net_observe_all_marked split: if_splits prod.splits option.splits)

lemma poll_cards_net:
  assumes "poll_cards E H J P fuel (d, w) = Some (d', w')" shows "net_marked (da_net d) (da_net d')"
proof -
  let ?ctx = "cn_ctx (da_conn d)"
  obtain svcs w1 where sv: "redis_poll_services H J ?ctx fuel (da_services d, w) = Some (svcs, w1)"
    using assms by (auto simp: poll_cards_def Let_def split: option.splits)
  obtain apts w2 where ap: "redis_poll_apttemps H J ?ctx fuel (da_apttemps d, w1) = Some (apts, w2)"
    using assms by (auto simp: poll_cards_def Let_def sv split: option.splits)
  obtain stl w3 where stl: "redis_poll_stale H J (ev_time E) ?ctx fuel (da_stale d, w2) = Some (stl, w3)"
    using assms by (auto simp: poll_cards_def Let_def sv ap split: option.splits)
  obtain ev w4 where ev: "redis_poll_evict H J ?ctx (da_evict d, w3) = (ev, w4)"
    by (cases "redis_poll_evict H J ?ctx (da_evict d, w3)")
  obtain net w5 where net: "redis_poll_net E H J ?ctx (da_net d, w4) = (net, w5)"
    by (cases "redis_poll_net E H J ?ctx (da_net d, w4)")
  show ?thesis using assms poll_net_marked [OF net]
    by (auto simp: poll_cards_def Let_def sv ap stl ev net split: prod.splits)
qed

lemma before_cards_net [simp]:
  "da_net (fst (poll_clients H J P hosts dw)) = da_net (fst dw)"
  "da_net (fst (poll_development E H J hosts dw)) = da_net (fst dw)"
  "da_net (fst (drop_connection E msg dw)) = da_net (fst dw)"
  by (auto simp: poll_clients_def poll_development_def drop_connection_def Let_def split: prod.split)

lemma redis_poll_net_marked:
  assumes "redis_poll E H J P fuel (d, w) = Some (d', w')" shows "net_marked (da_net d) (da_net d')"
proof -
  have cards: "poll_cards E H J P fuel dw = Some (d', w') \<Longrightarrow> net_marked (da_net (fst dw)) (da_net d')" for dw
    by (cases dw) (simp add: poll_cards_net)
  have drop: "drop_connection E msg dw = (d', w') \<Longrightarrow> da_net d' = da_net (fst dw)" for msg dw
    by (metis before_cards_net(3) fst_conv)
  show ?thesis
    using assms
    by (auto simp: redis_poll_def Let_def
        dest!: cards drop split: if_splits prod.splits option.splits)
qed

lemma redis_poll_reg_marked:
  assumes "dash_inv d" "names_fit H w" "redis_poll E H J P fuel (d, w) = Some (d', w')"
  shows "reg_dirty (da_reg d') \<longleftrightarrow> reg_dirty (da_reg d) \<or> reg_admitted (da_reg d') \<noteq> reg_admitted (da_reg d)"
proof (cases "redis_is_connected H (da_conn d, w)")
  case False
  then show ?thesis using assms(3) by (simp add: redis_poll_def)
next
  case True
  obtain r w1 where s: "hr_command H w [''SMEMBERS'', ''kpidash:clients''] = (r, w1)"
    by (cases "hr_command H w [''SMEMBERS'', ''kpidash:clients'']")
  show ?thesis
  proof (cases "r = None \<or> hr_err H w1")
    case lost: True
    then have "(d', w') = drop_connection E ''connection lost'' (d, w1)"
      using assms(3) True by (auto simp: redis_poll_def s split: option.splits)
    then show ?thesis by (simp add: drop_connection_def)
  next
    case False
    then obtain smr where r: "r = Some smr" "\<not> hr_err H w1" by auto
    let ?es = "fst (read_members H J (member_names smr) w1)"
    have names: "map fst ?es = member_names smr" by simp
    then have len: "length ?es \<le> MAX_CLIENTS" using length_member_names [of smr] by (metis length_map)
    have ok: "\<forall>(h, d, f) \<in> set ?es. fits h \<and> keeps_name f"
      using read_members_keep [of _ _ _ H J "member_names smr" w1] assms(2) s r(1)
      by (fastforce simp: names_fit_def list_all_iff)
    have "da_reg d' = fold poll_client ?es (registry_remove_absent (map fst ?es) (da_reg d))"
      using redis_poll_reg [OF assms(3) True s [unfolded r(1)] r(2)] by (simp add: poll_members_fold)
    moreover have "registry_inv (da_reg d)" using assms(1) by (simp add: dash_inv_def)
    ultimately show ?thesis using poll_cards_exact [OF _ len ok] by simp
  qed
qed

section \<open>The overlay\<close>

definition overlay_ok :: "dash \<Rightarrow> bool" where
  "overlay_ok d \<longleftrightarrow> (da_overlay d = None \<longleftrightarrow> cn_ctx (da_conn d))"

lemma do_connect_ctx: "do_connect E H (c, w) = (ok, c', w') \<Longrightarrow> cn_ctx c' = (ok \<or> cn_ctx c)"
  by (auto simp: do_connect_def split: prod.splits if_splits bool.splits)

lemma publish_ctx: "redis_publish_self_service E H P (c, w) = (c', w') \<Longrightarrow> cn_ctx c' = cn_ctx c"
  by (auto simp: redis_publish_self_service_def Let_def split: prod.splits if_splits option.splits)

lemma reconnect_overlay:
  assumes "overlay_ok d" "redis_reconnect_if_needed E H (d, w) = (ok, d', w')"
  shows "overlay_ok d'" "ok = cn_ctx (da_conn d')"
proof -
  have "overlay_ok d' \<and> ok = cn_ctx (da_conn d')"
  proof (cases "redis_is_connected H (da_conn d, w)")
    case True
    then show ?thesis using assms by (simp add: redis_reconnect_if_needed_def redis_is_connected_def)
  next
    case False
    obtain c1 w1 where dc: "redis_disconnect E (da_conn d, w) = (c1, w1)" by (cases "redis_disconnect E (da_conn d, w)")
    then have "\<not> cn_ctx c1" by (auto simp: redis_disconnect_def split: if_splits)
    moreover obtain ok2 c2 w2 where c: "do_connect E H (c1, w1) = (ok2, c2, w2)" by (cases "do_connect E H (c1, w1)")
    ultimately have "cn_ctx c2 = ok2" using do_connect_ctx [OF c] by simp
    then show ?thesis using assms(2) False
      by (auto simp: redis_reconnect_if_needed_def dc c overlay_ok_def ui_hide_redis_error_def ui_show_redis_error_def)
  qed
  then show "overlay_ok d'" "ok = cn_ctx (da_conn d')" by blast+
qed

lemma before_cards_overlay:
  "overlay_ok (fst (poll_clients H J P hosts dw)) = overlay_ok (fst dw)"
  "overlay_ok (fst (poll_development E H J hosts dw)) = overlay_ok (fst dw)"
  "overlay_ok (fst (drop_connection E msg dw))"
  by (auto simp: poll_clients_def poll_development_def drop_connection_def overlay_ok_def ui_show_redis_error_def
      Let_def split: prod.split)

lemma poll_cards_overlay:
  assumes "poll_cards E H J P fuel dw = Some (d', w')" shows "overlay_ok d' = overlay_ok (fst dw)"
  using assms by (auto simp: poll_cards_def Let_def overlay_ok_def dest: publish_ctx split: prod.splits option.splits)

lemma redis_poll_overlay:
  assumes "overlay_ok d" "redis_poll E H J P fuel (d, w) = Some (d', w')" shows "overlay_ok d'"
proof -
  have drop: "drop_connection E msg dw = (d', w') \<Longrightarrow> overlay_ok d'" for msg dw
    by (metis before_cards_overlay(3) fst_conv)
  show ?thesis using assms
    by (auto simp: redis_poll_def Let_def before_cards_overlay dest!: poll_cards_overlay dest: drop
        split: if_splits prod.splits option.splits)
qed

section \<open>The record on file\<close>

text \<open>The file holds what is in memory, as far as its names can be written.\<close>

definition synced :: "string \<Rightarrow> dash \<Rightarrow> file_system \<Rightarrow> bool" where
  "synced path d fs \<longleftrightarrow> \<not> reg_dirty (da_reg d) \<and> \<not> ns_dirty (da_net d) \<and>
     admitted_load fs path MAX_CLIENTS = names_on_file (reg_admitted (da_reg d)) \<and>
     admitted_load_section fs path ''net'' MAX_CLIENTS = names_on_file (ns_admitted (da_net d))"

lemma names_on_file_id:
  assumes "names_ok MAX_CLIENTS hs" shows "names_on_file hs = hs"
proof -
  have "filter admitted_valid_hostname hs = hs" using assms by (simp add: names_ok_def list_all_iff)
  moreover have "firsts id hs = hs" if "distinct hs" for hs :: "string list"
    using that by (induction hs rule: rev_induct) (simp_all add: firsts_snoc set_firsts_id)
  ultimately show ?thesis using assms by (simp add: names_on_file_def names_ok_def)
qed

lemma load_section_ok: "names_ok mx (admitted_load_section fs path want mx)"
  using load_loop_ok [of mx "([], [])" want] by (simp add: admitted_load_section_def names_ok_def split: option.split)

lemma file_name_fits: "admitted_valid_hostname h \<Longrightarrow> fits h"
  using valid_hostname_chars [of h] by (simp add: fits_def)

lemma seed_exact:
  assumes "registry_inv r" "\<forall>h \<in> set hs. fits h" "distinct (reg_admitted r @ hs)" "length (reg_admitted r @ hs) \<le> 16"
  shows "reg_admitted (fold (\<lambda>h r. if h = [] then r else snd (remember_admitted h r)) hs r) = reg_admitted r @ hs"
  using assms
proof (induction hs arbitrary: r)
  case (Cons h hs)
  obtain g r' where g: "remember_admitted h r = (g, r')" by (cases "remember_admitted h r")
  have fh: "fits h" using Cons.prems(2) by simp
  note e = remember_admitted_effect [OF Cons.prems(1) fh g]
  have "g" using e(4) Cons.prems(3,4) by simp
  then have adm: "reg_admitted r' = reg_admitted r @ [h]" using e(3) by simp
  have "h \<noteq> []" using fh by (simp add: fits_def)
  moreover have "reg_admitted (fold (\<lambda>h r. if h = [] then r else snd (remember_admitted h r)) hs r') = reg_admitted r' @ hs"
    using Cons.prems adm by (intro Cons.IH [OF e(1)]) simp_all
  ultimately show ?case by (simp add: g adm)
qed simp

lemma net_seed_exact:
  assumes "\<forall>h \<in> set hs. h \<noteq> [] \<and> length h < 64" "\<forall>a \<in> set (ns_admitted s). length a < 64"
    and "distinct (ns_admitted s @ hs)" "length (ns_admitted s @ hs) \<le> 16"
  shows "ns_admitted (fold (\<lambda>h s. if h = [] then s else net_admit h s) hs s) = ns_admitted s @ hs"
  using assms
proof (induction hs arbitrary: s)
  case (Cons h hs)
  have "\<not> net_is_admitted h s" using Cons.prems by (auto simp: net_is_admitted_def list_ex_iff streq_fits)
  then have adm: "ns_admitted (net_admit h s) = ns_admitted s @ [h]" using Cons.prems by (simp add: net_admit_def)
  moreover have "ns_admitted (fold (\<lambda>h s. if h = [] then s else net_admit h s) hs (net_admit h s)) = ns_admitted (net_admit h s) @ hs"
    using Cons.prems adm by (intro Cons.IH) auto
  ultimately show ?case using Cons.prems by simp
qed simp

lemma seed_clean: "reg_dirty (fold (\<lambda>h r. if h = [] then r else snd (remember_admitted h r)) hs r) = reg_dirty r"
  by (induction hs arbitrary: r) (simp_all add: remember_admitted_def)

text \<open>What a start puts on record is what the file holds.\<close>

lemma start_record:
  "reg_admitted (da_reg (main_registries cfg fs d)) = admitted_load fs (cf_state_file cfg) MAX_CLIENTS"
  "ns_admitted (da_net (main_registries cfg fs d)) = admitted_load_section fs (cf_state_file cfg) ''net'' MAX_CLIENTS"
  "\<not> reg_dirty (da_reg (main_registries cfg fs d))" "\<not> ns_dirty (da_net (main_registries cfg fs d))"
proof -
  let ?l = "admitted_load fs (cf_state_file cfg) MAX_CLIENTS"
  let ?n = "admitted_load_section fs (cf_state_file cfg) ''net'' MAX_CLIENTS"
  define r where "r = (if cf_priority_clients cfg \<noteq> [] then registry_set_priority_clients (cf_priority_clients cfg) (registry_init (da_reg d)) else registry_init (da_reg d))"
  have r: "registry_inv r" "reg_admitted r = []" "\<not> reg_dirty r"
    by (simp_all add: r_def) (simp_all add: registry_set_priority_clients_def registry_init_def)
  have l: "names_ok 16 ?l" "names_ok 16 ?n" using load_section_ok [of 16 fs "cf_state_file cfg"] by (simp_all add: admitted_load_def)
  have "\<forall>h \<in> set ?l. fits h" using l(1) file_name_fits by (auto simp: names_ok_def list_all_iff)
  then show "reg_admitted (da_reg (main_registries cfg fs d)) = ?l"
    using seed_exact [OF r(1)] l(1) r(2)
    by (simp add: main_registries_def r_def [symmetric] registry_seed_admitted_def Let_def names_ok_def)
  have "\<forall>h \<in> set ?n. h \<noteq> [] \<and> length h < 64"
    using l(2) file_name_fits by (auto simp: names_ok_def list_all_iff fits_def)
  then show "ns_admitted (da_net (main_registries cfg fs d)) = ?n"
    using net_seed_exact [of ?n "net_set_hosts (cf_net_hosts cfg) (da_net d)"] l(2)
    by (simp add: main_registries_def net_seed_admitted_def Let_def net_set_hosts_def names_ok_def)
  show "\<not> reg_dirty (da_reg (main_registries cfg fs d))"
    using r(3) by (simp add: main_registries_def r_def [symmetric] registry_seed_admitted_def Let_def seed_clean)
  show "\<not> ns_dirty (da_net (main_registries cfg fs d))"
    by (simp add: main_registries_def net_seed_admitted_def Let_def)
qed

lemma save_synced:
  assumes "save_admitted_if_changed os path (d, fs) = ((d', fs'), saved)" "dash_inv d"
    and "synced path d0 fs \<or> saved = Some True"
    and "reg_dirty (da_reg d) \<longleftrightarrow> reg_dirty (da_reg d0) \<or> reg_admitted (da_reg d) \<noteq> reg_admitted (da_reg d0)"
    and "net_marked (da_net d0) (da_net d)" "saved \<noteq> Some False"
  shows "synced path d' fs'"
proof (cases saved)
  case None
  then have s: "synced path d0 fs" and e: "d' = d\<lparr>da_reg := (da_reg d)\<lparr>reg_dirty := False\<rparr>, da_net := (da_net d)\<lparr>ns_dirty := False\<rparr>\<rparr>"
      "fs' = fs" "\<not> reg_dirty (da_reg d)" "\<not> ns_dirty (da_net d)"
    using assms(1,3) by (auto simp: save_admitted_if_changed_def registry_admitted_take_dirty_def
        net_admitted_take_dirty_def Let_def split: if_splits prod.splits)
  then have "reg_admitted (da_reg d) = reg_admitted (da_reg d0)" "ns_admitted (da_net d) = ns_admitted (da_net d0)"
    using assms(4,5) by (auto simp: net_marked_def)
  then show ?thesis using s by (simp add: e synced_def)
next
  case (Some b)
  then have b: "saved = Some True" using assms(6) by simp
  obtain states where st: "admitted_save os path (reg_admitted (da_reg d)) (ns_admitted (da_net d)) fs = (True, states)"
    and e: "d' = d\<lparr>da_reg := (da_reg d)\<lparr>reg_dirty := False\<rparr>, da_net := (da_net d)\<lparr>ns_dirty := False\<rparr>\<rparr>" "fs' = last states"
    using assms(1,2) b by (auto simp: save_admitted_if_changed_def registry_admitted_take_dirty_def
        net_admitted_take_dirty_def Let_def registry_admitted_snapshot_def net_admitted_snapshot_def
        dash_inv_def registry_inv_def net_inv_def split: if_splits prod.splits)
  have "path \<noteq> []" using st by (auto simp: admitted_save_def)
  moreover have "last states path = Some (saved_text (reg_admitted (da_reg d)) (ns_admitted (da_net d)))"
    using save_states [OF st] by simp
  moreover have "take 16 (names_on_file hs) = names_on_file hs" for hs by (simp add: names_on_file_def)
  ultimately show ?thesis
    using load_saved [of MAX_CLIENTS "reg_admitted (da_reg d)" "ns_admitted (da_net d)"]
    by (simp add: synced_def e admitted_load_def admitted_load_section_def)
qed

section \<open>Runs\<close>

text \<open>The first index says whether the last save, if there was one, succeeded, the second whether the names
  of the members fitted their slots in every poll so far (1 to 63 bytes, as the key schema documents).  In
  between anything may happen to the world of the connection.\<close>

inductive kpidash_run ::
  "'w net_env \<Rightarrow> 'w hiredis \<Rightarrow> ('w \<Rightarrow> string) \<Rightarrow> 'j cjson \<Rightarrow> printers \<Rightarrow> kdash \<Rightarrow> lv_move \<Rightarrow> environment \<Rightarrow>
   bool \<Rightarrow> bool \<Rightarrow> 'w process \<Rightarrow> bool"
  for E H errstr J P K L env where
  run_start: "kpidash_run E H errstr J P K L env True True (snd (main_start E H errstr P env version rs new_id fs w))"
| run_poll: "kpidash_run E H errstr J P K L env ok fit ((d, u, f), m, fs, w) \<Longrightarrow>
     timer_poll_cb E H J P K L fuel os (cf_state_file (config_load env)) ((d, u, f), m, fs, w) = Some (pr', saved) \<Longrightarrow>
     kpidash_run E H errstr J P K L env (set_if saved ok)
       (fit \<and> names_fit H (snd (snd (redis_reconnect_if_needed E H (d, w))))) pr'"
| run_memory: "kpidash_run E H errstr J P K L env ok fit pr \<Longrightarrow>
     kpidash_run E H errstr J P K L env ok fit (snd (memstat_timer_cb H P r new_id pr))"
| run_world: "kpidash_run E H errstr J P K L env ok fit (p, m, fs, w) \<Longrightarrow>
     kpidash_run E H errstr J P K L env ok fit (p, m, fs, w')"

definition process_ok :: "environment \<Rightarrow> bool \<Rightarrow> 'w process \<Rightarrow> bool" where
  "process_ok env ok pr \<longleftrightarrow>
     (case pr of ((d, u, f), m, fs, w) \<Rightarrow>
        screen_ok (d, u, f) \<and> overlay_ok d \<and> (ok \<longrightarrow> synced (cf_state_file (config_load env)) d fs))"

lemma memory_ok:
  assumes "process_ok env ok pr" shows "process_ok env ok (snd (memstat_timer_cb H P r new_id pr))"
proof -
  obtain d u f m fs w where pr: "pr = ((d, u, f), m, fs, w)" by (cases pr) auto
  obtain lines m' q w' where s: "memstat_sample_now H P (cn_ctx (da_conn d)) r new_id (m, da_status d, w) = (lines, m', q, w')"
    by (cases "memstat_sample_now H P (cn_ctx (da_conn d)) r new_id (m, da_status d, w)")
  have d: "status_inv (da_status d)" "texts_fit (da_status d)"
    using assms by (simp_all add: pr process_ok_def screen_ok_def dash_inv_def)
  have push: "status_inv (status_push i sev t now (da_status d)) \<and> texts_fit (status_push i sev t now (da_status d))" for i sev t now
    using push_effect(1) [OF d(1)] step_texts_fit [OF d, where ev = "Push i sev t now"] by simp
  have "q = da_status d \<or> (\<exists>i sev t now. q = status_push i sev t now (da_status d))"
    using s by (auto simp: memstat_sample_now_def Let_def split: prod.splits if_splits)
  then have q: "status_inv q \<and> texts_fit q" using d push by blast
  then show ?thesis using assms
    by (simp add: pr memstat_timer_cb_def s process_ok_def screen_ok_def dash_inv_def overlay_ok_def synced_def)
qed

lemma refresh_rest:
  fixes p :: panel
  assumes "ui_refresh K L now (d, u, f) = p"
  shows "da_reg (fst p) = da_reg d" "da_net (fst p) = da_net d" "da_conn (fst p) = da_conn d" "da_overlay (fst p) = da_overlay d"
  using assms by (auto simp: ui_refresh_def Let_def split: prod.splits)

lemma poll_ok:
  assumes "lv_moves L" "process_ok env ok ((d, u, f), m, fs, w)"
    and "names_fit H (snd (snd (redis_reconnect_if_needed E H (d, w))))"
    and "timer_poll_cb E H J P K L fuel os (cf_state_file (config_load env)) ((d, u, f), m, fs, w) = Some (pr', saved)"
  shows "process_ok env (set_if saved ok) pr'"
proof -
  let ?path = "cf_state_file (config_load env)"
  obtain up d1 w1 where rc: "redis_reconnect_if_needed E H (d, w) = (up, d1, w1)"
    by (cases "redis_reconnect_if_needed E H (d, w)")
  have inv: "screen_ok (d, u, f)" "overlay_ok d" "ok \<longrightarrow> synced ?path d fs" using assms(2) by (simp_all add: process_ok_def)
  have same: "da_reg d1 = da_reg d" "da_net d1 = da_net d" "screen_ok (d1, u, f)"
    using rc inv(1) by (auto simp: redis_reconnect_if_needed_def screen_ok_def dash_inv_def split: if_splits prod.splits)
  have ov: "overlay_ok d1" by (rule reconnect_overlay(1) [OF inv(2) rc])
  have sy: "ok \<longrightarrow> synced ?path d1 fs" using inv(3) same by (simp add: synced_def)
  show ?thesis
  proof (cases up)
    case False
    then have "pr' = ((d1, u, f), m, fs, w1)" "saved = None" using assms(4) by (auto simp: timer_poll_cb_def rc)
    then show ?thesis using same ov sy by (simp add: process_ok_def)
  next
    case True
    obtain d2 w2 where p: "redis_poll E H J P fuel (d1, w1) = Some (d2, w2)"
      using assms(4) True by (auto simp: timer_poll_cb_def rc split: option.splits)
    obtain d3 fs' saved' where s: "save_admitted_if_changed os ?path (d2, fs) = ((d3, fs'), saved')"
      by (cases "save_admitted_if_changed os ?path (d2, fs)") auto
    have pr': "pr' = (ui_refresh K L (ev_time E w2) (d3, u, f), m, fs', w2)" "saved' = saved"
      using assms(4) True by (auto simp: timer_poll_cb_def rc p s)
    have nf: "names_fit H w1" using assms(3) by (simp add: rc)
    have sc2: "screen_ok (d2, u, f)" by (rule poll_keeps_screen [OF same(3) nf p])
    have ov2: "overlay_ok d2" by (rule redis_poll_overlay [OF ov p])
    have d3: "d3 = d2\<lparr>da_reg := (da_reg d2)\<lparr>reg_dirty := False\<rparr>, da_net := (da_net d2)\<lparr>ns_dirty := False\<rparr>\<rparr>"
      using s by (auto simp: save_admitted_if_changed_def registry_admitted_take_dirty_def net_admitted_take_dirty_def
          Let_def split: if_splits prod.splits)
    have sc3: "screen_ok (d3, u, f)" and ov3: "overlay_ok d3" using sc2 ov2
      by (simp_all add: d3 screen_ok_def dash_inv_def overlay_ok_def registry_inv_def net_inv_def)
    have inv1: "dash_inv d1" "dash_inv d2" using same(3) sc2 by (simp_all add: screen_ok_def)
    have sy3: "synced ?path d3 fs'" if "set_if saved ok"
    proof (rule save_synced [OF s inv1(2), where ?d0.0 = d1])
      show "synced ?path d1 fs \<or> saved' = Some True" "saved' \<noteq> Some False"
        using that sy pr'(2) by (auto simp: set_if_def split: option.splits)
      show "reg_dirty (da_reg d2) = (reg_dirty (da_reg d1) \<or> reg_admitted (da_reg d2) \<noteq> reg_admitted (da_reg d1))"
        by (rule redis_poll_reg_marked [OF inv1(1) nf p])
      show "net_marked (da_net d1) (da_net d2)" by (rule redis_poll_net_marked [OF p])
    qed
    obtain d4 u4 f4 where r: "ui_refresh K L (ev_time E w2) (d3, u, f) = (d4, u4, f4)"
      by (cases "ui_refresh K L (ev_time E w2) (d3, u, f)")
    note rest = refresh_rest [OF r, simplified]
    have "screen_ok (d4, u4, f4)" using refresh_keeps_screen [OF assms(1) sc3, of K "ev_time E w2"] by (simp add: r)
    then show ?thesis using ov3 sy3 rest by (simp add: pr'(1) r process_ok_def overlay_ok_def synced_def)
  qed
qed

lemma start_registries_inv: "dash_inv (main_registries cfg fs statics)"
proof -
  define r where "r = (if cf_priority_clients cfg \<noteq> [] then registry_set_priority_clients (cf_priority_clients cfg) (registry_init (da_reg statics)) else registry_init (da_reg statics))"
  have r: "registry_inv r" by (simp add: r_def)
  let ?l = "admitted_load fs (cf_state_file cfg) MAX_CLIENTS"
  have "names_ok 16 ?l" using load_section_ok [of 16 fs "cf_state_file cfg" "[]"] by (simp add: admitted_load_def)
  then have "\<forall>h \<in> set ?l. h = [] \<or> fits h" using file_name_fits by (auto simp: names_ok_def list_all_iff)
  then have reg: "registry_inv (snd (registry_seed_admitted ?l r))" by (rule seed_inv [OF r])
  have net: "net_inv (net_seed_admitted hs (net_set_hosts ns s))" for hs ns s
    by (rule seed_inv_net) (auto simp: net_inv_def net_set_hosts_def net_host_inv_def blank_host_def)
  have st: "stale_inv (stale_registry_set_intermittent xs no_stale)" for xs
    by (auto simp: stale_inv_def stale_registry_set_intermittent_def no_stale_def buf_copy_def)
  let ?d = "main_registries cfg fs statics"
  have "registry_inv (da_reg ?d)" using reg by (simp add: main_registries_def r_def Let_def)
  moreover have "net_inv (da_net ?d)" using net by (simp add: main_registries_def Let_def)
  moreover have "flags_inv (da_stale ?d)" using st [of "cf_intermittent_hosts cfg"]
    by (simp add: main_registries_def Let_def statics_def blank_dash_def flags_inv_def pending_ok_def)
      (simp add: stale_registry_set_intermittent_def no_stale_def)
  moreover have "da_services ?d = [] \<and> da_apttemps ?d = [] \<and> da_graphs ?d = [] \<and> da_status ?d = status_start \<and>
      da_activities ?d = [] \<and> da_repos ?d = [] \<and> da_evict ?d = []"
    by (simp add: main_registries_def Let_def statics_def blank_dash_def)
  ultimately show ?thesis using blank_dash_inv by (simp add: dash_inv_def) (simp add: blank_dash_def)
qed

lemma start_ok: "process_ok env True (snd (main_start E H errstr P env version rs new_id fs w))"
proof -
  let ?cfg = "config_load env" and ?d = "main_registries (config_load env) fs statics"
  obtain d w1 where c: "main_connect E H errstr ?cfg version (?d, w) = (d, w1)"
    by (cases "main_connect E H errstr ?cfg version (?d, w)")
  obtain ok cn w2 where k: "redis_connect E H (Some (cf_redis_host ?cfg)) (cf_redis_port ?cfg) (Some (cf_redis_auth ?cfg))
             (da_conn ?d, w) = (ok, cn, w2)"
    by (cases "redis_connect E H (Some (cf_redis_host ?cfg)) (cf_redis_port ?cfg) (Some (cf_redis_auth ?cfg)) (da_conn ?d, w)")
  have off: "\<not> cn_ctx (da_conn ?d)" "da_overlay ?d = None"
    by (simp_all add: main_registries_def Let_def statics_def blank_dash_def)
  then have ctx: "cn_ctx cn = ok" using k by (auto simp: redis_connect_def dest!: do_connect_ctx)
  have "\<exists>c' ov. d = ?d\<lparr>da_conn := c', da_overlay := ov\<rparr> \<and> (ov = None \<longleftrightarrow> cn_ctx c')"
  proof (cases ok)
    case False
    then show ?thesis using c ctx by (auto simp: main_connect_def k ui_show_redis_error_def)
  next
    case True
    obtain c' w3 where ws: "redis_write_system_info H (cf_log_file ?cfg) version (cn, w2) = (c', w3)"
      by (cases "redis_write_system_info H (cf_log_file ?cfg) version (cn, w2)")
    then have "cn_ctx c' = cn_ctx cn" by (auto simp: redis_write_system_info_def Let_def split: if_splits prod.splits)
    moreover have "d = ?d\<lparr>da_conn := c'\<rparr>" using c True by (simp add: main_connect_def k ws)
    moreover have "?d\<lparr>da_conn := c'\<rparr> = ?d\<lparr>da_conn := c', da_overlay := None\<rparr>" using off(2) by simp
    ultimately show ?thesis using ctx True by metis
  qed
  then obtain c' ov where d: "d = ?d\<lparr>da_conn := c', da_overlay := ov\<rparr>" "ov = None \<longleftrightarrow> cn_ctx c'" by blast
  have "dash_inv d" using start_registries_inv [of ?cfg fs] by (simp add: d dash_inv_def)
  moreover have "cards_inv ui_start" by (simp add: cards_inv_def ui_start_def)
  moreover have "pool_inv (da_graphs d, ui_start)"
    by (simp add: d main_registries_def Let_def statics_def blank_dash_def pool_inv_def graph_inv_def ui_start_def widget_of_def look_def)
  moreover have "panel_ok (da_services d) (da_apttemps d) (da_stale d) blank_footer"
  proof -
    have e: "da_services d = []" "da_apttemps d = []" "st_live (da_stale d) = []"
      by (simp_all add: d main_registries_def Let_def statics_def blank_dash_def stale_registry_set_intermittent_def no_stale_def)
    have "holds [] [] [] k = None" for k by (cases k) (simp_all add: held_def)
    then have "full_strip (holds [] [] []) blank_footer"
      by (simp add: full_strip_def strip_ok_def blank_footer_def)
    then show ?thesis using \<open>dash_inv d\<close> e
      by (simp add: panel_ok_def services_ok_def apttemps_ok_def dash_inv_def flags_inv_def)
  qed
  moreover have "synced (cf_state_file ?cfg) d fs"
    using start_record [of ?cfg fs statics] names_on_file_id load_section_ok [of 16 fs "cf_state_file ?cfg"]
    by (simp add: synced_def d admitted_load_def)
  ultimately have "process_ok env True ((d, ui_start, blank_footer), memstat_init (fst rs), fs, w1)"
    using d by (simp add: process_ok_def screen_ok_def overlay_ok_def)
  then show ?thesis using memory_ok c by (simp add: main_start_def Let_def)
qed

lemma run_ok:
  assumes "lv_moves L"
  shows "kpidash_run E H errstr J P K L env ok fit pr \<Longrightarrow> fit \<Longrightarrow> process_ok env ok pr"
proof (induction rule: kpidash_run.induct)
  case (run_start rs version new_id fs w)
  show ?case by (rule start_ok)
next
  case (run_poll ok fit d u f m fs w fuel os pr' saved)
  then show ?case using poll_ok [OF assms _ _ run_poll(2)] by simp
next
  case (run_memory ok fit pr r new_id)
  then show ?case using memory_ok by blast
next
  case (run_world ok fit p m fs w w')
  then show ?case by (simp add: process_ok_def split: prod.splits)
qed

text \<open>The overlay is right whatever the names are.\<close>

lemma poll_overlay:
  assumes "overlay_ok d" "timer_poll_cb E H J P K L fuel os path ((d, u, f), m, fs, w) = Some (pr', saved)"
  shows "overlay_ok (fst (fst pr'))"
proof -
  obtain up d1 w1 where rc: "redis_reconnect_if_needed E H (d, w) = (up, d1, w1)"
    by (cases "redis_reconnect_if_needed E H (d, w)")
  have ov: "overlay_ok d1" by (rule reconnect_overlay(1) [OF assms(1) rc])
  show ?thesis
  proof (cases up)
    case False
    then show ?thesis using assms(2) ov by (auto simp: timer_poll_cb_def rc)
  next
    case True
    obtain d2 w2 where p: "redis_poll E H J P fuel (d1, w1) = Some (d2, w2)"
      using assms(2) True by (auto simp: timer_poll_cb_def rc split: option.splits)
    obtain d3 fs' saved' where s: "save_admitted_if_changed os path (d2, fs) = ((d3, fs'), saved')"
      by (cases "save_admitted_if_changed os path (d2, fs)") auto
    have "overlay_ok d2" by (rule redis_poll_overlay [OF ov p])
    moreover have "da_overlay d3 = da_overlay d2" "da_conn d3 = da_conn d2"
      using s by (auto simp: save_admitted_if_changed_def Let_def split: if_splits prod.splits)
    moreover have "fst pr' = ui_refresh K L (ev_time E w2) (d3, u, f)"
      using assms(2) True by (auto simp: timer_poll_cb_def rc p s)
    ultimately show ?thesis using refresh_rest(3,4) [of K L "ev_time E w2" d3 u f "fst pr'"] by (simp add: overlay_ok_def)
  qed
qed

lemma run_overlay: "kpidash_run E H errstr J P K L env ok fit pr \<Longrightarrow> overlay_ok (fst (fst pr))"
proof (induction rule: kpidash_run.induct)
  case (run_start version rs new_id fs w)
  show ?case using start_ok [of env E H errstr P version rs new_id fs w] by (simp add: process_ok_def split: prod.splits)
next
  case (run_poll ok fit d u f m fs w fuel os pr' saved)
  then show ?case using poll_overlay by simp
next
  case (run_memory ok fit pr r new_id)
  obtain d u f m fs w where pr: "pr = ((d, u, f), m, fs, w)" by (cases pr) auto
  show ?case using run_memory.IH by (simp add: pr memstat_timer_cb_def overlay_ok_def split: prod.split)
qed simp

section \<open>Properties\<close>


text \<open>A first start without a file, then a poll in which one of two members has published.\<close>

definition calm :: reading where
  "calm = \<lparr>rd_time = 5, rd_mono = (1, 0), rd_statm = None, rd_page = 1, rd_total_size = 9, rd_free_size = 9,
     rd_max_used = 0, rd_frag_pct = 0, rd_free_biggest = 9\<rparr>"

definition first_start :: "reply option list process" where
  "first_start = snd (main_start quiet_env scripted (\<lambda>w. []) no_docs (\<lambda>v. None) ''1.0'' (calm, calm) ''id'' (\<lambda>p. None) [])"

definition first_poll :: "(reply option list process \<times> bool option) option" where
  "first_poll = (case first_start of (p, m, fs, w) \<Rightarrow>
     timer_poll_cb quiet_env scripted no_json no_docs plain_kdash plain_move 3 lucky
       (cf_state_file (config_load (\<lambda>v. None))) (p, m, fs, two_members))"

lemma first_poll_values:
  "map_option (\<lambda>(((d, u, f), m, fs, w), saved). (reg_admitted (da_reg d), saved, da_overlay d, map fst (ui_cards u))) first_poll =
   Some ([''kai''], Some True, None, [''kai''])"
  by code_simp

lemma first_run:
  obtains d u f m fs w where "first_poll = Some (((d, u, f), m, fs, w), Some True)"
    "kpidash_run quiet_env scripted (\<lambda>w. []) no_json no_docs plain_kdash plain_move (\<lambda>v. None) True True ((d, u, f), m, fs, w)"
    "reg_admitted (da_reg d) = [''kai'']" "da_overlay d = None"
proof -
  let ?run = "kpidash_run quiet_env scripted (\<lambda>w. []) no_json no_docs plain_kdash plain_move (\<lambda>v. None)"
  obtain d0 u0 f0 m0 fs0 w0 where s: "first_start = ((d0, u0, f0), m0, fs0, w0)" by (cases first_start) auto
  have c: "cn_ctx (da_conn d0)"
  proof -
    have "(case first_start of ((d, u, f), m, fs, w) \<Rightarrow> cn_ctx (da_conn d))" by code_simp
    then show ?thesis by (simp add: s)
  qed
  have "?run True True first_start" unfolding first_start_def by (rule run_start)
  then have r: "?run True True ((d0, u0, f0), m0, fs0, two_members)" unfolding s by (rule run_world)
  have "redis_reconnect_if_needed quiet_env scripted (d0, two_members) = (True, d0, two_members)"
    using c by (simp add: redis_reconnect_if_needed_def redis_is_connected_def scripted_def)
  then have nf: "names_fit scripted (snd (snd (redis_reconnect_if_needed quiet_env scripted (d0, two_members))))"
    by (simp add: names_fit_def two_members_def scripted_def member_names_def element_name_def fits_def)
  obtain d u f m fs w where p: "first_poll = Some (((d, u, f), m, fs, w), Some True)"
      "reg_admitted (da_reg d) = [''kai'']" "da_overlay d = None"
    using first_poll_values by (cases first_poll) auto
  have "?run (set_if (Some True) True) (True \<and> names_fit scripted
      (snd (snd (redis_reconnect_if_needed quiet_env scripted (d0, two_members))))) ((d, u, f), m, fs, w)"
    using p(1) by (intro run_poll [OF r, where fuel = 3 and os = lucky]) (simp add: first_poll_def s)
  then show thesis using that p nf by simp
qed




end
