(* ===== verification/Poll_Returns.thy ===== *)
theory Poll_Returns
  imports Main_Loop
begin

text \<open>
  The scans of a poll end when the server's do (\<open>src/src/redis.c\<close>, and the tick of \<open>src/src/main.c\<close>).  The
  hypothesis speaks of the server alone: \<open>scan_ends\<close> is the course of one scan, from any cursor, over the
  pages the server answers, whatever keys are read between them; it sets no bound on the pages of the
  scans that are still to come, so it holds of a server that answers every scan with two pages for ever.
\<close>

text \<open>The server's states after some commands; \<open>ok\<close> says which commands are sent.\<close>

inductive issued :: "'w hiredis \<Rightarrow> (string list \<Rightarrow> bool) \<Rightarrow> 'w \<Rightarrow> 'w \<Rightarrow> bool" for H ok where
  none: "issued H ok w w"
| more: "issued H ok w w' \<Longrightarrow> ok c \<Longrightarrow> hr_command H w' c = (r, w'') \<Longrightarrow> issued H ok w w''"

abbreviation sent :: "'w hiredis \<Rightarrow> 'w \<Rightarrow> 'w \<Rightarrow> bool" where
  "sent H \<equiv> issued H (\<lambda>c. True)"

definition reads :: "string list \<Rightarrow> bool" where
  "reads c \<longleftrightarrow> c \<noteq> [] \<and> hd c = ''GET''"

inductive scan_ends :: "'w hiredis \<Rightarrow> string \<Rightarrow> string \<Rightarrow> 'w \<Rightarrow> bool" for H pat where
  broken: "scan_page (fst (scan_command H pat cursor w)) = None \<Longrightarrow> scan_ends H pat cursor w"
| last: "scan_page (fst (scan_command H pat cursor w)) = Some (c, ks) \<Longrightarrow> next_cursor cursor c = ''0'' \<Longrightarrow>
     scan_ends H pat cursor w"
| page: "scan_command H pat cursor w = (sr, w1) \<Longrightarrow> scan_page sr = Some (c, ks) \<Longrightarrow>
     (\<And>w2. issued H reads w1 w2 \<Longrightarrow> scan_ends H pat (next_cursor cursor c) w2) \<Longrightarrow> scan_ends H pat cursor w"

definition scans_end :: "'w hiredis \<Rightarrow> 'w \<Rightarrow> bool" where
  "scans_end H w \<longleftrightarrow> (\<forall>w'. sent H w w' \<longrightarrow>
     scan_ends H KPIDASH_KEY_SERVICES_PATTERN ''0'' w' \<and> scan_ends H KPIDASH_KEY_APTTEMPS_PATTERN ''0'' w' \<and>
     scan_ends H KDASH_KEY_STALE_PATTERN ''0'' w')"

declare issued.none [simp, intro]

lemma issued_trans:
  assumes "issued H ok w w'" "issued H ok w' w''" shows "issued H ok w w''"
  using assms(2,1) by (induction rule: issued.induct) (auto intro: issued.more)

lemma issued_mono: "issued H ok w w' \<Longrightarrow> (\<And>c. ok c \<Longrightarrow> ok' c) \<Longrightarrow> issued H ok' w w'"
  by (induction rule: issued.induct) (auto intro: issued.more)

lemma scans_end_later: "scans_end H w \<Longrightarrow> sent H w w' \<Longrightarrow> scans_end H w'"
  unfolding scans_end_def by (meson issued_trans)

section \<open>What a poll does to the server\<close>

lemma command_sent: "hr_command H w c = (r, w') \<Longrightarrow> sent H w w'"
  by (rule issued.more [OF issued.none]) simp_all

lemma command_read: "reads c \<Longrightarrow> hr_command H w c = (r, w') \<Longrightarrow> issued H reads w w'"
  by (rule issued.more [OF issued.none])

lemma get_sent: "get_string H k w = (r, w') \<Longrightarrow> sent H w w'"
  by (auto simp: get_string_def dest: command_sent split: prod.splits)

lemma fold_sent:
  assumes "\<And>x sw. sent H (snd sw) (snd (f x sw))"
  shows "sent H (snd sw) (snd (fold f xs sw))"
proof (induction xs arbitrary: sw)
  case (Cons x xs)
  have "sent H (snd sw) (snd (fold f xs (f x sw)))" using assms Cons by (rule issued_trans)
  then show ?case by (simp only: fold_simps)
qed simp

lemma member_sent:
  "sent H (snd rw) (snd (poll_member H J h rw))"
proof -
  obtain hr w1 where a: "hr_command H (snd rw) [''GET'', client_key h ''health''] = (hr, w1)" by (rule prod.exhaust)
  obtain tr w2 where b: "hr_command H w1 [''GET'', client_key h ''telemetry''] = (tr, w2)" by (rule prod.exhaust)
  have "snd (poll_member H J h rw) = w2" by (simp add: poll_member_def a b split: prod.split option.split)
  then show ?thesis using issued_trans [OF command_sent [OF a] command_sent [OF b]] by simp
qed

lemma activity_loop_sent:
  "sent H w (snd (activity_loop H es acc w))"
proof (induction es arbitrary: acc w)
  case (Cons e es)
  obtain hr w1 where a: "hr_command H w [''HGETALL'', buf_copy 256 (''kpidash:activity:'' @ element_name e)] = (hr, w1)"
    by (rule prod.exhaust)
  have "sent H w (snd (activity_loop H es acc' w1))" for acc'
    using issued_trans [OF command_sent [OF a] Cons] .
  then show ?case using a by (simp split: option.split)
qed simp

lemma repo_loop_sent:
  "sent H w (snd (repo_loop H J hs acc w))"
proof (induction hs arbitrary: acc w)
  case (Cons h hs)
  obtain hr w1 where a: "hr_command H w [''HGETALL'', buf_copy 256 (''kpidash:repos:'' @ h)] = (hr, w1)"
    by (rule prod.exhaust)
  have "sent H w (snd (repo_loop H J hs acc' w1))" for acc'
    using issued_trans [OF command_sent [OF a] Cons] .
  then show ?case using a by (simp split: option.split)
qed simp

lemma overrides_sent:
  "sent H w (snd (graph_overrides H J hs acc w))"
proof (induction hs arbitrary: acc w)
  case (Cons h hs)
  obtain s w1 where a: "get_string H (buf_copy 256 (''kpidash:cmd:graph:'' @ h)) w = (s, w1)" by (rule prod.exhaust)
  have "sent H w (snd (graph_overrides H J hs acc' w1))" for acc'
    using issued_trans [OF get_sent [OF a] Cons] .
  then show ?case using a by (simp split: option.split prod.split bool.split)
qed simp

lemma activities_sent:
  assumes "poll_activities H w = (r, w')" shows "sent H w w'"
proof -
  obtain zr w1 where a: "hr_command H w [''ZREVRANGE'', ''kpidash:activities'', ''0'', ''9''] = (zr, w1)" by (rule prod.exhaust)
  have l: "sent H w w1" "sent H w (snd (activity_loop H es [] w1))" for es
    using command_sent [OF a] issued_trans [OF command_sent [OF a] activity_loop_sent] by auto
  have "sent H w (snd (poll_activities H w))" using l by (simp add: poll_activities_def a split: option.split)
  then show ?thesis by (simp add: assms)
qed

lemma ack_sent:
  assumes "status_redis_check_ack H pr (s, w) = (s', w')" shows "sent H w w'"
proof -
  have c: "sent H w (snd (hr_command H w k))" for w k by (rule command_sent [OF surjective_pairing])
  have d: "sent H w (delete_current_from_redis H w)" "sent H w (write_current_to_redis H pr m w)" for w m
    using c by (auto simp: delete_current_from_redis_def write_current_to_redis_def split: option.split)
  have "sent H w (snd (status_redis_check_ack H pr (s, w)))"
  proof (cases "hr_err H w \<or> status_get_current (st_ring s) = None")
    case True
    then show ?thesis by (auto simp: status_redis_check_ack_def)
  next
    case False
    then obtain m where m: "status_get_current (st_ring s) = Some m" "\<not> hr_err H w" by auto
    let ?key = "status_ack_key (msg_id m)"
    obtain r w1 where a: "hr_command H w [''EXISTS'', ?key] = (r, w1)" by (rule prod.exhaust)
    let ?w2 = "snd (hr_command H w1 [''DEL'', ?key])"
    have l: "sent H w w1" by (rule command_sent [OF a])
    then have l2: "sent H w ?w2" using c [of w1 "[''DEL'', ?key]"] by (rule issued_trans)
    have "sent H w (delete_current_from_redis H ?w2)" "sent H w (write_current_to_redis H pr n ?w2)" for n
      using issued_trans [OF l2 d(1)] issued_trans [OF l2 d(2)] by simp_all
    then show ?thesis using l m a by (simp add: status_redis_check_ack_def Let_def split: option.split)
  qed
  then show ?thesis by (simp add: assms)
qed

section \<open>The steps of a poll\<close>

lemma poll_clients_sent:
  "sent H w (snd (poll_clients H J P hosts (d, w)))"
proof -
  obtain reg w2 where m: "poll_members H J hosts (da_reg d, w) = (reg, w2)" by (rule prod.exhaust)
  obtain acts w3 where a: "poll_activities H w2 = (acts, w3)" by (rule prod.exhaust)
  obtain repos w4 where r: "poll_repos H J hosts w3 = (repos, w4)" by (rule prod.exhaust)
  obtain st w5 where s: "status_redis_check_ack H (pr_status P) (da_status d, w4) = (st, w5)" by (rule prod.exhaust)
  have "sent H w (snd (poll_members H J hosts (da_reg d, w)))"
    using fold_sent [of H "poll_member H J" "(registry_remove_absent hosts (da_reg d), w)" hosts, OF member_sent] unfolding poll_members_def by simp
  moreover have "sent H w3 (snd (poll_repos H J hosts w3))"
    using repo_loop_sent [of H w3 J hosts "[]"] by (auto simp: poll_repos_def split: prod.split)
  ultimately have "sent H w w5" using m r activities_sent [OF a] ack_sent [OF s] by (auto intro: issued_trans)
  then show ?thesis by (simp add: poll_clients_def m a r s)
qed

lemma dev_telemetry_sent:
  "sent H (snd sw) (snd (poll_dev_telemetry E H J h sw))"
proof -
  obtain s w1 where g: "get_string H (client_key h ''dev_telemetry'') (snd sw) = (s, w1)" by (rule prod.exhaust)
  have "snd (poll_dev_telemetry E H J h sw) = w1" using g by (simp add: poll_dev_telemetry_def split: option.split prod.split)
  then show ?thesis using get_sent [OF g] by simp
qed

lemma fortune_sent:
  "sent H (snd fw) (snd (poll_pushed_fortune H J dev fw))"
proof -
  obtain r w1 where a: "hr_command H (snd fw) [''EXISTS'', ''kpidash:fortune:pushed''] = (r, w1)" by (rule prod.exhaust)
  obtain s w2 where b: "get_string H ''kpidash:fortune:pushed'' w1 = (s, w2)" by (rule prod.exhaust)
  have "snd (poll_pushed_fortune H J dev fw) \<in> {w1, w2}"
    using a b by (simp add: poll_pushed_fortune_def split: option.split)
  then show ?thesis using command_sent [OF a] get_sent [OF b] by (auto intro: issued_trans)
qed

lemma dev_commands_sent:
  assumes "poll_dev_commands H J hosts w = (cmd, w')" shows "sent H w w'"
proof -
  obtain g w1 where 1: "get_string H ''kpidash:cmd:grid'' w = (g, w1)" by (rule prod.exhaust)
  obtain t w2 where 2: "get_string H ''kpidash:cmd:textsize'' w1 = (t, w2)" by (rule prod.exhaust)
  obtain gr w3 where 3: "get_string H ''kpidash:cmd:graph'' w2 = (gr, w3)" by (rule prod.exhaust)
  obtain ov w4 where 4: "graph_overrides H J hosts [] w3 = (ov, w4)" by (rule prod.exhaust)
  obtain fd w5 where 5: "get_string H ''kpidash:cmd:fortune_dev'' w4 = (fd, w5)" by (rule prod.exhaust)
  have "sent H w3 w4" using overrides_sent [of H w3 J hosts "[]"] by (simp add: 4)
  moreover have "w' = w5" using assms 1 2 3 4 5 by (simp add: poll_dev_commands_def)
  ultimately show ?thesis
    using get_sent [OF 1] get_sent [OF 2] get_sent [OF 3] get_sent [OF 5] by (meson issued_trans)
qed

lemma poll_development_sent:
  "sent H w (snd (poll_development E H J hosts (d, w)))"
proof -
  obtain ft w1 where f: "poll_pushed_fortune H J (dc_fortune_dev_enabled (da_cmd d)) (da_fortune d, w) = (ft, w1)"
    by (rule prod.exhaust)
  obtain cmd w2 where c: "poll_dev_commands H J hosts w1 = (cmd, w2)" by (rule prod.exhaust)
  let ?st = "((da_graphs d, (da_devtel d)\<lparr>dt_valid := False\<rparr>, False), w2)"
  let ?fold = "fold (poll_dev_telemetry E H J) hosts ?st"
  obtain g l n w3 where t: "?fold = ((g, l, n), w3)" by (cases ?fold) auto
  have "sent H w2 (snd ?fold)"
    using fold_sent [of H "poll_dev_telemetry E H J" ?st hosts, OF dev_telemetry_sent] by simp
  moreover have "sent H w w1"
    using fortune_sent [of H "(da_fortune d, w)" J "dc_fortune_dev_enabled (da_cmd d)"] by (simp add: f)
  ultimately have "sent H w w3" using t dev_commands_sent [OF c] by (auto intro: issued_trans)
  then show ?thesis by (simp add: poll_development_def f c t)
qed

section \<open>The scans\<close>

text \<open>A poller's work per key only reads keys.\<close>

definition step_reads :: "'w hiredis \<Rightarrow> (string \<Rightarrow> 's \<times> 'w \<Rightarrow> bool \<times> 's \<times> 'w) \<Rightarrow> bool" where
  "step_reads H f \<longleftrightarrow> (\<forall>k s w. issued H reads w (snd (snd (f k (s, w)))))"

lemma each_key_reads:
  assumes "step_reads H f" "each_key f ks (s, w) = (b, s', w')" shows "issued H reads w w'"
  using assms(2)
proof (induction ks arbitrary: s w)
  case (Cons k ks)
  obtain b1 s1 w1 where f: "f k (s, w) = (b1, s1, w1)" by (cases "f k (s, w)")
  have r: "issued H reads w w1" using assms(1) [unfolded step_reads_def, rule_format, of w k s] by (simp add: f)
  then show ?case using Cons.IH [of s1 w1] Cons.prems f by (cases b1) (auto intro: issued_trans)
qed simp

lemma scan_returns:
  assumes "scan_ends H pat cursor w" "step_reads H f"
  shows "\<exists>n b s' w'. (\<forall>fuel\<ge>n. scan_loop H pat f fuel cursor (s, w) = Some (b, s', w')) \<and> sent H w w'"
  using assms(1)
proof (induction arbitrary: s rule: scan_ends.induct)
  case (broken cursor w)
  obtain sr w1 where c: "scan_command H pat cursor w = (sr, w1)" by (rule prod.exhaust)
  have "scan_loop H pat f fuel cursor (s, w) = Some (False, s, w1)" if "Suc 0 \<le> fuel" for fuel
    using that broken c by (cases fuel) simp_all
  moreover have "sent H w w1" using c by (auto simp: scan_command_def dest: command_sent)
  ultimately show ?case by blast
next
  case (last cursor w c ks)
  obtain sr w1 where c: "scan_command H pat cursor w = (sr, w1)" by (rule prod.exhaust)
  obtain b s2 w2 where e: "each_key f (page_keys ks) (s, w1) = (b, s2, w2)" by (cases "each_key f (page_keys ks) (s, w1)")
  have "scan_loop H pat f fuel cursor (s, w) = Some (b, s2, w2)" if "Suc 0 \<le> fuel" for fuel
    using that last c e by (cases fuel; cases b) simp_all
  moreover have "sent H w w1" using c by (auto simp: scan_command_def dest: command_sent)
  moreover have "sent H w1 w2" using each_key_reads [OF assms(2) e] by (rule issued_mono) simp
  ultimately show ?case by (blast intro: issued_trans)
next
  case (page cursor w sr w1 c ks)
  obtain b s2 w2 where e: "each_key f (page_keys ks) (s, w1) = (b, s2, w2)" by (cases "each_key f (page_keys ks) (s, w1)")
  have r: "issued H reads w1 w2" by (rule each_key_reads [OF assms(2) e])
  have s: "sent H w w2"
    using page.hyps(1) issued_mono [OF r] by (auto simp: scan_command_def dest: command_sent intro: issued_trans)
  show ?case
  proof (cases "b \<and> next_cursor cursor c \<noteq> ''0''")
    case False
    then have "scan_loop H pat f fuel cursor (s, w) = Some (b, s2, w2)" if "Suc 0 \<le> fuel" for fuel
      using that page.hyps(1,2) e by (cases fuel; cases b) simp_all
    then show ?thesis using s by blast
  next
    case True
    obtain n b3 s3 w3 where n: "\<forall>fuel\<ge>n. scan_loop H pat f fuel (next_cursor cursor c) (s2, w2) = Some (b3, s3, w3)" "sent H w2 w3"
      using page.IH [OF r] by blast
    have "scan_loop H pat f fuel cursor (s, w) = Some (b3, s3, w3)" if "Suc n \<le> fuel" for fuel
      using that True n(1) page.hyps(1,2) e by (cases fuel) simp_all
    then show ?thesis using issued_trans [OF s n(2)] by blast
  qed
qed

lemma key_steps_read:
  "step_reads H (poll_service_key H J)" "step_reads H (poll_apttemps_key H J)" "step_reads H (poll_stale_key H J)"
proof -
  have g: "issued H reads w w'" if "hr_command H w [''GET'', k] = (r, w')" for w w' k r
    using that by (rule command_read [rotated]) (simp add: reads_def)
  show "step_reads H (poll_service_key H J)"
    unfolding step_reads_def poll_service_key_def by (auto split: option.split prod.split dest: g)
  show "step_reads H (poll_apttemps_key H J)"
    unfolding step_reads_def poll_apttemps_key_def Let_def by (auto split: option.split prod.split dest: g)
  show "step_reads H (poll_stale_key H J)"
    unfolding step_reads_def poll_stale_key_def by (auto split: option.split prod.split reply.split dest: g)
qed

lemma services_poll_returns:
  assumes "scans_end H w"
  shows "\<exists>n t' w'. (\<forall>fuel\<ge>n. redis_poll_services H J ctx fuel (t, w) = Some (t', w')) \<and> sent H w w'"
proof (cases "\<not> ctx \<or> hr_err H w")
  case True
  then have "redis_poll_services H J ctx fuel (t, w) = Some (t, w)" for fuel by (auto simp: redis_poll_services_def)
  then show ?thesis by blast
next
  case False
  have e: "scan_ends H KPIDASH_KEY_SERVICES_PATTERN ''0'' w" using assms unfolding scans_end_def by blast
  obtain n b t' w' where n: "\<forall>fuel\<ge>n. scan_loop H KPIDASH_KEY_SERVICES_PATTERN (poll_service_key H J) fuel ''0'' (t, w) = Some (b, t', w')"
    "sent H w w'" using scan_returns [OF e key_steps_read(1)] by blast
  let ?r = "t'"
  have "redis_poll_services H J ctx fuel (t, w) = Some (?r, w')" if "n \<le> fuel" for fuel
    using n(1) that False by (cases b) (simp_all add: redis_poll_services_def)
  with n(2) show ?thesis by blast
qed

lemma apttemps_poll_returns:
  assumes "scans_end H w"
  shows "\<exists>n a' w'. (\<forall>fuel\<ge>n. redis_poll_apttemps H J ctx fuel (a, w) = Some (a', w')) \<and> sent H w w'"
proof (cases "\<not> ctx \<or> hr_err H w")
  case True
  then have "redis_poll_apttemps H J ctx fuel (a, w) = Some (a, w)" for fuel by (auto simp: redis_poll_apttemps_def)
  then show ?thesis by blast
next
  case False
  have e: "scan_ends H KPIDASH_KEY_APTTEMPS_PATTERN ''0'' w" using assms unfolding scans_end_def by blast
  obtain n b a' w' where n: "\<forall>fuel\<ge>n. scan_loop H KPIDASH_KEY_APTTEMPS_PATTERN (poll_apttemps_key H J) fuel ''0'' (a, w) = Some (b, a', w')"
    "sent H w w'" using scan_returns [OF e key_steps_read(2)] by blast
  let ?r = "a'"
  have "redis_poll_apttemps H J ctx fuel (a, w) = Some (?r, w')" if "n \<le> fuel" for fuel
    using n(1) that False by (cases b) (simp_all add: redis_poll_apttemps_def)
  with n(2) show ?thesis by blast
qed

lemma stale_poll_returns:
  assumes "scans_end H w"
  shows "\<exists>n s' w'. (\<forall>fuel\<ge>n. redis_poll_stale H J clk ctx fuel (s, w) = Some (s', w')) \<and> sent H w w'"
proof (cases "\<not> ctx \<or> hr_err H w")
  case True
  then have "redis_poll_stale H J clk ctx fuel (s, w) = Some (s, w)" for fuel by (auto simp: redis_poll_stale_def)
  then show ?thesis by blast
next
  case False
  have e: "scan_ends H KDASH_KEY_STALE_PATTERN ''0'' w" using assms unfolding scans_end_def by blast
  obtain n b s' w' where n: "\<forall>fuel\<ge>n. scan_loop H KDASH_KEY_STALE_PATTERN (poll_stale_key H J) fuel ''0'' (stale_registry_begin_cycle s, w) = Some (b, s', w')"
    "sent H w w'" using scan_returns [OF e key_steps_read(3)] by blast
  let ?r = "if b then stale_registry_commit_cycle_at (clk w') s' else stale_registry_abort_cycle s'"
  have "redis_poll_stale H J clk ctx fuel (s, w) = Some (?r, w')" if "n \<le> fuel" for fuel
    using n(1) that False by (cases b) (simp_all add: redis_poll_stale_def)
  with n(2) show ?thesis by blast
qed

lemma poll_cards_returns:
  assumes "scans_end H w" shows "\<exists>n r. \<forall>fuel\<ge>n. poll_cards E H J P fuel (d, w) = Some r"
proof -
  let ?ctx = "cn_ctx (da_conn d)"
  obtain n1 svcs w1 where sv: "\<forall>fuel\<ge>n1. redis_poll_services H J ?ctx fuel (da_services d, w) = Some (svcs, w1)" "sent H w w1"
    using services_poll_returns [OF assms] by blast
  note e1 = scans_end_later [OF assms sv(2)]
  obtain n2 apts w2 where ap: "\<forall>fuel\<ge>n2. redis_poll_apttemps H J ?ctx fuel (da_apttemps d, w1) = Some (apts, w2)" "sent H w1 w2"
    using apttemps_poll_returns [OF e1] by blast
  note e2 = scans_end_later [OF e1 ap(2)]
  obtain n3 stl w3 where st: "\<forall>fuel\<ge>n3. redis_poll_stale H J (ev_time E) ?ctx fuel (da_stale d, w2) = Some (stl, w3)"
    using stale_poll_returns [OF e2] by blast
  have "poll_cards E H J P fuel (d, w) = poll_cards E H J P (n1 + n2 + n3) (d, w) \<and> poll_cards E H J P fuel (d, w) \<noteq> None"
    if "n1 + n2 + n3 \<le> fuel" for fuel
    using that by (simp add: poll_cards_def sv(1) ap(1) st Let_def split: prod.split)
  then show ?thesis by (metis option.exhaust)
qed

lemma poll_returns:
  assumes "scans_end H w" shows "\<exists>n r. \<forall>fuel\<ge>n. redis_poll E H J P fuel (d, w) = Some r"
proof (cases "redis_is_connected H (da_conn d, w)")
  case True
  obtain r w1 where s: "hr_command H w [''SMEMBERS'', ''kpidash:clients''] = (r, w1)" by (rule prod.exhaust)
  have "\<exists>n r. \<forall>fuel\<ge>n. poll_cards E H J P fuel (poll_development E H J hosts (poll_clients H J P hosts (d, w1))) = Some r" for hosts
  proof -
    obtain d2 w2 where c: "poll_clients H J P hosts (d, w1) = (d2, w2)" by (rule prod.exhaust)
    obtain d3 w3 where v: "poll_development E H J hosts (d2, w2) = (d3, w3)" by (rule prod.exhaust)
    have "sent H w w3"
      using command_sent [OF s] poll_clients_sent [of H w1 J P hosts d] poll_development_sent [of H w2 E J hosts d2]
      by (auto simp: c v intro: issued_trans)
    from poll_cards_returns [OF scans_end_later [OF assms this]] show ?thesis by (simp add: c v)
  qed
  then obtain n p where n: "\<forall>fuel\<ge>n. poll_cards E H J P fuel
      (poll_development E H J (member_names (the r)) (poll_clients H J P (member_names (the r)) (d, w1))) = Some p" by blast
  have "redis_poll E H J P fuel (d, w) = redis_poll E H J P n (d, w) \<and> redis_poll E H J P n (d, w) \<noteq> None" if "n \<le> fuel" for fuel
    using True s n that by (cases r) (simp_all add: redis_poll_def Let_def)
  then show ?thesis by (metis option.exhaust)
qed (simp add: redis_poll_def)

section \<open>Properties\<close>


text \<open>A server that answers every scan with two pages, the first of them not empty, and has no record else.\<close>

definition two_pages :: "'w hiredis" where
  "two_pages = \<lparr>hr_command = (\<lambda>w c.
     (if take 2 c = [''SCAN'', ''0''] then Some (RArray [RString ''7'', RArray [RString ''kdash:stale:nas'']])
      else if take 1 c = [''SCAN''] then Some (RArray [RString ''0'', RArray []])
      else if take 1 c = [''GET''] then Some (RString ''x'') else Some RNil, w)), hr_err = (\<lambda>w. False)\<rparr>"

lemma two_pages_scan:
  "scan_command two_pages pat cursor w =
     (Some (if cursor = ''0'' then RArray [RString ''7'', RArray [RString ''kdash:stale:nas'']]
            else RArray [RString ''0'', RArray []]), w)"
  by (simp add: scan_command_def two_pages_def)

lemma two_pages_end: "scans_end two_pages w"
proof -
  have "scan_ends two_pages pat ''7'' w" for pat and w :: 'a
    by (rule scan_ends.last [of _ _ _ _ "RString ''0''" "RArray []"]) (simp_all add: two_pages_scan buf_copy_def)
  then have "scan_ends two_pages pat ''0'' w" for pat and w :: 'a
    by (intro scan_ends.page [of two_pages pat "''0''" w
        "Some (RArray [RString ''7'', RArray [RString ''kdash:stale:nas'']])" w "RString ''7''" "RArray [RString ''kdash:stale:nas'']"])
      (simp_all add: two_pages_scan buf_copy_def)
  then show ?thesis by (simp add: scans_end_def)
qed


end
