(* ===== verification/Palette.thy ===== *)
theory Palette
  imports Footer_Cards
begin

text \<open>
  What the widgets share: the palette of \<open>src/src/widgets/common.h\<close>, a colour being its 24-bit number,
  fonts as the size of a face, and the formats of the numbers on the cards.
\<close>

section \<open>Colours and fonts\<close>

type_synonym color = int

abbreviation "WS_COLOR_BG \<equiv> 0x1E1E2E :: color"
abbreviation "WS_COLOR_FG \<equiv> 0xCDD6F4 :: color"
abbreviation "WS_COLOR_MUTED \<equiv> 0x6C7086 :: color"
abbreviation "WS_COLOR_GREEN \<equiv> 0xA6E3A1 :: color"
abbreviation "WS_COLOR_BLUE \<equiv> 0x89B4FA :: color"
abbreviation "WS_COLOR_RED \<equiv> 0xF38BA8 :: color"
abbreviation "WS_COLOR_ORANGE \<equiv> 0xFAB387 :: color"
abbreviation "WS_COLOR_MAUVE \<equiv> 0xCBA6F7 :: color"
abbreviation "WS_COLOR_YELLOW \<equiv> 0xF9E2AF :: color"
abbreviation "WS_COLOR_SURFACE0 \<equiv> 0x313244 :: color"
abbreviation "WS_COLOR_SURFACE1 \<equiv> 0x45475A :: color"
abbreviation "WS_COLOR_TEAL \<equiv> 0x94E2D5 :: color"
abbreviation "WS_COLOR_SAPPHIRE \<equiv> 0x74C7EC :: color"
abbreviation "WS_COLOR_LAVENDER \<equiv> 0xB4BEFE :: color"

datatype font = montserrat nat | montserrat_bold nat

abbreviation "WS_FONT_SMALL \<equiv> montserrat 16"
abbreviation "WS_FONT_TINY \<equiv> montserrat 14"

section \<open>Numbers as text\<close>

text \<open>\<open>%.0f\<close> and \<open>%u\<close>; a number that rounds to zero from below prints as \<open>-0\<close>.\<close>

definition no_decimal :: "double \<Rightarrow> string" where
  "no_decimal x = (if x < 0 then ''-'' else []) @ dec (nat \<bar>round_even x\<bar>)"

definition dec_word :: "32 word \<Rightarrow> string" where
  "dec_word w = dec (unat w)"

text \<open>A word as a \<open>float\<close>.\<close>

definition of_word :: "32 word \<Rightarrow> double" where
  "of_word w = of_nat (unat w)"

lemma of_word_nonneg [simp]: "0 \<le> of_word w"
  unfolding of_word_def by (rule of_nat_0_le_iff)

lemma of_word_pos [simp]: "0 < of_word w \<longleftrightarrow> w \<noteq> 0"
  unfolding of_word_def of_nat_0_less_iff by (rule unat_gt_0)

lemma round_even_range: "of_int a \<le> x \<Longrightarrow> x \<le> of_int b \<Longrightarrow> a \<le> round_even x \<and> round_even x \<le> b"
proof -
  assume ab: "of_int a \<le> x" "x \<le> of_int b"
  then have f: "a \<le> \<lfloor>x\<rfloor>" "\<lfloor>x\<rfloor> \<le> b" by (simp_all add: le_floor_iff floor_le_iff)
  have "\<lfloor>x\<rfloor> + 1 \<le> b" if "x \<noteq> of_int \<lfloor>x\<rfloor>"
  proof -
    have "of_int \<lfloor>x\<rfloor> < (of_int b :: double)" using that ab(2) of_int_floor_le [of x] by linarith
    then show ?thesis by simp
  qed
  then show ?thesis using f by (cases "x = of_int \<lfloor>x\<rfloor>") (auto simp: round_even_def Let_def)
qed

end
