(* ===== verification/Client_Card.thy ===== *)
theory Client_Card
  imports Palette Client_Registry
begin

text \<open>
  A client card (\<open>src/src/widgets/client_card.c\<close>): the arcs, the texts and the pool of disk rows, which
  grows up to six rows and is never shrunk; rows that are not needed are hidden.  A card is what it
  shows; sizes, paddings and fixed styles are left out.
\<close>

section \<open>State\<close>

abbreviation "COLOR_ONLINE \<equiv> 0x00C853 :: color"
abbreviation "COLOR_OFFLINE \<equiv> 0xFF1744 :: color"
abbreviation "COLOR_GRAY \<equiv> 0x585B70 :: color"
abbreviation "COLOR_ARC_BG \<equiv> WS_COLOR_SURFACE0"
abbreviation "COLOR_GPU_USAGE \<equiv> WS_COLOR_RED"
abbreviation "COLOR_GPU_VRAM \<equiv> WS_COLOR_ORANGE"
abbreviation "MAX_DISPLAY_DISKS \<equiv> 6 :: nat"

text \<open>An arc: its value, and the colours of its main part and its indicator.\<close>

record arc =
  arc_value :: int
  arc_main :: color
  arc_indicator :: color

record disk_row =
  dr_hidden :: bool
  dr_color :: color
  dr_value :: int
  dr_used :: string
  dr_label :: string
  dr_total :: string

record client_card =
  cc_health :: color
  cc_gpu_vram :: arc
  cc_gpu_usage :: arc
  cc_ram :: int
  cc_cpu_top :: int
  cc_cpu_avg :: int
  cc_gpu_vram_lbl :: string
  cc_gpu_usage_lbl :: string
  cc_gpu_lbls_hidden :: bool
  cc_ram_lbl :: string
  cc_cpu_lbl :: string
  cc_hostname :: string
  cc_os_name :: string
  cc_uptime :: string
  cc_rows :: "disk_row list"

section \<open>Operations\<close>

definition format_uptime :: "nat \<Rightarrow> double \<Rightarrow> string" where
  "format_uptime n seconds =
     (if seconds \<le> 0 then buf_copy n ''--''
      else let s = cast_long seconds; d = c_int (s div 86400); h = c_int (s mod 86400 div 3600);
               m = c_int (s mod 3600 div 60)
        in buf_copy n
          (if 0 < d then ''up '' @ dec_int d @ ''d '' @ dec_int h @ ''h''
           else if 0 < h then ''up '' @ dec_int h @ ''h '' @ dec_int m @ ''m''
           else ''up '' @ dec_int m @ ''m''))"

definition format_bytes :: "nat \<Rightarrow> 32 word \<Rightarrow> string" where
  "format_bytes n mb =
     buf_copy n (if 1024 \<le> mb then one_decimal (of_word mb / 1024) @ '' GB'' else dec_word mb @ '' MB'')"

definition format_bytes_short :: "nat \<Rightarrow> double \<Rightarrow> string" where
  "format_bytes_short n gb =
     buf_copy n
       (if 1024 \<le> gb then one_decimal (gb / 1024) @ '' TB''
        else if 100 \<le> gb then no_decimal gb @ '' GB''
        else one_decimal gb @ '' GB'')"

definition clamp_pct :: "double \<Rightarrow> int" where
  "clamp_pct val = (if val < 0 then 0 else if 100 < val then 100 else trunc_int (val + 1 / 2))"

definition disk_bar_color :: "double \<Rightarrow> color" where
  "disk_bar_color pct = (if 75 < pct then WS_COLOR_RED else if 60 < pct then WS_COLOR_ORANGE else WS_COLOR_GREEN)"

definition client_card_create :: "string \<Rightarrow> client_card" where
  "client_card_create hostname =
     \<lparr>cc_health = COLOR_OFFLINE,
      cc_gpu_vram = \<lparr>arc_value = 0, arc_main = COLOR_ARC_BG, arc_indicator = COLOR_GPU_VRAM\<rparr>,
      cc_gpu_usage = \<lparr>arc_value = 0, arc_main = COLOR_ARC_BG, arc_indicator = COLOR_GPU_USAGE\<rparr>,
      cc_ram = 0, cc_cpu_top = 0, cc_cpu_avg = 0,
      cc_gpu_vram_lbl = ''VRAM'' @ [CHR 0x0A] @ ''--'', cc_gpu_usage_lbl = ''Usage'' @ [CHR 0x0A] @ ''--'',
      cc_gpu_lbls_hidden = False,
      cc_ram_lbl = ''RAM'' @ [CHR 0x0A] @ ''--'', cc_cpu_lbl = ''CPU'' @ [CHR 0x0A] @ ''--'',
      cc_hostname = hostname, cc_os_name = [], cc_uptime = ''--'', cc_rows = []\<rparr>"

definition client_card_update_health :: "client_info \<Rightarrow> client_card \<Rightarrow> client_card" where
  "client_card_update_health c h =
     (let (color, up) = (case client_presence_of c of
             CLIENT_PRESENCE_ONLINE \<Rightarrow> (COLOR_ONLINE, format_uptime 32 (ci_uptime_seconds c))
           | CLIENT_PRESENCE_ASLEEP \<Rightarrow> (COLOR_GRAY, ''asleep'')
           | CLIENT_PRESENCE_OFFLINE \<Rightarrow> (COLOR_OFFLINE, ''offline''));
          h' = h\<lparr>cc_health := color, cc_uptime := up\<rparr>
      in if ci_os_name c \<noteq> [] then h'\<lparr>cc_os_name := ci_os_name c\<rparr> else h')"

text \<open>A row just made; every text of it is set before the update returns.\<close>

definition new_disk_row :: disk_row where
  "new_disk_row = \<lparr>dr_hidden = False, dr_color = 0, dr_value = 0, dr_used = [], dr_label = [], dr_total = []\<rparr>"

definition paint_disk_row :: "disk_entry \<Rightarrow> disk_row \<Rightarrow> disk_row" where
  "paint_disk_row d r =
     r\<lparr>dr_hidden := False, dr_color := disk_bar_color (dk_pct d), dr_value := clamp_pct (dk_pct d),
       dr_used := format_bytes_short 32 (dk_used_gb d), dr_label := dk_label d,
       dr_total := format_bytes_short 32 (dk_total_gb d)\<rparr>"

definition update_disk_bars :: "client_info \<Rightarrow> client_card \<Rightarrow> client_card" where
  "update_disk_bars c h =
     (let count = min (length (ci_disks c)) MAX_DISPLAY_DISKS;
          built = cc_rows h @ replicate (count - length (cc_rows h)) new_disk_row
      in h\<lparr>cc_rows := map2 paint_disk_row (take count (ci_disks c)) (take count built) @
              map (\<lambda>r. r\<lparr>dr_hidden := True\<rparr>) (drop count built)\<rparr>)"

definition used_of :: "32 word \<Rightarrow> 32 word \<Rightarrow> int" where
  "used_of used total_mb = (if 0 < total_mb then clamp_pct (100 * of_word used / of_word total_mb) else 0)"

definition two_sizes :: "32 word \<Rightarrow> 32 word \<Rightarrow> string" where
  "two_sizes used total_mb = buf_copy 64 (format_bytes 16 used @ '' / '' @ format_bytes 16 total_mb)"

definition update_gpu :: "gpu_info \<Rightarrow> client_card \<Rightarrow> client_card" where
  "update_gpu g h =
     (if gpu_present g
      then h\<lparr>cc_gpu_vram := \<lparr>arc_value = used_of (gpu_vram_used_mb g) (gpu_vram_total_mb g),
                arc_main = COLOR_ARC_BG, arc_indicator = COLOR_GPU_VRAM\<rparr>,
             cc_gpu_usage := \<lparr>arc_value = clamp_pct (gpu_compute_pct g),
                arc_main = COLOR_ARC_BG, arc_indicator = COLOR_GPU_USAGE\<rparr>,
             cc_gpu_vram_lbl := two_sizes (gpu_vram_used_mb g) (gpu_vram_total_mb g),
             cc_gpu_usage_lbl := buf_copy 64 (no_decimal (gpu_compute_pct g) @ ''%''),
             cc_gpu_lbls_hidden := False\<rparr>
      else h\<lparr>cc_gpu_vram := \<lparr>arc_value = 0, arc_main = COLOR_GRAY, arc_indicator = COLOR_GRAY\<rparr>,
             cc_gpu_usage := \<lparr>arc_value = 0, arc_main = COLOR_GRAY, arc_indicator = COLOR_GRAY\<rparr>,
             cc_gpu_lbls_hidden := True\<rparr>)"

definition client_card_update_telemetry :: "client_info \<Rightarrow> client_card \<Rightarrow> client_card" where
  "client_card_update_telemetry c h =
     (let h1 = update_gpu (ci_gpu c) h;
          h2 = h1\<lparr>cc_ram := used_of (ci_ram_used_mb c) (ci_ram_total_mb c),
                  cc_ram_lbl := two_sizes (ci_ram_used_mb c) (ci_ram_total_mb c),
                  cc_cpu_top := clamp_pct (ci_top_core_pct c), cc_cpu_avg := clamp_pct (ci_cpu_pct c),
                  cc_cpu_lbl := buf_copy 64 (no_decimal (ci_cpu_pct c) @ ''% / '' @ no_decimal (ci_top_core_pct c) @ ''%'')\<rparr>
      in update_disk_bars c h2)"

text \<open>What a refresh does to a card.\<close>

definition client_card_update :: "client_info \<Rightarrow> client_card \<Rightarrow> client_card" where
  "client_card_update c h = client_card_update_telemetry c (client_card_update_health c h)"

section \<open>What can be seen\<close>

text \<open>The card without the texts of hidden labels and without hidden rows.\<close>

definition visible :: "client_card \<Rightarrow> client_card" where
  "visible h =
     (if cc_gpu_lbls_hidden h then h\<lparr>cc_gpu_vram_lbl := [], cc_gpu_usage_lbl := []\<rparr> else h)
       \<lparr>cc_rows := filter (\<lambda>r. \<not> dr_hidden r) (cc_rows h)\<rparr>"

definition card_ok :: "client_card \<Rightarrow> bool" where
  "card_ok h \<longleftrightarrow> length (cc_rows h) \<le> MAX_DISPLAY_DISKS \<and>
     list_all (\<lambda>v. v \<in> {0..100}) ([arc_value (cc_gpu_vram h), arc_value (cc_gpu_usage h), cc_ram h, cc_cpu_top h,
        cc_cpu_avg h] @ map dr_value (cc_rows h))"

lemma clamp_pct_range: "clamp_pct v \<in> {0..100}"
proof (cases "v < 0 \<or> 100 < v")
  case True
  then show ?thesis by (auto simp: clamp_pct_def)
next
  case False
  then have "0 \<le> \<lfloor>v + 1 / 2\<rfloor>" "\<lfloor>v + 1 / 2\<rfloor> \<le> 100" by (simp_all add: le_floor_iff floor_le_iff)
  then show ?thesis using False by (simp add: clamp_pct_def trunc_int_def)
qed

lemma used_of_range: "used_of u m \<in> {0..100}"
  using clamp_pct_range by (simp add: used_of_def)

lemma create_ok: "card_ok (client_card_create h)"
  by (simp add: card_ok_def client_card_create_def)

lemma paint_disk_row_new: "paint_disk_row d r = paint_disk_row d new_disk_row"
  by (simp add: paint_disk_row_def new_disk_row_def)

lemma painted_rows:
  "length rs = length ds \<Longrightarrow> map2 paint_disk_row ds rs = map (\<lambda>d. paint_disk_row d new_disk_row) ds"
proof (induction ds rs rule: list_induct2')
  case (4 d ds r rs)
  then show ?case using paint_disk_row_new [of d r] by simp
qed simp_all

text \<open>The rows after an update: those of the disks, and hidden ones.\<close>

lemma rows_update:
  assumes "length (cc_rows h) \<le> MAX_DISPLAY_DISKS"
  shows "\<exists>rest. cc_rows (update_disk_bars c h) =
      map (\<lambda>d. paint_disk_row d new_disk_row) (take MAX_DISPLAY_DISKS (ci_disks c)) @ rest \<and>
      (\<forall>r \<in> set rest. dr_hidden r) \<and> dr_value ` set rest \<subseteq> dr_value ` set (cc_rows h)"
    "length (cc_rows (update_disk_bars c h)) = max (length (cc_rows h)) (min (length (ci_disks c)) MAX_DISPLAY_DISKS)"
proof -
  let ?n = "min (length (ci_disks c)) MAX_DISPLAY_DISKS"
  let ?b = "cc_rows h @ replicate (?n - length (cc_rows h)) new_disk_row"
  let ?rest = "map (\<lambda>r. r\<lparr>dr_hidden := True\<rparr>) (drop ?n ?b)"
  have t: "take ?n (ci_disks c) = take MAX_DISPLAY_DISKS (ci_disks c)" by (simp add: min_def)
  have e: "cc_rows (update_disk_bars c h) =
      map (\<lambda>d. paint_disk_row d new_disk_row) (take MAX_DISPLAY_DISKS (ci_disks c)) @ ?rest"
    unfolding t [symmetric] by (simp add: update_disk_bars_def Let_def painted_rows)
  have "drop ?n ?b = drop ?n (cc_rows h)" by simp
  then have "dr_value ` set ?rest \<subseteq> dr_value ` set (cc_rows h)" by (auto dest: in_set_dropD)
  then show "\<exists>rest. cc_rows (update_disk_bars c h) =
      map (\<lambda>d. paint_disk_row d new_disk_row) (take MAX_DISPLAY_DISKS (ci_disks c)) @ rest \<and>
      (\<forall>r \<in> set rest. dr_hidden r) \<and> dr_value ` set rest \<subseteq> dr_value ` set (cc_rows h)"
    unfolding e by (intro exI [of _ ?rest]) auto
  show "length (cc_rows (update_disk_bars c h)) = max (length (cc_rows h)) ?n"
    unfolding e by (simp add: max_def min_def)
qed

text \<open>An update, in one record: the fields beside the rows do not depend on them.\<close>

lemma update_disk_bars_more: "update_disk_bars c h = h\<lparr>cc_rows := cc_rows (update_disk_bars c h)\<rparr>"
  by (simp add: update_disk_bars_def Let_def)

lemma card_eq:
  "client_card_update c h =
     \<lparr>cc_health = (case client_presence_of c of CLIENT_PRESENCE_ONLINE \<Rightarrow> COLOR_ONLINE
          | CLIENT_PRESENCE_ASLEEP \<Rightarrow> COLOR_GRAY | CLIENT_PRESENCE_OFFLINE \<Rightarrow> COLOR_OFFLINE),
      cc_gpu_vram = cc_gpu_vram (update_gpu (ci_gpu c) h), cc_gpu_usage = cc_gpu_usage (update_gpu (ci_gpu c) h),
      cc_ram = used_of (ci_ram_used_mb c) (ci_ram_total_mb c), cc_cpu_top = clamp_pct (ci_top_core_pct c),
      cc_cpu_avg = clamp_pct (ci_cpu_pct c),
      cc_gpu_vram_lbl = cc_gpu_vram_lbl (update_gpu (ci_gpu c) h),
      cc_gpu_usage_lbl = cc_gpu_usage_lbl (update_gpu (ci_gpu c) h),
      cc_gpu_lbls_hidden = (\<not> gpu_present (ci_gpu c)),
      cc_ram_lbl = two_sizes (ci_ram_used_mb c) (ci_ram_total_mb c),
      cc_cpu_lbl = buf_copy 64 (no_decimal (ci_cpu_pct c) @ ''% / '' @ no_decimal (ci_top_core_pct c) @ ''%''),
      cc_hostname = cc_hostname h, cc_os_name = (if ci_os_name c \<noteq> [] then ci_os_name c else cc_os_name h),
      cc_uptime = (case client_presence_of c of CLIENT_PRESENCE_ONLINE \<Rightarrow> format_uptime 32 (ci_uptime_seconds c)
          | CLIENT_PRESENCE_ASLEEP \<Rightarrow> ''asleep'' | CLIENT_PRESENCE_OFFLINE \<Rightarrow> ''offline''),
      cc_rows = cc_rows (update_disk_bars c h)\<rparr>"
  unfolding client_card_update_def client_card_update_telemetry_def Let_def
  by (subst update_disk_bars_more)
    (simp add: client_card_update_health_def update_gpu_def update_disk_bars_def Let_def split: client_presence.split)

lemma update_ok:
  assumes "card_ok h" shows "card_ok (client_card_update c h)"
proof -
  have h: "length (cc_rows h) \<le> MAX_DISPLAY_DISKS" "\<forall>r \<in> set (cc_rows h). dr_value r \<in> {0..100}"
    using assms by (simp_all add: card_ok_def list_all_iff)
  obtain rest where rows: "cc_rows (update_disk_bars c h) =
      map (\<lambda>d. paint_disk_row d new_disk_row) (take MAX_DISPLAY_DISKS (ci_disks c)) @ rest"
    and rest: "dr_value ` set rest \<subseteq> dr_value ` set (cc_rows h)"
    using rows_update(1) [OF h(1)] by blast
  have "dr_value r \<in> {0..100}" if "r \<in> set (cc_rows (update_disk_bars c h))" for r
  proof -
    from that [unfolded rows set_append] show ?thesis
    proof (rule UnE)
      assume "r \<in> set rest"
      then obtain q where "q \<in> set (cc_rows h)" "dr_value r = dr_value q" using subsetD [OF rest imageI] by blast
      then show ?thesis using h(2) by simp
    next
      assume "r \<in> set (map (\<lambda>d. paint_disk_row d new_disk_row) (take MAX_DISPLAY_DISKS (ci_disks c)))"
      then obtain d where "r = paint_disk_row d new_disk_row" unfolding set_map by (rule imageE)
      then show ?thesis using clamp_pct_range by (simp add: paint_disk_row_def)
    qed
  qed
  moreover have "length (cc_rows (update_disk_bars c h)) \<le> MAX_DISPLAY_DISKS"
    using h(1) by (simp add: rows_update(2))
  moreover have "arc_value (cc_gpu_vram (update_gpu g h)) \<in> {0..100}" "arc_value (cc_gpu_usage (update_gpu g h)) \<in> {0..100}" for g
    using used_of_range clamp_pct_range by (simp_all add: update_gpu_def)
  ultimately show ?thesis
    unfolding card_ok_def card_eq using used_of_range clamp_pct_range by (simp add: list_all_iff)
qed

section \<open>Properties\<close>

text \<open>An update sets everything that can be seen but for the host name and, when the client reports none,
  the name of the system.\<close>

lemma update_visible:
  assumes "card_ok h"
  shows "visible (client_card_update c h) =
      (visible (client_card_update c (client_card_create (cc_hostname h))))
        \<lparr>cc_os_name := (if ci_os_name c \<noteq> [] then ci_os_name c else cc_os_name h)\<rparr>"
proof -
  have seen: "filter (\<lambda>r. \<not> dr_hidden r) (cc_rows (update_disk_bars c g)) =
      map (\<lambda>d. paint_disk_row d new_disk_row) (take MAX_DISPLAY_DISKS (ci_disks c))"
    if few: "length (cc_rows g) \<le> MAX_DISPLAY_DISKS" for g
  proof -
    obtain rest where r: "cc_rows (update_disk_bars c g) =
        map (\<lambda>d. paint_disk_row d new_disk_row) (take MAX_DISPLAY_DISKS (ci_disks c)) @ rest"
      and h: "\<forall>r \<in> set rest. dr_hidden r"
      using rows_update(1) [OF few] by blast
    then show ?thesis by (simp add: filter_empty_conv paint_disk_row_def)
  qed
  have "length (cc_rows h) \<le> MAX_DISPLAY_DISKS" using assms by (simp add: card_ok_def)
  then show ?thesis
    unfolding card_eq visible_def by (simp add: seen client_card_create_def) (simp add: update_gpu_def)
qed

text \<open>The last system name that was reported, and the most disks.\<close>

definition last_os :: "client_info list \<Rightarrow> string" where
  "last_os cs = (case filter (\<lambda>c. ci_os_name c \<noteq> []) (rev cs) of [] \<Rightarrow> [] | c # _ \<Rightarrow> ci_os_name c)"

lemma card_fields:
  assumes "card_ok h"
  shows "cc_hostname (client_card_update c h) = cc_hostname h"
    "cc_os_name (client_card_update c h) = (if ci_os_name c \<noteq> [] then ci_os_name c else cc_os_name h)"
    "length (cc_rows (client_card_update c h)) =
       max (length (cc_rows h)) (min (length (ci_disks c)) MAX_DISPLAY_DISKS)"
  using assms by (simp_all add: card_eq rows_update(2) card_ok_def)

lemma last_os_snoc: "last_os (cs @ [c]) = (if ci_os_name c \<noteq> [] then ci_os_name c else last_os cs)"
  by (simp add: last_os_def)

lemma updates_ok:
  defines "after \<equiv> \<lambda>cs host. fold client_card_update cs (client_card_create host)"
  shows "card_ok (after cs host) \<and> cc_hostname (after cs host) = host \<and> cc_os_name (after cs host) = last_os cs \<and>
    length (cc_rows (after cs host)) = Max (insert 0 ((\<lambda>c. min (length (ci_disks c)) MAX_DISPLAY_DISKS) ` set cs))"
proof (induction cs rule: rev_induct)
  case Nil
  show ?case by (simp add: after_def create_ok last_os_def) (simp add: client_card_create_def)
next
  case (snoc c cs)
  let ?n = "\<lambda>c. min (length (ci_disks c)) MAX_DISPLAY_DISKS"
  have a: "after (cs @ [c]) host = client_card_update c (after cs host)" by (simp add: after_def)
  have ok: "card_ok (after cs host)" using snoc by blast
  have "Max (insert 0 (?n ` set (cs @ [c]))) = Max (insert (?n c) (insert 0 (?n ` set cs)))"
    by (intro arg_cong [of _ _ Max]) auto
  also have "\<dots> = max (?n c) (Max (insert 0 (?n ` set cs)))" by (rule Max_insert) simp_all
  finally have m: "Max (insert 0 (?n ` set (cs @ [c]))) = max (length (cc_rows (after cs host))) (?n c)"
    using snoc by (simp add: max.commute)
  show ?case unfolding a m using snoc card_fields [OF ok, of c] update_ok [OF ok, of c] by (simp add: last_os_snoc)
qed

text \<open>C29: a card shows its client and nothing of its past: after any history of updates what can be seen
  is what the last update alone shows on a new card, but for the name of the system, which is the last one
  that was reported.  The pool of disk rows holds as many rows as were ever needed at once, at most six,
  and every arc and bar is between 0 and 100.\<close>

theorem card_shows_client:
  "let h = fold client_card_update (cs @ [c]) (client_card_create host)
   in visible h = (visible (client_card_update c (client_card_create host)))\<lparr>cc_os_name := last_os (cs @ [c])\<rparr> \<and>
      length (cc_rows h) = Max ((\<lambda>c. min (length (ci_disks c)) MAX_DISPLAY_DISKS) ` set (cs @ [c])) \<and> card_ok h"
proof -
  note u = updates_ok [of cs host] updates_ok [of "cs @ [c]" host]
  let ?h = "fold client_card_update cs (client_card_create host)"
  have "visible (client_card_update c ?h) =
      (visible (client_card_update c (client_card_create host)))\<lparr>cc_os_name := last_os (cs @ [c])\<rparr>"
    using update_visible [of ?h c] u by (simp add: last_os_snoc)
  moreover have "Max (insert 0 ((\<lambda>c. min (length (ci_disks c)) MAX_DISPLAY_DISKS) ` set (cs @ [c]))) =
      Max ((\<lambda>c. min (length (ci_disks c)) MAX_DISPLAY_DISKS) ` set (cs @ [c]))"
    by (subst Max_insert) simp_all
  ultimately show ?thesis using u(2) by (simp add: Let_def)
qed

end
