(* ===== verification/Drawn_Cards.thy ===== *)
theory Drawn_Cards
  imports Client_Card Ui_Cards
begin

text \<open>
  The card block of a refresh with the cards themselves (\<open>src/src/ui.c\<close> and \<open>src/src/widgets/client_card.c\<close>
  together): \<open>Ui_Cards\<close> keeps which object stands for which host, \<open>Client_Card\<close> what one object shows.
  Here every object has its card, created, updated and deleted where the code does it, and a refresh
  leaves on the panel what the registry says, whatever was drawn before.
\<close>

section \<open>State and operations\<close>

text \<open>The cards by their objects.\<close>

type_synonym drawn = "nat \<Rightarrow> client_card option"

definition add_missing_drawn :: "client_info \<Rightarrow> ui \<times> drawn \<Rightarrow> ui \<times> drawn" where
  "add_missing_drawn c ud =
     (case ud of (u, D) \<Rightarrow>
        if find_card (ci_hostname c) (ui_cards u) \<noteq> None \<or> MAX_CLIENTS \<le> length (ui_cards u) then ud
        else (add_card (ci_hostname c) u, D(ui_next u \<mapsto> client_card_create (ci_hostname c))))"

text \<open>Deleting an object deletes its card with it (\<open>card_delete_cb\<close>).\<close>

definition remove_absent_drawn :: "client_info list \<Rightarrow> ui \<times> drawn \<Rightarrow> ui \<times> drawn" where
  "remove_absent_drawn clients ud =
     (case ud of (u, D) \<Rightarrow>
        let u' = remove_absent_cards clients u;
            gone = filter (\<lambda>k. k \<notin> set (map snd (ui_cards u'))) (map snd (ui_cards u))
        in (u', D |` (- set gone)))"

definition paint_drawn :: "client_info \<Rightarrow> ui \<times> drawn \<Rightarrow> ui \<times> drawn" where
  "paint_drawn c ud =
     (case ud of (u, D) \<Rightarrow>
        (paint_card c u,
         case find_card (ci_hostname c) (ui_cards u) of
           None \<Rightarrow> D
         | Some obj \<Rightarrow> D(obj := map_option (client_card_update c) (D obj))))"

definition refresh_drawn :: "lv_move \<Rightarrow> registry \<Rightarrow> ui \<times> drawn \<Rightarrow> ui \<times> drawn" where
  "refresh_drawn L r ud =
     (let clients = sorted_clients r;
          (u1, D1) = remove_absent_drawn clients (fold add_missing_drawn clients ud)
      in fold paint_drawn clients (reorder_cards L 0 clients u1, D1))"

section \<open>The screen is that of the card block\<close>

lemma add_drawn_fst: "fst (add_missing_drawn c ud) = add_missing c (fst ud)"
  by (auto simp: add_missing_drawn_def add_missing_def add_card_def split: prod.split)

lemma refresh_drawn_fst: "fst (refresh_drawn L r ud) = refresh_cards L r (fst ud)"
proof -
  have "fst (remove_absent_drawn cs ud) = remove_absent_cards cs (fst ud)" for cs ud
    by (simp add: remove_absent_drawn_def Let_def split: prod.split)
  moreover have "fst (paint_drawn c ud) = paint_card c (fst ud)" for c ud
    by (simp add: paint_drawn_def split: prod.split)
  ultimately show ?thesis
    by (simp add: refresh_drawn_def refresh_cards_def Let_def fold_fst add_drawn_fst case_prod_unfold)
qed

section \<open>Every card has been given its own clients\<close>

definition card_follows :: "drawn \<Rightarrow> (nat \<Rightarrow> client_info option) \<Rightarrow> string \<times> nat \<Rightarrow> bool" where
  "card_follows D p nk \<longleftrightarrow>
     (\<exists>cs. (\<forall>c \<in> set cs. ci_hostname c = fst nk) \<and> p (snd nk) = (if cs = [] then None else Some (last cs)) \<and>
        D (snd nk) = Some (fold client_card_update cs (client_card_create (fst nk))))"

definition drawn_inv :: "ui \<times> drawn \<Rightarrow> bool" where
  "drawn_inv ud \<longleftrightarrow>
     (case ud of (u, D) \<Rightarrow>
        cards_inv u \<and> dom D = snd ` set (ui_cards u) \<and> list_all (card_follows D (ui_painted u)) (ui_cards u) \<and>
        (\<forall>k \<ge> ui_next u. ui_painted u k = None))"

lemma card_follows_cong:
  "D k = D' k \<Longrightarrow> p k = p' k \<Longrightarrow> card_follows D p (n, k) = card_follows D' p' (n, k)"
  by (simp add: card_follows_def)

lemma follows_add:
  assumes "drawn_inv ud" "fits (ci_hostname c)"
  shows "drawn_inv (add_missing_drawn c ud)"
proof -
  obtain u D where ud: "ud = (u, D)" by (rule prod.exhaust)
  have inv: "cards_inv u" using assms(1) by (simp add: drawn_inv_def ud)
  show ?thesis
  proof (cases "find_card (ci_hostname c) (ui_cards u) \<noteq> None \<or> MAX_CLIENTS \<le> length (ui_cards u)")
    case True
    then have "add_missing_drawn c ud = ud" by (simp add: add_missing_drawn_def ud)
    then show ?thesis using assms(1) by simp
  next
    case False
    then have new: "ci_hostname c \<notin> fst ` set (ui_cards u)" "length (ui_cards u) < MAX_CLIENTS"
      using find_card_None [OF cards_invD(1) [OF inv] assms(2)] by simp_all
    note e = add_missing_new [OF inv assms(2) new]
    let ?D = "D(ui_next u \<mapsto> client_card_create (ci_hostname c))"
    have "add_missing_drawn c ud = (add_missing c u, ?D)"
      using False by (simp add: add_missing_drawn_def add_missing_def ud)
    moreover have "list_all (card_follows ?D (ui_painted u)) (ui_cards u)"
    proof (unfold list_all_iff, rule ballI)
      fix nk assume nk: "nk \<in> set (ui_cards u)"
      then have "snd nk < ui_next u" using inv by (auto simp: cards_inv_def)
      then have "card_follows ?D (ui_painted u) nk = card_follows D (ui_painted u) nk"
        by (cases nk) (simp add: card_follows_def)
      then show "card_follows ?D (ui_painted u) nk" using assms(1) nk by (simp add: drawn_inv_def ud list_all_iff)
    qed
    moreover have "card_follows ?D (ui_painted u) (ci_hostname c, ui_next u)"
      using assms(1) by (auto simp: card_follows_def drawn_inv_def ud intro!: exI [of _ "[]"])
    ultimately show ?thesis using assms(1) e(2) by (auto simp: drawn_inv_def ud e(1))
  qed
qed

lemma follows_remove:
  assumes "drawn_inv ud"
  shows "drawn_inv (remove_absent_drawn cs ud)"
proof -
  obtain u D where ud: "ud = (u, D)" by (rule prod.exhaust)
  have inv: "cards_inv u" using assms by (simp add: drawn_inv_def ud)
  note e = absent_cards_inv [OF inv, of cs]
  let ?u = "remove_absent_cards cs u"
  let ?D = "D |` (- set (filter (\<lambda>k. k \<notin> set (map snd (ui_cards ?u))) (map snd (ui_cards u))))"
  have r: "remove_absent_drawn cs ud = (?u, ?D)" by (simp add: remove_absent_drawn_def Let_def ud)
  have sub: "set (ui_cards ?u) \<subseteq> set (ui_cards u)" by (auto simp: e(1))
  have D: "?D k = D k" if "k \<in> snd ` set (ui_cards ?u)" for k using that by (simp add: restrict_map_def)
  have "list_all (card_follows ?D (ui_painted u)) (ui_cards ?u)"
  proof (unfold list_all_iff, rule ballI)
    fix nk assume nk: "nk \<in> set (ui_cards ?u)"
    then have "card_follows D (ui_painted u) nk" using assms sub by (auto simp: drawn_inv_def ud list_all_iff)
    moreover have "?D (snd nk) = D (snd nk)" using nk by (intro D) simp
    ultimately show "card_follows ?D (ui_painted u) nk" by (simp only: card_follows_def)
  qed
  moreover have "dom ?D = snd ` set (ui_cards ?u)"
  proof -
    have "dom D = snd ` set (ui_cards u)" using assms by (simp add: drawn_inv_def ud)
    moreover have "snd ` set (ui_cards ?u) \<subseteq> snd ` set (ui_cards u)" using sub by blast
    ultimately show ?thesis by auto
  qed
  moreover have "ui_next ?u = ui_next u" by (simp add: remove_absent_cards_def Let_def)
  moreover have "\<forall>k \<ge> ui_next u. ui_painted u k = None" using assms by (simp add: drawn_inv_def ud)
  ultimately show ?thesis using e(2) unfolding r drawn_inv_def prod.case e(3) by (intro conjI) simp_all
qed

lemma reorder_only_grid: "\<exists>g. reorder_cards L i cs u = u\<lparr>ui_grid := g\<rparr>"
proof (induction cs arbitrary: i u)
  case Nil
  show ?case by (intro exI [of _ "ui_grid u"]) simp
next
  case (Cons c cs)
  show ?case
  proof (cases "find_card (ci_hostname c) (ui_cards u)")
    case None
    then show ?thesis using Cons by simp
  next
    case (Some obj)
    then show ?thesis using Cons [of "Suc i" "u\<lparr>ui_grid := L obj i (ui_grid u)\<rparr>"] by auto
  qed
qed

lemma follows_reorder:
  assumes "lv_moves L" "drawn_inv (u, D)"
  shows "drawn_inv (reorder_cards L i cs u, D)"
proof -
  obtain g where g: "reorder_cards L i cs u = u\<lparr>ui_grid := g\<rparr>" using reorder_only_grid by blast
  have "cards_inv (reorder_cards L i cs u)" using reorder_keeps [OF assms(1)] assms(2) by (simp add: drawn_inv_def)
  then show ?thesis using assms(2) by (simp add: drawn_inv_def g)
qed

lemma follows_paint:
  assumes "drawn_inv ud"
  shows "drawn_inv (paint_drawn c ud)"
proof -
  obtain u D where ud: "ud = (u, D)" by (rule prod.exhaust)
  have inv: "cards_inv u" using assms by (simp add: drawn_inv_def ud)
  show ?thesis
  proof (cases "find_card (ci_hostname c) (ui_cards u)")
    case None
    then have "paint_drawn c ud = ud" by (simp add: paint_drawn_def paint_card_def ud)
    then show ?thesis using assms by simp
  next
    case (Some obj)
    let ?D = "D(obj := map_option (client_card_update c) (D obj))" and ?p = "(ui_painted u)(obj := Some c)"
    have own: "(ci_hostname c, obj) \<in> set (ui_cards u)" using Some find_card_Some [OF cards_invD [OF inv]] by blast
    have inj: "inj_on snd (set (ui_cards u))" using inv by (simp add: cards_inv_def distinct_map)
    have "list_all (card_follows ?D ?p) (ui_cards u)"
    proof (unfold list_all_iff, rule ballI)
      fix nk assume nk: "nk \<in> set (ui_cards u)"
      then have old: "card_follows D (ui_painted u) nk" using assms by (simp add: drawn_inv_def ud list_all_iff)
      show "card_follows ?D ?p nk"
      proof (cases "snd nk = obj")
        case False
        then show ?thesis using old by (simp add: card_follows_def)
      next
        case True
        then have host: "fst nk = ci_hostname c" using inj_onD [OF inj _ nk own] by auto
        obtain cs where "\<forall>d \<in> set cs. ci_hostname d = fst nk"
            "D obj = Some (fold client_card_update cs (client_card_create (fst nk)))"
          using old True by (auto simp: card_follows_def)
        then show ?thesis using True host unfolding card_follows_def by (intro exI [of _ "cs @ [c]"]) simp
      qed
    qed
    moreover have "obj < ui_next u" using own inv by (auto simp: cards_inv_def)
    moreover have "dom ?D = dom D" by auto
    moreover have "cards_inv (u\<lparr>ui_painted := ?p\<rparr>)" using inv by (simp add: cards_inv_def)
    moreover have "paint_drawn c ud = (u\<lparr>ui_painted := ?p\<rparr>, ?D)" by (simp add: paint_drawn_def paint_card_def Some ud)
    ultimately show ?thesis using assms by (simp add: drawn_inv_def ud)
  qed
qed

lemma fold_inv:
  assumes "\<And>c ud. c \<in> set cs \<Longrightarrow> I ud \<Longrightarrow> I (f c ud)" "I ud"
  shows "I (fold f cs ud)"
  using assms by (induction cs arbitrary: ud) simp_all

lemma refresh_follows:
  assumes "lv_moves L" "\<forall>c \<in> set (sorted_clients r). fits (ci_hostname c)" "drawn_inv ud"
  shows "drawn_inv (refresh_drawn L r ud)"
proof -
  let ?cs = "sorted_clients r"
  have "drawn_inv (fold add_missing_drawn ?cs ud)"
    using assms(2,3) by (intro fold_inv [of ?cs drawn_inv]) (auto intro: follows_add)
  then have "drawn_inv (remove_absent_drawn ?cs (fold add_missing_drawn ?cs ud))" by (rule follows_remove)
  then have "drawn_inv (reorder_cards L 0 ?cs u, D)" if "remove_absent_drawn ?cs (fold add_missing_drawn ?cs ud) = (u, D)" for u D
    using follows_reorder [OF assms(1)] that by simp
  then show ?thesis unfolding refresh_drawn_def Let_def
    by (auto split: prod.split intro!: fold_inv [of _ drawn_inv] follows_paint)
qed

section \<open>What a card shows\<close>

text \<open>The card is that of the client, as it would be on a new card, the name of the system apart when the
  client reports none.\<close>

definition depicts :: "client_card \<Rightarrow> client_info \<Rightarrow> bool" where
  "depicts h c \<longleftrightarrow> card_ok h \<and>
     visible h = (visible (client_card_update c (client_card_create (ci_hostname c))))\<lparr>cc_os_name := cc_os_name h\<rparr> \<and>
     (ci_os_name c \<noteq> [] \<longrightarrow> cc_os_name h = ci_os_name c)"

lemma depicts_name: "depicts h c \<Longrightarrow> cc_hostname h = ci_hostname c"
proof -
  have seen: "cc_hostname (visible h) = cc_hostname h" for h by (simp add: visible_def)
  have made: "cc_hostname (client_card_update c (client_card_create x)) = x" for x
    using card_fields(1) [OF create_ok] by (simp add: client_card_create_def)
  assume "depicts h c"
  then have "cc_hostname (visible h) = cc_hostname (visible (client_card_update c (client_card_create (ci_hostname c))))"
    by (simp add: depicts_def)
  then show ?thesis unfolding seen made .
qed

lemma drawn_names:
  assumes "list_all2 (\<lambda>k c. \<exists>h. D k = Some h \<and> depicts h c) ks cs"
  shows "{cc_hostname h |h k. k \<in> set ks \<and> D k = Some h} = set (map ci_hostname cs)"
  using assms
proof (induction ks cs rule: list_all2_induct)
  case (Cons k ks c cs)
  then obtain h where "D k = Some h" "cc_hostname h = ci_hostname c" using depicts_name by blast
  then have "{cc_hostname h |h k'. k' \<in> set (k # ks) \<and> D k' = Some h} =
      insert (ci_hostname c) {cc_hostname h |h k. k \<in> set ks \<and> D k = Some h}"
    by auto metis
  then show ?case using Cons.IH by simp
qed simp

lemma follows_depicts:
  assumes "card_follows D p (n, k)" "p k = Some c"
  shows "\<exists>h. D k = Some h \<and> depicts h c"
proof -
  obtain cs where cs: "\<forall>c \<in> set cs. ci_hostname c = n" "p k = (if cs = [] then None else Some (last cs))"
      "D k = Some (fold client_card_update cs (client_card_create n))"
    using assms(1) by (auto simp: card_follows_def)
  then have "cs \<noteq> []" "last cs = c" using assms(2) by (simp_all split: if_splits)
  then have c: "cs = butlast cs @ [c]" by (metis append_butlast_last_id)
  then have n: "ci_hostname c = n" using cs(1) by (metis in_set_conv_decomp)
  let ?b = "fold client_card_update (butlast cs) (client_card_create n)"
  let ?h = "client_card_update c ?b"
  have h: "fold client_card_update cs (client_card_create n) = ?h" by (subst c) simp
  have ok: "card_ok ?b" "cc_hostname ?b = n" using updates_ok [of "butlast cs" n] by simp_all
  have "cc_os_name ?h = (if ci_os_name c \<noteq> [] then ci_os_name c else cc_os_name ?b)" by (rule card_fields(2) [OF ok(1)])
  then have "depicts ?h c"
    using update_visible [OF ok(1), of c] update_ok [OF ok(1), of c] ok(2) by (simp add: depicts_def n)
  then show ?thesis using cs(3) h by (intro exI [of _ ?h]) simp
qed

lemma start_drawn: "drawn_inv (ui_start, Map.empty)"
  by (simp add: drawn_inv_def cards_inv_def ui_start_def)

text \<open>A registry as every run leaves it.\<close>

definition board_ok :: "registry \<Rightarrow> bool" where
  "board_ok r \<longleftrightarrow> distinct (card_hosts r) \<and> list_all fits (card_hosts r) \<and> length (reg_clients r) \<le> MAX_CLIENTS"

lemma board_clients:
  assumes "board_ok r" shows "\<forall>c \<in> set (sorted_clients r). fits (ci_hostname c)"
proof -
  have "set (sorted_clients r) = set (registry_snapshot MAX_CLIENTS r)"
    using sorted_clients_props(1) [of r] by (metis set_mset_mset)
  then show ?thesis using assms by (auto simp: board_ok_def list_all_iff registry_snapshot_def dest: in_set_takeD)
qed

text \<open>A grid that is painted from the registry shows it.\<close>

lemma board_drawn:
  assumes "drawn_inv (u, D)" "map (ui_painted u) (ui_grid u) = map Some cs"
  shows "list_all2 (\<lambda>k c. \<exists>h. D k = Some h \<and> depicts h c) (ui_grid u) cs" "dom D = set (ui_grid u)"
proof -
  have grid: "set (ui_grid u) = snd ` set (ui_cards u)" using assms(1) cards_inv_grid [of u] by (simp add: drawn_inv_def)
  have seen: "\<exists>h. D k = Some h \<and> depicts h c" if "k \<in> set (ui_grid u)" "ui_painted u k = Some c" for k c
  proof -
    have k: "k \<in> snd ` set (ui_cards u)" using that(1) grid by simp
    then obtain n where "(n, k) \<in> set (ui_cards u)" by auto
    then have "card_follows D (ui_painted u) (n, k)" using assms(1) by (simp add: drawn_inv_def list_all_iff)
    then show ?thesis using that(2) by (rule follows_depicts)
  qed
  have len: "length (ui_grid u) = length cs" using assms(2) by (metis length_map)
  have "ui_painted u (ui_grid u ! i) = Some (cs ! i)" if "i < length cs" for i
    using assms(2) that by (metis length_map nth_map)
  then show "list_all2 (\<lambda>k c. \<exists>h. D k = Some h \<and> depicts h c) (ui_grid u) cs"
    using seen len by (simp add: list_all2_conv_all_nth)
  show "dom D = set (ui_grid u)" using assms(1) grid by (simp add: drawn_inv_def)
qed

section \<open>Properties\<close>

text \<open>The panel has no memory: after any sequence of refreshes, each with a registry of its own, the
  cards that stand on the grid are those of the last registry, one per client, in the sorted order, and
  each shows what its client alone says, the name of the system apart when the client reports none; no
  other card is left in memory.  As in the code, the cards on screen and the new ones together must be at
  most sixteen.\<close>

theorem panel_shows_registry:
  fixes rs :: "registry list"
  assumes "lv_moves L" "list_all board_ok (rs @ [r])"
  defines "before \<equiv> fst (fold (refresh_drawn L) rs (ui_start, Map.empty))"
    and "after \<equiv> fold (refresh_drawn L) (rs @ [r]) (ui_start, Map.empty)"
  assumes "length (ui_cards before) + length (filter (\<lambda>h. h \<notin> fst ` set (ui_cards before)) (card_hosts r)) \<le> MAX_CLIENTS"
  shows "list_all2 (\<lambda>k c. \<exists>h. snd after k = Some h \<and> depicts h c) (ui_grid (fst after)) (sorted_clients r) \<and>
    dom (snd after) = set (ui_grid (fst after))"
proof -
  let ?b = "fold (refresh_drawn L) rs (ui_start, Map.empty)"
  have b: "drawn_inv ?b"
    using assms(2) by (intro fold_inv [of rs drawn_inv] start_drawn refresh_follows [OF assms(1)] board_clients)
      (simp add: list_all_iff)
  have r: "board_ok r" using assms(2) by simp
  have a: "after = refresh_drawn L r ?b" by (simp add: after_def)
  have inv: "drawn_inv after" unfolding a by (rule refresh_follows [OF assms(1) board_clients [OF r] b])
  obtain u D where ud: "after = (u, D)" by (rule prod.exhaust)
  have u: "u = refresh_cards L r before"
    using refresh_drawn_fst [of L r ?b] ud by (simp add: a before_def)
  have "cards_inv before" using b by (simp add: before_def drawn_inv_def case_prod_unfold)
  then have g: "map (ui_painted u) (ui_grid u) = map Some (sorted_clients r)"
    unfolding u using r assms(5) by (intro settled_cards [THEN conjunct2, THEN conjunct2] assms(1))
      (simp_all add: board_ok_def list_all_iff)
  show ?thesis using board_drawn [OF inv [unfolded ud] g] by (simp add: ud)
qed

text \<open>A host that sleeps, then another registry in which it is gone and a new one is there.\<close>

definition one_host :: registry where
  "one_host = two_hosts\<lparr>reg_clients := [(new_client ''fred'')\<lparr>ci_online := True, ci_os_name := ''Debian''\<rparr>]\<rparr>"

theorem panel_shows_registry_witness:
  "let (u, D) = fold (refresh_drawn plain_move) [two_hosts, one_host] (ui_start, Map.empty)
   in length (ui_grid u) = 1 \<and> dom D = set (ui_grid u) \<and>
      list_all (\<lambda>k. \<exists>h. D k = Some h \<and> cc_hostname h = ''fred'' \<and> cc_os_name h = ''Debian'') (ui_grid u)"
proof -
  let ?a = "fold (refresh_drawn plain_move) ([two_hosts] @ [one_host]) (ui_start, Map.empty)"
  have ok: "list_all board_ok ([two_hosts] @ [one_host])"
    by (simp add: board_ok_def two_hosts_def one_host_def new_client_def fits_def)
  have "length (ui_cards (fst (fold (refresh_drawn plain_move) [two_hosts] (ui_start, Map.empty)))) +
      length (filter (\<lambda>h. h \<notin> fst ` set (ui_cards (fst (fold (refresh_drawn plain_move) [two_hosts] (ui_start, Map.empty)))))
        (card_hosts one_host)) \<le> MAX_CLIENTS"
    by code_simp
  note last_board = panel_shows_registry [OF plain_moves ok this]
  have s: "sorted_clients one_host = [(new_client ''fred'')\<lparr>ci_online := True, ci_os_name := ''Debian''\<rparr>]"
    by (simp add: sorted_clients_def one_host_def registry_snapshot_def)
  have "cc_hostname h = ''fred'' \<and> cc_os_name h = ''Debian''" if "depicts h (hd (sorted_clients one_host))" for h
    using that depicts_name [OF that] by (simp add: s depicts_def new_client_def)
  then show ?thesis using last_board unfolding s
    by (auto simp: Let_def case_prod_unfold list_all2_Cons2 dest!: spec)
qed

end
