(* ===== verification/Dev_Graph.thy ===== *)
theory Dev_Graph
  imports Palette Ui_Pool
begin

text \<open>
  A graph of rows 2-3 (\<open>src/src/widgets/dev_graph.c\<close>): the nine series of the chart, two of which are
  drawn three times to look thicker, the labels and the mark of a stale host.  A series is the list of the
  points it was given, latest first, after the \<open>POINT_COUNT\<close> zeros of its creation; the chart of LVGL
  draws the last \<open>POINT_COUNT\<close> of them.  A conversion of a \<open>float\<close> to \<open>int32_t\<close> that is out of range is
  taken to saturate, as on the target.
\<close>

section \<open>State\<close>

abbreviation "POINT_COUNT \<equiv> 300 :: nat"
abbreviation "GPU_PCT_OFFSET \<equiv> 1 :: int"
abbreviation "GPU_VRAM_PCT_OFFSET \<equiv> 1 :: int"

record dev_graph =
  dg_gpu :: "int list"
  dg_gpu_hi :: "int list"
  dg_gpu_lo :: "int list"
  dg_cpu_avg :: "int list"
  dg_cpu_top :: "int list"
  dg_vram :: "int list"
  dg_vram_hi :: "int list"
  dg_vram_lo :: "int list"
  dg_ram :: "int list"
  dg_gpu_lbl :: string
  dg_vram_lbl :: string
  dg_host :: string
  dg_cpu_lbl :: string
  dg_ram_lbl :: string
  dg_stale :: bool

section \<open>Operations\<close>

definition dev_graph_create :: "string option \<Rightarrow> dev_graph" where
  "dev_graph_create hostname =
     (let zeros = replicate POINT_COUNT 0
      in \<lparr>dg_gpu = zeros, dg_gpu_hi = zeros, dg_gpu_lo = zeros, dg_cpu_avg = zeros, dg_cpu_top = zeros,
          dg_vram = zeros, dg_vram_hi = zeros, dg_vram_lo = zeros, dg_ram = zeros,
          dg_gpu_lbl = ''Compute: ---%'', dg_vram_lbl = ''VRAM: ---- / ---- MB'',
          dg_host = (case hostname of Some h \<Rightarrow> h | None \<Rightarrow> ''---''),
          dg_cpu_lbl = ''CPU: ---% / ---%'', dg_ram_lbl = ''RAM: ---- / ---- GB'', dg_stale = False\<rparr>)"

definition graph_clamp_pct :: "double \<Rightarrow> int" where
  "graph_clamp_pct v = (let r = cast_int (v + 1 / 2); r' = (if r < 0 then 0 else r) in if 100 < r' then 100 else r')"

definition used_pct :: "32 word \<Rightarrow> 32 word \<Rightarrow> int" where
  "used_pct used total_mb =
     (if total_mb = 0 then 0 else graph_clamp_pct (of_word used * 100 / of_word total_mb))"

definition flank_hi :: "int \<Rightarrow> int \<Rightarrow> int" where
  "flank_hi off v = (if 100 < v + off then 100 else v + off)"

definition flank_lo :: "int \<Rightarrow> int \<Rightarrow> int" where
  "flank_lo off v = (if v - off < 0 then 0 else v - off)"

definition dev_graph_update :: "dev_telemetry \<Rightarrow> dev_graph \<Rightarrow> dev_graph" where
  "dev_graph_update t g =
     (let gpu = graph_clamp_pct (dt_gpu_compute_pct t);
          vram = used_pct (dt_gpu_vram_used_mb t) (dt_gpu_vram_total_mb t)
      in g\<lparr>dg_gpu := gpu # dg_gpu g,
           dg_gpu_hi := flank_hi GPU_PCT_OFFSET gpu # dg_gpu_hi g,
           dg_gpu_lo := flank_lo GPU_PCT_OFFSET gpu # dg_gpu_lo g,
           dg_cpu_avg := graph_clamp_pct (dt_cpu_pct t) # dg_cpu_avg g,
           dg_cpu_top := graph_clamp_pct (dt_top_core_pct t) # dg_cpu_top g,
           dg_vram := vram # dg_vram g,
           dg_vram_hi := flank_hi GPU_VRAM_PCT_OFFSET vram # dg_vram_hi g,
           dg_vram_lo := flank_lo GPU_VRAM_PCT_OFFSET vram # dg_vram_lo g,
           dg_ram := used_pct (dt_ram_used_mb t) (dt_ram_total_mb t) # dg_ram g,
           dg_gpu_lbl := buf_copy 64 (''Compute: '' @ dec_int gpu @ ''%''),
           dg_vram_lbl := buf_copy 64 (''VRAM: '' @ dec_word (dt_gpu_vram_used_mb t) @ '' / '' @
                            dec_word (dt_gpu_vram_total_mb t) @ '' MB''),
           dg_cpu_lbl := buf_copy 64 (''CPU: '' @ no_decimal (dt_cpu_pct t) @ ''% / '' @
                            no_decimal (dt_top_core_pct t) @ ''%''),
           dg_ram_lbl := buf_copy 64 (''RAM: '' @ one_decimal (of_word (dt_ram_used_mb t) / 1024) @ '' / '' @
                            one_decimal (of_word (dt_ram_total_mb t) / 1024) @ '' GB'')\<rparr>)"

definition dev_graph_set_host :: "string \<Rightarrow> dev_graph \<Rightarrow> dev_graph" where
  "dev_graph_set_host host g = (if strcmp (dg_host g) host = 0 then g else g\<lparr>dg_host := host\<rparr>)"

definition dev_graph_set_stale :: "bool \<Rightarrow> dev_graph \<Rightarrow> dev_graph" where
  "dev_graph_set_stale stale g = g\<lparr>dg_stale := stale\<rparr>"

text \<open>What a refresh does to the graph of a host: a sample is fed whenever the series has one.\<close>

definition feed_graph :: "double \<Rightarrow> graph_host_series \<Rightarrow> dev_graph \<Rightarrow> dev_graph" where
  "feed_graph now s g =
     dev_graph_set_stale (graph_host_is_stale s now)
       (if dt_valid (gh_telemetry s) then dev_graph_set_host (gh_host s) (dev_graph_update (gh_telemetry s) g) else g)"

section \<open>The band\<close>

definition pct_list :: "int list \<Rightarrow> bool" where
  "pct_list xs \<longleftrightarrow> list_all (\<lambda>v. v \<in> {0..100}) xs"

text \<open>The flanks follow their series within one point, on the scale.\<close>

definition band :: "int list \<Rightarrow> int list \<Rightarrow> int list \<Rightarrow> bool" where
  "band lo mid hi \<longleftrightarrow> list_all2 (\<lambda>l m. l \<le> m \<and> m \<le> l + 1) lo mid \<and> list_all2 (\<lambda>m h. m \<le> h \<and> h \<le> m + 1) mid hi"

definition graph_ok :: "dev_graph \<Rightarrow> bool" where
  "graph_ok g \<longleftrightarrow> list_all pct_list [dg_gpu g, dg_gpu_hi g, dg_gpu_lo g, dg_cpu_avg g, dg_cpu_top g, dg_vram g,
       dg_vram_hi g, dg_vram_lo g, dg_ram g] \<and>
     band (dg_gpu_lo g) (dg_gpu g) (dg_gpu_hi g) \<and> band (dg_vram_lo g) (dg_vram g) (dg_vram_hi g)"

lemma graph_clamp_range: "graph_clamp_pct v \<in> {0..100}"
  by (simp add: graph_clamp_pct_def Let_def)

lemma used_pct_range: "used_pct u m \<in> {0..100}"
  using graph_clamp_range by (simp add: used_pct_def)

lemma flank_range:
  assumes "v \<in> {0..100}"
  shows "flank_hi 1 v \<in> {0..100}" "flank_lo 1 v \<in> {0..100}" "v \<le> flank_hi 1 v" "flank_hi 1 v \<le> v + 1"
    "flank_lo 1 v \<le> v" "v \<le> flank_lo 1 v + 1"
  using assms by (auto simp: flank_hi_def flank_lo_def)

text \<open>Rounding does not go down where the value goes up.\<close>

lemma graph_clamp_mono: "v \<le> w \<Longrightarrow> graph_clamp_pct v \<le> graph_clamp_pct w"
  using cast_int_mono [of "v + 1 / 2" "w + 1 / 2"] by (auto simp: graph_clamp_pct_def Let_def)

lemma update_graph_ok: "graph_ok g \<Longrightarrow> graph_ok (dev_graph_update t g)"
proof -
  assume ok: "graph_ok g"
  have p: "pct_list (x # xs) \<longleftrightarrow> x \<in> {0..100} \<and> pct_list xs" for x xs by (simp add: pct_list_def)
  have b: "band (l # ls) (m # ms) (h # hs) \<longleftrightarrow> l \<le> m \<and> m \<le> l + 1 \<and> m \<le> h \<and> h \<le> m + 1 \<and> band ls ms hs" for l m h ls ms hs
    by (auto simp: band_def)
  note r = graph_clamp_range [of "dt_gpu_compute_pct t"] used_pct_range [of "dt_gpu_vram_used_mb t" "dt_gpu_vram_total_mb t"]
  show ?thesis
    using ok unfolding graph_ok_def dev_graph_update_def Let_def
    by (simp del: atLeastAtMost_iff add: p b graph_clamp_range used_pct_range flank_range [OF r(1)] flank_range [OF r(2)])
qed

lemma create_graph_ok: "graph_ok (dev_graph_create h)"
proof -
  have "list_all2 (\<lambda>l m. l \<le> m \<and> m \<le> l + 1) (replicate n (0 :: int)) (replicate n 0)" for n
    by (simp add: list_all2_conv_all_nth)
  moreover have "pct_list (replicate n 0)" for n by (simp add: pct_list_def list_all_iff)
  ultimately show ?thesis by (simp add: graph_ok_def dev_graph_create_def band_def Let_def)
qed

lemma strcmp_zero: "strcmp a b = 0 \<longleftrightarrow> a = b"
  by (simp add: strcmp_def cstr_simps)

text \<open>The points of the three series of one kind, over the samples that were fed.\<close>

lemma fed_series:
  defines "after \<equiv> \<lambda>ts host. fold (\<lambda>(now, s). feed_graph now s) ts (dev_graph_create (Some host))"
  defines "fed \<equiv> \<lambda>ts. rev (map gh_telemetry (filter (\<lambda>s. dt_valid (gh_telemetry s)) (map snd ts)))"
  shows "\<forall>(now, s) \<in> set ts. gh_host s = host \<Longrightarrow> graph_ok (after ts host) \<and> dg_host (after ts host) = host \<and>
    dg_gpu (after ts host) = map (\<lambda>t. graph_clamp_pct (dt_gpu_compute_pct t)) (fed ts) @ replicate POINT_COUNT 0 \<and>
    dg_cpu_avg (after ts host) = map (\<lambda>t. graph_clamp_pct (dt_cpu_pct t)) (fed ts) @ replicate POINT_COUNT 0 \<and>
    dg_cpu_top (after ts host) = map (\<lambda>t. graph_clamp_pct (dt_top_core_pct t)) (fed ts) @ replicate POINT_COUNT 0 \<and>
    dg_vram (after ts host) = map (\<lambda>t. used_pct (dt_gpu_vram_used_mb t) (dt_gpu_vram_total_mb t)) (fed ts) @ replicate POINT_COUNT 0 \<and>
    dg_ram (after ts host) = map (\<lambda>t. used_pct (dt_ram_used_mb t) (dt_ram_total_mb t)) (fed ts) @ replicate POINT_COUNT 0"
proof (induction ts rule: rev_induct)
  case Nil
  show ?case by (simp add: after_def fed_def create_graph_ok) (simp add: dev_graph_create_def Let_def)
next
  case (snoc x ts)
  obtain now s where x: "x = (now, s)" by (rule prod.exhaust)
  have a: "after (ts @ [x]) host = feed_graph now s (after ts host)" by (simp add: after_def x)
  have h: "gh_host s = host" "\<forall>(now, s) \<in> set ts. gh_host s = host" using snoc.prems by (auto simp: x)
  note IH = snoc.IH [OF h(2)]
  have host: "dev_graph_set_host host g = g" if "dg_host g = host" for g using that by (simp add: dev_graph_set_host_def)
  have keep: "graph_ok (dev_graph_set_stale b g) = graph_ok g" for b g by (simp add: graph_ok_def dev_graph_set_stale_def)
  show ?case
  proof (cases "dt_valid (gh_telemetry s)")
    case True
    have "dg_host (dev_graph_update (gh_telemetry s) (after ts host)) = host"
      using IH by (simp add: dev_graph_update_def Let_def)
    then have e: "after (ts @ [x]) host =
        dev_graph_set_stale (graph_host_is_stale s now) (dev_graph_update (gh_telemetry s) (after ts host))"
      unfolding a feed_graph_def using True h(1) host by simp
    have f: "fed (ts @ [x]) = gh_telemetry s # fed ts" using True by (simp add: fed_def x)
    have "graph_ok (dev_graph_update (gh_telemetry s) (after ts host))" using IH update_graph_ok by blast
    moreover have "dg_host (dev_graph_set_stale b (dev_graph_update (gh_telemetry s) (after ts host))) = host" for b
      using IH by (simp add: dev_graph_set_stale_def dev_graph_update_def Let_def)
    ultimately show ?thesis using IH unfolding e f keep
      by (simp only: simp_thms) (simp add: dev_graph_set_stale_def dev_graph_update_def Let_def)
  next
    case False
    then have "after (ts @ [x]) host = dev_graph_set_stale (graph_host_is_stale s now) (after ts host)" "fed (ts @ [x]) = fed ts"
      unfolding a by (simp_all add: feed_graph_def fed_def x)
    then show ?thesis using IH keep by (simp add: dev_graph_set_stale_def)
  qed
qed

section \<open>Properties\<close>


definition one_series :: "string \<Rightarrow> dev_telemetry \<Rightarrow> double \<Rightarrow> graph_host_series" where
  "one_series h t ts = (new_graph_host h)\<lparr>gh_telemetry := t, gh_last_sample_ts := ts\<rparr>"


text \<open>A stale host's graph keeps scrolling: nothing clears the sample of a series, so every refresh feeds the
  last one again, under the mark that says that there is no new data.\<close>

theorem stale_graph_scrolls:
  assumes "dt_valid (gh_telemetry s)" "graph_host_is_stale s now" "dg_host g = gh_host s"
  shows "dg_cpu_avg (feed_graph now s g) = graph_clamp_pct (dt_cpu_pct (gh_telemetry s)) # dg_cpu_avg g"
    "dg_stale (feed_graph now s g)"
  using assms by (simp_all add: feed_graph_def dev_graph_set_stale_def dev_graph_set_host_def dev_graph_update_def Let_def)

end
