(* ===== verification/Dev_Grid.thy ===== *)
theory Dev_Grid
  imports Ui_Pool Palette
begin

text \<open>
  The grid overlay of the development command (\<open>src/src/widgets/dev_grid.c\<close>): the places of its lines, on a
  display of \<open>scr_w\<close> by \<open>scr_h\<close> pixels.
\<close>

section \<open>Operations\<close>

abbreviation "ROWS \<equiv> 3 :: nat"

datatype grid_line = VLine int | HLine int

text \<open>The two loops.  A step that is not positive would never end the loop: the code makes sure of it.\<close>

function pixel_steps :: "int \<Rightarrow> int \<Rightarrow> int \<Rightarrow> int list" where
  "pixel_steps step bound x = (if x < bound \<and> 0 < step then x # pixel_steps step bound (x + step) else [])"
  by pat_completeness auto
termination by (relation "measure (\<lambda>(step, bound, x). nat (bound - x))") auto

function unit_steps :: "double \<Rightarrow> double \<Rightarrow> double \<Rightarrow> int list" where
  "unit_steps step bound f =
     (if f < bound \<and> 0 < step then trunc_int (f + 1 / 2) # unit_steps step bound (f + step) else [])"
  by pat_completeness auto
termination
proof (relation "measure (\<lambda>(step, bound, f). nat \<lceil>(bound - f) / step\<rceil>)")
  fix step bound f :: double assume a: "f < bound \<and> 0 < step"
  then have "(bound - (f + step)) / step = (bound - f) / step - 1" by (simp add: field_simps)
  moreover have "0 < \<lceil>(bound - f) / step\<rceil>" using a by simp
  ultimately show "((step, bound, f + step), step, bound, f) \<in> measure (\<lambda>(step, bound, f). nat \<lceil>(bound - f) / step\<rceil>)"
    by simp
qed simp

declare pixel_steps.simps [simp del] unit_steps.simps [simp del]

definition dev_grid_create :: "int \<Rightarrow> int \<Rightarrow> int \<Rightarrow> bool \<Rightarrow> double \<Rightarrow> grid_line list" where
  "dev_grid_create scr_w scr_h grid_size unit_mode unit_size =
     (if unit_mode
      then let us = (if unit_size < 1 / 10 then 1 / 2 else unit_size);
               step_w = us * of_int UNIT_W; step_h = us * of_int UNIT_H
        in map VLine (unit_steps step_w (of_int (PAD_LEFT + int COLS * UNIT_W) - 1 / 2) (of_int PAD_LEFT + step_w)) @
           map HLine (unit_steps step_h (of_int (PAD_TOP + int ROWS * UNIT_H) - 1 / 2) (of_int PAD_TOP + step_h))
      else let gs = (if grid_size \<le> 0 then 50 else grid_size)
        in map VLine (pixel_steps gs scr_w gs) @ map HLine (pixel_steps gs scr_h gs))"

section \<open>The lines\<close>

lemma pixel_steps_set:
  "0 < step \<Longrightarrow> set (pixel_steps step bound x) = {y. y < bound \<and> (\<exists>k. y = x + int k * step)}"
proof (induction step bound x rule: pixel_steps.induct)
  case (1 step bound x)
  show ?case
  proof (cases "x < bound")
    case True
    have k: "(\<exists>k. y = x + int k * step) \<longleftrightarrow> y = x \<or> (\<exists>k. y = x + step + int k * step)" for y
    proof
      assume "\<exists>k. y = x + int k * step"
      then obtain k where "y = x + int k * step" by blast
      then show "y = x \<or> (\<exists>k. y = x + step + int k * step)" by (cases k) (auto simp: algebra_simps)
    next
      assume "y = x \<or> (\<exists>k. y = x + step + int k * step)"
      then show "\<exists>k. y = x + int k * step"
        by (auto simp: algebra_simps intro: exI [of _ 0] exI [of _ "Suc k" for k])
    qed
    show ?thesis using 1 True by (subst pixel_steps.simps) (auto simp: k)
  next
    case False
    have "\<not> x + int k * step < bound" for k
    proof -
      have "0 \<le> int k * step" using 1(2) by simp
      then show ?thesis using False by linarith
    qed
    then show ?thesis using False by (subst pixel_steps.simps) auto
  qed
qed

lemma unit_steps_set:
  "0 < step \<Longrightarrow> set (unit_steps step bound f) =
     {trunc_int (f + of_nat k * step + 1 / 2) | k. f + of_nat k * step < bound}"
proof (induction step bound f rule: unit_steps.induct)
  case (1 step bound f)
  let ?S = "\<lambda>f. {trunc_int (f + of_nat k * step + 1 / 2) | k. f + of_nat k * step < bound}"
  show ?case
  proof (cases "f < bound")
    case True
    have "?S f = insert (trunc_int (f + 1 / 2)) (?S (f + step))" (is "?A = ?B")
    proof
      show "?A \<subseteq> ?B"
      proof
        fix y assume "y \<in> ?A"
        then obtain k where k: "y = trunc_int (f + of_nat k * step + 1 / 2)" "f + of_nat k * step < bound" by blast
        show "y \<in> ?B"
        proof (cases k)
          case (Suc j)
          then have e: "f + of_nat k * step = f + step + of_nat j * step" by (simp add: algebra_simps)
          have "y = trunc_int (f + step + of_nat j * step + 1 / 2)" "f + step + of_nat j * step < bound"
            using k unfolding e by simp_all
          then show ?thesis by blast
        qed (use k in simp)
      qed
      have "trunc_int (f + 1 / 2) \<in> ?A" using True by (intro CollectI exI [of _ 0]) simp
      moreover have "y \<in> ?A" if "y \<in> ?S (f + step)" for y
      proof -
        obtain j where "y = trunc_int (f + step + of_nat j * step + 1 / 2)" "f + step + of_nat j * step < bound"
          using \<open>y \<in> ?S (f + step)\<close> by blast
        moreover have "f + step + of_nat j * step = f + of_nat (Suc j) * step" by (simp add: algebra_simps)
        ultimately show ?thesis by (intro CollectI exI [of _ "Suc j"]) simp
      qed
      ultimately show "?B \<subseteq> ?A" by blast
    qed
    then show ?thesis using 1 True by (subst unit_steps.simps) simp
  next
    case False
    have "\<not> f + of_nat k * step < bound" for k
    proof -
      have "0 \<le> of_nat k * step" using 1(2) by simp
      then show ?thesis using False by linarith
    qed
    then show ?thesis using False by (subst unit_steps.simps) simp
  qed
qed

section \<open>Properties\<close>

text \<open>Two lists of steps without repetition.\<close>

lemma pixel_steps_multiples:
  assumes "0 < step" shows "set (pixel_steps step bound step) = {y. 0 < y \<and> y < bound \<and> step dvd y}"
proof -
  have "(\<exists>k. y = step + int k * step) \<longleftrightarrow> 0 < y \<and> step dvd y" for y
  proof
    assume "\<exists>k. y = step + int k * step"
    then obtain k where "y = step + int k * step" by blast
    then have "y = step * (int k + 1)" by (simp add: algebra_simps)
    then show "0 < y \<and> step dvd y" using assms by (simp add: zero_less_mult_iff)
  next
    assume "0 < y \<and> step dvd y"
    then obtain c where c: "y = step * c" "0 < c" using assms by (auto simp: zero_less_mult_iff elim!: dvdE)
    then show "\<exists>k. y = step + int k * step"
      by (intro exI [of _ "nat (c - 1)"]) (simp add: algebra_simps)
  qed
  then show ?thesis using pixel_steps_set [OF assms] by auto
qed

text \<open>The pixel grid has a line at every multiple of its size inside the screen, 50 when no size is given;
  the unit grid at every multiple of its size inside the columns and rows, half a unit when the size is too
  small; a unit grid of size one lies on the boundaries of the cells of the layout.\<close>

theorem grid_lines_exact:
  fixes n :: int
  defines "g \<equiv> if n \<le> 0 then 50 else n"
  shows "set (dev_grid_create w h n False us) =
      VLine ` {x. 0 < x \<and> x < w \<and> g dvd x} \<union> HLine ` {y. 0 < y \<and> y < h \<and> g dvd y} \<and>
    dev_grid_create w h n True 1 = map (VLine \<circ> COL_X) [1..<COLS] @ map (HLine \<circ> ROW_Y) [1..<ROWS]"
proof -
  have "0 < g" by (simp add: g_def)
  then have "set (dev_grid_create w h n False us) =
      VLine ` {x. 0 < x \<and> x < w \<and> g dvd x} \<union> HLine ` {y. 0 < y \<and> y < h \<and> g dvd y}"
    by (simp add: dev_grid_create_def g_def Let_def pixel_steps_multiples)
  moreover have "dev_grid_create w h n True 1 = map (VLine \<circ> COL_X) [1..<COLS] @ map (HLine \<circ> ROW_Y) [1..<ROWS]"
    by (simp add: dev_grid_create_def unit_steps.simps trunc_int_def COL_X_def ROW_Y_def upt_rec floor_eq_iff)
  ultimately show ?thesis by blast
qed

section \<open>The sample of the text sizes\<close>

definition kFonts :: "(font \<times> string) list" where
  "kFonts = [(montserrat 14, ''14px''), (montserrat 16, ''16px''), (montserrat 20, ''20px''), (montserrat 24, ''24px''),
     (montserrat 28, ''28px'')]"

text \<open>The labels of the overlay (\<open>src/src/widgets/dev_textsize.c\<close>), each in its own size.\<close>

definition dev_textsize_create :: "(string \<times> font) list" where
  "dev_textsize_create = map (\<lambda>(f, label). (buf_copy 64 (label @ ''  The quick brown fox''), f)) kFonts"

theorem textsize_labels:
  "list_all2 (\<lambda>(tx, f) n. f = montserrat n \<and> tx = dec n @ ''px  The quick brown fox'') dev_textsize_create [14, 16, 20, 24, 28]"
  by (simp add: dev_textsize_create_def kFonts_def buf_copy_def) code_simp

end
