(* ===== verification/Screen_Layout.thy ===== *)
theory Screen_Layout
  imports Ui_Pool Dev_Grid
begin

text \<open>
  The empty screen that \<open>ui_init\<close> builds (\<open>src/src/ui.c\<close>, \<open>src/src/layout.h\<close>): its parts with their areas,
  in the order of creation, and what fits into them.  The rows and wraps of the children are LVGL's:
  a parameter with the law of its flex layout.
\<close>

section \<open>The parts\<close>

text \<open>Left, top, width and height.\<close>

type_synonym area = "int \<times> int \<times> int \<times> int"

datatype screen_part = Card_Grid | Pool_Net_Card | Service_Strip | Status_Bar | Redis_Error

text \<open>Every part with its area and whether it starts hidden; a later one is drawn over an earlier one.\<close>

definition ui_init :: "(screen_part \<times> area \<times> bool) list" where
  "ui_init =
     [(Card_Grid, (COL_X 0, ROW_Y 0, int COLS * UNIT_W, UNIT_H), False),
      (Pool_Net_Card, (0, 0, 2 * UNIT_W, UNIT_H), True),
      (Service_Strip, (PAD_LEFT, PAD_TOP + int ROWS * UNIT_H, SCR_W - 2 * PAD_LEFT, FOOTER_H), False),
      (Status_Bar, (PAD_LEFT, SCR_H - 40, int COLS * UNIT_W, 40), True),
      (Redis_Error, (0, 0, SCR_W, SCR_H), True)]"

text \<open>The sizes of the children of the grid and of the strip: a client card fills a cell, a card of the
  strip is 220 by 240 with 8 between two.\<close>

definition client_card_size :: "int \<times> int" where
  "client_card_size = (UNIT_W, UNIT_H)"

definition strip_card_size :: "int \<times> int" where
  "strip_card_size = (220, 240)"

definition strip_gap :: int where
  "strip_gap = 8"

section \<open>Areas\<close>

definition area_of :: "screen_part \<Rightarrow> area" where
  "area_of part = (case map_of ui_init part of Some (a, hidden) \<Rightarrow> a | None \<Rightarrow> (0, 0, 0, 0))"

definition fits_in :: "area \<Rightarrow> area \<Rightarrow> bool" where
  "fits_in a b \<longleftrightarrow> (case (a, b) of ((x, y, w, h), (x', y', w', h')) \<Rightarrow>
     x' \<le> x \<and> y' \<le> y \<and> x + w \<le> x' + w' \<and> y + h \<le> y' + h')"

definition meets :: "area \<Rightarrow> area \<Rightarrow> bool" where
  "meets a b \<longleftrightarrow> (case (a, b) of ((x, y, w, h), (x', y', w', h')) \<Rightarrow>
     x < x' + w' \<and> x' < x + w \<and> y < y' + h' \<and> y' < y + h)"

definition screen :: area where
  "screen = (0, 0, SCR_W, SCR_H)"

definition pool_area :: "int \<times> int \<Rightarrow> area" where
  "pool_area p = (fst p, snd p, 2 * UNIT_W, UNIT_H)"

lemmas layout_defs = area_of_def ui_init_def fits_in_def meets_def screen_def pool_area_def COL_X_def ROW_Y_def

text \<open>The law of the layout: children of one size, in rows that wrap (the grid) or in one row whose
  children stand in the middle of its height (the strip); places are those on the screen.\<close>

definition flex_wraps :: "area \<Rightarrow> int \<times> int \<Rightarrow> (nat \<Rightarrow> area) \<Rightarrow> bool" where
  "flex_wraps parent item F \<longleftrightarrow>
     (case (parent, item) of ((x, y, w, h), (iw, ih)) \<Rightarrow>
        \<forall>k. F k = (x + int k mod (w div iw) * iw, y + int k div (w div iw) * ih, iw, ih))"

definition flex_row :: "area \<Rightarrow> int \<times> int \<Rightarrow> int \<Rightarrow> (nat \<Rightarrow> area) \<Rightarrow> bool" where
  "flex_row parent item gap F \<longleftrightarrow>
     (case (parent, item) of ((x, y, w, h), (iw, ih)) \<Rightarrow>
        \<forall>k. F k = (x + int k * (iw + gap), y + (h - ih) div 2, iw, ih))"

section \<open>Properties\<close>

text \<open>Every part is on the screen; the grid of the clients, the rows of the pool and the strip do not meet,
  wherever in the pool a widget is placed, so only the overlay of the Redis error and the status bar cover
  other parts.\<close>

theorem screen_parts_apart:
  "list_all (\<lambda>(part, a, hidden). fits_in a screen) ui_init \<and> \<not> meets (area_of Card_Grid) (area_of Service_Strip) \<and>
   (\<forall>p. in_pool_rows p \<longrightarrow> fits_in (pool_area p) screen \<and> \<not> meets (pool_area p) (area_of Card_Grid) \<and>
     \<not> meets (pool_area p) (area_of Service_Strip) \<and> (\<forall>q. apart p q \<longrightarrow> \<not> meets (pool_area p) (pool_area q)))"
  by (auto simp: layout_defs in_pool_rows_def apart_def)

text \<open>The grid has room for six cards, one row: the seventh of the sixteen clients that the registry holds
  is laid out below the row and cut off, while the sort puts the priority clients in front.\<close>

theorem grid_shows_six:
  assumes "flex_wraps (area_of Card_Grid) client_card_size F"
  shows "(fits_in (F k) (area_of Card_Grid) \<longleftrightarrow> k < 6) \<and> (meets (F k) (area_of Card_Grid) \<longleftrightarrow> k < 6)"
proof -
  have F: "F k = (24 + int k mod 6 * 632, int k div 6 * 628, 632, 628)"
    using assms by (simp add: flex_wraps_def client_card_size_def layout_defs)
  have m: "0 \<le> int k mod 6" "int k mod 6 \<le> 5" by simp_all
  have "int k div 6 \<le> 0 \<longleftrightarrow> k < 6" by linarith
  moreover have "0 \<le> int k div 6" by simp
  ultimately show ?thesis using m by (auto simp: F layout_defs)
qed

text \<open>The strip shows sixteen cards whole, although the tables hold up to 32 services, 8 stale hosts and 16
  apartment cards, and the status bar, when it is up, covers the foot of every one of them.\<close>

theorem strip_shows_sixteen:
  assumes "flex_row (area_of Service_Strip) strip_card_size strip_gap F"
  shows "(fits_in (F k) (area_of Service_Strip) \<longleftrightarrow> k < 16) \<and> (meets (F k) screen \<longleftrightarrow> k < 17) \<and>
    (k < 17 \<longrightarrow> meets (F k) (area_of Status_Bar))"
proof -
  have "F k = (24 + int k * 228, 1902, 220, 240)"
    using assms by (simp add: flex_row_def strip_card_size_def strip_gap_def layout_defs)
  then show ?thesis by (auto simp: layout_defs)
qed

end
