(* ===== verification/Rich_Text.thy ===== *)
theory Rich_Text
  imports Palette Net_Derive
begin

text \<open>
  Rich text of the network card (\<open>src/src/widgets/net_card.c\<close>): a line is cut into spans, the characters
  that are not ASCII in the bold face, which alone has them, and the speed tokens in their colours.  A
  line that is set again to the same text, font and colour is left alone.
\<close>

section \<open>State\<close>

type_synonym span = "string \<times> font \<times> color"

text \<open>\<open>rt_font\<close> is \<open>None\<close> before the first text.\<close>

record rich =
  rt_spans :: "span list"
  rt_last :: string
  rt_color :: color
  rt_font :: "font option"

section \<open>Operations\<close>

text \<open>The colour of a token; \<open>None\<close> where the code leaves \<open>hit\<close> false.\<close>

definition token_color :: "string \<Rightarrow> color option" where
  "token_color t =
     (if t = ''10G'' then Some WS_COLOR_TEAL
      else if t = ''5G'' then Some WS_COLOR_SAPPHIRE
      else if t = ''1G'' then Some WS_COLOR_YELLOW
      else if t = ''DOWN'' then Some WS_COLOR_RED
      else None)"

definition is_word :: "char \<Rightarrow> bool" where
  "is_word c \<longleftrightarrow> CHR ''0'' \<le> c \<and> c \<le> CHR ''9'' \<or> CHR ''A'' \<le> c \<and> c \<le> CHR ''Z'' \<or> CHR ''a'' \<le> c \<and> c \<le> CHR ''z''"

definition non_ascii :: "char \<Rightarrow> bool" where
  "non_ascii c \<longleftrightarrow> 0x80 \<le> (of_char c :: nat)"

text \<open>\<open>(*q & 0xC0) == 0x80\<close>\<close>

definition continuation :: "char \<Rightarrow> bool" where
  "continuation c \<longleftrightarrow> (of_char c :: nat) div 64 = 2"

definition span_add :: "span list \<Rightarrow> string \<Rightarrow> font \<Rightarrow> color \<Rightarrow> span list" where
  "span_add sg s f c = (if s = [] then sg else sg @ [(buf_copy 200 s, f, c)])"

text \<open>The loop over the text: the run that is not yet a span, and whether the place is behind something
  that is not part of a word.\<close>

lemma token_word: "token_color (takeWhile is_word (c # cs)) = Some tc \<Longrightarrow> is_word c"
  by (rule ccontr) (simp add: token_color_def)

function rich_loop :: "font \<Rightarrow> font \<Rightarrow> color \<Rightarrow> bool \<Rightarrow> bool \<Rightarrow> string \<Rightarrow> string \<Rightarrow> span list \<Rightarrow> span list" where
  "rich_loop font bold color tokens fresh run [] sg = span_add sg run font color"
| "rich_loop font bold color tokens fresh run (c # cs) sg =
     (if non_ascii c
      then rich_loop font bold color tokens True [] (dropWhile continuation cs)
             (span_add (span_add sg run font color) (c # takeWhile continuation cs) bold color)
      else case (if tokens \<and> fresh then token_color (takeWhile is_word (c # cs)) else None) of
          Some tc \<Rightarrow>
            rich_loop font bold color tokens False [] (dropWhile is_word (c # cs))
              (span_add (span_add sg run font color) (takeWhile is_word (c # cs)) font tc)
        | None \<Rightarrow> rich_loop font bold color tokens (\<not> is_word c) (run @ [c]) cs sg)"
  by pat_completeness auto
termination
proof (relation "measure (\<lambda>(font, bold, color, tokens, fresh, run, text, sg). length text)", goal_cases)
  case 2
  then show ?case by (simp add: le_imp_less_Suc length_dropWhile_le)
next
  case (4 font bold color tokens fresh run c cs sg tc)
  then have "token_color (takeWhile is_word (c # cs)) = Some tc" by (cases "tokens \<and> fresh") (simp_all del: takeWhile.simps)
  then have "is_word c" by (rule token_word)
  then show ?case by (simp add: le_imp_less_Suc length_dropWhile_le)
qed simp_all

definition rich_spans :: "font \<Rightarrow> font \<Rightarrow> color \<Rightarrow> bool \<Rightarrow> string \<Rightarrow> span list" where
  "rich_spans font bold color tokens text = rich_loop font bold color tokens True [] text []"

definition rich_set :: "rich \<Rightarrow> string \<Rightarrow> font \<Rightarrow> font \<Rightarrow> color \<Rightarrow> bool \<Rightarrow> rich" where
  "rich_set r t font bold color tokens =
     (if rt_last r = t \<and> rt_color r = color \<and> rt_font r = Some font then r
      else \<lparr>rt_spans = rich_spans font bold color tokens t, rt_last = buf_copy 200 t, rt_color = color,
            rt_font = Some font\<rparr>)"

text \<open>A line before its first text: \<open>put_rich\<close>.\<close>

definition put_rich :: rich where
  "put_rich = \<lparr>rt_spans = [], rt_last = [CHR 0x01], rt_color = 0, rt_font = None\<rparr>"

section \<open>Nothing is lost\<close>

definition texts :: "span list \<Rightarrow> string" where
  "texts sg = concat (map fst sg)"

lemma texts_add: "length s < 200 \<Longrightarrow> texts (span_add sg s f c) = texts sg @ s"
  by (simp add: texts_def span_add_def buf_copy_def)

lemma rich_loop_texts:
  "length run + length t < 200 \<Longrightarrow> texts (rich_loop font bold color tokens fresh run t sg) = texts sg @ run @ t"
proof (induction font bold color tokens fresh run t sg rule: rich_loop.induct)
  case (1 font bold color tokens fresh run sg)
  then show ?case by (simp add: texts_add)
next
  case (2 font bold color tokens fresh run c cs sg)
  have l: "length (takeWhile P cs) \<le> length cs" "length (dropWhile P cs) \<le> length cs" for P
    by (rule length_takeWhile_le length_dropWhile_le)+
  let ?tok = "if tokens \<and> fresh then token_color (takeWhile is_word (c # cs)) else None"
  consider (bold) "non_ascii c" | (token) tc where "\<not> non_ascii c" "?tok = Some tc"
    | (plain) "\<not> non_ascii c" "?tok = None" by (cases ?tok) auto
  then show ?case
  proof cases
    case bold
    have "length [] + length (dropWhile continuation cs) < 200" using 2(4) l(2) [of continuation] by simp
    note IH = 2(1) [OF bold this]
    have "length (takeWhile continuation cs) < 199" using 2(4) l(1) [of continuation] by simp
    then show ?thesis using bold 2(4) IH by (simp add: texts_add)
  next
    case token
    have w: "length (takeWhile is_word (c # cs)) < 200" "length (dropWhile is_word (c # cs)) < 200"
      using 2(4) length_takeWhile_le [of is_word "c # cs"] length_dropWhile_le [of is_word "c # cs"] by simp_all
    note IH = 2(3) [OF token]
    show ?thesis using token 2(4) IH w
      by (simp only: rich_loop.simps if_False option.case list.size add_0) (simp add: texts_add)
  next
    case plain
    then show ?thesis using 2(2) [OF plain] 2(4) by (simp only: rich_loop.simps if_False option.case) simp
  qed
qed

section \<open>The faces and the colours\<close>

text \<open>What a span keeps to: it is not empty, a character beyond ASCII is in the bold face, and only a whole
  token has a colour of its own.  Which characters the faces have is the business of the generated fonts.\<close>

definition span_ok :: "font \<Rightarrow> font \<Rightarrow> color \<Rightarrow> bool \<Rightarrow> span \<Rightarrow> bool" where
  "span_ok font bold color tokens sp =
     (case sp of (s, f, c) \<Rightarrow> s \<noteq> [] \<and> (f = font \<or> f = bold) \<and> (list_ex non_ascii s \<longrightarrow> f = bold) \<and>
        (c = color \<or> tokens \<and> f = font \<and> token_color s = Some c))"

lemma span_add_all:
  "list_all P sg \<Longrightarrow> (s \<noteq> [] \<Longrightarrow> P (buf_copy 200 s, f, c)) \<Longrightarrow> list_all P (span_add sg s f c)"
  by (simp add: span_add_def)

lemma ascii_word: "is_word c \<Longrightarrow> \<not> non_ascii c"
proof -
  assume "is_word c"
  then have "(of_char c :: nat) \<le> of_char (CHR ''z'')"
    by (auto simp: is_word_def less_eq_char_def)
  then show ?thesis by (simp add: non_ascii_def)
qed

lemma copied_ascii: "list_all (\<lambda>c. \<not> non_ascii c) s \<Longrightarrow> \<not> list_ex non_ascii (buf_copy 200 s)"
  by (auto simp: buf_copy_def list_all_iff list_ex_iff dest: in_set_takeD)

lemma copied_nonempty: "s \<noteq> [] \<Longrightarrow> buf_copy 200 s \<noteq> []"
  by (simp add: buf_copy_def)

lemma copied_token: "token_color s = Some c \<Longrightarrow> buf_copy 200 s = s"
  by (auto simp: token_color_def buf_copy_def split: if_splits)

lemma rich_loop_spans:
  "list_all (span_ok font bold color tokens) sg \<Longrightarrow> list_all (\<lambda>c. \<not> non_ascii c) run \<Longrightarrow>
     list_all (span_ok font bold color tokens) (rich_loop font bold color tokens fresh run t sg)"
proof (induction font bold color tokens fresh run t sg rule: rich_loop.induct)
  case (1 font bold color tokens fresh run sg)
  show ?case unfolding rich_loop.simps
    by (rule span_add_all [OF 1(1)]) (simp add: span_ok_def copied_ascii [OF 1(2)] copied_nonempty)
next
  case (2 font bold color tokens fresh run c cs sg)
  have run: "list_all (span_ok font bold color tokens) (span_add sg run font color)"
    by (rule span_add_all [OF 2(4)]) (simp add: span_ok_def copied_ascii [OF 2(5)] copied_nonempty)
  let ?tok = "if tokens \<and> fresh then token_color (takeWhile is_word (c # cs)) else None"
  consider (bold) "non_ascii c" | (token) tc where "\<not> non_ascii c" "?tok = Some tc"
    | (plain) "\<not> non_ascii c" "?tok = None" by (cases ?tok) auto
  then show ?case
  proof cases
    case bold
    have "list_all (span_ok font bold color tokens) (span_add (span_add sg run font color) (c # takeWhile continuation cs) bold color)"
      by (rule span_add_all [OF run]) (simp add: span_ok_def copied_nonempty)
    then show ?thesis using 2(1) [OF bold] bold by simp
  next
    case token
    have ascii: "list_all (\<lambda>c. \<not> non_ascii c) (takeWhile is_word (c # cs))"
      unfolding list_all_iff using ascii_word set_takeWhileD by fast
    have tok: "tokens" "token_color (takeWhile is_word (c # cs)) = Some tc"
      using token(2) by (simp_all del: takeWhile.simps split: if_splits)
    have "list_all (span_ok font bold color tokens) (span_add (span_add sg run font color) (takeWhile is_word (c # cs)) font tc)"
      by (rule span_add_all [OF run])
        (use tok copied_ascii [OF ascii] copied_token [OF tok(2)] in \<open>auto simp: span_ok_def simp del: takeWhile.simps\<close>)
    then show ?thesis using 2(3) [OF token] token
      by (simp only: rich_loop.simps if_False option.case list.pred_inject)
  next
    case plain
    then show ?thesis using 2(2) [OF plain] 2(4,5) by (simp only: rich_loop.simps if_False option.case list_all_append) simp
  qed
qed



section \<open>The cache\<close>

text \<open>A line shows the last text that was set, when the colour tells whether tokens are coloured and the
  texts fit the copy that is kept of them.\<close>

definition rich_ok :: "(color \<Rightarrow> bool) \<Rightarrow> font \<Rightarrow> rich \<Rightarrow> bool" where
  "rich_ok tokens bold r \<longleftrightarrow>
     (case rt_font r of
        None \<Rightarrow> True
      | Some f \<Rightarrow> rt_spans r = rich_spans f bold (rt_color r) (tokens (rt_color r)) (rt_last r))"

lemma put_rich_ok: "rich_ok tokens bold put_rich"
  by (simp add: rich_ok_def put_rich_def)

lemma rich_set_shows:
  assumes "rich_ok tokens bold r" "length t < 200"
  shows "rich_set r t font bold color (tokens color) =
      \<lparr>rt_spans = rich_spans font bold color (tokens color) t, rt_last = t, rt_color = color, rt_font = Some font\<rparr>"
    "rich_ok tokens bold (rich_set r t font bold color (tokens color))"
proof -
  show e: "rich_set r t font bold color (tokens color) =
      \<lparr>rt_spans = rich_spans font bold color (tokens color) t, rt_last = t, rt_color = color, rt_font = Some font\<rparr>"
    using assms by (cases r) (auto simp: rich_set_def rich_ok_def buf_copy_def)
  show "rich_ok tokens bold (rich_set r t font bold color (tokens color))" unfolding e by (simp add: rich_ok_def)
qed

end
