(* ===== verification/Net_Card.thy ===== *)
theory Net_Card
  imports Rich_Text
begin

text \<open>
  The network card (\<open>src/src/widgets/net_card.c\<close>): its columns, tiles and headline, each redrawn from the
  model of \<open>netstate.c\<close>, and the sparkline of a column as a list of drawing calls.  Places, sizes and
  fixed styles of the parts are left out.
\<close>

section \<open>State\<close>

abbreviation "NC_CRUST \<equiv> 0x11111B :: color"
abbreviation "NC_SUBTEXT \<equiv> 0xA6ADC8 :: color"
abbreviation "NC_SURFACE2 \<equiv> 0x585B70 :: color"
abbreviation "NET_WINDOW_S \<equiv> 3600 :: double"

record spark =
  sk_v :: "single list"
  sk_drop_x :: "double list"
  sk_color :: color

record netcol =
  nc_hidden :: bool
  nc_tick :: color
  nc_band :: color
  nc_band_h :: int
  nc_frame :: color
  nc_frame_w :: int
  nc_hatch :: bool
  nc_name :: string
  nc_nic :: string
  nc_num :: string
  nc_num_color :: color
  nc_sub :: rich
  nc_sd :: spark
  nc_mbps :: string
  nc_lfc :: rich
  nc_rx :: rich
  nc_pill :: "color list"
  nc_pill_lbl :: "color list"
  nc_foot_l :: rich
  nc_foot_r :: string

text \<open>\<open>nk_root\<close> is the object that \<open>net_card_create\<close> returned.\<close>

record net_card =
  nk_root :: nat
  nk_verdict :: rich
  nk_why :: rich
  nk_rail :: color
  nk_tile :: "(string \<times> color) list"
  nk_cols :: "netcol list"

section \<open>Operations\<close>

definition leg_color :: "net_leg \<Rightarrow> color" where
  "leg_color leg =
     (case leg of NET_LEG_10G \<Rightarrow> WS_COLOR_TEAL | NET_LEG_5G \<Rightarrow> WS_COLOR_SAPPHIRE | NET_LEG_1G \<Rightarrow> WS_COLOR_YELLOW
      | NET_LEG_DOWN \<Rightarrow> WS_COLOR_RED)"

definition level_color :: "net_level \<Rightarrow> color" where
  "level_color l =
     (case l of NET_LEVEL_OK \<Rightarrow> WS_COLOR_TEAL | NET_LEVEL_WARN \<Rightarrow> WS_COLOR_YELLOW | NET_LEVEL_CRIT \<Rightarrow> WS_COLOR_RED
      | NET_LEVEL_NONE \<Rightarrow> WS_COLOR_MUTED)"

text \<open>A part whose style is set by the first update only has colour 0 until then.\<close>

definition col_create :: netcol where
  "col_create =
     \<lparr>nc_hidden = False, nc_tick = 0, nc_band = 0, nc_band_h = 6, nc_frame = 0, nc_frame_w = 0, nc_hatch = True,
      nc_name = [], nc_nic = [], nc_num = [], nc_num_color = 0, nc_sub = put_rich,
      nc_sd = \<lparr>sk_v = [], sk_drop_x = [], sk_color = 0\<rparr>, nc_mbps = [], nc_lfc = put_rich, nc_rx = put_rich,
      nc_pill = replicate 3 0, nc_pill_lbl = replicate 3 0, nc_foot_l = put_rich, nc_foot_r = []\<rparr>"

definition net_card_create :: "nat \<Rightarrow> net_card" where
  "net_card_create new_obj =
     \<lparr>nk_root = new_obj, nk_verdict = put_rich, nk_why = put_rich, nk_rail = 0,
      nk_tile = replicate 3 ([], 0), nk_cols = replicate NET_HOSTS_MAX col_create\<rparr>"

definition spark_data :: "net_host \<Rightarrow> double \<Rightarrow> color \<Rightarrow> spark" where
  "spark_data h now c =
     \<lparr>sk_v = nh_hist h @ (if 0 < nh_acc_n h then [to_single (nh_acc_sum h / of_int (nh_acc_n h))] else []),
      sk_drop_x = (if nh_state h = NET_COL_LIVE
        then filter (\<lambda>f. 0 \<le> f \<and> f \<le> 1) (map (\<lambda>d. 1 - (now - d) / NET_WINDOW_S) (nr_drops (nh_rec h))) else []),
      sk_color = c\<rparr>"

definition lfc_text :: "net_host \<Rightarrow> string" where
  "lfc_text h =
     (let r = nh_rec h in buf_copy 96
        (if \<not> nh_has_rec h then ''LFC '' @ em_dash
         else if \<not> nr_bond r then ''no bond''
         else if nr_lfc r < 0 then ''LFC '' @ em_dash
         else if 0 < nr_lfc_delta_24h r
         then ''LFC '' @ dec_int (nr_lfc r) @ '' (+'' @ dec_int (nr_lfc_delta_24h r) @ '')''
         else ''LFC '' @ dec_int (nr_lfc r)))"

definition foot_text :: "net_host \<Rightarrow> string" where
  "foot_text h =
     (let r = nh_rec h in buf_copy 96
        (if nh_state h \<noteq> NET_COL_LIVE then em_dash
         else if nr_reach_wan r \<and> 0 \<le> nr_rtt_wan r then ''WAN '' @ no_decimal (nr_rtt_wan r) @ '' ms''
         else if nr_reach_udm r \<and> 0 \<le> nr_rtt_udm r then ''UDM '' @ one_decimal (nr_rtt_udm r) @ '' ms''
         else if nr_reach_peers r then ''peers only'' else ''no path''))"

definition sub_color :: "net_host \<Rightarrow> bool \<Rightarrow> color" where
  "sub_color h bold =
     (if nh_state h = NET_COL_NOFEED then WS_COLOR_MUTED
      else if nh_state h = NET_COL_STALE then WS_COLOR_FG
      else if bold then (if net_column_attn h = NET_ATTN_CRIT then WS_COLOR_RED else WS_COLOR_YELLOW)
      else NC_SUBTEXT)"

text \<open>A text in one of two weights, in a colour that goes with the weight.\<close>

definition warn_set :: "rich \<Rightarrow> string \<Rightarrow> bool \<Rightarrow> rich" where
  "warn_set r t warn =
     rich_set r t (if warn then montserrat_bold 16 else WS_FONT_SMALL) (montserrat_bold 16)
       (if warn then WS_COLOR_YELLOW else NC_SUBTEXT) False"

definition col_update :: "net_host \<Rightarrow> double \<Rightarrow> netcol \<Rightarrow> netcol" where
  "col_update h now c =
     (let r = nh_rec h;
          live = (nh_state h = NET_COL_LIVE);
          grey = (\<not> live);
          norec = (\<not> nh_has_rec h);
          level = net_column_attn h;
          attn = (live \<and> level \<noteq> NET_ATTN_NONE);
          at_c = (if level = NET_ATTN_CRIT then WS_COLOR_RED else WS_COLOR_YELLOW);
          legc = (if grey then WS_COLOR_MUTED else leg_color (nr_leg r));
          band_c = (if grey then NC_SURFACE2 else if attn then at_c else legc);
          (sub, bold) = net_subtitle h now 96;
          age = now - nr_ts r
      in c\<lparr>nc_tick := band_c, nc_band := band_c, nc_band_h := (if attn then 10 else 6),
           nc_frame := (if grey then NC_SURFACE2 else if attn then at_c else WS_COLOR_SURFACE1),
           nc_frame_w := (if attn then 3 else 1), nc_hatch := grey,
           nc_name := nh_host h, nc_nic := (if norec then [] else nr_nic r),
           nc_num_color := legc, nc_num := (if grey then em_dash else net_leg_text (nr_leg r)),
           nc_sub := rich_set (nc_sub c) sub (if bold then montserrat_bold 16 else WS_FONT_SMALL)
                       (montserrat_bold 16) (sub_color h bold) live,
           nc_sd := spark_data h now (if grey then NC_SURFACE2 else legc),
           nc_mbps := (if norec then em_dash else buf_copy 96 (no_decimal (nr_bytes_per_s r * 8 / 1000000))),
           nc_lfc := warn_set (nc_lfc c) (lfc_text h) (live \<and> (0 < nr_lfc_delta_24h r \<or> nr_drops r \<noteq> [])),
           nc_rx := warn_set (nc_rx c) (net_rx_text h 96) (live \<and> 0 < nr_rx_errors_delta_24h r),
           nc_pill := map (\<lambda>reach. if grey then WS_COLOR_SURFACE1 else if reach then WS_COLOR_TEAL else WS_COLOR_RED)
                        [nr_reach_udm r, nr_reach_peers r, nr_reach_wan r],
           nc_pill_lbl := replicate 3 (if grey then WS_COLOR_FG else NC_CRUST),
           nc_foot_l := rich_set (nc_foot_l c) (foot_text h) WS_FONT_TINY (montserrat_bold 14) WS_COLOR_MUTED False,
           nc_foot_r := (if norec then [] else buf_copy 96 (no_decimal (if age < 0 then 0 else age) @ '' s ago''))\<rparr>)"

text \<open>One tile of the header; the third one is the uplink, whose normal speed is 1G.\<close>

definition tile :: "net_summary \<Rightarrow> nat \<Rightarrow> string \<times> color" where
  "tile s i =
     (if sm_level s = NET_LEVEL_NONE then (em_dash, WS_COLOR_MUTED)
      else
        (let up = [sm_udm_up s, sm_wan_up s, sm_uplink_up s] ! i; ms = [sm_udm_ms s, sm_wan_ms s] ! i
         in (buf_copy 32
               (if \<not> up then (if i = 2 then ''LOST'' else ''DOWN'')
                else if i = 2 then ''1G''
                else if ms < 0 then ''up''
                else if ms < 10 then one_decimal ms @ '' ms''
                else no_decimal ms @ '' ms''),
             if up then WS_COLOR_FG else WS_COLOR_RED)))"

definition update_col :: "net_state \<Rightarrow> double \<Rightarrow> nat \<Rightarrow> netcol \<Rightarrow> netcol" where
  "update_col st now i c =
     (if net_host_count st \<le> i then c\<lparr>nc_hidden := True\<rparr>
      else case net_host_at (int i) st of
          None \<Rightarrow> c\<lparr>nc_hidden := False\<rparr>
        | Some h \<Rightarrow> col_update h now (c\<lparr>nc_hidden := False\<rparr>))"

definition net_card_update :: "nat option \<Rightarrow> double \<Rightarrow> net_state \<Rightarrow> net_card \<Rightarrow> net_card" where
  "net_card_update obj now st k =
     (if obj \<noteq> Some (nk_root k) then k
      else let s = net_derive now st; lc = level_color (sm_level s)
        in k\<lparr>nk_verdict := rich_set (nk_verdict k) (sm_verdict s) (montserrat_bold 48) (montserrat_bold 48) lc True,
             nk_why := rich_set (nk_why k) (sm_why s) WS_FONT_SMALL (montserrat_bold 16) NC_SUBTEXT True,
             nk_rail := lc, nk_tile := map (tile s) [0..<3],
             nk_cols := map2 (update_col st now) [0..<length (nk_cols k)] (nk_cols k)\<rparr>)"

section \<open>Columns are drawn anew\<close>

text \<open>The subtitle colours its tokens in the colours of a live column only.\<close>

definition sub_tokens :: "color \<Rightarrow> bool" where
  "sub_tokens c \<longleftrightarrow> c \<noteq> WS_COLOR_MUTED \<and> c \<noteq> WS_COLOR_FG"

definition plain :: "color \<Rightarrow> bool" where "plain c \<longleftrightarrow> False"
definition coloured :: "color \<Rightarrow> bool" where "coloured c \<longleftrightarrow> True"

definition col_ok :: "netcol \<Rightarrow> bool" where
  "col_ok c \<longleftrightarrow> rich_ok sub_tokens (montserrat_bold 16) (nc_sub c) \<and> rich_ok plain (montserrat_bold 16) (nc_lfc c) \<and>
     rich_ok plain (montserrat_bold 16) (nc_rx c) \<and> rich_ok plain (montserrat_bold 14) (nc_foot_l c)"

lemma sub_tokens_live: "sub_tokens (sub_color h b) \<longleftrightarrow> nh_state h = NET_COL_LIVE"
  by (cases "nh_state h") (auto simp: sub_tokens_def sub_color_def)

lemma subtitle_fits: "length (fst (net_subtitle h now 96)) < 96"
  by (simp add: net_subtitle_def Let_def)

lemma texts_fit: "length (lfc_text h) < 200" "length (net_rx_text h 96) < 200" "length (foot_text h) < 200"
proof -
  have "length (buf_copy 96 s) < 200" for s by (rule less_trans [OF length_buf_copy]) simp_all
  then show "length (lfc_text h) < 200" "length (net_rx_text h 96) < 200" "length (foot_text h) < 200"
    by (simp_all only: lfc_text_def net_rx_text_def foot_text_def Let_def)
qed

lemma warn_set_shows:
  assumes "rich_ok plain (montserrat_bold 16) r" "length t < 200"
  shows "warn_set r t w = warn_set put_rich t w" "rich_ok plain (montserrat_bold 16) (warn_set r t w)"
  using rich_set_shows [OF assms] rich_set_shows [OF put_rich_ok assms(2), where tokens = plain]
  by (simp_all add: warn_set_def plain_def)

lemma col_update_anew:
  assumes "col_ok c"
  shows "col_update h now c = (col_update h now col_create)\<lparr>nc_hidden := nc_hidden c\<rparr>"
    "col_ok (col_update h now c)"
proof -
  obtain sub bold where s: "net_subtitle h now 96 = (sub, bold)" by (rule prod.exhaust)
  then have l: "length sub < 200" using subtitle_fits [of h now] by simp
  let ?font = "if bold then montserrat_bold 16 else WS_FONT_SMALL"
  have ok: "rich_ok sub_tokens (montserrat_bold 16) (nc_sub c)" "rich_ok plain (montserrat_bold 16) (nc_lfc c)"
      "rich_ok plain (montserrat_bold 16) (nc_rx c)" "rich_ok plain (montserrat_bold 14) (nc_foot_l c)"
    using assms by (simp_all add: col_ok_def)
  note sub = rich_set_shows [OF ok(1) l, where font = ?font and color = "sub_color h bold", unfolded sub_tokens_live]
    rich_set_shows [OF put_rich_ok l, where tokens = sub_tokens and bold = "montserrat_bold 16" and font = ?font
        and color = "sub_color h bold", unfolded sub_tokens_live]
  note lfc = warn_set_shows [OF ok(2) texts_fit(1)] and rx = warn_set_shows [OF ok(3) texts_fit(2)]
  note foot = rich_set_shows [OF ok(4) texts_fit(3), unfolded plain_def]
    rich_set_shows [OF put_rich_ok texts_fit(3), where tokens = plain, unfolded plain_def]
  show "col_update h now c = (col_update h now col_create)\<lparr>nc_hidden := nc_hidden c\<rparr>"
    unfolding col_update_def s Let_def prod.case lfc(1) rx(1) sub(1) foot(1)
    by (simp add: col_create_def sub(3) foot(3))
  show "col_ok (col_update h now c)"
    unfolding col_ok_def col_update_def s Let_def prod.case
    using sub(2) lfc(2) rx(2) rich_set_shows(2) [OF ok(4) texts_fit(3)] by (simp add: plain_def)
qed

section \<open>The whole card\<close>

text \<open>The card as it is seen: hidden columns show nothing.\<close>

definition on_card :: "net_card \<Rightarrow> rich \<times> rich \<times> color \<times> (string \<times> color) list \<times> netcol option list" where
  "on_card k =
     (nk_verdict k, nk_why k, nk_rail k, nk_tile k,
      map (\<lambda>c. if nc_hidden c then None else Some (c\<lparr>nc_hidden := False\<rparr>)) (nk_cols k))"

definition net_card_ok :: "net_card \<Rightarrow> bool" where
  "net_card_ok k \<longleftrightarrow> rich_ok coloured (montserrat_bold 48) (nk_verdict k) \<and>
     rich_ok coloured (montserrat_bold 16) (nk_why k) \<and> length (nk_cols k) = NET_HOSTS_MAX \<and>
     list_all col_ok (nk_cols k)"

lemma create_net_card_ok: "net_card_ok (net_card_create r)"
  by (simp add: net_card_ok_def net_card_create_def put_rich_ok list_all_iff)
    (simp add: col_ok_def col_create_def put_rich_ok)

lemma summary_fits: "length (sm_verdict (net_derive now st)) < 200" "length (sm_why (net_derive now st)) < 200"
proof -
  have h: "length (sm_verdict (set_headline l v w t)) < 200" "length (sm_why (set_headline l v w t)) < 192" for l v w t
    using less_trans [OF length_buf_copy, of 80 200 v] by (simp_all add: set_headline_def)
  have "length (sm_verdict (net_derive now st)) < 200 \<and> length (sm_why (net_derive now st)) < 192"
  proof (cases rule: net_derive_cases [of st now])
    case (named g t x)
    have "length (sm_verdict (host_headline g now t)) < 200" "length (sm_why (host_headline g now t)) < 192"
      using less_trans [OF headline_fits(1), of 200 g now t] headline_fits(2) [of g now t] by simp_all
    then show ?thesis using named(3) append_why_fits [of "host_headline g now t" x] by auto
  next
    case (well t)
    then show ?thesis using all_well_effect [OF well(3), of "ns_hosts st"] by auto
  qed (simp_all add: h)
  then show "length (sm_verdict (net_derive now st)) < 200" "length (sm_why (net_derive now st)) < 200" by simp_all
qed

text \<open>One column of an update: the host's column on a new card, or hidden.\<close>

lemma update_col_anew:
  assumes "col_ok c"
  shows "update_col st now i c =
      (if i < length (ns_hosts st) then col_update (ns_hosts st ! i) now col_create else c\<lparr>nc_hidden := True\<rparr>)"
    "col_ok (update_col st now i c)"
proof -
  have ok: "col_ok (c\<lparr>nc_hidden := b\<rparr>)" for b using assms by (simp add: col_ok_def)
  have n: "nc_hidden (col_update h now col_create) = False" for h
    by (simp add: col_update_def Let_def col_create_def split: prod.split)
  have anew: "col_update h now (c\<lparr>nc_hidden := False\<rparr>) = col_update h now col_create" for h
    using col_update_anew(1) [OF ok, of h now False] n [of h] by (simp add: netcol.surjective)
  show "update_col st now i c =
      (if i < length (ns_hosts st) then col_update (ns_hosts st ! i) now col_create else c\<lparr>nc_hidden := True\<rparr>)"
    by (simp add: update_col_def net_host_count_def net_host_at_def anew)
  show "col_ok (update_col st now i c)"
    using ok col_update_anew(2) [OF ok] by (simp add: update_col_def split: option.split)
qed

lemma update_cols:
  assumes "length cs = n" "list_all col_ok cs"
  shows "map2 (update_col st now) [0..<n] cs =
      map (\<lambda>i. if i < length (ns_hosts st) then col_update (ns_hosts st ! i) now col_create else (cs ! i)\<lparr>nc_hidden := True\<rparr>) [0..<n]"
    "list_all col_ok (map2 (update_col st now) [0..<n] cs)"
  using assms update_col_anew by (auto simp: list_all_length intro!: nth_equalityI)

lemma net_card_update_anew:
  assumes "net_card_ok k"
  shows "on_card (net_card_update (Some (nk_root k)) now st k) =
      on_card (net_card_update (Some (nk_root k)) now st (net_card_create (nk_root k)))"
    "net_card_ok (net_card_update (Some (nk_root k)) now st k)"
    "nk_root (net_card_update (Some (nk_root k)) now st k) = nk_root k"
proof -
  let ?s = "net_derive now st" and ?new = "net_card_create (nk_root k)"
  have ok: "rich_ok coloured (montserrat_bold 48) (nk_verdict k)" "rich_ok coloured (montserrat_bold 16) (nk_why k)"
      "length (nk_cols k) = NET_HOSTS_MAX" "list_all col_ok (nk_cols k)"
    using assms by (simp_all add: net_card_ok_def)
  note new = create_net_card_ok [of "nk_root k", unfolded net_card_ok_def]
  have v: "rich_set (nk_verdict k) (sm_verdict ?s) f (montserrat_bold 48) c True =
      rich_set (nk_verdict ?new) (sm_verdict ?s) f (montserrat_bold 48) c True"
      "rich_ok coloured (montserrat_bold 48) (rich_set (nk_verdict k) (sm_verdict ?s) f (montserrat_bold 48) c True)" for f c
    using rich_set_shows [OF ok(1) summary_fits(1), of now st f c]
      rich_set_shows [OF conjunct1 [OF new] summary_fits(1), of now st f c] by (simp_all add: coloured_def)
  have w: "rich_set (nk_why k) (sm_why ?s) f (montserrat_bold 16) c True =
      rich_set (nk_why ?new) (sm_why ?s) f (montserrat_bold 16) c True"
      "rich_ok coloured (montserrat_bold 16) (rich_set (nk_why k) (sm_why ?s) f (montserrat_bold 16) c True)" for f c
    using rich_set_shows [OF ok(2) summary_fits(2), of now st f c]
      rich_set_shows [OF conjunct1 [OF conjunct2 [OF new]] summary_fits(2), of now st f c] by (simp_all add: coloured_def)
  have l: "length (nk_cols ?new) = NET_HOSTS_MAX" "list_all col_ok (nk_cols ?new)" using new by simp_all
  note c = update_cols [OF ok(3,4), of st now] update_cols [OF l, of st now]
  have seen: "map (\<lambda>c. if nc_hidden c then None else Some (c\<lparr>nc_hidden := False\<rparr>)) (map2 (update_col st now) [0..<NET_HOSTS_MAX] (nk_cols k)) =
      map (\<lambda>c. if nc_hidden c then None else Some (c\<lparr>nc_hidden := False\<rparr>)) (map2 (update_col st now) [0..<NET_HOSTS_MAX] (nk_cols ?new))"
    unfolding c(1) c(3) by simp
  have r: "nk_root ?new = nk_root k" by (simp add: net_card_create_def)
  show "on_card (net_card_update (Some (nk_root k)) now st k) = on_card (net_card_update (Some (nk_root k)) now st ?new)"
    using seen by (simp add: on_card_def net_card_update_def Let_def r v(1) w(1) ok(3) l(1))
  show "net_card_ok (net_card_update (Some (nk_root k)) now st k)"
    using v(2) w(2) c(2) by (simp add: net_card_ok_def net_card_update_def Let_def ok(3))
  show "nk_root (net_card_update (Some (nk_root k)) now st k) = nk_root k"
    by (simp add: net_card_update_def Let_def)
qed

section \<open>Properties\<close>

lemma updates_net_card_ok:
  "net_card_ok (fold (\<lambda>(now, st). net_card_update (Some r) now st) ups (net_card_create r)) \<and>
   nk_root (fold (\<lambda>(now, st). net_card_update (Some r) now st) ups (net_card_create r)) = r"
proof (induction ups rule: rev_induct)
  case Nil
  show ?case by (simp add: create_net_card_ok) (simp add: net_card_create_def)
next
  case (snoc x ups)
  let ?k = "fold (\<lambda>(now, st). net_card_update (Some r) now st) ups (net_card_create r)"
  obtain now st where x: "x = (now, st)" by (rule prod.exhaust)
  show ?case using net_card_update_anew(2,3) [of ?k now st] snoc by (simp add: x)
qed

lemma column_texts:
  "nc_hidden (col_update h now col_create) = False" "nc_name (col_update h now col_create) = nh_host h"
  "texts (rt_spans (nc_sub (col_update h now col_create))) = fst (net_subtitle h now 96)"
proof -
  obtain sub bold where s: "net_subtitle h now 96 = (sub, bold)" by (rule prod.exhaust)
  then have "length sub < 200" using subtitle_fits [of h now] by simp
  then have "texts (rich_spans f b c tok sub) = sub" for f b c tok
    using rich_loop_texts [of "[]" sub f b c tok True "[]"] by (simp add: rich_spans_def texts_def)
  moreover have "rt_spans (rich_set put_rich sub f b c tok) = rich_spans f b c tok sub" for f b c tok
    by (simp add: rich_set_def put_rich_def)
  ultimately show "texts (rt_spans (nc_sub (col_update h now col_create))) = fst (net_subtitle h now 96)"
    by (simp add: col_update_def Let_def s col_create_def)
qed (simp_all add: col_update_def Let_def col_create_def split: prod.split)

text \<open>C30: the network card shows the model of the moment: after any history of updates what is seen is what
  the last one draws on a new card, although a line that seems unchanged is not drawn again.  The headline
  and the line under it are those of \<open>net_derive\<close>, byte for byte, and there is one column per host, in
  order, with the host's name and subtitle.\<close>

theorem net_card_redraws:
  "let k = net_card_update (Some r) now st (fold (\<lambda>(now, st). net_card_update (Some r) now st) ups (net_card_create r))
   in on_card k = on_card (net_card_update (Some r) now st (net_card_create r)) \<and>
      texts (rt_spans (nk_verdict k)) = sm_verdict (net_derive now st) \<and>
      texts (rt_spans (nk_why k)) = sm_why (net_derive now st) \<and>
      map (\<lambda>c. if nc_hidden c then None else Some (nc_name c, texts (rt_spans (nc_sub c)))) (nk_cols k) =
        map (\<lambda>h. Some (nh_host h, fst (net_subtitle h now 96))) (take NET_HOSTS_MAX (ns_hosts st)) @
        replicate (NET_HOSTS_MAX - length (ns_hosts st)) None"
proof -
  let ?before = "fold (\<lambda>(now, st). net_card_update (Some r) now st) ups (net_card_create r)"
  let ?k = "net_card_update (Some r) now st ?before" and ?s = "net_derive now st"
  note before = updates_net_card_ok [of r ups]
  have anew: "on_card ?k = on_card (net_card_update (Some r) now st (net_card_create r))"
    using net_card_update_anew(1) [of ?before now st] before by simp
  have ok: "rich_ok coloured (montserrat_bold 48) (nk_verdict ?before)" "rich_ok coloured (montserrat_bold 16) (nk_why ?before)"
      "length (nk_cols ?before) = NET_HOSTS_MAX" "list_all col_ok (nk_cols ?before)"
    using before by (simp_all add: net_card_ok_def)
  have t: "texts (rich_spans f b c tok (sm_verdict ?s)) = sm_verdict ?s" "texts (rich_spans f b c tok (sm_why ?s)) = sm_why ?s"
    for f b c tok using rich_loop_texts [of "[]" _ f b c tok True "[]"] summary_fits [of now st]
    by (simp_all add: rich_spans_def texts_def)
  have v: "texts (rt_spans (nk_verdict ?k)) = sm_verdict ?s" "texts (rt_spans (nk_why ?k)) = sm_why ?s"
    using rich_set_shows(1) [OF ok(1) summary_fits(1), of now st] rich_set_shows(1) [OF ok(2) summary_fits(2), of now st] before
    by (simp_all add: net_card_update_def Let_def coloured_def t)
  have c: "nk_cols ?k = map2 (update_col st now) [0..<NET_HOSTS_MAX] (nk_cols ?before)"
    using before ok(3) by (simp add: net_card_update_def Let_def)
  have "map (\<lambda>c. if nc_hidden c then None else Some (nc_name c, texts (rt_spans (nc_sub c)))) (nk_cols ?k) =
      map (\<lambda>h. Some (nh_host h, fst (net_subtitle h now 96))) (take NET_HOSTS_MAX (ns_hosts st)) @
      replicate (NET_HOSTS_MAX - length (ns_hosts st)) None"
    unfolding c update_cols(1) [OF ok(3,4)]
    by (rule nth_equalityI) (auto simp: column_texts nth_append min_def)
  then show ?thesis using anew v by (simp add: Let_def)
qed

end
