(* ===== verification/Sparkline.thy ===== *)
theory Sparkline
  imports Net_Card
begin

text \<open>
  The sparkline of a column (\<open>spark_draw_cb\<close> in \<open>src/src/widgets/net_card.c\<close>): the drawing calls for a
  rectangle whose left upper corner is \<open>(x1, y1)\<close> and whose right lower one \<open>(x1 + w, y1 + h)\<close>.  Line ends
  are kept as the \<open>float\<close> values that the code hands to LVGL.
\<close>

section \<open>Operations\<close>

datatype drawing =
    Fill color int int int int
  | Line color double double double double
  | Dot color int int
  | Triangle color "(double \<times> double) list"

text \<open>\<open>lroundf\<close>: halves away from zero.\<close>

definition lround :: "double \<Rightarrow> int" where
  "lround x = (if 0 \<le> x then \<lfloor>x + 1 / 2\<rfloor> else \<lceil>x - 1 / 2\<rceil>)"

text \<open>The top of the scale: a tenth above the greatest value, or 1 when nothing moves.  It can be past the
  greatest \<open>float\<close> where the values are not; then every one of them is at the bottom.\<close>

definition spark_scale :: "double list \<Rightarrow> single" where
  "spark_scale v =
     (let mx = fold (\<lambda>x mx. if mx < x then x else mx) v 0 in to_single (if 1 / 2 < mx then mx * (11 / 10) else 1))"

definition scaled :: "double \<Rightarrow> single \<Rightarrow> double" where
  "scaled x mx = (case mx of Finite m \<Rightarrow> x / m | Infinite \<Rightarrow> 0)"

definition spark_points :: "int \<Rightarrow> int \<Rightarrow> int \<Rightarrow> int \<Rightarrow> double list \<Rightarrow> (double \<times> double) list" where
  "spark_points x1 y1 w h v =
     (let step = of_int w / of_nat NET_HIST_N; mx = spark_scale v
      in map (\<lambda>i. (of_int (x1 + w) - of_int (int (length v) - 1 - int i) * step,
                   of_int (y1 + h) - scaled (v ! i) mx * of_int h)) [0..<length v])"

text \<open>The segment that \<open>x\<close> is in: the list starts with its left end.\<close>

fun advance :: "double \<Rightarrow> (double \<times> double) list \<Rightarrow> (double \<times> double) list" where
  "advance x (p # q # r # ps) = (if fst q < x then advance x (q # r # ps) else p # q # r # ps)"
| "advance x ps = ps"

definition height_at :: "double \<Rightarrow> double \<times> double \<Rightarrow> double \<times> double \<Rightarrow> int" where
  "height_at x p q =
     (let t = (if fst p < fst q then (x - fst p) / (fst q - fst p) else 0);
          t' = (if t < 0 then 0 else t);
          t'' = (if 1 < t' then 1 else t')
      in lround (snd p + t'' * (snd q - snd p)))"

text \<open>The area: one column of two pixels per step.  \<open>pts\<close> are the points from the current segment on.\<close>

function spark_fill :: "color \<Rightarrow> int \<Rightarrow> int \<Rightarrow> int \<Rightarrow> (double \<times> double) list \<Rightarrow> drawing list" where
  "spark_fill c right base x pts =
     (if right < x then []
      else (case advance (of_int x) pts of
              p # q # ps \<Rightarrow>
                (let y = height_at (of_int x) p q
                 in (if y \<le> base then [Fill c x y (if right < x + 1 then right else x + 1) base] else []) @
                    spark_fill c right base (x + 2) (p # q # ps))
            | _ \<Rightarrow> []))"
  by pat_completeness auto
termination by (relation "measure (\<lambda>(c, right, base, x, pts). nat (right - x + 1))") auto

declare spark_fill.simps [simp del]

definition drop_mark :: "int \<Rightarrow> int \<Rightarrow> int \<Rightarrow> int \<Rightarrow> double \<Rightarrow> drawing list" where
  "drop_mark x1 y1 w h at_x =
     (let x = of_int x1 + at_x * of_int w
      in [Line WS_COLOR_RED x (of_int (y1 + 18)) x (of_int (y1 + h)),
          Triangle WS_COLOR_RED [(x - 6, of_int (y1 + 12)), (x + 6, of_int (y1 + 12)), (x, of_int (y1 + 22))]])"

text \<open>An infinite value over an infinite scale is no number; the conversions of such a height to integers are
  undefined in C, and so is the drawing (\<open>None\<close>).\<close>

definition finite_values :: "single list \<Rightarrow> double list option" where
  "finite_values v = those (map (\<lambda>x. case x of Finite d \<Rightarrow> Some d | Infinite \<Rightarrow> None) v)"

definition spark_draw :: "int \<Rightarrow> int \<Rightarrow> int \<Rightarrow> int \<Rightarrow> spark \<Rightarrow> double list \<Rightarrow> drawing list" where
  "spark_draw x1 y1 w h s v =
     (let pts = spark_points x1 y1 w h v
      in (if v = [] then []
          else (if 2 \<le> length v then spark_fill (sk_color s) (x1 + w) (y1 + h) (trunc_int (fst (hd pts))) pts else []) @
               map2 (\<lambda>p q. Line (sk_color s) (fst p) (snd p) (fst q) (snd q)) pts (tl pts) @
               [Dot (sk_color s) (trunc_int (fst (last pts))) (trunc_int (snd (last pts)))]) @
         concat (map (drop_mark x1 y1 w h) (sk_drop_x s)))"

definition spark_draw_cb :: "int \<Rightarrow> int \<Rightarrow> int \<Rightarrow> int \<Rightarrow> spark \<Rightarrow> drawing list option" where
  "spark_draw_cb x1 y1 w h s = map_option (spark_draw x1 y1 w h s) (finite_values (sk_v s))"

lemma finite_values_Some: "finite_values v = Some xs \<longleftrightarrow> v = map Finite xs"
proof (induction v arbitrary: xs)
  case (Cons x v)
  then show ?case by (cases x; cases xs) (auto simp: finite_values_def)
qed (auto simp: finite_values_def)

lemma finite_values_None: "finite_values v = None \<longleftrightarrow> Infinite \<in> set v"
proof (induction v)
  case (Cons x v)
  then show ?case by (cases x) (auto simp: finite_values_def)
qed (simp add: finite_values_def)

section \<open>Where the points are\<close>

definition in_rect :: "int \<Rightarrow> int \<Rightarrow> int \<Rightarrow> int \<Rightarrow> double \<times> double \<Rightarrow> bool" where
  "in_rect x1 y1 w h p \<longleftrightarrow> of_int x1 \<le> fst p \<and> fst p \<le> of_int (x1 + w) \<and> of_int y1 \<le> snd p \<and> snd p \<le> of_int (y1 + h)"

lemma fold_greatest:
  fixes m :: double
  shows "m \<le> fold (\<lambda>x mx. if mx < x then x else mx) v m \<and> (\<forall>x \<in> set v. x \<le> fold (\<lambda>x mx. if mx < x then x else mx) v m)"
proof (induction v arbitrary: m)
  case (Cons x v)
  let ?m = "if m < x then x else m"
  have "m \<le> ?m" "x \<le> ?m" by simp_all
  then show ?case using Cons.IH [of ?m] by (auto intro: order_trans)
qed simp

lemma scaled_between: "x \<in> set v \<Longrightarrow> 0 \<le> x \<Longrightarrow> 0 \<le> scaled x (spark_scale v) \<and> scaled x (spark_scale v) \<le> 1"
proof -
  let ?m = "fold (\<lambda>x mx. if mx < x then x else mx) v 0"
  assume "x \<in> set v" "0 \<le> x"
  then have "x \<le> ?m" using fold_greatest [of 0 v] by blast
  with \<open>0 \<le> x\<close> show ?thesis
    by (simp add: spark_scale_def Let_def to_single_def scaled_def divide_le_eq)
qed

lemma points_in_rect:
  assumes "\<forall>x \<in> set v. 0 \<le> x" "length v \<le> Suc NET_HIST_N" "0 \<le> w" "0 \<le> h"
  shows "\<forall>p \<in> set (spark_points x1 y1 w h v). in_rect x1 y1 w h p"
proof
  fix p assume "p \<in> set (spark_points x1 y1 w h v)"
  then obtain i where i: "i < length v" and
    p: "p = (of_int (x1 + w) - of_int (int (length v) - 1 - int i) * (of_int w / of_nat NET_HIST_N),
             of_int (y1 + h) - scaled (v ! i) (spark_scale v) * of_int h)"
    by (auto simp: spark_points_def Let_def)
  let ?k = "of_int (int (length v) - 1 - int i) :: double"
  have k: "0 \<le> ?k" "?k \<le> of_nat NET_HIST_N" using i assms(2) by simp_all
  have w: "0 \<le> of_int w / (of_nat NET_HIST_N :: double)" using assms(3) by simp
  have "?k * (of_int w / of_nat NET_HIST_N) \<le> of_nat NET_HIST_N * (of_int w / of_nat NET_HIST_N)"
    by (rule mult_right_mono [OF k(2) w])
  then have x: "0 \<le> ?k * (of_int w / of_nat NET_HIST_N)" "?k * (of_int w / of_nat NET_HIST_N) \<le> of_int w"
    using mult_nonneg_nonneg [OF k(1) w] by simp_all
  let ?f = "scaled (v ! i) (spark_scale v)"
  have f: "0 \<le> ?f" "?f \<le> 1" using assms(1) nth_mem [OF i] scaled_between [OF nth_mem [OF i]] by simp_all
  have h: "(0 :: double) \<le> of_int h" using assms(4) by simp
  have y: "0 \<le> ?f * of_int h" "?f * of_int h \<le> 1 * of_int h"
    using mult_nonneg_nonneg [OF f(1) h] mult_right_mono [OF f(2) h] by simp_all
  show "in_rect x1 y1 w h p" using x y unfolding in_rect_def p fst_conv snd_conv of_int_add by linarith
qed

lemma advance_subset: "set (advance x ps) \<subseteq> set ps"
  by (induction x ps rule: advance.induct) auto

lemma lround_between:
  assumes "of_int a \<le> x" "x \<le> of_int b" shows "a \<le> lround x" "lround x \<le> b"
proof -
  have "a \<le> lround x \<and> lround x \<le> b"
  proof (cases "0 \<le> x")
    case True
    then show ?thesis using assms by (simp add: lround_def le_floor_iff floor_le_iff)
  next
    case False
    have "of_int a - 1 < x - 1 / 2" "x - 1 / 2 \<le> of_int b" using assms by linarith+
    then show ?thesis using False by (simp add: lround_def le_ceiling_iff ceiling_le_iff)
  qed
  then show "a \<le> lround x" "lround x \<le> b" by simp_all
qed

lemma height_between:
  assumes "of_int a \<le> snd p" "snd p \<le> of_int b" "of_int a \<le> snd q" "snd q \<le> of_int b"
  shows "a \<le> height_at x p q" "height_at x p q \<le> b"
proof -
  define t where "t = (let t = (if fst p < fst q then (x - fst p) / (fst q - fst p) else 0);
      t' = (if t < 0 then 0 else t) in if 1 < t' then 1 else t')"
  have t: "0 \<le> t" "t \<le> 1" by (simp_all add: t_def Let_def)
  have e: "snd p + t * (snd q - snd p) = (1 - t) * snd p + t * snd q" by (simp add: algebra_simps)
  have "(1 - t) * of_int a \<le> (1 - t) * snd p" "t * of_int a \<le> t * snd q" "(1 - t) * snd p \<le> (1 - t) * of_int b"
      "t * snd q \<le> t * of_int b"
    using t assms by (simp_all add: mult_left_mono)
  then have "of_int a \<le> snd p + t * (snd q - snd p)" "snd p + t * (snd q - snd p) \<le> of_int b"
    unfolding e by (simp_all add: left_diff_distrib)
  from lround_between [OF this] show "a \<le> height_at x p q" "height_at x p q \<le> b"
    by (simp_all add: height_at_def t_def Let_def)
qed

text \<open>What the fills and the lines of a sparkline keep to.\<close>

definition inside :: "int \<Rightarrow> int \<Rightarrow> int \<Rightarrow> int \<Rightarrow> drawing \<Rightarrow> bool" where
  "inside x1 y1 w h d =
     (case d of
        Fill c xa ya xb yb \<Rightarrow> x1 \<le> xa \<and> xa \<le> xb \<and> xb \<le> x1 + w \<and> y1 \<le> ya \<and> ya \<le> yb \<and> yb \<le> y1 + h
      | Line c xa ya xb yb \<Rightarrow> in_rect x1 y1 w h (xa, ya) \<and> in_rect x1 y1 w h (xb, yb)
      | Dot c x y \<Rightarrow> x1 \<le> x \<and> x \<le> x1 + w \<and> y1 \<le> y \<and> y \<le> y1 + h
      | Triangle c ps \<Rightarrow> list_all (\<lambda>p. of_int x1 - 6 \<le> fst p \<and> fst p \<le> of_int (x1 + w) + 6 \<and>
            of_int y1 \<le> snd p \<and> snd p \<le> of_int (y1 + h)) ps)"

lemma fill_inside:
  assumes "0 \<le> h"
  shows "x1 \<le> x \<Longrightarrow> \<forall>p \<in> set pts. in_rect x1 y1 w h p \<Longrightarrow>
     list_all (inside x1 y1 w h) (spark_fill c (x1 + w) (y1 + h) x pts)"
proof (induction c "x1 + w" "y1 + h" x pts rule: spark_fill.induct)
  case (1 c x pts)
  show ?case
  proof (cases "x1 + w < x")
    case True
    then show ?thesis by (subst spark_fill.simps) simp
  next
    case False
    show ?thesis
    proof (cases "advance (of_int x) pts")
      case Nil
      then show ?thesis using False by (subst spark_fill.simps) simp
    next
      case (Cons p rest)
      show ?thesis
      proof (cases rest)
        case Nil
        then show ?thesis using False Cons by (subst spark_fill.simps) simp
      next
        case adv: (Cons q ps)
        have in_pts: "\<forall>r \<in> set (p # q # ps). in_rect x1 y1 w h r"
          using 1(3) advance_subset [of "of_int x" pts] unfolding Cons adv by blast
        then have "y1 \<le> height_at (of_int x) p q"
          by (intro height_between(1) [of _ _ "y1 + h"]) (simp_all add: in_rect_def)
        moreover have "list_all (inside x1 y1 w h) (spark_fill c (x1 + w) (y1 + h) (x + 2) (p # q # ps))"
          using 1(1) [OF False Cons adv refl _ in_pts] 1(2) by simp
        ultimately show ?thesis using False 1(2) Cons adv
          by (subst spark_fill.simps) (simp add: Let_def inside_def)
      qed
    qed
  qed
qed

lemma trunc_in_rect:
  assumes "in_rect x1 y1 w h p" "0 \<le> x1" "0 \<le> y1"
  shows "x1 \<le> trunc_int (fst p)" "trunc_int (fst p) \<le> x1 + w" "y1 \<le> trunc_int (snd p)" "trunc_int (snd p) \<le> y1 + h"
proof -
  have "(0 :: double) \<le> of_int x1" "(0 :: double) \<le> of_int y1" using assms(2,3) by simp_all
  then have "0 \<le> fst p" "0 \<le> snd p" using assms(1) unfolding in_rect_def by linarith+
  then show "x1 \<le> trunc_int (fst p)" "trunc_int (fst p) \<le> x1 + w" "y1 \<le> trunc_int (snd p)" "trunc_int (snd p) \<le> y1 + h"
    using assms(1) by (simp_all add: in_rect_def trunc_int_def le_floor_iff floor_le_iff)
qed

text \<open>With at most 61 values that are not negative and drops inside the hour.\<close>

lemma spark_inside:
  assumes "\<forall>x \<in> set v. 0 \<le> x" "length v \<le> Suc NET_HIST_N" "\<forall>f \<in> set (sk_drop_x s). 0 \<le> f \<and> f \<le> 1"
    and "0 \<le> w" "22 \<le> h" "0 \<le> x1" "0 \<le> y1"
  shows "list_all (inside x1 y1 w h) (spark_draw x1 y1 w h s v)"
proof -
  let ?pts = "spark_points x1 y1 w h v"
  have h0: "0 \<le> h" using assms(5) by simp
  have pts: "\<forall>p \<in> set ?pts. in_rect x1 y1 w h p" by (rule points_in_rect [OF assms(1,2,4) h0])
  have drop: "list_all (inside x1 y1 w h) (drop_mark x1 y1 w h f)" if "f \<in> set (sk_drop_x s)" for f
  proof -
    have w0: "(0 :: double) \<le> of_int w" using assms(4) by simp
    have "0 \<le> f" "f \<le> 1" using assms(3) that by simp_all
    then have "0 \<le> f * of_int w" "f * of_int w \<le> 1 * of_int w"
      using mult_nonneg_nonneg [of f "of_int w"] mult_right_mono [of f 1 "of_int w"] w0 by simp_all
    moreover have "(22 :: double) \<le> of_int h" using assms(5) by simp
    ultimately show ?thesis by (simp add: drop_mark_def inside_def in_rect_def Let_def)
  qed
  have lines: "list_all (inside x1 y1 w h) (map2 (\<lambda>p q. Line c (fst p) (snd p) (fst q) (snd q)) ?pts (tl ?pts))" for c
  proof -
    have "set (tl ?pts) \<subseteq> set ?pts" by (cases ?pts) auto
    then have "in_rect x1 y1 w h p \<and> in_rect x1 y1 w h q" if "(p, q) \<in> set (zip ?pts (tl ?pts))" for p q
      using that pts set_zip_leftD set_zip_rightD by fast
    then show ?thesis by (auto simp: list_all_iff inside_def)
  qed
  show ?thesis
  proof (cases "v = []")
    case True
    then show ?thesis using drop by (auto simp: spark_draw_def Let_def list_all_iff)
  next
    case False
    then have ne: "?pts \<noteq> []" by (simp add: spark_points_def Let_def)
    have first: "x1 \<le> trunc_int (fst (hd ?pts))"
      using trunc_in_rect(1) [OF bspec [OF pts hd_in_set [OF ne]] assms(6,7)] .
    note end_in = trunc_in_rect [OF bspec [OF pts last_in_set [OF ne]] assms(6,7)]
    have "list_all (inside x1 y1 w h) (spark_fill c (x1 + w) (y1 + h) (trunc_int (fst (hd ?pts))) ?pts)" for c
      by (rule fill_inside [OF h0 first pts])
    moreover have "inside x1 y1 w h (Dot c (trunc_int (fst (last ?pts))) (trunc_int (snd (last ?pts))))" for c
      using end_in by (simp add: inside_def)
    ultimately show ?thesis using drop lines False
      by (simp add: spark_draw_def Let_def) (simp add: list_all_iff)
  qed
qed

section \<open>Every sparkline of a run\<close>

definition rates_ok :: "net_host \<Rightarrow> bool" where
  "rates_ok h \<longleftrightarrow> (\<forall>x. Finite x \<in> set (nh_hist h) \<longrightarrow> 0 \<le> x) \<and> 0 \<le> nh_acc_sum h \<and> 0 \<le> nh_acc_n h"

lemma rates_ok_other [simp]:
  "rates_ok (h\<lparr>nh_state := x\<rparr>) = rates_ok h" "rates_ok (h\<lparr>nh_has_ack := b\<rparr>) = rates_ok h"
  "rates_ok (h\<lparr>nh_ack := a\<rparr>) = rates_ok h"
  by (simp_all add: rates_ok_def)

lemma accumulate_rates: "rates_ok h \<Longrightarrow> 0 \<le> bps \<Longrightarrow> rates_ok (accumulate bps now h)"
  by (auto simp: rates_ok_def accumulate_def hist_push_def Let_def to_single_def dest: in_set_dropD split: if_splits)

lemma rates_update:
  assumes "\<forall>h \<in> set (ns_hosts s). rates_ok h" "rates_ok (f (ns_hosts s ! i))"
  shows "\<forall>h \<in> set (ns_hosts (update_host i f s)). rates_ok h"
  using assms by (auto simp: update_host_def dest: update_mem)

lemma run_rates: "net_run J s \<Longrightarrow> \<forall>h \<in> set (ns_hosts s). rates_ok h"
proof (induction rule: net_run.induct)
  case (net_start hosts s)
  show ?case by (auto simp: net_set_hosts_def rates_ok_def blank_host_def)
next
  case (net_seed s hosts)
  then show ?case using seed_fold [of hosts s]
    by (auto simp: net_seed_admitted_def rates_ok_def Let_def)
next
  case (net_poll_ack s host json)
  show ?case
  proof (cases "find_host host s")
    case None
    then show ?thesis using net_poll_ack.IH by (simp add: net_observe_ack_def)
  next
    case (Some i)
    have h: "rates_ok (ns_hosts s ! i)" using net_poll_ack.IH find_host_Some [OF Some] by simp
    show ?thesis unfolding net_observe_ack_def Some option.case
      by (split option.split, intro conjI impI allI; rule rates_update [OF net_poll_ack.IH], simp add: h)
  qed
next
  case (net_poll s host json now)
  show ?case
  proof (cases "find_host host s")
    case None
    then show ?thesis using net_poll.IH by (simp add: net_observe_def)
  next
    case (Some i)
    have h: "rates_ok (ns_hosts s ! i)" using net_poll.IH find_host_Some [OF Some] by simp
    show ?thesis
    proof (cases "Option.bind json (net_parse_json J)")
      case None
      have "\<forall>h \<in> set (ns_hosts (update_host i (\<lambda>h. h\<lparr>nh_state := NET_COL_STALE\<rparr>) s)). rates_ok h"
        by (rule rates_update [OF net_poll.IH]) (simp add: h)
      then show ?thesis using observe_absent [OF Some None] net_poll.IH by simp
    next
      case good: (Some r0)
      let ?r = "if nh_has_ack (ns_hosts s ! i) then net_apply_ack r0 (nh_ack (ns_hosts s ! i)) else r0"
      have "record_ok r0" using good net_parse_ok by (cases json) auto
      then have "0 \<le> nr_bytes_per_s ?r" by (simp add: record_ok_def net_apply_ack_def)
      then have "rates_ok (accumulate (nr_bytes_per_s ?r) now
          ((ns_hosts s ! i)\<lparr>nh_rec := ?r, nh_has_rec := True, nh_state := NET_COL_LIVE\<rparr>))"
        using h by (intro accumulate_rates) (simp_all add: rates_ok_def)
      then show ?thesis using net_poll.IH unfolding observe_good [OF Some good, where now = now]
        by (auto dest!: update_mem)
    qed
  qed
next
  case (net_saved s)
  then show ?case by (simp add: net_admitted_take_dirty_def)
qed

section \<open>Properties\<close>


definition steady_doc :: "double \<Rightarrow> jv cjson" where
  "steady_doc bps = tree_cjson (\<lambda>s. Some (JObj [(''leg'', JStr ''10g''), (''speed_mbps'', JNull), (''bond'', JBool False),
     (''lfc'', JNull), (''lfc_delta_24h'', JNull), (''rx_errors'', JNull), (''rx_errors_delta_24h'', JNull),
     (''reach'', JObj [(''udm'', JBool True), (''peers'', JBool True), (''wan'', JBool True)]),
     (''rtt_ms'', JObj [(''udm'', JNull), (''wan'', JNull)]), (''bytes_per_s'', JNum bps),
     (''drops'', JArr []), (''ts'', JNum 1700000100)]))"

definition steady_run :: "double \<Rightarrow> net_state" where
  "steady_run bps = net_observe (steady_doc bps) ''kai'' (Some ''r'') 5 (net_set_hosts [''kai''] net_empty)"

lemma steady_runs: "net_run (steady_doc bps) (steady_run bps)"
  unfolding steady_run_def by (intro net_poll net_start)


text \<open>The parser has no upper bound on the rate: a record of \<open>10 ^ 300\<close> bytes a second is accepted, its mean is
  infinite as a \<open>float\<close>, and the heights that are drawn are undefined.\<close>

theorem huge_rate_undefined:
  "net_run (steady_doc (10 ^ 300)) (steady_run (10 ^ 300)) \<and>
   spark_draw_cb 16 160 193 99 (spark_data (ns_hosts (steady_run (10 ^ 300)) ! 0) 5 7) = None"
proof -
  have "spark_draw_cb 16 160 193 99 (spark_data (ns_hosts (steady_run (10 ^ 300)) ! 0) 5 7) = None" by code_simp
  with steady_runs show ?thesis by blast
qed

end
