(* ===== verification/Activities_Widget.thy ===== *)
theory Activities_Widget
  imports Palette Redis_Poll "HOL-Library.Signed_Division"
begin

text \<open>
  The activities widget (\<open>src/src/widgets/activities.c\<close>), which the dashboard compiles out today: the cache
  that skips a redraw when nothing but the times changed, the rows, and the timer that every row of a
  running activity owns.  The day of the week of a local time is a parameter.
\<close>

section \<open>State\<close>

abbreviation "ACTIVITY_ID_LEN \<equiv> 37 :: nat"
abbreviation "ACTIVITY_NAME_LEN \<equiv> 128 :: nat"

text \<open>\<open>ar_timer\<close> is the start time that the timer of the row counts from.\<close>

record activity_row =
  ar_host :: string
  ar_duration :: string
  ar_timer :: "double option"
  ar_dow :: string
  ar_name :: string
  ar_color :: color

text \<open>No row stands for the placeholder; the cache is \<open>None\<close> before the first draw.\<close>

record activities_widget =
  aw_cache :: "activity list option"
  aw_rows :: "activity_row list"

section \<open>Operations\<close>

text \<open>\<open>%02d\<close>\<close>

definition two_digits :: "int \<Rightarrow> string" where
  "two_digits i = (if 0 \<le> i \<and> i < 10 then ''0'' @ dec_int i else dec_int i)"

definition format_duration :: "nat \<Rightarrow> int \<Rightarrow> string" where
  "format_duration n dur_s =
     (let h = c_int (dur_s sdiv 3600); m = c_int (dur_s smod 3600 sdiv 60); s = c_int (dur_s smod 60)
      in buf_copy n (if 0 < h then dec_int h @ ''h '' @ two_digits m @ ''m''
                     else dec_int m @ ''m '' @ two_digits s @ ''s''))"

definition elapsed_timer_cb :: "double \<Rightarrow> activity_row \<Rightarrow> activity_row" where
  "elapsed_timer_cb now r =
     (case ar_timer r of
        None \<Rightarrow> r
      | Some start \<Rightarrow>
          (let elapsed = now - start; h = cast_int (elapsed / 3600);
               m = c_int (cast_long elapsed smod 3600 sdiv 60); s = c_int (cast_long elapsed smod 60)
           in r\<lparr>ar_duration := buf_copy 32 (if 0 < h then dec_int h @ ''h '' @ two_digits m @ ''m''
                     else dec_int m @ ''m '' @ two_digits s @ ''s'')\<rparr>))"

definition DOW_NAMES :: "string list" where
  "DOW_NAMES = [''Sun'', ''Mon'', ''Tue'', ''Wed'', ''Thu'', ''Fri'', ''Sat'']"

definition dow_from_ts :: "(int \<Rightarrow> nat option) \<Rightarrow> double \<Rightarrow> string" where
  "dow_from_ts wday ts = (case wday (cast_long ts) of None \<Rightarrow> ''???'' | Some d \<Rightarrow> DOW_NAMES ! d)"

definition activity_equal :: "activity \<Rightarrow> activity \<Rightarrow> bool" where
  "activity_equal a b \<longleftrightarrow> streq ACTIVITY_ID_LEN (ac_id a) (ac_id b) \<and>
     streq ACTIVITY_NAME_LEN (ac_name a) (ac_name b) \<and> streq HOSTNAME_LEN (ac_host a) (ac_host b) \<and>
     ac_is_done a = ac_is_done b"

definition activities_equal :: "activity list \<Rightarrow> activity list \<Rightarrow> bool" where
  "activities_equal as bs \<longleftrightarrow> list_all2 activity_equal as bs"

definition activity_row_of :: "(int \<Rightarrow> nat option) \<Rightarrow> double \<Rightarrow> activity \<Rightarrow> activity_row" where
  "activity_row_of wday now a =
     \<lparr>ar_host = ac_host a,
      ar_duration =
        (if ac_is_done a \<and> 0 < ac_end_ts a \<and> 0 < ac_start_ts a
         then format_duration 32 (cast_long (ac_end_ts a - ac_start_ts a))
         else if \<not> ac_is_done a then format_duration 32 (cast_long (now - ac_start_ts a))
         else ''--''),
      ar_timer = (if ac_is_done a then None else Some (ac_start_ts a)),
      ar_dow = dow_from_ts wday (ac_start_ts a), ar_name = ac_name a,
      ar_color = (if ac_is_done a then WS_COLOR_BLUE else WS_COLOR_GREEN)\<rparr>"

definition activities_widget_create :: activities_widget where
  "activities_widget_create = \<lparr>aw_cache = None, aw_rows = []\<rparr>"

definition activities_widget_update ::
  "(int \<Rightarrow> nat option) \<Rightarrow> double \<Rightarrow> activity list \<Rightarrow> activities_widget \<Rightarrow> activities_widget" where
  "activities_widget_update wday now xs w =
     (let shown = take ACTIVITY_MAX_DISPLAY xs
      in if (case aw_cache w of None \<Rightarrow> False
             | Some c \<Rightarrow> length shown = length c \<and> (shown = [] \<or> activities_equal c shown))
         then w
         else \<lparr>aw_cache = Some shown, aw_rows = map (activity_row_of wday now) shown\<rparr>)"

section \<open>What the rows say\<close>

text \<open>A run of the widget: updates, and ticks of the timers of its rows.\<close>

datatype widget_event = Update double "activity list" | Tick double

definition widget_step :: "(int \<Rightarrow> nat option) \<Rightarrow> widget_event \<Rightarrow> activities_widget \<Rightarrow> activities_widget" where
  "widget_step wday e w =
     (case e of
        Update now xs \<Rightarrow> activities_widget_update wday now xs w
      | Tick now \<Rightarrow> w\<lparr>aw_rows := map (elapsed_timer_cb now) (aw_rows w)\<rparr>)"

definition row_says :: "activity_row \<Rightarrow> string \<times> string \<times> color \<times> bool" where
  "row_says r = (ar_host r, ar_name r, ar_color r, ar_timer r \<noteq> None)"

definition activity_says :: "activity \<Rightarrow> string \<times> string \<times> color \<times> bool" where
  "activity_says a = (ac_host a, ac_name a, if ac_is_done a then WS_COLOR_BLUE else WS_COLOR_GREEN, \<not> ac_is_done a)"

definition activity_fits :: "activity \<Rightarrow> bool" where
  "activity_fits a \<longleftrightarrow> length (ac_id a) < ACTIVITY_ID_LEN \<and> length (ac_name a) < ACTIVITY_NAME_LEN \<and> length (ac_host a) < HOSTNAME_LEN"

lemma equal_says: "activity_fits a \<Longrightarrow> activity_equal a b \<Longrightarrow> activity_says a = activity_says b"
  by (simp add: activity_fits_def activity_equal_def activity_says_def streq_fits)

lemma row_of_says: "row_says (activity_row_of wday now a) = activity_says a"
  by (simp add: row_says_def activity_row_of_def activity_says_def)

lemma tick_says: "row_says (elapsed_timer_cb now r) = row_says r"
  by (simp add: row_says_def elapsed_timer_cb_def Let_def split: option.split)

definition widget_ok :: "activity list option \<Rightarrow> activities_widget \<Rightarrow> bool" where
  "widget_ok given w \<longleftrightarrow>
     (case given of
        None \<Rightarrow> aw_cache w = None \<and> aw_rows w = []
      | Some xs \<Rightarrow> \<exists>c. aw_cache w = Some c \<and> list_all activity_fits c \<and> map row_says (aw_rows w) = map activity_says c \<and>
          map activity_says c = map activity_says (take ACTIVITY_MAX_DISPLAY xs))"

lemma update_widget_ok:
  assumes "widget_ok given w" "list_all activity_fits xs"
  shows "widget_ok (Some xs) (activities_widget_update wday now xs w)"
proof -
  let ?shown = "take ACTIVITY_MAX_DISPLAY xs"
  have fit: "list_all activity_fits ?shown" using assms(2) by (auto simp: list_all_iff dest: in_set_takeD)
  show ?thesis
  proof (cases "case aw_cache w of None \<Rightarrow> False
      | Some c \<Rightarrow> length ?shown = length c \<and> (?shown = [] \<or> activities_equal c ?shown)")
    case False
    then have "activities_widget_update wday now xs w = \<lparr>aw_cache = Some ?shown, aw_rows = map (activity_row_of wday now) ?shown\<rparr>"
      by (simp add: activities_widget_update_def Let_def)
    then show ?thesis using fit by (simp add: widget_ok_def row_of_says)
  next
    case True
    then obtain c where c: "aw_cache w = Some c" "length ?shown = length c" "?shown = [] \<or> activities_equal c ?shown"
      by (auto split: option.splits)
    obtain ys where "given = Some ys" using assms(1) c(1) by (cases given) (simp_all add: widget_ok_def)
    then have old: "list_all activity_fits c" "map row_says (aw_rows w) = map activity_says c"
      using assms(1) c(1) by (auto simp: widget_ok_def)
    have "map activity_says c = map activity_says ?shown"
    proof (cases "?shown = []")
      case True
      then show ?thesis using c(2) by simp
    next
      case False
      then have "list_all2 activity_equal c ?shown" using c(3) by (simp add: activities_equal_def)
      then show ?thesis using old(1) equal_says
        by (auto simp: list_all2_conv_all_nth list_all_length intro!: nth_equalityI)
    qed
    moreover have "activities_widget_update wday now xs w = w" using True by (simp add: activities_widget_update_def Let_def)
    ultimately show ?thesis using c(1) old by (simp add: widget_ok_def)
  qed
qed

lemma tick_widget_ok: "widget_ok given w \<Longrightarrow> widget_ok given (w\<lparr>aw_rows := map (elapsed_timer_cb now) (aw_rows w)\<rparr>)"
  by (auto simp: widget_ok_def tick_says comp_def split: option.splits)

definition last_given :: "widget_event list \<Rightarrow> activity list option" where
  "last_given es = fold (\<lambda>e g. case e of Update now xs \<Rightarrow> Some xs | Tick now \<Rightarrow> g) es None"

text \<open>The rows always say what the last list says, although an update that changes only times is skipped:
  the same hosts, names and colours in the same order, at most ten, and a running clock exactly on the
  activities that are not done.\<close>

theorem activities_widget_shows:
  assumes "\<forall>now xs. Update now xs \<in> set es \<longrightarrow> list_all activity_fits xs"
  shows "map row_says (aw_rows (fold (widget_step wday) es activities_widget_create)) =
    (case last_given es of None \<Rightarrow> [] | Some xs \<Rightarrow> map activity_says (take ACTIVITY_MAX_DISPLAY xs))"
proof -
  have "widget_ok (last_given es) (fold (widget_step wday) es activities_widget_create)"
    using assms
  proof (induction es rule: rev_induct)
    case Nil
    show ?case by (simp add: last_given_def widget_ok_def activities_widget_create_def)
  next
    case (snoc e es)
    then have IH: "widget_ok (last_given es) (fold (widget_step wday) es activities_widget_create)" by simp
    show ?case
    proof (cases e)
      case (Update now xs)
      then have "list_all activity_fits xs" using snoc.prems by auto
      from update_widget_ok [OF IH this] show ?thesis by (simp add: Update widget_step_def [of wday "Update now xs"] last_given_def)
    next
      case (Tick now)
      then show ?thesis using tick_widget_ok [OF IH] by (simp add: widget_step_def [of wday "Tick now"] last_given_def)
    qed
  qed
  then show ?thesis by (auto simp: widget_ok_def split: option.splits)
qed

end
