(* ===== verification/Strip_Cards.thy ===== *)
theory Strip_Cards
  imports Palette
begin

text \<open>
  The cards of the footer strip as the labels they are made of (\<open>src/src/widgets/service_card.c\<close>,
  \<open>apt_temps_card.c\<close>): what a card is created with, what an update sets, and what is left of the old
  contents.  Theory \<open>Footer_Cards\<close> takes the face of a card to be that of its last update; the lemmas
  here show that the labels show it.  Sizes, fonts and paddings are left out.
\<close>

section \<open>Labels\<close>

text \<open>The contents of a label just made (None) are LVGL's.\<close>

record 'a label =
  lb_text :: "'a option"
  lb_color :: color
  lb_hidden :: bool

definition label_create :: "color \<Rightarrow> 'a label" where
  "label_create c = \<lparr>lb_text = None, lb_color = c, lb_hidden = False\<rparr>"

definition set_text :: "'a \<Rightarrow> 'a label \<Rightarrow> 'a label" where
  "set_text t l = l\<lparr>lb_text := Some t\<rparr>"

definition show_or_hide :: "'a option \<Rightarrow> 'a label \<Rightarrow> 'a label" where
  "show_or_hide t l =
     (case t of
        Some t \<Rightarrow> (set_text t l)\<lparr>lb_hidden := False\<rparr>
      | None \<Rightarrow> l\<lparr>lb_hidden := True\<rparr>)"

text \<open>What a viewer sees of a label, and of a card: its border, its icon, its lines.\<close>

definition label_seen :: "'a label \<Rightarrow> ('a \<times> color) option" where
  "label_seen l = (if lb_hidden l then None else map_option (\<lambda>t. (t, lb_color l)) (lb_text l))"

type_synonym sight = "color \<times> (8 word list \<times> color) option \<times> (string \<times> color) option list"

lemmas label_simps = label_create_def set_text_def show_or_hide_def label_seen_def

section \<open>The service card\<close>

record service_card =
  sw_border :: color
  sw_icon :: "8 word list label"
  sw_name :: "string label"
  sw_host :: "string label"
  sw_text :: "string label"

definition color_for :: "service_color_t \<Rightarrow> color" where
  "color_for c =
     (case c of
        SERVICE_COLOR_GREEN \<Rightarrow> 0x40A02B
      | SERVICE_COLOR_YELLOW \<Rightarrow> 0xDF8E1D
      | SERVICE_COLOR_BLUE \<Rightarrow> 0x1E66F5
      | SERVICE_COLOR_RED \<Rightarrow> 0xD20F39
      | SERVICE_COLOR_GRAY \<Rightarrow> 0x6C7086)"

abbreviation "COLOR_SUBTEXT \<equiv> 0xA6ADC8 :: color"

definition name_line :: "service_entry \<Rightarrow> string" where
  "name_line e = (if se_name e \<noteq> [] then se_name e else ''(service)'')"

definition host_line :: "service_entry \<Rightarrow> string option" where
  "host_line e = (if se_host e \<noteq> [] \<and> se_host e \<noteq> ''_'' then Some (se_host e) else None)"

definition service_card_made :: "service_entry \<Rightarrow> service_card" where
  "service_card_made e =
     \<lparr>sw_border = color_for SERVICE_COLOR_GRAY,
      sw_icon = show_or_hide (glyph (se_icon_index e)) (label_create WS_COLOR_FG),
      sw_name = set_text (name_line e) (label_create WS_COLOR_FG),
      sw_host = show_or_hide (host_line e) (label_create COLOR_SUBTEXT),
      sw_text = set_text (se_text e) (label_create WS_COLOR_FG)\<rparr>"

text \<open>The objects of the strip, by handle; \<open>k\<close> is the handle that \<open>lv_obj_create\<close> gives.\<close>

definition service_card_create ::
  "nat option \<Rightarrow> nat \<Rightarrow> service_entry \<Rightarrow> (nat \<rightharpoonup> service_card) \<Rightarrow> nat option \<times> service_entry \<times> (nat \<rightharpoonup> service_card)" where
  "service_card_create parent k e W =
     (case parent of
        None \<Rightarrow> (None, e, W)
      | Some _ \<Rightarrow> (Some k, e\<lparr>se_container := Some k\<rparr>, W(k \<mapsto> service_card_made e)))"

definition repaint_service :: "service_entry \<times> double \<Rightarrow> service_card \<Rightarrow> service_card" where
  "repaint_service en w =
     (case en of (e, now) \<Rightarrow>
        w\<lparr>sw_border := color_for (service_color e now),
          sw_text := set_text (se_text e) (sw_text w),
          sw_name := set_text (name_line e) (sw_name w),
          sw_host := show_or_hide (host_line e) (sw_host w),
          sw_icon := show_or_hide (glyph (se_icon_index e)) (sw_icon w)\<rparr>)"

definition service_card_update ::
  "service_entry \<times> double \<Rightarrow> (nat \<rightharpoonup> service_card) \<Rightarrow> (nat \<rightharpoonup> service_card)" where
  "service_card_update en W =
     (case se_container (fst en) of
        None \<Rightarrow> W
      | Some k \<Rightarrow> W(k := map_option (repaint_service en) (W k)))"

definition service_seen :: "service_card \<Rightarrow> sight" where
  "service_seen w =
     (sw_border w, label_seen (sw_icon w), [label_seen (sw_name w), label_seen (sw_host w), label_seen (sw_text w)])"

section \<open>The staleness card\<close>

record stale_card =
  kw_border :: color
  kw_title :: "string label"
  kw_body :: "string label"

abbreviation "STALE_BODY_BUF \<equiv> 512 :: nat"

definition stale_card_made :: "stale_entry \<Rightarrow> stale_card" where
  "stale_card_made e =
     \<lparr>kw_border = color_for SERVICE_COLOR_YELLOW,
      kw_title = set_text (stale_format_title e STALE_BODY_BUF) (label_create WS_COLOR_FG),
      kw_body = set_text (stale_format_body e STALE_BODY_BUF) (label_create COLOR_SUBTEXT)\<rparr>"

definition stale_card_create ::
  "nat option \<Rightarrow> nat \<Rightarrow> stale_entry \<Rightarrow> (nat \<rightharpoonup> stale_card) \<Rightarrow> nat option \<times> stale_entry \<times> (nat \<rightharpoonup> stale_card)" where
  "stale_card_create parent k e W =
     (case parent of
        None \<Rightarrow> (None, e, W)
      | Some _ \<Rightarrow> (Some k, e\<lparr>sx_container := Some k\<rparr>, W(k \<mapsto> stale_card_made e)))"

definition repaint_stale :: "stale_entry \<Rightarrow> stale_card \<Rightarrow> stale_card" where
  "repaint_stale e w =
     w\<lparr>kw_title := set_text (stale_format_title e STALE_BODY_BUF) (kw_title w),
       kw_body := set_text (stale_format_body e STALE_BODY_BUF) (kw_body w)\<rparr>"

definition stale_card_update :: "stale_entry \<Rightarrow> (nat \<rightharpoonup> stale_card) \<Rightarrow> (nat \<rightharpoonup> stale_card)" where
  "stale_card_update e W =
     (case sx_container e of
        None \<Rightarrow> W
      | Some k \<Rightarrow> W(k := map_option (repaint_stale e) (W k)))"

definition stale_seen :: "stale_card \<Rightarrow> sight" where
  "stale_seen w = (kw_border w, None, [label_seen (kw_title w), label_seen (kw_body w)])"

section \<open>The apartment card\<close>

record apt_card =
  aw_border :: color
  aw_zone :: "string label"
  aw_temp :: "string label"
  aw_hum :: "string label"

definition apt_color_for :: "apttemps_color_t \<Rightarrow> color" where
  "apt_color_for c =
     (case c of
        APTTEMPS_COLOR_BLUE \<Rightarrow> WS_COLOR_BLUE
      | APTTEMPS_COLOR_GREEN \<Rightarrow> WS_COLOR_GREEN
      | APTTEMPS_COLOR_ORANGE \<Rightarrow> WS_COLOR_ORANGE
      | APTTEMPS_COLOR_RED \<Rightarrow> WS_COLOR_RED
      | APTTEMPS_COLOR_GRAY \<Rightarrow> WS_COLOR_MUTED)"

definition zone_line :: "apttemps_entry \<Rightarrow> string" where
  "zone_line e = (if at_zone e \<noteq> [] then at_zone e else at_slug e)"

definition apt_card_made :: "apttemps_entry \<Rightarrow> apt_card" where
  "apt_card_made e =
     \<lparr>aw_border = WS_COLOR_SURFACE1,
      aw_zone = set_text (zone_line e) (label_create WS_COLOR_FG),
      aw_temp = set_text (fmt_temp 32 (at_temp_f e)) (label_create WS_COLOR_MUTED),
      aw_hum = set_text (fmt_hum 16 (at_humidity_pct e)) (label_create WS_COLOR_MUTED)\<rparr>"

definition apt_temps_card_create ::
  "nat option \<Rightarrow> nat \<Rightarrow> apttemps_entry \<Rightarrow> (nat \<rightharpoonup> apt_card) \<Rightarrow> nat option \<times> apttemps_entry \<times> (nat \<rightharpoonup> apt_card)" where
  "apt_temps_card_create parent k e W =
     (case parent of
        None \<Rightarrow> (None, e, W)
      | Some _ \<Rightarrow> (Some k, e\<lparr>at_container := Some k\<rparr>, W(k \<mapsto> apt_card_made e)))"

definition repaint_apt :: "kdash \<Rightarrow> apttemps_entry \<times> double \<Rightarrow> apt_card \<Rightarrow> apt_card" where
  "repaint_apt K en w =
     (case en of (e, now) \<Rightarrow>
        w\<lparr>aw_zone := set_text (zone_line e) (aw_zone w),
          aw_temp := (set_text (fmt_temp 32 (at_temp_f e)) (aw_temp w))\<lparr>lb_color := apt_color_for (apttemps_color K e now)\<rparr>,
          aw_hum := set_text (fmt_hum 16 (at_humidity_pct e)) (aw_hum w)\<rparr>)"

definition apt_temps_card_update ::
  "kdash \<Rightarrow> apttemps_entry \<times> double \<Rightarrow> (nat \<rightharpoonup> apt_card) \<Rightarrow> (nat \<rightharpoonup> apt_card)" where
  "apt_temps_card_update K en W =
     (case at_container (fst en) of
        None \<Rightarrow> W
      | Some k \<Rightarrow> W(k := map_option (repaint_apt K en) (W k)))"

definition apt_seen :: "apt_card \<Rightarrow> sight" where
  "apt_seen w = (aw_border w, None, [label_seen (aw_zone w), label_seen (aw_temp w), label_seen (aw_hum w)])"

section \<open>The sight of a face\<close>

definition face_sight :: "face \<Rightarrow> sight" where
  "face_sight f =
     (case f of
        ServiceFace c name host body icon \<Rightarrow>
          (color_for c, map_option (\<lambda>g. (g, WS_COLOR_FG)) icon,
           [Some (name, WS_COLOR_FG), map_option (\<lambda>h. (h, COLOR_SUBTEXT)) host, Some (body, WS_COLOR_FG)])
      | StaleFace title body \<Rightarrow>
          (color_for SERVICE_COLOR_YELLOW, None, [Some (title, WS_COLOR_FG), Some (body, COLOR_SUBTEXT)])
      | AptFace c zone temp hum \<Rightarrow>
          (WS_COLOR_SURFACE1, None,
           [Some (zone, WS_COLOR_FG), Some (temp, apt_color_for c), Some (hum, WS_COLOR_MUTED)]))"

text \<open>Two faces that look the same are the same.\<close>

lemma color_for_inj: "color_for c = color_for d \<longleftrightarrow> c = d"
  by (cases c; cases d) (simp_all add: color_for_def)

lemma apt_color_for_inj: "apt_color_for c = apt_color_for d \<longleftrightarrow> c = d"
  by (cases c; cases d) (simp_all add: apt_color_for_def)

lemma same_optional: "inj f \<Longrightarrow> map_option f a = map_option f b \<longleftrightarrow> a = b"
  by (metis option.inj_map_strong injD)

lemma same_colored: "map_option (\<lambda>t. (t, c)) a = map_option (\<lambda>t. (t, c)) b \<longleftrightarrow> a = b"
  by (rule same_optional) (simp add: inj_def)

theorem sight_tells_face: "face_sight f = face_sight g \<longleftrightarrow> f = g"
  by (cases f; cases g) (auto simp: face_sight_def color_for_inj apt_color_for_inj same_colored)

section \<open>The contract of a card\<close>

text \<open>A card is made for an entry and repainted with what the entry then holds; what is fixed at its
  making (\<open>kept\<close>) is never lost, so that each repaint shows what is seen of its own entry alone.\<close>

locale painted_card =
  fixes container :: "'u \<Rightarrow> nat option"
    and repaint :: "'u \<Rightarrow> 'w \<Rightarrow> 'w"
    and seen :: "'w \<Rightarrow> sight"
    and looks :: "'u \<Rightarrow> sight"
    and kept :: "'w \<Rightarrow> bool"
  assumes repaint_kept: "kept w \<Longrightarrow> kept (repaint u w)"
    and repaint_seen: "kept w \<Longrightarrow> seen (repaint u w) = looks u"
begin

definition update_card :: "'u \<Rightarrow> (nat \<rightharpoonup> 'w) \<Rightarrow> (nat \<rightharpoonup> 'w)" where
  "update_card u W = (case container u of None \<Rightarrow> W | Some k \<Rightarrow> W(k := map_option (repaint u) (W k)))"

lemma update_own: "container u = Some k \<Longrightarrow> update_card u W k = map_option (repaint u) (W k)"
  by (simp add: update_card_def)

lemma update_other: "container u \<noteq> Some k \<Longrightarrow> update_card u W k = W k"
  by (auto simp: update_card_def split: option.split)

lemma updates_follow:
  assumes "W k = Some w" "kept w"
  shows "\<exists>w'. fold update_card us W k = Some w' \<and> kept w' \<and>
           seen w' = (let own = filter (\<lambda>u. container u = Some k) us in if own = [] then seen w else looks (last own))"
proof (induction us rule: rev_induct)
  case Nil
  then show ?case using assms by simp
next
  case (snoc u us)
  then obtain w' where w': "fold update_card us W k = Some w'" "kept w'"
      "seen w' = (let own = filter (\<lambda>u. container u = Some k) us in if own = [] then seen w else looks (last own))"
    by blast
  show ?case
  proof (cases "container u = Some k")
    case True
    then show ?thesis using w'(1,2) by (simp add: update_own repaint_kept repaint_seen)
  next
    case False
    then show ?thesis using w' by (simp add: update_other)
  qed
qed

end

text \<open>What is fixed when a card is made: the colours of its labels, and which of them are always shown.\<close>

definition service_kept :: "service_card \<Rightarrow> bool" where
  "service_kept w \<longleftrightarrow>
     lb_color (sw_icon w) = WS_COLOR_FG \<and> lb_color (sw_name w) = WS_COLOR_FG \<and>
     lb_color (sw_host w) = COLOR_SUBTEXT \<and> lb_color (sw_text w) = WS_COLOR_FG \<and>
     \<not> lb_hidden (sw_name w) \<and> \<not> lb_hidden (sw_text w)"

definition stale_kept :: "stale_card \<Rightarrow> bool" where
  "stale_kept w \<longleftrightarrow>
     kw_border w = color_for SERVICE_COLOR_YELLOW \<and> lb_color (kw_title w) = WS_COLOR_FG \<and>
     lb_color (kw_body w) = COLOR_SUBTEXT \<and> \<not> lb_hidden (kw_title w) \<and> \<not> lb_hidden (kw_body w)"

definition apt_kept :: "apt_card \<Rightarrow> bool" where
  "apt_kept w \<longleftrightarrow>
     aw_border w = WS_COLOR_SURFACE1 \<and> lb_color (aw_zone w) = WS_COLOR_FG \<and> lb_color (aw_hum w) = WS_COLOR_MUTED \<and>
     \<not> lb_hidden (aw_zone w) \<and> \<not> lb_hidden (aw_temp w) \<and> \<not> lb_hidden (aw_hum w)"

interpretation service_cards: painted_card "\<lambda>en. se_container (fst en)" repaint_service service_seen
    "\<lambda>en. face_sight (service_face (service_color (fst en) (snd en)) (fst en))" service_kept
  by unfold_locales
    (auto simp: service_kept_def repaint_service_def service_seen_def face_sight_def service_face_def label_simps
       name_line_def host_line_def split: prod.split option.split)

interpretation stale_cards: painted_card sx_container repaint_stale stale_seen "\<lambda>e. face_sight (stale_face e)" stale_kept
  by unfold_locales
    (simp_all add: stale_kept_def repaint_stale_def stale_seen_def face_sight_def stale_face_def label_simps)

interpretation apt_cards: painted_card "\<lambda>en. at_container (fst en)" "repaint_apt K" apt_seen
    "\<lambda>en. face_sight (apt_face (apttemps_color K (fst en) (snd en)) (fst en))" apt_kept
  for K
  by unfold_locales
    (auto simp: apt_kept_def repaint_apt_def apt_seen_def face_sight_def apt_face_def label_simps zone_line_def
       split: prod.split)

lemma updates_are_contract:
  "service_card_update = service_cards.update_card"
  "stale_card_update = stale_cards.update_card"
  "apt_temps_card_update K = apt_cards.update_card K"
  by (intro ext; simp add: service_card_update_def stale_card_update_def apt_temps_card_update_def
        service_cards.update_card_def stale_cards.update_card_def apt_cards.update_card_def)+

section \<open>A new card\<close>

lemma service_made: "service_kept (service_card_made e)"
    "service_seen (service_card_made e) = face_sight (service_face SERVICE_COLOR_GRAY e)"
  by (auto simp: service_kept_def service_card_made_def service_seen_def face_sight_def service_face_def label_simps
        name_line_def host_line_def split: option.split)

lemma stale_made: "stale_kept (stale_card_made e)" "stale_seen (stale_card_made e) = face_sight (stale_face e)"
  by (simp_all add: stale_kept_def stale_card_made_def stale_seen_def face_sight_def stale_face_def label_simps)

lemma apt_made: "apt_kept (apt_card_made e)"
    "apt_seen (apt_card_made e) = face_sight (apt_face APTTEMPS_COLOR_GRAY e)"
  by (simp_all add: apt_kept_def apt_card_made_def apt_seen_def face_sight_def apt_face_def label_simps
        zone_line_def apt_color_for_def)

section \<open>Cards after any history\<close>

text \<open>What a card shows after updates of the strip, from what it showed when made: the last update of its
  own entry, if there was one.\<close>

definition last_look :: "('u \<Rightarrow> nat option) \<Rightarrow> ('u \<Rightarrow> face) \<Rightarrow> nat \<Rightarrow> face \<Rightarrow> 'u list \<Rightarrow> sight" where
  "last_look container look k first us =
     (let own = filter (\<lambda>u. container u = Some k) us in face_sight (if own = [] then first else look (last own)))"

text \<open>C28: after any updates of the strip a service, a staleness or an apartment card shows exactly the face of
  the last update of its own entry, lines that are hidden included; before the first update it shows the
  gray or plain face of the entry it was made for.\<close>

theorem strip_cards_show:
  "(\<exists>w. fold service_card_update us (snd (snd (service_card_create (Some p) k e W))) k = Some w \<and>
      service_seen w = last_look (\<lambda>en. se_container (fst en))
        (\<lambda>en. service_face (service_color (fst en) (snd en)) (fst en)) k (service_face SERVICE_COLOR_GRAY e) us) \<and>
   (\<exists>w. fold stale_card_update us' (snd (snd (stale_card_create (Some p) k e' W'))) k = Some w \<and>
      stale_seen w = last_look sx_container stale_face k (stale_face e') us') \<and>
   (\<exists>w. fold (apt_temps_card_update K) us'' (snd (snd (apt_temps_card_create (Some p) k e'' W''))) k = Some w \<and>
      apt_seen w = last_look (\<lambda>en. at_container (fst en))
        (\<lambda>en. apt_face (apttemps_color K (fst en) (snd en)) (fst en)) k (apt_face APTTEMPS_COLOR_GRAY e'') us'')"
  using service_cards.updates_follow [of "W(k \<mapsto> service_card_made e)" k "service_card_made e" us]
    stale_cards.updates_follow [of "W'(k \<mapsto> stale_card_made e')" k "stale_card_made e'" us']
    apt_cards.updates_follow [of "W''(k \<mapsto> apt_card_made e'')" k "apt_card_made e''" K us'']
  by (auto simp: updates_are_contract service_made stale_made apt_made last_look_def Let_def
        service_card_create_def stale_card_create_def apt_temps_card_create_def)

section \<open>The numbers of an apartment card\<close>

text \<open>A humidity is never cut, nor is a temperature of fewer than 24 digits.\<close>

theorem apt_numbers_whole:
  assumes "\<bar>t\<bar> < 10 ^ 24" "-(2 ^ 31) \<le> h" "h < 2 ^ 31"
  shows "fmt_temp 32 t = one_decimal t @ [CHR 0xC2, CHR 0xB0] @ ''F'' \<and> fmt_hum 16 h = dec_int h @ ''%''"
proof
  have "\<bar>10 * t\<bar> \<le> of_int (10 ^ 25)" using assms(1) by simp
  then have "\<bar>round_even (10 * t)\<bar> \<le> 10 ^ 25"
    using round_even_range [of "- (10 ^ 25)" "10 * t" "10 ^ 25"] by (simp add: abs_le_iff)
  then have "nat \<bar>round_even (10 * t)\<bar> div 10 < 10 ^ 25" "nat \<bar>round_even (10 * t)\<bar> mod 10 < 10 ^ 1" by simp_all
  then have "length (dec (nat \<bar>round_even (10 * t)\<bar> div 10)) \<le> 25" "length (dec (nat \<bar>round_even (10 * t)\<bar> mod 10)) \<le> 1"
    by (intro length_dec; simp)+
  then show "fmt_temp 32 t = one_decimal t @ [CHR 0xC2, CHR 0xB0] @ ''F''"
    by (simp add: fmt_temp_def buf_copy_id one_decimal_def Let_def)
  have "length (dec_int h) \<le> Suc 10" using assms(2,3) by (intro length_dec_int) simp_all
  then show "fmt_hum 16 h = dec_int h @ ''%''" by (simp add: fmt_hum_def buf_copy_id)
qed

lemma apt_numbers_whole_witness:
  "fmt_temp 32 (725 / 10) = ''72.5'' @ [CHR 0xC2, CHR 0xB0] @ ''F'' \<and> fmt_hum 16 (-7) = ''-7%''"
proof -
  have "one_decimal (725 / 10) = ''72.5''" "dec_int (-7) = ''-7''" by code_simp+
  then show ?thesis using apt_numbers_whole [of "725 / 10" "-7"] by simp
qed

end
