(* ===== verification/Repo_Widget.thy ===== *)
theory Repo_Widget
  imports Palette Redis_Poll
begin

text \<open>
  The repository widget (\<open>src/src/widgets/repo_status.c\<close>), which the dashboard compiles out today, and the
  status bar (\<open>src/src/widgets/status_bar.c\<close>): the texts of a card, the cache that skips a redraw when
  nothing but the time stamp of the record changed, and the line of the bar.
\<close>

section \<open>State\<close>

abbreviation "REPO_MAX_DISPLAY \<equiv> 16 :: nat"

text \<open>The left border of a card: its colour and width.\<close>

record repo_card =
  rc_border :: "(color \<times> nat) option"
  rc_host :: string
  rc_age :: string
  rc_age_color :: color
  rc_name :: string
  rc_branch :: string
  rc_branch_color :: color
  rc_status :: string

text \<open>No card stands for the label that all repositories are clean.\<close>

record repo_widget =
  rw_cache :: "repo_entry list option"
  rw_cards :: "repo_card list"

section \<open>Operations\<close>

definition age_color :: "double \<Rightarrow> double \<Rightarrow> color" where
  "age_color now ts =
     (if ts \<le> 0 then WS_COLOR_MUTED
      else let days = (now - of_int (cast_long ts)) / 86400
        in if days < 7 then WS_COLOR_GREEN else if days < 30 then WS_COLOR_YELLOW else WS_COLOR_RED)"

definition format_age :: "nat \<Rightarrow> double \<Rightarrow> double \<Rightarrow> string" where
  "format_age n now ts =
     (if ts \<le> 0 then buf_copy n ''?''
      else let age_s = now - of_int (cast_long ts);
               days = cast_int ((if age_s < 0 then 0 else age_s) / 86400)
        in buf_copy n (if days < 1 then ''<1d'' else if days < 365 then dec_int days @ ''d''
                       else dec_int (days div 365) @ ''y''))"

definition GIT_ICON :: string where
  "GIT_ICON = [CHR 0xEF, CHR 0x87, CHR 0x92]"

text \<open>One \<open>pos += snprintf(buf + pos, len - pos, \<dots>)\<close>.  While the line fits, \<open>pos\<close> is its length.\<close>

definition add_count :: "string \<Rightarrow> int \<Rightarrow> string \<Rightarrow> string" where
  "add_count sign n line = (if 0 < n then line @ sign @ dec_int n @ '' '' else line)"

definition trim_space :: "string \<Rightarrow> string" where
  "trim_space s = (if s \<noteq> [] \<and> last s = CHR '' '' then butlast s else s)"

definition format_status :: "nat \<Rightarrow> repo_entry \<Rightarrow> string" where
  "format_status n r =
     trim_space (buf_copy n
       (add_count ''r'' (re_renamed_count r) (add_count ''x'' (re_deleted_count r)
         (add_count ''~'' (re_changed_count r) (add_count ''?'' (re_untracked_count r)
           (add_count ''-'' (re_behind r) (add_count ''+'' (re_ahead r) (GIT_ICON @ '' ''))))))))"

definition create_repo_card :: "double \<Rightarrow> repo_entry \<Rightarrow> repo_card" where
  "create_repo_card now r =
     \<lparr>rc_border =
        (if re_is_dirty r then Some (WS_COLOR_ORANGE, if re_sort_order r = 0 then 4 else 2)
         else if re_sort_order r = 0 then Some (WS_COLOR_SURFACE1, 2) else None),
      rc_host = re_host r, rc_age = format_age 16 now (re_last_commit_ts r),
      rc_age_color = age_color now (re_last_commit_ts r), rc_name = re_name r, rc_branch = re_branch r,
      rc_branch_color =
        (if (if re_default_branch r \<noteq> [] then re_branch r = re_default_branch r
             else re_branch r = ''main'' \<or> re_branch r = ''master'')
         then WS_COLOR_GREEN else WS_COLOR_MAUVE),
      rc_status = format_status 128 r\<rparr>"

definition repo_status_widget_create :: repo_widget where
  "repo_status_widget_create = \<lparr>rw_cache = None, rw_cards = []\<rparr>"

text \<open>\<open>memcmp\<close> of all bytes before the time stamp, in zero-filled entries.\<close>

definition repos_equal :: "repo_entry list \<Rightarrow> repo_entry list \<Rightarrow> bool" where
  "repos_equal xs ys \<longleftrightarrow> list_all2 (\<lambda>x y. x\<lparr>re_ts := 0\<rparr> = y\<lparr>re_ts := 0\<rparr>) xs ys"

definition repo_status_widget_update :: "double \<Rightarrow> repo_entry list \<Rightarrow> repo_widget \<Rightarrow> repo_widget" where
  "repo_status_widget_update now xs w =
     (let shown = take REPO_MAX_DISPLAY xs
      in if (case rw_cache w of None \<Rightarrow> False
             | Some c \<Rightarrow> length shown = length c \<and> (shown = [] \<or> repos_equal c shown))
         then w
         else \<lparr>rw_cache = Some shown, rw_cards = map (create_repo_card now) shown\<rparr>)"

text \<open>The bar: what it says and in which colour; hidden, it says nothing.\<close>

definition status_bar_show :: "status_severity \<Rightarrow> string \<Rightarrow> (string \<times> color) option" where
  "status_bar_show severity message =
     Some (buf_copy 300 (''['' @ (if severity = STATUS_ERROR then ''ERROR'' else ''WARN'') @ ''] '' @ message),
           if severity = STATUS_ERROR then WS_COLOR_RED else WS_COLOR_YELLOW)"

definition status_bar_hide :: "(string \<times> color) option" where
  "status_bar_hide = None"

section \<open>Bounds of the texts\<close>

lemma length_dec_bound: "n < 10 ^ k \<Longrightarrow> 0 < k \<Longrightarrow> length (dec n) \<le> k"
  by (rule length_dec)

lemma add_count_length:
  assumes "n < 2 ^ 31" shows "length (add_count [c] n line) \<le> length line + 12"
proof -
  have "length (dec (nat n)) \<le> 10" using assms by (intro length_dec_bound) simp_all
  then show ?thesis by (simp add: add_count_def dec_int_def)
qed

lemma add_count_space:
  "last line = CHR '' '' \<and> line \<noteq> [] \<Longrightarrow> last (add_count s n line) = CHR '' '' \<and> add_count s n line \<noteq> []"
  by (simp add: add_count_def)

definition counts_ok :: "repo_entry \<Rightarrow> bool" where
  "counts_ok r \<longleftrightarrow> list_all (\<lambda>n. n < 2 ^ 31) [re_ahead r, re_behind r, re_untracked_count r, re_changed_count r,
      re_deleted_count r, re_renamed_count r]"

text \<open>The status line is never cut, so no call writes behind the buffer: for all counts that an \<open>int\<close> holds
  it is the whole line without the space at its end.\<close>

theorem status_line_whole:
  assumes "counts_ok r"
  shows "format_status 128 r =
    butlast (add_count ''r'' (re_renamed_count r) (add_count ''x'' (re_deleted_count r)
         (add_count ''~'' (re_changed_count r) (add_count ''?'' (re_untracked_count r)
           (add_count ''-'' (re_behind r) (add_count ''+'' (re_ahead r) (GIT_ICON @ '' '')))))))"
proof -
  let ?a = "add_count ''+'' (re_ahead r) (GIT_ICON @ '' '')"
  let ?b = "add_count ''-'' (re_behind r) ?a"
  let ?u = "add_count ''?'' (re_untracked_count r) ?b"
  let ?c = "add_count ''~'' (re_changed_count r) ?u"
  let ?d = "add_count ''x'' (re_deleted_count r) ?c"
  let ?l = "add_count ''r'' (re_renamed_count r) ?d"
  have n: "re_ahead r < 2 ^ 31" "re_behind r < 2 ^ 31" "re_untracked_count r < 2 ^ 31" "re_changed_count r < 2 ^ 31"
    "re_deleted_count r < 2 ^ 31" "re_renamed_count r < 2 ^ 31"
    using assms unfolding counts_ok_def list.pred_inject by blast+
  have "length ?a \<le> 16" by (rule order_trans [OF add_count_length [OF n(1)]]) (simp add: GIT_ICON_def)
  then have "length ?b \<le> 28" using add_count_length [OF n(2), of "CHR ''-''" ?a] by linarith
  then have "length ?u \<le> 40" using add_count_length [OF n(3), of "CHR ''?''" ?b] by linarith
  then have "length ?c \<le> 52" using add_count_length [OF n(4), of "CHR ''~''" ?u] by linarith
  then have "length ?d \<le> 64" using add_count_length [OF n(5), of "CHR ''x''" ?c] by linarith
  then have "length ?l \<le> 76" using add_count_length [OF n(6), of "CHR ''r''" ?d] by linarith
  then have whole: "buf_copy 128 ?l = ?l" unfolding buf_copy_def by (intro take_all) linarith
  have "last (GIT_ICON @ '' '') = CHR '' '' \<and> GIT_ICON @ '' '' \<noteq> []" by simp
  then have "last ?l = CHR '' '' \<and> ?l \<noteq> []" by (intro add_count_space)
  then show ?thesis unfolding format_status_def trim_space_def whole by (intro if_P) blast
qed

text \<open>The bar shows every message of the queue whole.\<close>

theorem status_bar_whole:
  assumes "length message < 256"
  shows "status_bar_show severity message =
    Some (''['' @ (if severity = STATUS_ERROR then ''ERROR'' else ''WARN'') @ ''] '' @ message,
          if severity = STATUS_ERROR then WS_COLOR_RED else WS_COLOR_YELLOW)"
  using assms by (simp add: status_bar_show_def buf_copy_def)

section \<open>The cache\<close>

definition repo_ok :: "repo_widget \<Rightarrow> bool" where
  "repo_ok w \<longleftrightarrow> (\<forall>c. rw_cache w = Some c \<longrightarrow> (\<exists>drawn. rw_cards w = map (create_repo_card drawn) c))"

lemma card_stamp: "x\<lparr>re_ts := 0\<rparr> = y\<lparr>re_ts := 0\<rparr> \<Longrightarrow> create_repo_card t x = create_repo_card t y"
proof -
  assume e: "x\<lparr>re_ts := 0\<rparr> = y\<lparr>re_ts := 0\<rparr>"
  have "create_repo_card t x = create_repo_card t (x\<lparr>re_ts := 0\<rparr>)" for x
    by (simp add: create_repo_card_def format_status_def)
  then show ?thesis using e by metis
qed

lemma cards_stamp:
  "list_all2 (\<lambda>x y. x\<lparr>re_ts := 0\<rparr> = y\<lparr>re_ts := 0\<rparr>) xs ys \<Longrightarrow> map (create_repo_card t) xs = map (create_repo_card t) ys"
proof (induction rule: list_all2_induct)
  case (Cons x xs y ys)
  have "create_repo_card t x = create_repo_card t y" by (rule card_stamp [OF Cons.hyps(1)])
  then show ?case using Cons.IH by simp
qed simp

text \<open>The cards are always those of the last list, the first sixteen of it, as they were drawn at some time.\<close>

theorem repo_widget_shows:
  assumes "repo_ok w"
  shows "\<exists>drawn. rw_cards (repo_status_widget_update now xs w) = map (create_repo_card drawn) (take REPO_MAX_DISPLAY xs)"
    "repo_ok (repo_status_widget_update now xs w)"
proof -
  let ?shown = "take REPO_MAX_DISPLAY xs"
  have "(\<exists>drawn. rw_cards (repo_status_widget_update now xs w) = map (create_repo_card drawn) ?shown) \<and>
      repo_ok (repo_status_widget_update now xs w)"
  proof (cases "case rw_cache w of None \<Rightarrow> False
      | Some c \<Rightarrow> length ?shown = length c \<and> (?shown = [] \<or> repos_equal c ?shown)")
    case False
    then have "repo_status_widget_update now xs w = \<lparr>rw_cache = Some ?shown, rw_cards = map (create_repo_card now) ?shown\<rparr>"
      by (simp add: repo_status_widget_update_def Let_def)
    then show ?thesis by (auto simp: repo_ok_def)
  next
    case True
    then obtain c where c: "rw_cache w = Some c" "length ?shown = length c" "?shown = [] \<or> repos_equal c ?shown"
      by (auto split: option.splits)
    obtain drawn where d: "rw_cards w = map (create_repo_card drawn) c" using assms c(1) by (auto simp: repo_ok_def)
    have "map (create_repo_card drawn) c = map (create_repo_card drawn) ?shown"
    proof (cases "?shown = []")
      case True
      then show ?thesis using c(2) by simp
    next
      case False
      then have "list_all2 (\<lambda>x y. x\<lparr>re_ts := 0\<rparr> = y\<lparr>re_ts := 0\<rparr>) c ?shown" using c(3) by (simp add: repos_equal_def)
      then show ?thesis by (rule cards_stamp)
    qed
    moreover have "repo_status_widget_update now xs w = w" using True by (simp add: repo_status_widget_update_def Let_def)
    ultimately show ?thesis using assms d by auto
  qed
  then show "\<exists>drawn. rw_cards (repo_status_widget_update now xs w) = map (create_repo_card drawn) ?shown"
    "repo_ok (repo_status_widget_update now xs w)" by blast+
qed

text \<open>The age on a card is that of the day it was drawn: as long as the data stay the same, it stands still.\<close>

theorem repo_age_frozen:
  "let r = (new_repo ''kai'' ''korg'')\<lparr>re_last_commit_ts := 86400\<rparr>;
       w = repo_status_widget_update 86401 [r] repo_status_widget_create
   in map rc_age (rw_cards (repo_status_widget_update (60 * 86400) [r] w)) = [''<1d''] \<and>
      rc_age (create_repo_card (60 * 86400) r) = ''59d''"
proof -
  have "new_repo ''kai'' ''korg'' = new_repo ''kai'' ''korg''" ..
  then show ?thesis
    by code_simp
qed

end
