(* ===== verification/Fortune_Widget.thy ===== *)
theory Fortune_Widget
  imports Fortune Status_Queue Net_Derive Palette
begin

text \<open>
  The fortune on the screen (\<open>src/src/widgets/fortune.c\<close>) and the start of its engine (\<open>fortune_init\<close> of
  \<open>src/src/fortune.c\<close>): the label with its text and face, the line of numbers over it, and that both always
  agree with the state of \<open>Fortune\<close>.  The dashboard compiles this widget out today.
\<close>

section \<open>The widget\<close>

record fortune_box =
  fx_text :: string
  fx_font :: font
  fx_dev :: string
  fx_dev_hidden :: bool

definition fortune_create :: fortune_box where
  "fortune_create =
     \<lparr>fx_text = ''Loading fortune...'', fx_font = montserrat_bold 36, fx_dev = [], fx_dev_hidden = True\<rparr>"

definition pt_to_font :: "int \<Rightarrow> font" where
  "pt_to_font pt =
     (if pt = 20 then montserrat_bold 20 else if pt = 24 then montserrat_bold 24
      else if pt = 28 then montserrat_bold 28 else montserrat_bold 36)"

definition fortune_widget_update :: "string \<Rightarrow> int \<Rightarrow> fortune_box \<Rightarrow> fortune_box" where
  "fortune_widget_update tx pt b = b\<lparr>fx_font := pt_to_font pt, fx_text := tx\<rparr>"

definition fortune_widget_set_dev_stats :: "bool \<Rightarrow> nat \<Rightarrow> int \<Rightarrow> fortune_box \<Rightarrow> fortune_box" where
  "fortune_widget_set_dev_stats on_screen rejects elapsed_ms b =
     (if \<not> on_screen then b\<lparr>fx_dev_hidden := True\<rparr>
      else b\<lparr>fx_dev := buf_copy 64 (''Rejects: '' @ dec rejects @ ''  Elapsed: '' @ dec_int elapsed_ms @ '' ms''),
             fx_dev_hidden := False\<rparr>)"

section \<open>The start of the engine\<close>

definition fortune_set_widget :: "fortune_state \<Rightarrow> fortune_state" where
  "fortune_set_widget f = f\<lparr>ft_widget := True\<rparr>"

definition fortune_init ::
  "'w hiredis \<Rightarrow> bool \<Rightarrow> (string \<Rightarrow> string option) \<Rightarrow> (string \<Rightarrow> bool) \<Rightarrow> (nat \<Rightarrow> string option) \<Rightarrow> int \<Rightarrow> nat \<Rightarrow> bool \<Rightarrow>
   string \<Rightarrow> double \<Rightarrow> fortune_state \<times> status \<times> 'w \<Rightarrow> fortune_state \<times> status \<times> 'w" where
  "fortune_init H ctx pr can_run out elapsed now dev new_id ts fsw =
     (case fsw of (f, s, w) \<Rightarrow>
        let found = (fortune_binary can_run \<noteq> None);
            s' = (if found then s
                  else status_push new_id STATUS_WARNING
                         (''fortune binary not found '' @ em_dash @ '' using canned messages'') ts s);
            (f', w') = run_fortune_or_canned H ctx pr can_run out elapsed now dev (f\<lparr>ft_available := found\<rparr>, w)
        in (f', s', w'))"

section \<open>The widget follows the engine\<close>

text \<open>Everything the engine does to the widget: its calls of \<open>update_widget\<close> and \<open>update_dev_overlay\<close>.\<close>

datatype fortune_call = Show_Text string int | Show_Stats bool

definition engine_call :: "fortune_call \<Rightarrow> fortune_state \<Rightarrow> fortune_state" where
  "engine_call c f = (case c of Show_Text tx pt \<Rightarrow> update_widget tx pt f | Show_Stats dev \<Rightarrow> update_dev_overlay dev f)"

definition widget_call :: "fortune_call \<Rightarrow> fortune_state \<Rightarrow> fortune_box \<Rightarrow> fortune_box" where
  "widget_call c f b =
     (if \<not> ft_widget f then b
      else case c of
          Show_Text tx pt \<Rightarrow> fortune_widget_update tx pt b
        | Show_Stats dev \<Rightarrow> fortune_widget_set_dev_stats dev (ft_rejects f) (ft_elapsed_ms f) b)"

definition box_follows :: "fortune_state \<Rightarrow> fortune_box \<Rightarrow> bool" where
  "box_follows f b \<longleftrightarrow>
     (case ft_shown f of
        None \<Rightarrow> fx_text b = fx_text fortune_create \<and> fx_font b = fx_font fortune_create
      | Some (tx, pt) \<Rightarrow> fx_text b = tx \<and> fx_font b = pt_to_font pt) \<and>
     (case ft_overlay f of
        Some (True, n, ms) \<Rightarrow> \<not> fx_dev_hidden b \<and>
          fx_dev b = buf_copy 64 (''Rejects: '' @ dec n @ ''  Elapsed: '' @ dec_int ms @ '' ms'')
      | _ \<Rightarrow> fx_dev_hidden b)"

lemma box_starts: "ft_shown f = None \<Longrightarrow> ft_overlay f = None \<Longrightarrow> box_follows f fortune_create"
  by (simp add: box_follows_def fortune_create_def)

lemma box_call: "box_follows f b \<Longrightarrow> box_follows (engine_call c f) (widget_call c f b)"
  by (cases c)
    (auto simp: box_follows_def engine_call_def widget_call_def update_widget_def update_dev_overlay_def
        fortune_widget_update_def fortune_widget_set_dev_stats_def split: option.splits bool.splits)

text \<open>Every face the engine asks for exists: the ladder and the two fixed sizes.\<close>

theorem fortune_faces:
  "pt \<in> {20, 36} \<union> fst ` set FONT_LADDER \<Longrightarrow> pt_to_font pt = montserrat_bold (nat pt)"
  by (auto simp: FONT_LADDER_def pt_to_font_def)

text \<open>The line of the numbers is whole for every count and time that can occur.\<close>

theorem dev_stats_whole:
  assumes "n \<le> FORTUNE_MAX_RETRIES" "\<bar>ms\<bar> < 2 ^ 63"
  shows "fx_dev (fortune_widget_set_dev_stats True n ms b) =
    ''Rejects: '' @ dec n @ ''  Elapsed: '' @ dec_int ms @ '' ms''"
proof -
  have "length (dec n) \<le> 2" using assms(1) by (intro length_dec) simp_all
  moreover have "length (dec (nat \<bar>ms\<bar>)) \<le> 19" using assms(2) by (intro length_dec) simp_all
  then have "length (dec_int ms) \<le> 20" by (auto simp: dec_int_def split: if_splits)
  ultimately show ?thesis by (simp add: fortune_widget_set_dev_stats_def buf_copy_def)
qed

text \<open>After the start something is on screen at once; without the program it is a canned message, and a
  warning waits on the status bar, as far as the queue has room.\<close>

theorem fortune_init_shows:
  assumes "ft_widget f" "fortune_init H ctx pr can_run out elapsed now dev new_id ts (f, s, w) = (f', s', w')"
  shows "ft_shown f' \<noteq> None" "ft_available f' \<longleftrightarrow> fortune_binary can_run \<noteq> None"
    "fortune_binary can_run = None \<Longrightarrow> (\<exists>tx \<in> set CANNED_ERRORS. ft_shown f' = Some (tx, 36)) \<and> w' = w"
    "fortune_binary can_run = None \<Longrightarrow> rg_count (st_ring s) < STATUS_QUEUE_MAX \<Longrightarrow>
       rg_count (st_ring s') = rg_count (st_ring s) + 1"
    "fortune_binary can_run \<noteq> None \<Longrightarrow> s' = s"
proof -
  let ?f = "f\<lparr>ft_available := fortune_binary can_run \<noteq> None\<rparr>"
  have r: "run_fortune_or_canned H ctx pr can_run out elapsed now dev (?f, w) = (f', w')"
    using assms(2) by (simp add: fortune_init_def Let_def split: prod.splits)
  have w: "ft_widget ?f" using assms(1) by simp
  have c: "CANNED_ERRORS ! (now mod length CANNED_ERRORS) \<in> set CANNED_ERRORS"
    by (rule nth_mem) (simp add: CANNED_ERRORS_def)
  note run = r [unfolded run_fortune_or_canned_def prod.case]
  show "ft_shown f' \<noteq> None" "ft_available f' \<longleftrightarrow> fortune_binary can_run \<noteq> None"
    using run w by (auto simp: update_dev_overlay_def update_widget_def split: option.splits prod.splits)
  show "(\<exists>tx \<in> set CANNED_ERRORS. ft_shown f' = Some (tx, 36)) \<and> w' = w" if "fortune_binary can_run = None"
    using run w that c by (auto simp: update_dev_overlay_def update_widget_def)
  show "rg_count (st_ring s') = rg_count (st_ring s) + 1"
    if "fortune_binary can_run = None" "rg_count (st_ring s) < STATUS_QUEUE_MAX"
    using assms(2) that by (auto simp: fortune_init_def status_push_def enqueue_def Let_def split: prod.splits)
  show "s' = s" if "fortune_binary can_run \<noteq> None"
    using assms(2) that by (auto simp: fortune_init_def Let_def split: prod.splits)
qed

end
