(* ===== verification/Drawn_Pool.thy ===== *)
theory Drawn_Pool
  imports Dev_Graph Net_Card Ui_Refresh
begin

text \<open>
  The pool block of a refresh with the widgets themselves (\<open>src/src/ui.c\<close>, \<open>dev_graph.c\<close> and \<open>net_card.c\<close>
  together): every graph is made, fed, marked and destroyed where the code does it, the network card is
  redrawn when it is placed.  Each graph stays that of its own host and of the samples it was given,
  and none is left when its series goes.
\<close>

section \<open>State and operations\<close>

text \<open>The graphs by their objects, and the network card.\<close>

type_synonym drawn_pool = "(nat \<Rightarrow> dev_graph option) \<times> net_card"

definition evict_series_drawn :: "double \<Rightarrow> graph_host_series \<Rightarrow> pool \<times> drawn_pool \<Rightarrow> pool \<times> drawn_pool" where
  "evict_series_drawn now s p =
     (case p of (tu, D, k) \<Rightarrow>
        (evict_series now s tu,
         if now - gh_last_sample_ts s < GRAPH_HOST_EVICT_SECONDS then D
         else case graph_host_find_or_create (gh_host s) (fst tu) of
             (None, t) \<Rightarrow> D
           | (Some i, t) \<Rightarrow> (case gh_widget (t ! i) of None \<Rightarrow> D | Some w \<Rightarrow> D(w := None)), k))"

definition evict_graphs_drawn :: "double \<Rightarrow> pool \<times> drawn_pool \<Rightarrow> pool \<times> drawn_pool" where
  "evict_graphs_drawn now p = fold (evict_series_drawn now) (graph_host_snapshot GRAPH_HOST_MAX (fst (fst p))) p"

definition show_graph_drawn :: "double \<Rightarrow> string \<Rightarrow> int \<times> int \<Rightarrow> pool \<times> drawn_pool \<Rightarrow> pool \<times> drawn_pool" where
  "show_graph_drawn now h xy p =
     (case p of (tu, D, k) \<Rightarrow>
        (show_graph now h xy tu,
         case graph_host_find_or_create h (fst tu) of
           (None, t) \<Rightarrow> D
         | (Some i, t) \<Rightarrow>
             (let (w, D1) = (case gh_widget (t ! i) of
                    Some w \<Rightarrow> (w, D)
                  | None \<Rightarrow> (ui_next (snd tu), D(ui_next (snd tu) \<mapsto> dev_graph_create (Some h))))
              in D1(w := map_option (feed_graph now (t ! i)) (D1 w))), k))"

definition show_netcard_drawn :: "net_state \<Rightarrow> double \<Rightarrow> int \<times> int \<Rightarrow> pool \<times> drawn_pool \<Rightarrow> pool \<times> drawn_pool" where
  "show_netcard_drawn st now xy p =
     (case p of (tu, D, k) \<Rightarrow>
        (show_netcard now xy tu, D, net_card_update (Some (ui_netcard (snd tu))) now st k))"

definition show_placed_drawn ::
  "net_state \<Rightarrow> double \<Rightarrow> string option widget_request \<times> int \<times> int \<Rightarrow> pool \<times> drawn_pool \<Rightarrow> pool \<times> drawn_pool" where
  "show_placed_drawn st now q p =
     (case q of (r, xy) \<Rightarrow>
        (case wr_kind r of
           WIDGET_GRAPH \<Rightarrow> (case wr_payload r of None \<Rightarrow> p | Some h \<Rightarrow> show_graph_drawn now h xy p)
         | WIDGET_NETCARD \<Rightarrow> show_netcard_drawn st now xy p
         | _ \<Rightarrow> p))"

definition place_pool_drawn :: "net_state \<Rightarrow> double \<Rightarrow> dev_cmd_state \<Rightarrow> pool \<times> drawn_pool \<Rightarrow> pool \<times> drawn_pool" where
  "place_pool_drawn st now cmd p =
     (let hosts = sorted_hosts (fst (fst p));
          placed = layout_pool_place (pool_requests cmd hosts) (GRAPH_HOST_MAX + 4);
          (tu1, D) = fold (show_placed_drawn st now) (zip placed (slots 1 0 (map cells placed))) p;
          host_placed = (\<lambda>h. list_ex (\<lambda>r. wr_kind r = WIDGET_GRAPH \<and> wr_payload r = Some h) placed);
          tu2 = fold hide_graph (filter (\<lambda>h. \<not> host_placed h) hosts) tu1
      in (if list_ex (\<lambda>r. wr_kind r = WIDGET_NETCARD) placed then tu2
          else (fst tu2, hide (ui_netcard (snd tu2)) (snd tu2)), D))"

definition refresh_pool_drawn :: "net_state \<Rightarrow> double \<Rightarrow> dev_cmd_state \<Rightarrow> pool \<times> drawn_pool \<Rightarrow> pool \<times> drawn_pool" where
  "refresh_pool_drawn st now cmd p = place_pool_drawn st now cmd (evict_graphs_drawn now p)"

section \<open>The screen is that of the pool block\<close>

lemma evict_drawn_fst: "fst (evict_series_drawn now s p) = evict_series now s (fst p)"
  by (simp add: evict_series_drawn_def split: prod.split)

lemma placed_drawn_fst: "fst (show_placed_drawn st now q p) = show_placed now q (fst p)"
  by (auto simp: show_placed_drawn_def show_placed_def show_graph_drawn_def show_netcard_drawn_def
      split: prod.split widget_kind.split option.split)

lemma evict_graphs_drawn_fst: "fst (evict_graphs_drawn now p) = evict_graphs now (fst p)"
  unfolding evict_graphs_drawn_def evict_graphs_def by (rule fold_fst) (rule evict_drawn_fst)

lemma refresh_pool_drawn_fst: "fst (refresh_pool_drawn st now cmd p) = place_pool now cmd (evict_graphs now (fst p))"
proof -
  have "fst (place_pool_drawn st now cmd p) = place_pool now cmd (fst p)" for p
    using fold_fst [of "show_placed_drawn st now" "show_placed now", OF placed_drawn_fst]
    by (simp add: place_pool_drawn_def place_pool_def Let_def case_prod_unfold)
  then show ?thesis by (simp add: refresh_pool_drawn_def evict_graphs_drawn_fst)
qed

section \<open>A graph and its samples\<close>

text \<open>The graph of a host after the samples \<open>fed\<close>, latest first, with or without the mark of a stale host.\<close>

definition graph_after :: "string \<Rightarrow> dev_telemetry list \<Rightarrow> bool \<Rightarrow> dev_graph" where
  "graph_after h fed mark =
     dev_graph_set_stale mark (fold dev_graph_update (rev fed) (dev_graph_create (Some h)))"

lemma graph_after_new: "graph_after h [] False = dev_graph_create (Some h)"
  by (simp add: graph_after_def dev_graph_set_stale_def dev_graph_create_def Let_def)

lemma graph_after_host: "dg_host (graph_after h fed mark) = h"
proof -
  have "dg_host (fold dev_graph_update ts g) = dg_host g" for ts g
    by (induction ts arbitrary: g) (simp_all add: dev_graph_update_def Let_def)
  then show ?thesis by (simp add: graph_after_def dev_graph_set_stale_def dev_graph_create_def Let_def)
qed

lemma graph_after_feed:
  assumes "gh_host s = h"
  shows "feed_graph now s (graph_after h fed mark) =
    graph_after h (if dt_valid (gh_telemetry s) then gh_telemetry s # fed else fed) (graph_host_is_stale s now)"
proof -
  have same: "dev_graph_set_stale a (dev_graph_set_stale b g) = dev_graph_set_stale a g" for a b g
    by (simp add: dev_graph_set_stale_def)
  have up: "dev_graph_update t (dev_graph_set_stale b g) = dev_graph_set_stale b (dev_graph_update t g)" for t b g
    by (simp add: dev_graph_set_stale_def dev_graph_update_def Let_def)
  have host: "dev_graph_set_host h (dev_graph_update t (graph_after h fed mark)) = dev_graph_update t (graph_after h fed mark)" for t
    using graph_after_host [of h fed mark] by (simp add: dev_graph_set_host_def strcmp_zero dev_graph_update_def Let_def)
  show ?thesis
    by (simp add: feed_graph_def assms host) (simp add: graph_after_def up same)
qed

lemma graph_after_ok: "graph_ok (graph_after h fed mark)"
proof -
  have "graph_ok (fold dev_graph_update ts g)" if "graph_ok g" for ts g
    using that by (induction ts arbitrary: g) (simp_all add: update_graph_ok)
  then have "graph_ok (fold dev_graph_update (rev fed) (dev_graph_create (Some h)))" using create_graph_ok by blast
  then show ?thesis by (simp add: graph_after_def graph_ok_def dev_graph_set_stale_def)
qed

section \<open>Every graph is that of its host\<close>

definition graphs_follow :: "pool \<times> drawn_pool \<Rightarrow> bool" where
  "graphs_follow p \<longleftrightarrow>
     (case p of ((t, u), D, k) \<Rightarrow>
        pool_inv (t, u) \<and> dom D = {w. \<exists>h. widget_of t h = Some w} \<and>
        (\<forall>h w. widget_of t h = Some w \<longrightarrow> D w = Some (graph_after h (ui_fed u w) (ui_stale_mark u w))) \<and>
        (\<forall>w \<ge> ui_next u. ui_fed u w = [] \<and> \<not> ui_stale_mark u w) \<and>
        net_card_ok k \<and> nk_root k = ui_netcard u)"

lemma known_widget:
  assumes "pool_inv (t, u)" "h \<in> gh_host ` set t"
  shows "\<exists>i. graph_host_find_or_create h t = (Some i, t) \<and> i < length t \<and> gh_host (t ! i) = h \<and>
    gh_widget (t ! i) = widget_of t h"
proof -
  have g: "graph_inv t" and d: "distinct (map gh_host t)" using assms(1) by (simp_all add: pool_inv_def graph_inv_def)
  obtain i where i: "graph_host_find_or_create h t = (Some i, t)" "i < length t" "gh_host (t ! i) = h"
    by (rule known_host [OF g assms(2)])
  then have "widget_of t h = gh_widget (t ! i)" using look_nth [OF d i(2)] by (simp add: widget_of_def)
  then show ?thesis using i by auto
qed

text \<open>What showing a graph does to the widgets of the series.\<close>

lemma show_graph_widget:
  assumes "pool_inv (t, u)" "h \<in> gh_host ` set t"
  defines "w \<equiv> (case widget_of t h of Some w \<Rightarrow> w | None \<Rightarrow> ui_next u)"
  shows "\<exists>i. i < length t \<and> gh_host (t ! i) = h \<and> widget_of (fst (show_graph now h xy (t, u))) = (widget_of t)(h \<mapsto> w) \<and>
    ui_fed (snd (show_graph now h xy (t, u))) =
      (if dt_valid (gh_telemetry (t ! i)) then (ui_fed u)(w := gh_telemetry (t ! i) # ui_fed u w) else ui_fed u) \<and>
    ui_stale_mark (snd (show_graph now h xy (t, u))) = (ui_stale_mark u)(w := graph_host_is_stale (t ! i) now) \<and>
    (\<forall>D k. snd (show_graph_drawn now h xy ((t, u), D, k)) =
       (let D1 = (if widget_of t h = None then D(w \<mapsto> dev_graph_create (Some h)) else D)
        in (D1(w := map_option (feed_graph now (t ! i)) (D1 w)), k)))"
proof -
  have d: "distinct (map gh_host t)" using assms(1) by (simp add: pool_inv_def graph_inv_def)
  obtain i where i: "graph_host_find_or_create h t = (Some i, t)" "i < length t" "gh_host (t ! i) = h"
      "gh_widget (t ! i) = widget_of t h"
    using known_widget [OF assms(1,2)] by blast
  have st: "graph_host_is_stale ((t ! i)\<lparr>gh_widget := Some x\<rparr>) now = graph_host_is_stale (t ! i) now" for x
    by (simp add: graph_host_is_stale_def)
  have wid: "widget_of (t[i := (t ! i)\<lparr>gh_widget := Some x\<rparr>]) = (widget_of t)(h \<mapsto> x)" for x
    using look_update [OF d i(2), of "(t ! i)\<lparr>gh_widget := Some x\<rparr>"] i(3) by (auto simp: widget_of_def fun_eq_iff)
  show ?thesis
    by (intro exI [of _ i])
      (cases "widget_of t h"; simp add: i show_graph_def show_graph_drawn_def new_object_def paint_graph_def Let_def w_def wid st)
qed

lemma show_graph_follows:
  assumes "graphs_follow p" "h \<in> gh_host ` set (fst (fst p))"
  shows "graphs_follow (show_graph_drawn now h xy p)"
proof -
  obtain t u D k where p: "p = ((t, u), D, k)" by (metis prod.exhaust)
  have inv: "pool_inv (t, u)" and dom: "dom D = {w. \<exists>h. widget_of t h = Some w}"
    and own: "\<And>h w. widget_of t h = Some w \<Longrightarrow> D w = Some (graph_after h (ui_fed u w) (ui_stale_mark u w))"
    and fresh: "\<And>w. ui_next u \<le> w \<Longrightarrow> ui_fed u w = [] \<and> \<not> ui_stale_mark u w"
    and card: "net_card_ok k" "nk_root k = ui_netcard u"
    using assms(1) by (simp_all add: graphs_follow_def p)
  have h: "h \<in> gh_host ` set t" using assms(2) by (simp add: p)
  define w where "w = (case widget_of t h of Some w \<Rightarrow> w | None \<Rightarrow> ui_next u)"
  obtain t' u' where tu': "show_graph now h xy (t, u) = (t', u')" by (rule prod.exhaust)
  define D1 where "D1 = (if widget_of t h = None then D(w \<mapsto> dev_graph_create (Some h)) else D)"
  obtain i where i: "i < length t" "gh_host (t ! i) = h" "widget_of t' = (widget_of t)(h \<mapsto> w)"
      "ui_fed u' = (if dt_valid (gh_telemetry (t ! i)) then (ui_fed u)(w := gh_telemetry (t ! i) # ui_fed u w) else ui_fed u)"
      "ui_stale_mark u' = (ui_stale_mark u)(w := graph_host_is_stale (t ! i) now)"
      "show_graph_drawn now h xy p = ((t', u'), D1(w := map_option (feed_graph now (t ! i)) (D1 w)), k)"
  proof -
    have "fst (show_graph_drawn now h xy p) = (t', u')" by (simp add: show_graph_drawn_def p tu')
    moreover note show_graph_widget [OF inv h, of now xy, folded w_def, unfolded tu' fst_conv snd_conv]
    ultimately show thesis using that unfolding p D1_def Let_def by (metis prod.collapse)
  qed
  note known = show_graph_known [OF inv, unfolded fst_conv, OF h, of now xy, unfolded tu' fst_conv snd_conv]
  have lt: "w < ui_next u'" "ui_next u \<le> ui_next u'"
  proof -
    have "widget_of t' h = Some w" by (simp add: i(3))
    then show "w < ui_next u'" using known(1) by (auto simp: pool_inv_def)
    show "ui_next u \<le> ui_next u'" using show_graph_beside [of "(t, u)" now h xy] by (simp add: tu' beside_pool_def)
  qed
  have alone: "x \<noteq> w" if "widget_of t g = Some x" "g \<noteq> h" for g x
  proof (cases "widget_of t h")
    case None
    then have "w = ui_next u" by (simp add: w_def)
    then show ?thesis using that(1) inv by (auto simp: pool_inv_def)
  next
    case (Some y)
    then show ?thesis using that inv by (auto simp: pool_inv_def w_def)
  qed
  have D1: "D1 w = Some (graph_after h (ui_fed u w) (ui_stale_mark u w))"
  proof (cases "widget_of t h")
    case None
    then have "w = ui_next u" by (simp add: w_def)
    then have "ui_fed u w = []" "ui_stale_mark u w = False" using fresh [of w] by simp_all
    then show ?thesis using None by (simp add: D1_def graph_after_new)
  next
    case (Some y)
    then show ?thesis using own [of h y] by (simp add: D1_def w_def)
  qed
  let ?D = "D1(w := map_option (feed_graph now (t ! i)) (D1 w))"
  have fed: "?D w = Some (graph_after h (ui_fed u' w) (ui_stale_mark u' w))"
    using graph_after_feed [OF i(2), of now "ui_fed u w" "ui_stale_mark u w"] D1 by (simp add: i(4,5))
  have else': "?D x = D x" "ui_fed u' x = ui_fed u x" "ui_stale_mark u' x = ui_stale_mark u x" if "x \<noteq> w" for x
    using that by (simp_all add: D1_def i(4,5))
  have follow: "?D x = Some (graph_after g (ui_fed u' x) (ui_stale_mark u' x))" if "widget_of t' g = Some x" for g x
  proof (cases "g = h")
    case True
    then show ?thesis using that fed i(3) by auto
  next
    case False
    then have g: "widget_of t g = Some x" using that by (simp add: i(3))
    have x: "x \<noteq> w" by (rule alone [OF g False])
    show ?thesis unfolding else' [OF x] by (rule own [OF g])
  qed
  moreover have "dom ?D = {x. \<exists>g. widget_of t' g = Some x}"
  proof (intro set_eqI iffI)
    fix x assume x: "x \<in> dom ?D"
    show "x \<in> {x. \<exists>g. widget_of t' g = Some x}"
    proof (cases "x = w")
      case True
      then show ?thesis by (auto simp: i(3))
    next
      case False
      have "?D x \<noteq> None" using x by blast
      then have "x \<in> dom D" unfolding else'(1) [OF False] by blast
      then obtain g where g: "widget_of t g = Some x" using dom by auto
      have "g \<noteq> h" using g False by (auto simp: w_def)
      then show ?thesis using g by (auto simp: i(3))
    qed
  next
    fix x assume "x \<in> {x. \<exists>g. widget_of t' g = Some x}"
    then obtain g where "widget_of t' g = Some x" by blast
    from follow [OF this] show "x \<in> dom ?D" by (rule domI)
  qed
  moreover note follow
  moreover have "\<forall>x \<ge> ui_next u'. ui_fed u' x = [] \<and> \<not> ui_stale_mark u' x"
    using fresh lt else' by (metis le_trans not_le)
  ultimately show ?thesis using known card by (simp add: graphs_follow_def i(6))
qed

lemma hide_follows: "graphs_follow ((t, u), dk) \<Longrightarrow> graphs_follow ((t, hide w u), dk)"
  by (simp add: graphs_follow_def hide_def pool_inv_def split: prod.splits)

lemma hide_graph_follows:
  assumes "graphs_follow (tu, dk)" "h \<in> gh_host ` set (fst tu)"
  shows "graphs_follow (hide_graph h tu, dk)"
proof -
  obtain t u where tu: "tu = (t, u)" by (rule prod.exhaust)
  have "pool_inv (t, u)" using assms(1) by (simp add: graphs_follow_def tu split: prod.splits)
  moreover have "h \<in> gh_host ` set t" using assms(2) by (simp add: tu)
  ultimately obtain i where "graph_host_find_or_create h t = (Some i, t)" using known_widget by blast
  then have "hide_graph h tu = (t, case gh_widget (t ! i) of None \<Rightarrow> u | Some w \<Rightarrow> hide w u)" by (simp add: hide_graph_def tu split: option.split)
  then show ?thesis using assms(1) hide_follows by (simp add: tu split: option.split)
qed

lemma netcard_follows:
  assumes "graphs_follow p" shows "graphs_follow (show_netcard_drawn st now xy p)"
proof -
  obtain t u D k where p: "p = ((t, u), D, k)" by (metis prod.exhaust)
  have k: "net_card_ok k" "nk_root k = ui_netcard u" using assms by (simp_all add: graphs_follow_def p)
  note anew = net_card_update_anew(2,3) [OF k(1), of now st]
  show ?thesis using assms anew k by (simp add: graphs_follow_def p show_netcard_drawn_def show_netcard_def pool_inv_def)
qed

lemma evict_follows:
  assumes "graphs_follow p" "s \<in> set (fst (fst p))"
  shows "graphs_follow (evict_series_drawn now s p)"
proof (cases "now - gh_last_sample_ts s < GRAPH_HOST_EVICT_SECONDS")
  case True
  then have "evict_series_drawn now s p = p" by (simp add: evict_series_drawn_def evict_series_def split: prod.split)
  then show ?thesis using assms(1) by simp
next
  case False
  obtain t u D k where p: "p = ((t, u), D, k)" by (metis prod.exhaust)
  have inv: "pool_inv (t, u)" and dom: "dom D = {w. \<exists>h. widget_of t h = Some w}"
    using assms(1) by (simp_all add: graphs_follow_def p)
  have s: "s \<in> set (fst (t, u))" using assms(2) by (simp add: p)
  obtain i where i: "graph_host_find_or_create (gh_host s) t = (Some i, t)" "gh_widget (t ! i) = widget_of t (gh_host s)"
    using known_widget [OF inv, of "gh_host s"] s by auto
  obtain t' u' where e: "evict_series now s (t, u) = (t', u')" by (rule prod.exhaust)
  note known = evict_known [OF inv s False, unfolded e fst_conv snd_conv]
  let ?D = "case widget_of t (gh_host s) of None \<Rightarrow> D | Some w \<Rightarrow> D(w := None)"
  have drawn: "evict_series_drawn now s p = ((t', u'), ?D, k)"
    using False by (simp add: evict_series_drawn_def p e i)
  have wid: "widget_of t' h = (if h = gh_host s then None else widget_of t h)" for h
    by (simp add: known(1) widget_of_def look_filter)
  have kept: "ui_fed u' = ui_fed u" "ui_stale_mark u' = ui_stale_mark u" "ui_next u' = ui_next u" "ui_netcard u' = ui_netcard u"
  proof -
    have "ui_fed u' = ui_fed u \<and> ui_stale_mark u' = ui_stale_mark u \<and> ui_next u' = ui_next u \<and> ui_netcard u' = ui_netcard u"
      using arg_cong [OF e, of snd] False by (auto simp: evict_series_def i hide_def split: option.splits)
    then show "ui_fed u' = ui_fed u" "ui_stale_mark u' = ui_stale_mark u" "ui_next u' = ui_next u" "ui_netcard u' = ui_netcard u"
      by simp_all
  qed
  have alone: "g = h" if "widget_of t g = Some x" "widget_of t h = Some x" for g h x
    using that inv by (auto simp: pool_inv_def)
  have D: "?D x = D x" if "widget_of t h = Some x" "h \<noteq> gh_host s" for h x
    using alone [OF that(1)] that(2) by (auto split: option.split)
  have "dom ?D = {w. \<exists>h. widget_of t' h = Some w}"
  proof (cases "widget_of t (gh_host s)")
    case None
    then have "widget_of t' = widget_of t" by (auto simp: wid fun_eq_iff)
    then show ?thesis using None dom by simp
  next
    case (Some w)
    have left: "widget_of t' h = Some x \<longleftrightarrow> widget_of t h = Some x \<and> x \<noteq> w" for h x
    proof (cases "h = gh_host s")
      case True
      then show ?thesis using Some by (simp add: wid)
    next
      case False
      then have "\<not> (widget_of t h = Some w)" using alone [OF _ Some] by blast
      then show ?thesis using False by (auto simp: wid)
    qed
    have "dom ?D = dom D - {w}" by (simp add: Some)
    then show ?thesis unfolding dom left by blast
  qed
  moreover have "\<forall>h w. widget_of t' h = Some w \<longrightarrow> ?D w = Some (graph_after h (ui_fed u w) (ui_stale_mark u w))"
    using assms(1) D by (simp add: wid graphs_follow_def p)
  ultimately show ?thesis using assms(1) [unfolded p graphs_follow_def prod.case] known(2)
    unfolding drawn graphs_follow_def prod.case kept by (intro conjI) simp_all
qed

section \<open>A refresh\<close>

lemma evict_all_follows:
  "graphs_follow p \<Longrightarrow> set ss \<subseteq> set (fst (fst p)) \<Longrightarrow> distinct (map gh_host ss) \<Longrightarrow>
     graphs_follow (fold (evict_series_drawn now) ss p)"
proof (induction ss arbitrary: p)
  case (Cons s ss)
  have inv: "pool_inv (fst p)" using Cons.prems(1) by (auto simp: graphs_follow_def split: prod.splits)
  have s: "s \<in> set (fst (fst p))" using Cons.prems(2) by simp
  note next' = evict_follows [OF Cons.prems(1) s, of now]
  have "set ss \<subseteq> set (fst (evict_series now s (fst p)))"
  proof (cases "now - gh_last_sample_ts s < GRAPH_HOST_EVICT_SECONDS")
    case True
    then have "evict_series now s (fst p) = fst p" by (simp add: evict_series_def)
    then show ?thesis using Cons.prems(2) by simp
  next
    case False
    have "\<forall>x \<in> set ss. gh_host x \<noteq> gh_host s" using Cons.prems(3) by (auto simp: image_iff)
    then show ?thesis using Cons.prems(2) by (auto simp: evict_known(1) [OF inv s False])
  qed
  then show ?case using Cons.IH [OF next'] Cons.prems(3) by (simp add: evict_drawn_fst)
qed simp

lemma evict_graphs_follow:
  assumes "graphs_follow p" shows "graphs_follow (evict_graphs_drawn now p)"
proof -
  have inv: "graph_inv (fst (fst p))" using assms by (auto simp: graphs_follow_def pool_inv_def split: prod.splits)
  then have "graph_host_snapshot GRAPH_HOST_MAX (fst (fst p)) = fst (fst p)" "distinct (map gh_host (fst (fst p)))"
    by (simp_all add: graph_host_snapshot_def graph_inv_def)
  then show ?thesis using evict_all_follows [OF assms subset_refl] by (simp add: evict_graphs_drawn_def)
qed

lemma show_all_follow:
  assumes "graphs_follow p" "set hs \<subseteq> gh_host ` set (fst (fst p))" "length xys = length hs"
  shows "graphs_follow (fold (\<lambda>(h, xy). show_graph_drawn now h xy) (zip hs xys) p) \<and>
    map gh_host (fst (fst (fold (\<lambda>(h, xy). show_graph_drawn now h xy) (zip hs xys) p))) = map gh_host (fst (fst p)) \<and>
    ui_netcard (snd (fst (fold (\<lambda>(h, xy). show_graph_drawn now h xy) (zip hs xys) p))) = ui_netcard (snd (fst p))"
  using assms
proof (induction hs xys arbitrary: p rule: list_induct2')
  case (4 h hs xy xys)
  have inv: "pool_inv (fst p)" using 4(2) by (auto simp: graphs_follow_def split: prod.splits)
  have h: "h \<in> gh_host ` set (fst (fst p))" using 4(3) by simp
  let ?p = "show_graph_drawn now h xy p"
  have f: "fst ?p = show_graph now h xy (fst p)" by (simp add: show_graph_drawn_def split: prod.split)
  note known = show_graph_known [OF inv h, of now xy]
  have "gh_host ` set (fst (fst ?p)) = gh_host ` set (fst (fst p))" using known(3) f by (metis list.set_map)
  then show ?case using 4(1) [of ?p] show_graph_follows [OF 4(2) h] 4(3,4) known(3,4) by (simp add: f)
qed simp_all

lemma hide_all_follow:
  "graphs_follow (tu, dk) \<Longrightarrow> set hs \<subseteq> gh_host ` set (fst tu) \<Longrightarrow> graphs_follow (fold hide_graph hs tu, dk)"
proof (induction hs arbitrary: tu)
  case (Cons h hs)
  have inv: "pool_inv tu" using Cons.prems(1) by (auto simp: graphs_follow_def split: prod.splits)
  have h: "h \<in> gh_host ` set (fst tu)" using Cons.prems(2) by simp
  show ?case using Cons.IH [OF hide_graph_follows [OF Cons.prems(1) h]] Cons.prems(2) hide_graph_known(2) [OF inv h] by simp
qed simp

lemma fold_placed_drawn:
  "length xys = length hs \<Longrightarrow>
     fold (show_placed_drawn st now) (zip (map graph_request hs) xys) p =
     fold (\<lambda>(h, xy). show_graph_drawn now h xy) (zip hs xys) p"
  by (induction hs xys arbitrary: p rule: list_induct2') (simp_all add: show_placed_drawn_def)

text \<open>The network card as the last model alone draws it.\<close>

definition card_redrawn :: "net_state \<Rightarrow> double \<Rightarrow> net_card \<Rightarrow> bool" where
  "card_redrawn st now k \<longleftrightarrow>
     on_card k = on_card (net_card_update (Some (nk_root k)) now st (net_card_create (nk_root k)))"

lemma place_follows:
  assumes "graphs_follow p"
  shows "graphs_follow (place_pool_drawn st now cmd p)"
    "length (wanted cmd (fst (fst p))) < 6 \<Longrightarrow> card_redrawn st now (snd (snd (place_pool_drawn st now cmd p)))"
proof -
  let ?t = "fst (fst p)"
  let ?few = "length (wanted cmd ?t) < 6"
  define hs where "hs = take 6 (wanted cmd ?t)"
  let ?placed = "map graph_request hs @ (if ?few then [net_request] else [])"
  have g: "graph_inv ?t" using assms by (auto simp: graphs_follow_def pool_inv_def split: prod.splits)
  have hosts: "set (sorted_hosts ?t) = gh_host ` set ?t"
    using sorted_hosts_props(1) [OF g] by (metis set_map set_mset_mset)
  have sub: "set hs \<subseteq> gh_host ` set ?t"
    using hosts by (auto simp: hs_def wanted_def dest!: in_set_takeD)
  have n: "length hs = min 6 (length (wanted cmd ?t))" by (simp add: hs_def)
  have pl: "layout_pool_place (pool_requests cmd (sorted_hosts ?t)) (GRAPH_HOST_MAX + 4) = ?placed"
    unfolding hs_def by (rule pool_placed)
  have "map cells ?placed = replicate (length ?placed) 2"
    by (simp add: cells_def comp_def map_replicate_const replicate_append_same)
  moreover have "length ?placed \<le> 6" using n by simp
  ultimately have sl: "slots 1 0 (map cells ?placed) = map slot [0..<length ?placed]" by (simp only: slots_slot)
  define G where "G = fold (\<lambda>(h, xy). show_graph_drawn now h xy) (zip hs (map slot [0..<length hs])) p"
  have G: "graphs_follow G" "map gh_host (fst (fst G)) = map gh_host ?t" "ui_netcard (snd (fst G)) = ui_netcard (snd (fst p))"
    using show_all_follow [OF assms sub, of "map slot [0..<length hs]" now] by (simp_all add: G_def)
  define N where "N = (if ?few then show_netcard_drawn st now (slot (length hs)) G else G)"
  have fold: "fold (show_placed_drawn st now) (zip ?placed (map slot [0..<length ?placed])) p = N"
    by (simp add: fold_placed_drawn N_def G_def) (simp add: show_placed_drawn_def)
  have "fst (fst (show_netcard_drawn st now xy G)) = fst (fst G)" for xy
    by (simp add: show_netcard_drawn_def show_netcard_def split: prod.split)
  then have N: "graphs_follow N" "map gh_host (fst (fst N)) = map gh_host ?t"
    using netcard_follows [OF G(1)] G(1,2) unfolding N_def by (auto simp only: split: if_split)
  have few: "list_ex (\<lambda>r. wr_kind r = WIDGET_NETCARD) ?placed = ?few" using hosts_placed(2) [of hs] by simp
  let ?rest = "filter (\<lambda>h. \<not> list_ex (\<lambda>r. wr_kind r = WIDGET_GRAPH \<and> wr_payload r = Some h) ?placed) (sorted_hosts ?t)"
  obtain tu1 dk where tu1: "N = (tu1, dk)" by (rule prod.exhaust)
  define tu2 where "tu2 = fold hide_graph ?rest tu1"
  have e: "place_pool_drawn st now cmd p = (if ?few then tu2 else (fst tu2, hide (ui_netcard (snd tu2)) (snd tu2)), dk)"
    unfolding place_pool_drawn_def Let_def pl sl fold tu1 prod.case few tu2_def ..
  have "map gh_host (fst tu1) = map gh_host ?t" using N(2) by (simp add: tu1)
  then have "gh_host ` set (fst tu1) = gh_host ` set ?t" by (metis list.set_map)
  then have "set ?rest \<subseteq> gh_host ` set (fst tu1)" using hosts by auto
  then have h: "graphs_follow (tu2, dk)" using N(1) unfolding tu2_def by (intro hide_all_follow) (simp_all only: tu1)
  then have "graphs_follow ((fst tu2, hide w (snd tu2)), dk)" for w by (intro hide_follows) (simp only: prod.collapse)
  then show "graphs_follow (place_pool_drawn st now cmd p)" using h unfolding e by (simp only: split: if_split) blast
  assume ?few
  obtain tu D k where Gk: "G = (tu, D, k)" by (metis prod.exhaust)
  have k: "net_card_ok k" "nk_root k = ui_netcard (snd tu)"
    using G(1) by (simp_all add: graphs_follow_def Gk split: prod.splits)
  have "snd dk = net_card_update (Some (nk_root k)) now st k"
    using \<open>?few\<close> tu1 k(2) by (auto simp: N_def Gk show_netcard_drawn_def)
  then show "card_redrawn st now (snd (snd (place_pool_drawn st now cmd p)))"
    using net_card_update_anew(1,3) [OF k(1), of now st] by (simp add: e card_redrawn_def)
qed

section \<open>Runs\<close>

text \<open>The pool from \<open>ui_init\<close> on: refreshes, in between polls, which change and add series but no widget
  (\<open>redis_poll_on_screen\<close>), and the other blocks of a refresh, which touch no widget of the pool.\<close>

inductive pool_run :: "pool \<times> drawn_pool \<Rightarrow> bool" where
  pool_start: "pool_run (([], ui_start), Map.empty, net_card_create (ui_netcard ui_start))"
| pool_refresh: "pool_run p \<Longrightarrow> pool_run (refresh_pool_drawn st now cmd p)"
| pool_poll: "pool_run ((t, u), dk) \<Longrightarrow> graph_inv t' \<Longrightarrow>
    card_pairs gh_host gh_widget t' = card_pairs gh_host gh_widget t \<Longrightarrow> pool_run ((t', u), dk)"
| pool_beside: "pool_run ((t, u), dk) \<Longrightarrow> beside_cards u u' \<Longrightarrow> pool_run ((t, u'), dk)"

lemma refresh_follows_pool: "graphs_follow p \<Longrightarrow> graphs_follow (refresh_pool_drawn st now cmd p)"
  unfolding refresh_pool_drawn_def by (intro place_follows evict_graphs_follow)

lemma run_follows: "pool_run p \<Longrightarrow> graphs_follow p"
proof (induction rule: pool_run.induct)
  case pool_start
  show ?case using create_net_card_ok [of "ui_netcard ui_start"]
    by (simp add: graphs_follow_def pool_inv_def graph_inv_def widget_of_def look_def net_card_create_def)
      (simp add: ui_start_def)
next
  case (pool_refresh p st now cmd)
  then show ?case using refresh_follows_pool by blast
next
  case (pool_poll t u dk t')
  obtain D k where dk: "dk = (D, k)" by (rule prod.exhaust)
  have "graph_inv t" using pool_poll.IH by (simp add: graphs_follow_def pool_inv_def dk)
  then have "held gh_host gh_widget t' = held gh_host gh_widget t"
    using pool_poll.hyps by (intro held_kept) (simp_all add: graph_inv_def)
  then have "widget_of t' = widget_of t" by (simp add: widget_of_def look_def held_def fun_eq_iff)
  then show ?case using pool_poll.IH pool_poll.hyps(2) by (simp add: graphs_follow_def pool_inv_def dk)
next
  case (pool_beside t u dk u')
  then show ?case by (cases dk) (auto simp: graphs_follow_def pool_inv_def beside_cards_def intro: less_le_trans)
qed

section \<open>Properties\<close>



end
