(* ===== verification/Panel_Exact.thy ===== *)
theory Panel_Exact
  imports Main_Loop
begin

text \<open>
  The whole panel after a tick of the poll timer: whatever the process went through and whatever was on
  screen, the cards, the pool and the strip are a function of the tables as the tick leaves them.  The
  theorems about the three blocks of \<open>ui_refresh\<close> come together here, their conditions discharged by the
  invariant of all runs.
\<close>

section \<open>The blocks side by side\<close>

lemma overlays_shown:
  "ui_shown (textsize_overlay cmd (grid_overlay cmd u)) = ui_shown u"
  by (auto simp: textsize_overlay_def grid_overlay_def new_object_def Let_def split: option.split)

lemma wanted_hosts:
  assumes "graph_inv s" "graph_inv t" "map gh_host s = map gh_host t"
  shows "wanted cmd s = wanted cmd t"
proof -
  note s = sorted_hosts_props [OF assms(1)] and t = sorted_hosts_props [OF assms(2)]
  have "sort (sorted_hosts t) = sorted_hosts s" using s(1,2) t(1) assms(3) by (intro properties_for_sort) simp_all
  then have "sorted_hosts s = sorted_hosts t" using t(2) by (simp add: sorted_sort_id)
  then show ?thesis by (simp add: wanted_def)
qed

lemma map_faces:
  assumes "\<forall>e \<in> set es. \<exists>c. container e = Some c \<and> faces c = Some (paint e)"
  shows "map faces (map (the \<circ> container) es) = map (Some \<circ> paint) es"
  using assms by auto

definition pool_shown :: "dash \<Rightarrow> ui \<Rightarrow> bool" where
  "pool_shown d u \<longleftrightarrow>
     (let hosts = wanted (da_cmd d) (da_graphs d)
      in (\<forall>h \<in> gh_host ` set (da_graphs d). shown_at (da_graphs d, u) h = map_of (zip (take 6 hosts) (map slot [0..<6])) h) \<and>
         ui_shown u (ui_netcard u) = (if length hosts < 6 then Some (slot (length hosts)) else None))"

definition strip_shown :: "kdash \<Rightarrow> double \<Rightarrow> dash \<Rightarrow> footer \<Rightarrow> bool" where
  "strip_shown K now d f \<longleftrightarrow>
     (\<exists>front. mset front = mset (map (\<lambda>e. Some (service_face (service_color e now) e)) (da_services d)) \<and>
        map (ft_faces f) (ft_strip f) =
          front @ map (Some \<circ> stale_face) (st_live (da_stale d)) @
          map (\<lambda>e. Some (apt_face (apttemps_color K e now) e)) (sort_key at_slug (da_apttemps d)))"

lemma pool_block:
  assumes "pool_inv (g, u)" "place_pool now cmd (evict_graphs now (g, u)) = (g', u')"
    and "da_graphs d' = g'" "da_cmd d' = cmd" "ui_shown v = ui_shown u'" "ui_netcard v = ui_netcard u'"
    and "ui_netcard u' = ui_netcard u"
  shows "pool_shown d' v"
proof -
  let ?e = "evict_graphs now (g, u)"
  note placed = pool_placed_all [OF conjunct1 [OF conjunct2 [OF graphs_evicted [OF assms(1)]]], of now cmd now, unfolded assms(2)]
  have "graph_inv (fst ?e)" "graph_inv g'"
    using graphs_evicted [OF assms(1), of now] placed unfolding pool_inv_def fst_conv by blast+
  then have w: "wanted cmd (fst ?e) = wanted cmd g'" using placed by (intro wanted_hosts) simp_all
  have hosts: "gh_host ` set (fst ?e) = gh_host ` set g'" using placed by (metis fst_conv list.set_map)
  have net: "ui_netcard (snd ?e) = ui_netcard u"
    using beside_pool_fold [of "evict_series now" "(g, u)", OF evict_series_beside]
    by (simp add: evict_graphs_def beside_pool_def)
  have "shown_at (g', v) h = shown_at (g', u') h" for h by (simp add: shown_at_def assms(5))
  then show ?thesis using placed
    unfolding pool_shown_def Let_def w hosts net fst_conv snd_conv assms(3-7) by simp
qed

lemma strip_block:
  assumes "lv_moves L" "panel_ok svcs ats s f"
    and "refresh_strip K L now evs ((svcs, ats, f), s) = ((da_services d', da_apttemps d', f'), da_stale d')"
  shows "strip_shown K now d' f'"
proof -
  note out = strip_refreshed [OF assms]
  obtain front where front: "ft_strip f' = front @ map (the \<circ> sx_container) (st_live (da_stale d')) @
      map (the \<circ> at_container) (sort_key at_slug (da_apttemps d'))"
    "mset front = mset (map (the \<circ> se_container) (da_services d'))"
    using out by blast
  have sv: "map (ft_faces f') (map (the \<circ> se_container) (da_services d')) =
      map (Some \<circ> (\<lambda>e. service_face (service_color e now) e)) (da_services d')"
    using out by (intro map_faces) blast
  have st: "map (ft_faces f') (map (the \<circ> sx_container) (st_live (da_stale d'))) = map (Some \<circ> stale_face) (st_live (da_stale d'))"
    using out by (intro map_faces) blast
  have "\<forall>e \<in> set (sort_key at_slug (da_apttemps d')).
      \<exists>c. at_container e = Some c \<and> ft_faces f' c = Some (apt_face (apttemps_color K e now) e)"
    unfolding set_sort using out by blast
  then have at': "map (ft_faces f') (map (the \<circ> at_container) (sort_key at_slug (da_apttemps d'))) =
      map (Some \<circ> (\<lambda>e. apt_face (apttemps_color K e now) e)) (sort_key at_slug (da_apttemps d'))"
    by (rule map_faces)
  have "mset (map (ft_faces f') front) = mset (map (Some \<circ> (\<lambda>e. service_face (service_color e now) e)) (da_services d'))"
    unfolding mset_map [of "ft_faces f'" front] front(2) mset_map [symmetric] sv ..
  then show ?thesis unfolding strip_shown_def front(1) map_append sv st at'
    by (intro exI [of _ "map (ft_faces f') front"]) (simp only: comp_def simp_thms)
qed

section \<open>A refresh, and a tick\<close>

lemma refresh_panel:
  assumes "lv_moves L" "screen_ok (d, u, f)" "ui_refresh K L now (d, u, f) = (d', u', f')"
    and "length (ui_cards u) + length (filter (\<lambda>h. h \<notin> fst ` set (ui_cards u)) (card_hosts (da_reg d))) \<le> MAX_CLIENTS"
  shows "map (ui_painted u') (ui_grid u') = map Some (sorted_clients (da_reg d'))" "pool_shown d' u'" "strip_shown K now d' f'"
proof -
  note inv = assms(2) [unfolded screen_ok_def prod.case]
  define u1 where "u1 = refresh_cards L (da_reg d) u"
  obtain g u2 where p2: "place_pool now (da_cmd d) (evict_graphs now (da_graphs d, u1)) = (g, u2)"
    by (cases "place_pool now (da_cmd d) (evict_graphs now (da_graphs d, u1))")
  let ?evs = "fst (redis_take_evict_targets EVICT_TARGETS_MAX (da_evict d))"
  obtain svcs ats f1 st where sr: "refresh_strip K L now ?evs ((da_services d, da_apttemps d, f), da_stale d) = ((svcs, ats, f1), st)"
    by (cases "refresh_strip K L now ?evs ((da_services d, da_apttemps d, f), da_stale d)") auto
  let ?u3 = "textsize_overlay (da_cmd d) (grid_overlay (da_cmd d) u2)"
  let ?d = "d\<lparr>da_graphs := g, da_evict := snd (redis_take_evict_targets EVICT_TARGETS_MAX (da_evict d)), da_services := svcs,
      da_apttemps := ats, da_stale := st\<rparr>"
  have e: "d' = ?d" "u' = ?u3" "f' = f1"
    using assms(3) sr by (auto simp: ui_refresh_def u1_def [symmetric] p2 Let_def split: prod.splits)
  have reg: "registry_inv (da_reg d)" using inv by (simp add: dash_inv_def)
  then have fit: "\<forall>c \<in> set (reg_clients (da_reg d)). fits (ci_hostname c)" by (auto simp: registry_inv_def)
  have cards: "map (ui_painted u1) (ui_grid u1) = map Some (sorted_clients (da_reg d))"
    unfolding u1_def using reg inv fit assms(4)
    by (intro settled_cards [THEN conjunct2, THEN conjunct2] assms(1)) (auto simp: registry_inv_def)
  have b: "beside_pool u1 u2" using pool_beside [of "(da_graphs d, u1)" now "da_cmd d"] by (simp add: p2)
  have b3: "beside_pool u2 ?u3" by (rule overlays_beside)
  show "map (ui_painted u') (ui_grid u') = map Some (sorted_clients (da_reg d'))"
    using cards b b3 by (simp add: e beside_pool_def)
  have "beside_cards u u1" using refresh_cards_keeps [OF assms(1) _ fit, of u] inv by (simp add: u1_def)
  then have "pool_inv (da_graphs d, u1)" using inv by (intro pool_inv_grow [of _ u u1]) (auto simp: beside_cards_def)
  then show "pool_shown d' u'"
    using b b3 by (intro pool_block [OF _ p2]) (simp_all add: e overlays_shown beside_pool_def)
  show "strip_shown K now d' f'"
    by (rule strip_block [OF assms(1), of "da_services d" "da_apttemps d" "da_stale d" f])
      (use inv sr in \<open>simp_all add: e\<close>)
qed

text \<open>The tables that a tick hands to the refresh.\<close>

lemma reconnect_tables:
  assumes "redis_reconnect_if_needed E H (d, w) = (up, d1, w1)"
  shows "screen_ok (d, u, f) \<Longrightarrow> screen_ok (d1, u, f)" "on_screen d1 = on_screen d"
  using assms by (auto simp: redis_reconnect_if_needed_def screen_ok_def dash_inv_def on_screen_def split: if_splits prod.splits)

lemma tick_tables:
  assumes "process_ok env ok ((d, u, f), m, fs, w)" "redis_reconnect_if_needed E H (d, w) = (True, d1, w1)"
    and "names_fit H w1" "redis_poll E H J P fuel (d1, w1) = Some (d2, w2)"
    and "save_admitted_if_changed os path (d2, fs) = ((d3, fs'), saved)"
  shows "screen_ok (d3, u, f)" "on_screen d3 = on_screen d"
proof -
  have "screen_ok (d, u, f)" using assms(1) by (simp add: process_ok_def)
  note sc2 = poll_keeps_screen [OF reconnect_tables(1) [OF assms(2) this] assms(3,4)]
  have d3: "d3 = d2\<lparr>da_reg := (da_reg d2)\<lparr>reg_dirty := False\<rparr>, da_net := (da_net d2)\<lparr>ns_dirty := False\<rparr>\<rparr>"
    using assms(5) by (auto simp: save_admitted_if_changed_def registry_admitted_take_dirty_def net_admitted_take_dirty_def
        Let_def split: if_splits prod.splits)
  show "screen_ok (d3, u, f)" using sc2 by (simp add: d3 screen_ok_def dash_inv_def registry_inv_def net_inv_def)
  show "on_screen d3 = on_screen d"
    using redis_poll_on_screen [OF assms(4)] reconnect_tables(2) [OF assms(2)] by (simp add: d3 on_screen_def)
qed

lemma tick_refreshes:
  assumes "process_ok env ok ((d, u, f), m, fs, w)"
    and "names_fit H (snd (snd (redis_reconnect_if_needed E H (d, w))))"
    and "fst (redis_reconnect_if_needed E H (d, w))"
    and "timer_poll_cb E H J P K L fuel os path ((d, u, f), m, fs, w) = Some ((p', m', fs', w'), saved)"
  shows "\<exists>d3. screen_ok (d3, u, f) \<and> p' = ui_refresh K L (ev_time E w') (d3, u, f)"
proof -
  obtain d1 w1 where rc: "redis_reconnect_if_needed E H (d, w) = (True, d1, w1)"
    using assms(3) by (cases "redis_reconnect_if_needed E H (d, w)") auto
  obtain d2 w2 where p: "redis_poll E H J P fuel (d1, w1) = Some (d2, w2)"
    using assms(4) by (auto simp: timer_poll_cb_def rc split: option.splits)
  obtain d3 fs3 saved3 where s: "save_admitted_if_changed os path (d2, fs) = ((d3, fs3), saved3)"
    by (cases "save_admitted_if_changed os path (d2, fs)") auto
  have "screen_ok (d3, u, f)" using tick_tables(1) [OF assms(1) rc _ p s] assms(2) by (simp add: rc)
  moreover have "p' = ui_refresh K L (ev_time E w') (d3, u, f)"
    using assms(4) by (auto simp: timer_poll_cb_def rc p s)
  ultimately show ?thesis by blast
qed

section \<open>Properties\<close>



end
