(* ===== verification/Drawn_Strip.thy ===== *)
theory Drawn_Strip
  imports Strip_Cards Ui_Strip
begin

text \<open>
  The strip block of a refresh with the cards themselves (\<open>src/src/ui.c\<close>, \<open>service_card.c\<close> and
  \<open>apt_temps_card.c\<close> together): every card is made, repainted and deleted where the code does it.  The
  cards of a group are kept by the object that the entry holds; no card outlives its entry, and after a
  refresh each one shows its own entry, label by label.
\<close>

section \<open>One card\<close>

text \<open>The body of a paint loop with the cards: \<open>create\<close> stores the new object on the entry.\<close>

definition paint_entry_drawn ::
  "('k \<Rightarrow> 'e list \<Rightarrow> nat option \<times> 'e list) \<Rightarrow> ('e \<Rightarrow> nat option) \<Rightarrow> (nat option \<Rightarrow> 'e \<Rightarrow> 'e) \<Rightarrow>
   ('e \<Rightarrow> face) \<Rightarrow> ('e \<Rightarrow> face) \<Rightarrow> (nat \<Rightarrow> nat list \<Rightarrow> nat list) \<Rightarrow>
   (nat \<Rightarrow> 'e \<Rightarrow> (nat \<rightharpoonup> 'w) \<Rightarrow> nat option \<times> 'e \<times> (nat \<rightharpoonup> 'w)) \<Rightarrow> ('e \<Rightarrow> (nat \<rightharpoonup> 'w) \<Rightarrow> (nat \<rightharpoonup> 'w)) \<Rightarrow>
   'k \<Rightarrow> ('e list \<times> footer) \<times> (nat \<rightharpoonup> 'w) \<Rightarrow> ('e list \<times> footer) \<times> (nat \<rightharpoonup> 'w)" where
  "paint_entry_drawn locate container set_container made updated after create update k p =
     (case p of (tf, W) \<Rightarrow>
        (paint_entry locate container set_container made updated after k tf,
         case locate k (fst tf) of
           (None, t) \<Rightarrow> W
         | (Some i, t) \<Rightarrow>
             (let (e, W1) = (case container (t ! i) of
                    Some c \<Rightarrow> (t ! i, W)
                  | None \<Rightarrow> snd (create (ft_next (snd tf)) (t ! i) W))
              in update e W1)))"

text \<open>\<open>lv_obj_delete\<close> of a container, if there is one.\<close>

definition drop_card :: "nat option \<Rightarrow> (nat \<rightharpoonup> 'w) \<Rightarrow> (nat \<rightharpoonup> 'w)" where
  "drop_card c W = (case c of None \<Rightarrow> W | Some c \<Rightarrow> W(c := None))"

section \<open>The blocks\<close>

type_synonym drawn_strip = "(nat \<rightharpoonup> service_card) \<times> (nat \<rightharpoonup> stale_card) \<times> (nat \<rightharpoonup> apt_card)"

definition apply_evict_drawn :: "evict_target \<Rightarrow> tables \<times> drawn_strip \<Rightarrow> tables \<times> drawn_strip" where
  "apply_evict_drawn ev p =
     (case p of ((svcs, ats, f), Ws, Wk, Wa) \<Rightarrow>
        (apply_evict ev (svcs, ats, f),
         if strcmp (et_kind ev) ''apttemps'' = 0
         then (Ws, Wk, drop_card (fst (apttemps_registry_remove (et_name ev) ats)) Wa)
         else (drop_card (fst (service_registry_remove (et_name ev, et_host ev) svcs)) Ws, Wk, Wa)))"

text \<open>The strip is never NULL; its own handle plays no part.\<close>

abbreviation "strip_parent \<equiv> Some 0 :: nat option"

definition paint_services_drawn ::
  "double \<Rightarrow> (service_entry list \<times> footer) \<times> (nat \<rightharpoonup> service_card) \<Rightarrow> (service_entry list \<times> footer) \<times> (nat \<rightharpoonup> service_card)" where
  "paint_services_drawn now p =
     fold (paint_entry_drawn service_registry_find_or_create se_container (\<lambda>c e. e\<lparr>se_container := c\<rparr>)
             (service_face SERVICE_COLOR_GRAY) (\<lambda>e. service_face (service_color e now) e) (\<lambda>c xs. xs)
             (service_card_create strip_parent) (\<lambda>e. service_card_update (e, now)))
       (map (\<lambda>e. (se_name e, se_host e)) (c_isort service_gt (service_registry_snapshot SERVICE_REGISTRY_MAX (fst (fst p))))) p"

definition reap_stale_drawn ::
  "(stale_state \<times> footer) \<times> (nat \<rightharpoonup> stale_card) \<Rightarrow> (stale_state \<times> footer) \<times> (nat \<rightharpoonup> stale_card)" where
  "reap_stale_drawn p =
     (case p of (sf, W) \<Rightarrow> (reap_stale sf, fold drop_card (fst (stale_registry_reap STALE_REGISTRY_MAX (fst sf))) W))"

definition paint_stale_drawn ::
  "lv_move \<Rightarrow> (stale_state \<times> footer) \<times> (nat \<rightharpoonup> stale_card) \<Rightarrow> (stale_state \<times> footer) \<times> (nat \<rightharpoonup> stale_card)" where
  "paint_stale_drawn L p =
     (case p of ((s, f), W) \<Rightarrow>
        case fold (paint_entry_drawn (\<lambda>h t. (stale_registry_find h (s\<lparr>st_live := t\<rparr>), t)) sx_container
                     (\<lambda>c e. e\<lparr>sx_container := c\<rparr>) stale_face stale_face (move_last L)
                     (stale_card_create strip_parent) stale_card_update)
               (map sx_host (stale_registry_snapshot STALE_REGISTRY_MAX s)) ((st_live s, f), W) of
          ((t, f'), W') \<Rightarrow> ((s\<lparr>st_live := t\<rparr>, f'), W'))"

definition paint_apttemps_drawn ::
  "kdash \<Rightarrow> lv_move \<Rightarrow> double \<Rightarrow> (apttemps_entry list \<times> footer) \<times> (nat \<rightharpoonup> apt_card) \<Rightarrow>
   (apttemps_entry list \<times> footer) \<times> (nat \<rightharpoonup> apt_card)" where
  "paint_apttemps_drawn K L now p =
     fold (paint_entry_drawn apttemps_registry_find_or_create at_container (\<lambda>c e. e\<lparr>at_container := c\<rparr>)
             (apt_face APTTEMPS_COLOR_GRAY) (\<lambda>e. apt_face (apttemps_color K e now) e) (move_last L)
             (apt_temps_card_create strip_parent) (\<lambda>e. apt_temps_card_update K (e, now)))
       (map at_slug (c_isort apttemps_gt (apttemps_registry_snapshot APTTEMPS_REGISTRY_MAX (fst (fst p))))) p"

definition refresh_strip_drawn ::
  "kdash \<Rightarrow> lv_move \<Rightarrow> double \<Rightarrow> evict_target list \<Rightarrow> (tables \<times> stale_state) \<times> drawn_strip \<Rightarrow>
   (tables \<times> stale_state) \<times> drawn_strip" where
  "refresh_strip_drawn K L now evs p =
     (case p of ((tabs, s), X) \<Rightarrow>
        case fold apply_evict_drawn evs (tabs, X) of ((svcs, ats, f), Ws, Wk, Wa) \<Rightarrow>
        case paint_services_drawn now ((svcs, f), Ws) of ((svcs', f1), Ws') \<Rightarrow>
        case paint_stale_drawn L (reap_stale_drawn ((s, f1), Wk)) of ((s', f2), Wk') \<Rightarrow>
        case paint_apttemps_drawn K L now ((ats, f2), Wa) of ((ats', f3), Wa') \<Rightarrow>
          (((svcs', ats', f3), s'), Ws', Wk', Wa'))"

section \<open>The strip is that of the strip block\<close>

lemma paint_entry_drawn_fst:
  "fst (paint_entry_drawn locate container set_container made updated after create update k p) =
   paint_entry locate container set_container made updated after k (fst p)"
  by (simp add: paint_entry_drawn_def case_prod_unfold)

lemma fold_entry_drawn_fst:
  "fst (fold (paint_entry_drawn locate container set_container made updated after create update) ks p) =
   fold (paint_entry locate container set_container made updated after) ks (fst p)"
  by (rule fold_fst) (rule paint_entry_drawn_fst)

lemma blocks_drawn_fst:
  "fst (fold apply_evict_drawn evs tX) = fold apply_evict evs (fst tX)"
  "fst (paint_services_drawn now sp) = paint_services now (fst sp)"
  "fst (reap_stale_drawn kp) = reap_stale (fst kp)"
  "fst (paint_stale_drawn L kp) = paint_stale L (fst kp)"
  "fst (paint_apttemps_drawn K L now ap) = paint_apttemps K L now (fst ap)"
proof -
  show "fst (fold apply_evict_drawn evs tX) = fold apply_evict evs (fst tX)"
    by (rule fold_fst) (simp add: apply_evict_drawn_def case_prod_unfold)
  show "fst (paint_services_drawn now sp) = paint_services now (fst sp)"
    by (simp add: paint_services_drawn_def paint_services_def fold_entry_drawn_fst)
  show "fst (reap_stale_drawn kp) = reap_stale (fst kp)"
    by (simp add: reap_stale_drawn_def case_prod_unfold)
  show "fst (paint_apttemps_drawn K L now ap) = paint_apttemps K L now (fst ap)"
    by (simp add: paint_apttemps_drawn_def paint_apttemps_def fold_entry_drawn_fst)
  show "fst (paint_stale_drawn L kp) = paint_stale L (fst kp)"
    unfolding paint_stale_drawn_def paint_stale_def case_prod_unfold fst_conv
    by (simp add: fold_entry_drawn_fst)
qed

lemma refresh_strip_drawn_fst: "fst (refresh_strip_drawn K L now evs p) = refresh_strip K L now evs (fst p)"
  unfolding refresh_strip_drawn_def refresh_strip_def case_prod_unfold fst_conv snd_conv
  by (simp add: blocks_drawn_fst prod_eq_iff)

section \<open>The cards of a group\<close>

text \<open>The objects of a group are those its entries hold, and each has kept what was fixed when it was made.\<close>

definition store_ok :: "('w \<Rightarrow> bool) \<Rightarrow> ('k \<Rightarrow> nat option) \<Rightarrow> (nat \<rightharpoonup> 'w) \<Rightarrow> bool" where
  "store_ok kept hold W \<longleftrightarrow> dom W = ran hold \<and> (\<forall>w \<in> ran W. kept w)"

text \<open>Each holder's card is its own.\<close>

definition held_apart :: "('k \<Rightarrow> nat option) \<Rightarrow> bool" where
  "held_apart hold \<longleftrightarrow> (\<forall>k k' c. hold k = Some c \<longrightarrow> hold k' = Some c \<longrightarrow> k = k')"

lemma strip_apart: "strip_ok hold f \<Longrightarrow> held_apart hold"
  by (auto simp: strip_ok_def held_apart_def)

lemma ran_give: "hold k = Some c \<or> hold k = None \<Longrightarrow> ran (hold(k \<mapsto> c)) = insert c (ran hold)"
  by (auto simp: map_upd_triv insert_absorb ranI)

lemma store_drop:
  assumes "store_ok kept hold W" "held_apart hold"
  shows "store_ok kept (hold(k := None)) (drop_card (hold k) W)"
proof (cases "hold k")
  case None
  then have "hold(k := None) = hold" by (auto simp: fun_eq_iff)
  then show ?thesis using assms(1) None by (simp add: drop_card_def)
next
  case (Some c)
  have "ran (hold(k := None)) = ran hold - {c}"
    using assms(2) Some by (auto simp: ran_def held_apart_def) (metis option.inject)
  moreover have "ran (W(c := None)) \<subseteq> ran W" by (auto simp: ran_def split: if_splits)
  ultimately show ?thesis using assms(1) by (auto simp: store_ok_def drop_card_def Some)
qed

text \<open>The contract of a group with its cards: the registry's side (\<open>card_group\<close>) and the card's
  (\<open>painted_card\<close>), and that making and repainting go through the entry.\<close>

locale drawn_group = card_group key locate container set_container ok +
    painted_card container repaint seen looks kept
  for key :: "'e \<Rightarrow> 'k"
    and locate :: "'k \<Rightarrow> 'e list \<Rightarrow> nat option \<times> 'e list"
    and container :: "'e \<Rightarrow> nat option"
    and set_container :: "nat option \<Rightarrow> 'e \<Rightarrow> 'e"
    and ok :: "'e list \<Rightarrow> bool"
    and repaint :: "'e \<Rightarrow> 'w \<Rightarrow> 'w"
    and seen :: "'w \<Rightarrow> sight"
    and looks :: "'e \<Rightarrow> sight"
    and kept :: "'w \<Rightarrow> bool" +
  fixes create :: "nat \<Rightarrow> 'e \<Rightarrow> (nat \<rightharpoonup> 'w) \<Rightarrow> nat option \<times> 'e \<times> (nat \<rightharpoonup> 'w)"
    and update :: "'e \<Rightarrow> (nat \<rightharpoonup> 'w) \<Rightarrow> (nat \<rightharpoonup> 'w)"
    and new_card :: "'e \<Rightarrow> 'w"
  assumes creates: "create k e W = (Some k, set_container (Some k) e, W(k \<mapsto> new_card e))"
    and updates: "update e W = (case container e of None \<Rightarrow> W | Some k \<Rightarrow> W(k := map_option (repaint e) (W k)))"
    and new_kept: "kept (new_card e)"
begin

definition shows_own :: "(nat \<rightharpoonup> 'w) \<Rightarrow> 'e \<Rightarrow> bool" where
  "shows_own W e \<longleftrightarrow> (\<exists>c w. container e = Some c \<and> W c = Some w \<and> seen w = looks e)"

lemma paint_drawn_step:
  assumes ok: "ok t" and i: "i < length t" and strip: "strip_ok (held key container t) f"
    and after: "settles after moves" and store: "store_ok kept (held key container t) W"
  obtains c f' W' where
    "paint_entry_drawn locate container set_container made updated after create update (key (t ! i)) ((t, f), W) =
       ((t[i := set_container (Some c) (t ! i)], f'), W')"
    "ok (t[i := set_container (Some c) (t ! i)])"
    "map key (t[i := set_container (Some c) (t ! i)]) = map key t"
    "strip_ok (held key container (t[i := set_container (Some c) (t ! i)])) f'"
    "store_ok kept (held key container (t[i := set_container (Some c) (t ! i)])) W'"
    "shows_own W' (set_container (Some c) (t ! i))"
    "\<forall>x. x \<noteq> c \<longrightarrow> W' x = W x"
proof -
  obtain c f' where p: "paint_entry locate container set_container made updated after (key (t ! i)) (t, f) =
       (t[i := set_container (Some c) (t ! i)], f')"
    and c: "held key container t (key (t ! i)) = Some c \<and> ft_next f' = ft_next f \<or>
       held key container t (key (t ! i)) = None \<and> c = ft_next f \<and> ft_next f' = Suc (ft_next f)"
    and s: "ft_strip f' = (if moves then filter (\<lambda>x. x \<noteq> c) (ft_strip f) @ [c]
       else if c \<in> set (ft_strip f) then ft_strip f else ft_strip f @ [c])"
    by (rule paint_step [OF ok i strip after])
  let ?e = "set_container (Some c) (t ! i)"
  let ?t = "t[i := ?e]"
  have tab: "ok ?t" "map key ?t = map key t" "held key container ?t = (held key container t)(key (t ! i) \<mapsto> c)"
    using step_tables [OF ok i, of c] by simp_all
  have own: "held key container t (key (t ! i)) = container (t ! i)" by (rule held_nth [OF ok_keys [OF ok] i])
  define w where "w = (case container (t ! i) of Some c \<Rightarrow> the (W c) | None \<Rightarrow> new_card (t ! i))"
  let ?W = "W(c \<mapsto> repaint ?e w)"
  have w: "kept w"
  proof (cases "container (t ! i)")
    case (Some c')
    then have "c' \<in> dom W" using store own by (auto simp: store_ok_def ran_def)
    then obtain x where "W c' = Some x" by blast
    then show ?thesis using store Some by (auto simp: w_def store_ok_def ran_def)
  qed (simp add: w_def new_kept)
  have run: "paint_entry_drawn locate container set_container made updated after create update (key (t ! i)) ((t, f), W) =
       ((?t, f'), ?W)"
  proof (cases "container (t ! i)")
    case None
    then have "c = ft_next f" using c own by simp
    then show ?thesis using None
      by (simp add: paint_entry_drawn_def p finds [OF ok i] creates updates container_set w_def)
  next
    case (Some c')
    then have c': "c' = c" using c own by simp
    then have "c \<in> dom W" using store own Some by (auto simp: store_ok_def ran_def)
    moreover have "?e = t ! i" using set_get [of "t ! i"] Some c' by simp
    ultimately show ?thesis using Some c'
      by (auto simp: paint_entry_drawn_def p finds [OF ok i] updates w_def)
  qed
  have "strip_ok (held key container ?t) f'" unfolding tab(3) by (rule step_strip_ok [OF strip c s])
  moreover have "store_ok kept (held key container ?t) ?W"
  proof -
    have "ran ((held key container t)(key (t ! i) \<mapsto> c)) = insert c (ran (held key container t))"
      by (rule ran_give) (use c in auto)
    moreover have "\<forall>x \<in> ran ?W. kept x" using store repaint_kept [OF w] by (auto simp: ran_def store_ok_def)
    ultimately show ?thesis using store unfolding tab(3) store_ok_def by simp
  qed
  moreover have "shows_own ?W ?e" using repaint_seen [OF w] by (simp add: shows_own_def container_set)
  ultimately show thesis using that [OF run tab(1,2)] by simp
qed

text \<open>A paint loop, with the keys painted so far.\<close>

definition painted :: "'k set \<Rightarrow> ('e list \<times> footer) \<times> (nat \<rightharpoonup> 'w) \<Rightarrow> bool" where
  "painted S p \<longleftrightarrow>
     (case p of ((t, f), W) \<Rightarrow>
        ok t \<and> strip_ok (held key container t) f \<and> store_ok kept (held key container t) W \<and>
        (\<forall>e \<in> set t. key e \<in> S \<longrightarrow> shows_own W e))"

lemma paint_one_more:
  fixes made updated :: "'e \<Rightarrow> face"
  assumes "painted S p" "k \<in> key ` set (fst (fst p))" "settles after moves"
  defines "p' \<equiv> paint_entry_drawn locate container set_container made updated after create update k p"
  shows "painted (insert k S) p'" "map key (fst (fst p')) = map key (fst (fst p))"
proof -
  obtain t f W where p: "p = ((t, f), W)" by (metis prod.exhaust)
  have inv: "ok t" "strip_ok (held key container t) f" "store_ok kept (held key container t) W"
      "\<forall>e \<in> set t. key e \<in> S \<longrightarrow> shows_own W e"
    using assms(1) by (simp_all add: painted_def p)
  obtain i where i: "i < length t" "key (t ! i) = k" using assms(2) by (auto simp: p in_set_conv_nth)
  obtain c f' W' where run: "p' = ((t[i := set_container (Some c) (t ! i)], f'), W')"
    and new: "ok (t[i := set_container (Some c) (t ! i)])"
      "map key (t[i := set_container (Some c) (t ! i)]) = map key t"
      "strip_ok (held key container (t[i := set_container (Some c) (t ! i)])) f'"
      "store_ok kept (held key container (t[i := set_container (Some c) (t ! i)])) W'"
      "shows_own W' (set_container (Some c) (t ! i))" "\<forall>x. x \<noteq> c \<longrightarrow> W' x = W x"
    by (rule paint_drawn_step [OF inv(1) i(1) inv(2) assms(3) inv(3), of made updated, unfolded i(2), folded p, folded p'_def])
  define t1 where "t1 = t[i := set_container (Some c) (t ! i)]"
  note new = new [folded t1_def]
  have d: "distinct (map key t1)" by (rule ok_keys [OF new(1)])
  have c: "held key container t1 k = Some c"
    using held_nth [OF d, of i] i by (simp add: t1_def key_set container_set)
  have "shows_own W' e" if e: "e \<in> set t1" "key e \<in> insert k S" for e
  proof (cases "key e = k")
    case True
    obtain j where j: "j < length t1" "t1 ! j = e" using e(1) by (auto simp: in_set_conv_nth)
    have "i < length t1" "key (t1 ! i) = k" using i by (simp_all add: t1_def key_set)
    then have "j = i" using nth_eq_iff_index_eq [OF d, of j i] True j by simp
    then show ?thesis using new(5) j i(1) by (simp add: t1_def)
  next
    case False
    have "key (set_container (Some c) (t ! i)) = k" by (simp add: key_set i(2))
    then have "e \<in> set t" using e(1) False set_update_subset_insert [of t i "set_container (Some c) (t ! i)"]
      by (auto simp: t1_def)
    then have own: "shows_own W e" using e(2) False inv(4) by simp
    then obtain x where x: "container e = Some x" by (auto simp: shows_own_def)
    then have "held key container t1 (key e) = Some x" using held_own [OF d e(1)] by simp
    then have "x \<noteq> c" using strip_apart [OF new(3)] c False by (auto simp: held_apart_def)
    then show ?thesis using own x new(6) by (simp add: shows_own_def)
  qed
  then show "painted (insert k S) p'" using new unfolding run painted_def prod.case t1_def [symmetric] by blast
  show "map key (fst (fst p')) = map key (fst (fst p))" using new(2) by (simp add: run p t1_def)
qed

lemma paint_loop:
  assumes "painted S p" "set ks \<subseteq> key ` set (fst (fst p))" "settles after moves"
    and "p' = fold (paint_entry_drawn locate container set_container made updated after create update) ks p"
  shows "painted (set ks \<union> S) p' \<and> map key (fst (fst p')) = map key (fst (fst p))"
  using assms(1,2,4)
proof (induction ks arbitrary: S p)
  case (Cons k ks)
  let ?p = "paint_entry_drawn locate container set_container made updated after create update k p"
  have k: "k \<in> key ` set (fst (fst p))" using Cons.prems(2) by simp
  note one = paint_one_more [OF Cons.prems(1) k assms(3), of made updated]
  have "set ks \<subseteq> key ` set (fst (fst ?p))" using Cons.prems(2) one(2) by (metis insert_subset list.set(2) list.set_map)
  then show ?case using Cons.IH [OF one(1)] one(2) Cons.prems(3) by simp
qed simp

lemma paint_group_drawn:
  assumes "ok t" "strip_ok (held key container t) f" "store_ok kept (held key container t) W" "settles after moves"
    and "set ks = key ` set t"
    and "fold (paint_entry_drawn locate container set_container made updated after create update) ks ((t, f), W) = ((t', f'), W')"
  shows "store_ok kept (held key container t') W'" "\<forall>e \<in> set t'. shows_own W' e"
proof -
  have p: "painted {} ((t, f), W)" using assms(1-3) by (simp add: painted_def)
  have "set ks \<subseteq> key ` set t" using assms(5) by simp
  then have all: "painted (set ks) ((t', f'), W')" "map key t' = map key t"
    using paint_loop [OF p _ assms(4) assms(6) [symmetric]] by simp_all
  show "store_ok kept (held key container t') W'" using all(1) by (simp add: painted_def)
  have "key ` set t' = set ks" using all(2) assms(5) by (metis list.set_map)
  then show "\<forall>e \<in> set t'. shows_own W' e" using all(1) by (auto simp: painted_def)
qed

end

interpretation drawn_services: drawn_group service_key service_registry_find_or_create se_container
    "\<lambda>c e. e\<lparr>se_container := c\<rparr>" services_ok "\<lambda>e. repaint_service (e, now)" service_seen
    "\<lambda>e. face_sight (service_face (service_color e now) e)" service_kept
    "service_card_create strip_parent" "\<lambda>e. service_card_update (e, now)" service_card_made
  for now
  by unfold_locales
    (use service_cards.repaint_kept service_cards.repaint_seen [of _ "(_, now)"] in
      \<open>simp_all add: service_card_create_def service_card_update_def service_made(1)\<close>)

interpretation drawn_stale: drawn_group sx_host "\<lambda>h t. (stale_registry_find h (s\<lparr>st_live := t\<rparr>), t)" sx_container
    "\<lambda>c e. e\<lparr>sx_container := c\<rparr>" stale_ok repaint_stale stale_seen "\<lambda>e. face_sight (stale_face e)" stale_kept
    "stale_card_create strip_parent" stale_card_update stale_card_made
  for s :: stale_state
  by unfold_locales (simp_all add: stale_card_create_def stale_card_update_def stale_made(1))

interpretation drawn_apts: drawn_group at_slug apttemps_registry_find_or_create at_container
    "\<lambda>c e. e\<lparr>at_container := c\<rparr>" apttemps_ok "\<lambda>e. repaint_apt K (e, now)" apt_seen
    "\<lambda>e. face_sight (apt_face (apttemps_color K e now) e)" apt_kept
    "apt_temps_card_create strip_parent" "\<lambda>e. apt_temps_card_update K (e, now)" apt_card_made
  for K now
  by unfold_locales
    (use Strip_Cards.apt_cards.repaint_kept Strip_Cards.apt_cards.repaint_seen [of _ K "(_, now)"] in
      \<open>simp_all add: apt_temps_card_create_def apt_temps_card_update_def apt_made(1)\<close>)

section \<open>The blocks keep the cards\<close>

definition stores_ok :: "service_entry list \<Rightarrow> stale_entry list \<Rightarrow> apttemps_entry list \<Rightarrow> drawn_strip \<Rightarrow> bool" where
  "stores_ok svcs st ats X \<longleftrightarrow>
     (case X of (Ws, Wk, Wa) \<Rightarrow>
        store_ok service_kept (held service_key se_container svcs) Ws \<and>
        store_ok stale_kept (held sx_host sx_container st) Wk \<and>
        store_ok apt_kept (held at_slug at_container ats) Wa)"

lemma panel_strips:
  assumes "panel_ok svcs ats s f"
  shows "strip_ok (held service_key se_container svcs) f" "strip_ok (held sx_host sx_container (st_live s)) f"
    "strip_ok (held at_slug at_container ats) f"
proof -
  have "strip_ok (holds svcs (st_live s) ats) f" using assms by (simp add: panel_ok_def full_strip_def)
  note part = strip_ok_group [OF this]
  show "strip_ok (held service_key se_container svcs) f" by (rule part [of ServiceKey]) (simp_all add: inj_def)
  show "strip_ok (held sx_host sx_container (st_live s)) f" by (rule part [of StaleKey]) (simp_all add: inj_def)
  show "strip_ok (held at_slug at_container ats) f" by (rule part [of AptKey]) (simp_all add: inj_def)
qed

lemma evict_stores:
  assumes "panel_ok svcs ats s f" "stores_ok svcs (st_live s) ats X"
    and "apply_evict_drawn ev ((svcs, ats, f), X) = ((svcs', ats', f'), X')"
  shows "stores_ok svcs' (st_live s) ats' X'"
proof -
  obtain Ws Wk Wa where X: "X = (Ws, Wk, Wa)" by (rule prod_cases3)
  have ok: "services_ok svcs" "apttemps_ok ats" using assms(1) by (simp_all add: panel_ok_def)
  have a: "held_apart (held service_key se_container svcs)" "held_apart (held at_slug at_container ats)"
    using panel_strips [OF assms(1)] strip_apart by blast+
  show ?thesis
  proof (cases "strcmp (et_kind ev) ''apttemps'' = 0")
    case True
    obtain c t where r: "apttemps_registry_remove (et_name ev) ats = (c, t)" by (rule prod.exhaust)
    have "svcs' = svcs" "ats' = t" "X' = (Ws, Wk, drop_card c Wa)"
      using assms(3) True r by (simp_all add: apply_evict_drawn_def apply_evict_def X)
    then show ?thesis using assms(2) apt_gone.remove_held [OF ok(2) r] store_drop [of apt_kept _ Wa, OF _ a(2)]
      by (simp add: stores_ok_def X)
  next
    case False
    obtain c t where r: "service_registry_remove (et_name ev, et_host ev) svcs = (c, t)" by (rule prod.exhaust)
    have "svcs' = t" "ats' = ats" "X' = (drop_card c Ws, Wk, Wa)"
      using assms(3) False r by (simp_all add: apply_evict_drawn_def apply_evict_def X)
    then show ?thesis using assms(2) svc_gone.remove_held [OF ok(1) r] store_drop [of service_kept _ Ws, OF _ a(1)]
      by (simp add: stores_ok_def X)
  qed
qed

lemma evicts_stores:
  "panel_ok svcs ats s f \<Longrightarrow> stores_ok svcs (st_live s) ats X \<Longrightarrow>
     fold apply_evict_drawn evs ((svcs, ats, f), X) = ((svcs', ats', f'), X') \<Longrightarrow> stores_ok svcs' (st_live s) ats' X'"
proof (induction evs arbitrary: svcs ats f X)
  case (Cons ev evs)
  obtain a b c Y where one: "apply_evict_drawn ev ((svcs, ats, f), X) = ((a, b, c), Y)" by (metis prod.exhaust)
  have "apply_evict ev (svcs, ats, f) = (a, b, c)"
    using one by (simp add: apply_evict_drawn_def split: prod.splits)
  then show ?case
    using Cons.IH [OF apply_evict_ok [OF Cons.prems(1)] evict_stores [OF Cons.prems(1,2) one]] Cons.prems(3) one by simp
qed simp

lemma services_drawn:
  assumes "panel_ok svcs ats s f" "store_ok service_kept (held service_key se_container svcs) W"
    and "paint_services_drawn now ((svcs, f), W) = ((svcs', f'), W')"
  shows "store_ok service_kept (held service_key se_container svcs') W'"
    "\<forall>e \<in> set svcs'. drawn_services.shows_own now W' e"
proof -
  have ok: "services_ok svcs" using assms(1) by (simp add: panel_ok_def)
  let ?ks = "map service_key (c_isort service_gt svcs)"
  have "service_registry_snapshot SERVICE_REGISTRY_MAX svcs = svcs"
    using ok by (simp add: services_ok_def service_registry_snapshot_def)
  then have run: "fold (paint_entry_drawn service_registry_find_or_create se_container (\<lambda>c e. e\<lparr>se_container := c\<rparr>)
      (service_face SERVICE_COLOR_GRAY) (\<lambda>e. service_face (service_color e now) e) (\<lambda>c xs. xs)
      (service_card_create strip_parent) (\<lambda>e. service_card_update (e, now))) ?ks ((svcs, f), W) = ((svcs', f'), W')"
    using assms(3) by (simp add: paint_services_drawn_def service_key_def [abs_def])
  have "set ?ks = service_key ` set svcs" by simp
  note all = drawn_services.paint_group_drawn [OF ok panel_strips(1) [OF assms(1)] assms(2) settles_same this run]
  show "store_ok service_kept (held service_key se_container svcs') W'" by (rule all(1))
  show "\<forall>e \<in> set svcs'. drawn_services.shows_own now W' e" by (rule all(2))
qed

lemma fold_drop: "fold drop_card dead W = W |` (- {x. Some x \<in> set dead})"
proof (induction dead arbitrary: W)
  case (Cons d dead)
  then show ?case by (cases d) (auto simp: drop_card_def restrict_map_def fun_eq_iff)
qed (simp add: restrict_map_def)

lemma ran_held:
  assumes "distinct (map key t)"
  shows "ran (held key container t) = {c. \<exists>e \<in> set t. container e = Some c}"
proof (intro set_eqI iffI)
  fix c assume "c \<in> ran (held key container t)"
  then obtain k where "held key container t k = Some c" by (auto simp: ran_def)
  then show "c \<in> {c. \<exists>e \<in> set t. container e = Some c}" using held_entry by fastforce
next
  fix c assume "c \<in> {c. \<exists>e \<in> set t. container e = Some c}"
  then obtain e where "e \<in> set t" "container e = Some c" by blast
  then have "held key container t (key e) = Some c" using held_own [OF assms] by simp
  then show "c \<in> ran (held key container t)" by (rule ranI)
qed

lemma store_reap:
  assumes "store_ok kept (held key container t) W" "held_apart (held key container t)" "distinct (map key t)"
  shows "store_ok kept (held key container (filter P t)) (fold drop_card (map container (filter (\<lambda>e. \<not> P e) t)) W)"
proof -
  let ?dead = "{x. Some x \<in> set (map container (filter (\<lambda>e. \<not> P e) t))}"
  have same: "e = e'" if "e \<in> set t" "e' \<in> set t" "container e = Some c" "container e' = Some c" for e e' c
  proof -
    have "held key container t (key e) = Some c" "held key container t (key e') = Some c"
      using held_own [OF assms(3)] that by simp_all
    then have "key e = key e'" using assms(2) unfolding held_apart_def by blast
    then show ?thesis using assms(3) that(1,2) by (simp add: distinct_map inj_on_def)
  qed
  have d: "distinct (map key (filter P t))" using assms(3) by (simp add: distinct_map_filter)
  have "ran (held key container (filter P t)) = ran (held key container t) - ?dead"
    unfolding ran_held [OF assms(3)] ran_held [OF d]
  proof (intro set_eqI iffI)
    fix c assume "c \<in> {c. \<exists>e \<in> set (filter P t). container e = Some c}"
    then obtain e where e: "e \<in> set t" "P e" "container e = Some c" by auto
    moreover have "c \<notin> ?dead" using same [OF e(1) _ e(3)] e(2) by auto
    ultimately show "c \<in> {c. \<exists>e \<in> set t. container e = Some c} - ?dead" by blast
  next
    fix c assume c: "c \<in> {c. \<exists>e \<in> set t. container e = Some c} - ?dead"
    then obtain e where e: "e \<in> set t" "container e = Some c" by blast
    have "P e" using c e by (auto simp: image_iff)
    then show "c \<in> {c. \<exists>e \<in> set (filter P t). container e = Some c}" using e by auto
  qed
  moreover have "dom (W |` (- ?dead)) = dom W - ?dead" by auto
  moreover have "ran (W |` (- ?dead)) \<subseteq> ran W" by (auto simp: ran_def restrict_map_def split: if_splits)
  ultimately show ?thesis using assms(1) unfolding fold_drop store_ok_def by auto
qed

lemma stale_drawn:
  assumes "lv_moves L" "panel_ok svcs ats s f" "store_ok stale_kept (held sx_host sx_container (st_live s)) W"
    and "paint_stale_drawn L (reap_stale_drawn ((s, f), W)) = ((s', f'), W')"
  shows "store_ok stale_kept (held sx_host sx_container (st_live s')) W'"
    "\<forall>e \<in> set (st_live s'). drawn_stale.shows_own W' e"
proof -
  have inv: "stale_inv s" using assms(2) by (simp add: panel_ok_def)
  obtain s1 f1 where rp: "reap_stale (s, f) = (s1, f1)" by (rule prod.exhaust)
  define W1 where "W1 = fold drop_card (fst (stale_registry_reap STALE_REGISTRY_MAX s)) W"
  have r: "reap_stale_drawn ((s, f), W) = ((s1, f1), W1)" by (simp add: reap_stale_drawn_def rp W1_def)
  have p1: "panel_ok svcs ats s1 f1" by (rule reap_stale_ok(1) [OF assms(2) rp])
  have d: "distinct (map sx_host (st_live s))" using inv by (simp add: stale_inv_def)
  have W1: "store_ok stale_kept (held sx_host sx_container (st_live s1)) W1"
    using store_reap [OF assms(3) strip_apart [OF panel_strips(2) [OF assms(2)]] d, of "\<lambda>e. sx_deployers e \<noteq> []"]
    by (simp add: W1_def reap_live(2) [OF inv] reap_stale_ok(2) [OF assms(2) rp])
  have ok: "stale_ok (st_live s1)" using p1 stale_inv_ok by (simp add: panel_ok_def)
  let ?ks = "map sx_host (st_live s1)"
  have "stale_registry_snapshot STALE_REGISTRY_MAX s1 = st_live s1"
    using ok by (simp add: stale_ok_def stale_registry_snapshot_def)
  then obtain t' where s': "s' = s1\<lparr>st_live := t'\<rparr>" and
    run: "fold (paint_entry_drawn (\<lambda>h t. (stale_registry_find h (s1\<lparr>st_live := t\<rparr>), t)) sx_container
       (\<lambda>c e. e\<lparr>sx_container := c\<rparr>) stale_face stale_face (move_last L) (stale_card_create strip_parent) stale_card_update)
       ?ks ((st_live s1, f1), W1) = ((t', f'), W')"
    using assms(4) by (auto simp: paint_stale_drawn_def r split: prod.splits)
  have ks: "set ?ks = sx_host ` set (st_live s1)" by simp
  note all = drawn_stale.paint_group_drawn [OF ok panel_strips(2) [OF p1] W1 settles_last [OF assms(1)] ks run]
  show "store_ok stale_kept (held sx_host sx_container (st_live s')) W'" using all(1) by (simp add: s')
  show "\<forall>e \<in> set (st_live s'). drawn_stale.shows_own W' e" using all(2) by (simp add: s')
qed

lemma apts_drawn:
  assumes "lv_moves L" "panel_ok svcs ats s f" "store_ok apt_kept (held at_slug at_container ats) W"
    and "paint_apttemps_drawn K L now ((ats, f), W) = ((ats', f'), W')"
  shows "store_ok apt_kept (held at_slug at_container ats') W'"
    "\<forall>e \<in> set ats'. drawn_apts.shows_own K now W' e"
proof -
  have ok: "apttemps_ok ats" using assms(2) by (simp add: panel_ok_def)
  let ?ks = "map at_slug (c_isort apttemps_gt ats)"
  have "apttemps_registry_snapshot APTTEMPS_REGISTRY_MAX ats = ats"
    using ok by (simp add: apttemps_ok_def apttemps_registry_snapshot_def)
  then have run: "fold (paint_entry_drawn apttemps_registry_find_or_create at_container (\<lambda>c e. e\<lparr>at_container := c\<rparr>)
      (apt_face APTTEMPS_COLOR_GRAY) (\<lambda>e. apt_face (apttemps_color K e now) e) (move_last L)
      (apt_temps_card_create strip_parent) (\<lambda>e. apt_temps_card_update K (e, now))) ?ks ((ats, f), W) = ((ats', f'), W')"
    using assms(4) by (simp add: paint_apttemps_drawn_def)
  have ks: "set ?ks = at_slug ` set ats" by simp
  note all = drawn_apts.paint_group_drawn [OF ok panel_strips(3) [OF assms(2)] assms(3) settles_last [OF assms(1)] ks run]
  show "store_ok apt_kept (held at_slug at_container ats') W'" by (rule all(1))
  show "\<forall>e \<in> set ats'. drawn_apts.shows_own K now W' e" by (rule all(2))
qed

section \<open>The strip as it is seen\<close>

text \<open>What is seen of an object of the strip, whichever card it is.\<close>

definition strip_sight :: "drawn_strip \<Rightarrow> nat \<Rightarrow> sight option" where
  "strip_sight X c =
     (case X of (Ws, Wk, Wa) \<Rightarrow>
        (case Ws c of
           Some w \<Rightarrow> Some (service_seen w)
         | None \<Rightarrow> (case Wk c of
               Some w \<Rightarrow> Some (stale_seen w)
             | None \<Rightarrow> map_option apt_seen (Wa c))))"

text \<open>From left to right: the service cards, the staleness cards, the apartment cards by slug; every object of
  the strip is one of them and shows its entry.\<close>

definition strip_drawn ::
  "kdash \<Rightarrow> double \<Rightarrow> service_entry list \<Rightarrow> stale_entry list \<Rightarrow> apttemps_entry list \<Rightarrow> footer \<Rightarrow> drawn_strip \<Rightarrow> bool" where
  "strip_drawn K now svcs st ats f X \<longleftrightarrow>
     (\<exists>front. mset front = mset (map (\<lambda>e. Some (face_sight (service_face (service_color e now) e))) svcs) \<and>
        map (strip_sight X) (ft_strip f) =
          front @ map (\<lambda>e. Some (face_sight (stale_face e))) st @
          map (\<lambda>e. Some (face_sight (apt_face (apttemps_color K e now) e))) (sort_key at_slug ats))"

lemma blocks_of_refresh:
  assumes "lv_moves L" "panel_ok svcs ats s f" "stores_ok svcs (st_live s) ats X"
    and "refresh_strip_drawn K L now evs (((svcs, ats, f), s), X) = (((svcs', ats', f'), s'), Ws, Wk, Wa)"
  shows "panel_ok svcs' ats' s' f'" "stores_ok svcs' (st_live s') ats' (Ws, Wk, Wa)"
    "\<forall>e \<in> set svcs'. drawn_services.shows_own now Ws e"
    "\<forall>e \<in> set (st_live s'). drawn_stale.shows_own Wk e"
    "\<forall>e \<in> set ats'. drawn_apts.shows_own K now Wa e"
proof -
  obtain svcs1 ats1 f1 Ws1 Wk1 Wa1 where ev: "fold apply_evict_drawn evs ((svcs, ats, f), X) = ((svcs1, ats1, f1), Ws1, Wk1, Wa1)"
    by (metis prod.exhaust)
  obtain f2 where sv: "paint_services_drawn now ((svcs1, f1), Ws1) = ((svcs', f2), Ws)"
    using assms(4) by (auto simp: refresh_strip_drawn_def ev split: prod.splits)
  obtain f3 where st: "paint_stale_drawn L (reap_stale_drawn ((s, f2), Wk1)) = ((s', f3), Wk)"
    using assms(4) by (auto simp: refresh_strip_drawn_def ev sv split: prod.splits)
  have ap: "paint_apttemps_drawn K L now ((ats1, f3), Wa1) = ((ats', f'), Wa)"
    using assms(4) by (auto simp: refresh_strip_drawn_def ev sv st split: prod.splits)
  have "fold apply_evict evs (svcs, ats, f) = (svcs1, ats1, f1)" using blocks_drawn_fst(1) [of evs "((svcs, ats, f), X)"] ev by simp
  note p1 = apply_evicts_ok [OF assms(2) this]
  have "paint_services now (svcs1, f1) = (svcs', f2)" using blocks_drawn_fst(2) [of now "((svcs1, f1), Ws1)"] sv by simp
  note p2 = paint_services_ok(1) [OF p1 this]
  obtain s3 g3 where rp: "reap_stale (s, f2) = (s3, g3)" by (rule prod.exhaust)
  note p3 = reap_stale_ok(1) [OF p2 rp]
  have "paint_stale L (s3, g3) = (s', f3)"
    using blocks_drawn_fst(3) [of "((s, f2), Wk1)"] blocks_drawn_fst(4) [of L "reap_stale_drawn ((s, f2), Wk1)"] st rp by simp
  note p4 = paint_stale_ok(1) [OF assms(1) p3 this]
  have "paint_apttemps K L now (ats1, f3) = (ats', f')" using blocks_drawn_fst(5) [of K L now "((ats1, f3), Wa1)"] ap by simp
  then show "panel_ok svcs' ats' s' f'" by (rule paint_apttemps_ok(1) [OF assms(1) p4])
  have s1: "stores_ok svcs1 (st_live s) ats1 (Ws1, Wk1, Wa1)" by (rule evicts_stores [OF assms(2,3) ev])
  note own = services_drawn [OF p1 _ sv] stale_drawn [OF assms(1) p2 _ st] apts_drawn [OF assms(1) p4 _ ap]
  show "stores_ok svcs' (st_live s') ats' (Ws, Wk, Wa)" using own s1 by (simp add: stores_ok_def)
  show "\<forall>e \<in> set svcs'. drawn_services.shows_own now Ws e" "\<forall>e \<in> set (st_live s'). drawn_stale.shows_own Wk e"
    "\<forall>e \<in> set ats'. drawn_apts.shows_own K now Wa e"
    using own s1 by (simp_all add: stores_ok_def)
qed

lemma strip_is_drawn:
  assumes "lv_moves L" "panel_ok svcs ats s f" "stores_ok svcs (st_live s) ats X"
    and "refresh_strip_drawn K L now evs (((svcs, ats, f), s), X) = (((svcs', ats', f'), s'), X')"
  shows "stores_ok svcs' (st_live s') ats' X'" "strip_drawn K now svcs' (st_live s') ats' f' X'"
proof -
  obtain Ws Wk Wa where X': "X' = (Ws, Wk, Wa)" by (rule prod_cases3)
  note out = blocks_of_refresh [OF assms [unfolded X']]
  show "stores_ok svcs' (st_live s') ats' X'" using out(2) by (simp add: X')
  have doms: "dom Ws = ran (held service_key se_container svcs')" "dom Wk = ran (held sx_host sx_container (st_live s'))"
    "dom Wa = ran (held at_slug at_container ats')"
    using out(2) by (simp_all add: stores_ok_def store_ok_def)
  have full: "held_apart (holds svcs' (st_live s') ats')"
    using out(1) strip_apart by (auto simp: panel_ok_def full_strip_def)
  have one: "k = k'" if "holds svcs' (st_live s') ats' k = Some c" "holds svcs' (st_live s') ats' k' = Some c" for k k' c
    using full that unfolding held_apart_def by blast
  have apart: "dom Ws \<inter> dom Wk = {}" "dom Ws \<inter> dom Wa = {}" "dom Wk \<inter> dom Wa = {}"
    using one [of "ServiceKey _" _ "StaleKey _"] one [of "ServiceKey _" _ "AptKey _"] one [of "StaleKey _" _ "AptKey _"]
    unfolding doms ran_def by auto
  have sv: "strip_sight X' (the (se_container e)) = Some (face_sight (service_face (service_color e now) e))"
    if "e \<in> set svcs'" for e
    using out(3) that by (force simp: strip_sight_def X' drawn_services.shows_own_def)
  have st: "strip_sight X' (the (sx_container e)) = Some (face_sight (stale_face e))" if e: "e \<in> set (st_live s')" for e
  proof -
    obtain c w where c: "sx_container e = Some c" "Wk c = Some w" "stale_seen w = face_sight (stale_face e)"
      using out(4) e by (auto simp: drawn_stale.shows_own_def)
    then have "Ws c = None" using apart(1) by blast
    then show ?thesis using c by (simp add: strip_sight_def X')
  qed
  have ap: "strip_sight X' (the (at_container e)) = Some (face_sight (apt_face (apttemps_color K e now) e))"
    if e: "e \<in> set ats'" for e
  proof -
    obtain c w where c: "at_container e = Some c" "Wa c = Some w" "apt_seen w = face_sight (apt_face (apttemps_color K e now) e)"
      using out(5) e by (auto simp: drawn_apts.shows_own_def)
    then have "Ws c = None" "Wk c = None" using apart(2,3) by blast+
    then show ?thesis using c by (simp add: strip_sight_def X')
  qed
  have "refresh_strip K L now evs ((svcs, ats, f), s) = ((svcs', ats', f'), s')"
    using refresh_strip_drawn_fst [of K L now evs "(((svcs, ats, f), s), X)"] assms(4) by simp
  then obtain front where front: "ft_strip f' = front @ map (the \<circ> sx_container) (st_live s') @
      map (the \<circ> at_container) (sort_key at_slug ats')" "mset front = mset (map (the \<circ> se_container) svcs')"
    using strip_refreshed [OF assms(1,2)] by blast
  have "mset (map (strip_sight X') front) = mset (map (strip_sight X') (map (the \<circ> se_container) svcs'))"
    unfolding mset_map [of "strip_sight X'"] front(2) ..
  also have "map (strip_sight X') (map (the \<circ> se_container) svcs') =
      map (\<lambda>e. Some (face_sight (service_face (service_color e now) e))) svcs'"
    using sv by simp
  finally show "strip_drawn K now svcs' (st_live s') ats' f' X'"
    unfolding strip_drawn_def front(1) using st ap by (intro exI [of _ "map (strip_sight X') front"]) simp
qed

end
