(* ===== verification/Drawn_Panel.thy ===== *)
theory Drawn_Panel
  imports Drawn_Cards Drawn_Pool Drawn_Strip Panel_Exact
begin

text \<open>
  The process with everything it draws (\<open>src/src/main.c\<close>, \<open>ui.c\<close> and the widgets together): the refresh
  of \<open>Ui_Refresh\<close> with the client cards, the graphs, the network card and the cards of the strip.  A run
  of the process carries all of them along; after a tick what is seen is a function of the tables.
\<close>

section \<open>The refresh and the timer\<close>

text \<open>The client cards, the widgets of the pool, the cards of the strip.\<close>

type_synonym drawn_panel = "drawn \<times> drawn_pool \<times> drawn_strip"

definition drawn_start :: drawn_panel where
  "drawn_start = (Map.empty, (Map.empty, net_card_create (ui_netcard ui_start)), (Map.empty, Map.empty, Map.empty))"

definition ui_refresh_drawn :: "kdash \<Rightarrow> lv_move \<Rightarrow> double \<Rightarrow> panel \<times> drawn_panel \<Rightarrow> panel \<times> drawn_panel" where
  "ui_refresh_drawn K L now p =
     (case p of ((d, u, f), C, Q, S) \<Rightarrow>
        let (u1, C') = refresh_drawn L (da_reg d) (u, C);
            ((graphs, u2), Q') = refresh_pool_drawn (da_net d) now (da_cmd d) ((da_graphs d, u1), Q);
            (evs, rest) = redis_take_evict_targets EVICT_TARGETS_MAX (da_evict d);
            (((svcs, ats, f'), st), S') =
              refresh_strip_drawn K L now evs (((da_services d, da_apttemps d, f), da_stale d), S)
        in ((d\<lparr>da_graphs := graphs, da_evict := rest, da_services := svcs, da_apttemps := ats, da_stale := st\<rparr>,
             textsize_overlay (da_cmd d) (grid_overlay (da_cmd d) u2), f'), C', Q', S'))"

definition timer_poll_drawn ::
  "'w net_env \<Rightarrow> 'w hiredis \<Rightarrow> 'j cjson \<Rightarrow> printers \<Rightarrow> kdash \<Rightarrow> lv_move \<Rightarrow> nat \<Rightarrow> os_outcome \<Rightarrow> string \<Rightarrow>
   'w process \<times> drawn_panel \<Rightarrow> (('w process \<times> drawn_panel) \<times> bool option) option" where
  "timer_poll_drawn E H J P K L fuel os path px =
     (case px of (((d, u, f), m, fs, w), X) \<Rightarrow>
        case redis_reconnect_if_needed E H (d, w) of (up, d1, w1) \<Rightarrow>
        if \<not> up then Some ((((d1, u, f), m, fs, w1), X), None)
        else (case redis_poll E H J P fuel (d1, w1) of
                None \<Rightarrow> None
              | Some (d2, w2) \<Rightarrow>
                  (case save_admitted_if_changed os path (d2, fs) of ((d3, fs'), saved) \<Rightarrow>
                     (case ui_refresh_drawn K L (ev_time E w2) ((d3, u, f), X) of (p', X') \<Rightarrow>
                        Some (((p', m, fs', w2), X'), saved)))))"

section \<open>The process is that of the main loop\<close>

lemma ui_refresh_drawn_fst: "fst (ui_refresh_drawn K L now p) = ui_refresh K L now (fst p)"
proof -
  obtain d u f C Q S where p: "p = ((d, u, f), C, Q, S)" by (metis prod.exhaust)
  obtain u1 C' where c: "refresh_drawn L (da_reg d) (u, C) = (u1, C')" by (rule prod.exhaust)
  obtain g u2 Q' where q: "refresh_pool_drawn (da_net d) now (da_cmd d) ((da_graphs d, u1), Q) = ((g, u2), Q')"
    by (metis prod.exhaust)
  obtain evs rest where e: "redis_take_evict_targets EVICT_TARGETS_MAX (da_evict d) = (evs, rest)" by (rule prod.exhaust)
  obtain svcs ats f' st S' where s: "refresh_strip_drawn K L now evs (((da_services d, da_apttemps d, f), da_stale d), S) =
      (((svcs, ats, f'), st), S')"
    by (metis prod.exhaust)
  have "refresh_cards L (da_reg d) u = u1" using refresh_drawn_fst [of L "da_reg d" "(u, C)"] c by simp
  moreover have "place_pool now (da_cmd d) (evict_graphs now (da_graphs d, u1)) = (g, u2)"
    using refresh_pool_drawn_fst [of "da_net d" now "da_cmd d" "((da_graphs d, u1), Q)"] q by simp
  moreover have "refresh_strip K L now evs ((da_services d, da_apttemps d, f), da_stale d) = ((svcs, ats, f'), st)"
    using refresh_strip_drawn_fst [of K L now evs "(((da_services d, da_apttemps d, f), da_stale d), S)"] s by simp
  ultimately show ?thesis by (simp add: p ui_refresh_drawn_def ui_refresh_def c q e s)
qed

lemma timer_poll_drawn_fst:
  "map_option (\<lambda>(px, saved). (fst px, saved)) (timer_poll_drawn E H J P K L fuel os path px) =
   timer_poll_cb E H J P K L fuel os path (fst px)"
proof -
  obtain d u f m fs w X where px: "px = (((d, u, f), m, fs, w), X)" by (metis prod.exhaust)
  have "fst (ui_refresh_drawn K L now ((d3, u, f), X)) = ui_refresh K L now (d3, u, f)" for now d3
    by (simp add: ui_refresh_drawn_fst)
  then show ?thesis
    by (auto simp: px timer_poll_drawn_def timer_poll_cb_def case_prod_unfold split: option.split)
qed

section \<open>What is drawn follows the tables\<close>

definition drawn_ok :: "panel \<Rightarrow> drawn_panel \<Rightarrow> bool" where
  "drawn_ok p X \<longleftrightarrow>
     (case p of (d, u, f) \<Rightarrow> case X of (C, Q, S) \<Rightarrow>
        drawn_inv (u, C) \<and> graphs_follow ((da_graphs d, u), Q) \<and>
        stores_ok (da_services d) (st_live (da_stale d)) (da_apttemps d) S)"

lemma drawn_inv_beside:
  assumes "drawn_inv (u, C)" "beside_pool u v" shows "drawn_inv (v, C)"
  using assms cards_inv_beside [of u v] by (auto simp: drawn_inv_def beside_pool_def)

lemma graphs_follow_beside:
  assumes "graphs_follow ((t, u), Q)" "ui_next u \<le> ui_next v" "ui_netcard v = ui_netcard u" "ui_fed v = ui_fed u"
    and "ui_stale_mark v = ui_stale_mark u"
  shows "graphs_follow ((t, v), Q)"
  using assms pool_inv_grow [of t u v] by (cases Q) (auto simp: graphs_follow_def)

lemma overlays_graphs:
  "ui_fed (textsize_overlay cmd (grid_overlay cmd u)) = ui_fed u"
  "ui_stale_mark (textsize_overlay cmd (grid_overlay cmd u)) = ui_stale_mark u"
  by (auto simp: textsize_overlay_def grid_overlay_def new_object_def Let_def split: option.split)

text \<open>A poll touches no card: only tables that still hold the same objects change.\<close>

lemma held_on_screen:
  assumes "on_screen d' = on_screen d" "screen_ok (d, u, f)" "screen_ok (d', u, f)"
  shows "held service_key se_container (da_services d') = held service_key se_container (da_services d)"
    "held at_slug at_container (da_apttemps d') = held at_slug at_container (da_apttemps d)"
    "held sx_host sx_container (st_live (da_stale d')) = held sx_host sx_container (st_live (da_stale d))"
    "widget_of (da_graphs d') = widget_of (da_graphs d)"
proof -
  have ok: "services_ok (da_services x) \<and> apttemps_ok (da_apttemps x) \<and> stale_inv (da_stale x) \<and> graph_inv (da_graphs x)"
    if "screen_ok (x, u, f)" for x
    using that by (simp add: screen_ok_def panel_ok_def pool_inv_def)
  show "held service_key se_container (da_services d') = held service_key se_container (da_services d)"
    "held at_slug at_container (da_apttemps d') = held at_slug at_container (da_apttemps d)"
    "held sx_host sx_container (st_live (da_stale d')) = held sx_host sx_container (st_live (da_stale d))"
    using assms(1) ok [OF assms(2)] ok [OF assms(3)]
    by (auto intro!: held_kept simp: on_screen_def services_ok_def apttemps_ok_def stale_inv_def)
  have "held gh_host gh_widget (da_graphs d') = held gh_host gh_widget (da_graphs d)"
    using assms(1) ok [OF assms(2)] ok [OF assms(3)] by (auto intro!: held_kept simp: on_screen_def graph_inv_def)
  then show "widget_of (da_graphs d') = widget_of (da_graphs d)"
    by (simp add: widget_of_def look_def held_def fun_eq_iff)
qed

lemma drawn_ok_poll:
  assumes "drawn_ok (d, u, f) X" "on_screen d' = on_screen d" "screen_ok (d, u, f)" "screen_ok (d', u, f)"
  shows "drawn_ok (d', u, f) X"
proof -
  obtain C D k S where X: "X = (C, (D, k), S)" by (metis prod.exhaust)
  have "pool_inv (da_graphs d', u)" using assms(4) by (simp add: screen_ok_def)
  then show ?thesis using assms(1) held_on_screen [OF assms(2-4)]
    by (simp add: drawn_ok_def X graphs_follow_def stores_ok_def split: prod.splits)
qed

lemma drawn_ok_start:
  assumes "screen_ok (d, ui_start, blank_footer)"
  shows "drawn_ok (d, ui_start, blank_footer) drawn_start"
proof -
  have "strip_ok (holds (da_services d) (st_live (da_stale d)) (da_apttemps d)) blank_footer"
    using assms by (simp add: screen_ok_def panel_ok_def full_strip_def)
  then have none: "holds (da_services d) (st_live (da_stale d)) (da_apttemps d) k = None" for k
    by (cases "holds (da_services d) (st_live (da_stale d)) (da_apttemps d) k") (auto simp: strip_ok_def blank_footer_def)
  have "held service_key se_container (da_services d) = Map.empty" "held sx_host sx_container (st_live (da_stale d)) = Map.empty"
    "held at_slug at_container (da_apttemps d) = Map.empty"
    using none [of "ServiceKey _"] none [of "StaleKey _"] none [of "AptKey _"] by (simp_all add: fun_eq_iff)
  moreover have "widget_of (da_graphs d) h = None" for h
    using assms by (cases "widget_of (da_graphs d) h") (auto simp: screen_ok_def pool_inv_def ui_start_def)
  moreover have "pool_inv (da_graphs d, ui_start)" using assms by (simp add: screen_ok_def)
  ultimately show ?thesis using start_drawn create_net_card_ok [of "ui_netcard ui_start"]
    by (simp add: drawn_ok_def drawn_start_def graphs_follow_def stores_ok_def store_ok_def net_card_create_def)
      (simp add: ui_start_def)
qed

section \<open>A refresh\<close>

text \<open>What is seen of the whole panel, from the tables.\<close>

definition panel_drawn :: "kdash \<Rightarrow> double \<Rightarrow> panel \<Rightarrow> drawn_panel \<Rightarrow> bool" where
  "panel_drawn K now p X \<longleftrightarrow>
     (case p of (d, u, f) \<Rightarrow> case X of (C, (D, k), S) \<Rightarrow>
        list_all2 (\<lambda>w c. \<exists>h. C w = Some h \<and> depicts h c) (ui_grid u) (sorted_clients (da_reg d)) \<and>
        dom C = set (ui_grid u) \<and>
        (\<forall>h w. widget_of (da_graphs d) h = Some w \<longrightarrow>
           D w = Some (graph_after h (ui_fed u w) (ui_stale_mark u w)) \<and> graph_ok (the (D w))) \<and>
        (\<forall>h w s. widget_of (da_graphs d) h = Some w \<longrightarrow> sample_of (da_graphs d) h = Some s \<longrightarrow>
           h \<in> set (take 6 (wanted (da_cmd d) (da_graphs d))) \<longrightarrow>
           ui_stale_mark u w = graph_host_is_stale s now \<and>
           (dt_valid (gh_telemetry s) \<longrightarrow> (\<exists>fed. ui_fed u w = gh_telemetry s # fed))) \<and>
        dom D = {w. \<exists>h. widget_of (da_graphs d) h = Some w} \<and>
        (length (wanted (da_cmd d) (da_graphs d)) < 6 \<longrightarrow> card_redrawn (da_net d) now k) \<and>
        strip_drawn K now (da_services d) (st_live (da_stale d)) (da_apttemps d) f S)"

lemma refresh_draws:
  assumes "lv_moves L" "screen_ok (d, u, f)" "drawn_ok (d, u, f) X"
    and "ui_refresh_drawn K L now ((d, u, f), X) = ((d', u', f'), X')"
  shows "drawn_ok (d', u', f') X'"
    "length (ui_cards u) + length (filter (\<lambda>h. h \<notin> fst ` set (ui_cards u)) (card_hosts (da_reg d))) \<le> MAX_CLIENTS \<Longrightarrow>
       panel_drawn K now (d', u', f') X'"
proof -
  obtain C D k S where X: "X = (C, (D, k), S)" by (metis prod.exhaust)
  obtain u1 C1 where c: "refresh_drawn L (da_reg d) (u, C) = (u1, C1)" by (rule prod.exhaust)
  obtain g u2 D1 k1 where q: "refresh_pool_drawn (da_net d) now (da_cmd d) ((da_graphs d, u1), (D, k)) = ((g, u2), (D1, k1))"
    by (metis prod.exhaust)
  obtain svcs ats f1 st S1 where s: "refresh_strip_drawn K L now (fst (redis_take_evict_targets EVICT_TARGETS_MAX (da_evict d)))
      (((da_services d, da_apttemps d, f), da_stale d), S) = (((svcs, ats, f1), st), S1)"
    by (metis prod.exhaust)
  let ?u3 = "textsize_overlay (da_cmd d) (grid_overlay (da_cmd d) u2)"
  have e: "d' = d\<lparr>da_graphs := g, da_evict := snd (redis_take_evict_targets EVICT_TARGETS_MAX (da_evict d)),
        da_services := svcs, da_apttemps := ats, da_stale := st\<rparr>" "u' = ?u3" "f' = f1" "X' = (C1, (D1, k1), S1)"
    using assms(4) s by (simp_all add: X ui_refresh_drawn_def c q split: prod.splits)
  note inv = assms(2) [unfolded screen_ok_def prod.case] and dr = assms(3) [unfolded X drawn_ok_def prod.case]
  have reg: "registry_inv (da_reg d)" using inv by (simp add: dash_inv_def)
  then have fit: "\<forall>c \<in> set (reg_clients (da_reg d)). fits (ci_hostname c)" by (auto simp: registry_inv_def)
  have board: "board_ok (da_reg d)" using reg by (auto simp: board_ok_def registry_inv_def list_all_iff)
  have c1: "drawn_inv (u1, C1)"
    using refresh_follows [OF assms(1) board_clients [OF board] conjunct1 [OF dr]] by (simp add: c)
  have u1: "u1 = refresh_cards L (da_reg d) u" using refresh_drawn_fst [of L "da_reg d" "(u, C)"] c by simp
  have bc: "beside_cards u u1" using refresh_cards_keeps [OF assms(1) _ fit, of u] inv by (simp add: u1)
  have g1: "graphs_follow ((da_graphs d, u1), (D, k))"
    by (rule graphs_follow_beside [OF conjunct1 [OF conjunct2 [OF dr]]]) (use bc in \<open>simp_all add: beside_cards_def\<close>)
  have g2: "graphs_follow ((g, u2), (D1, k1))" using refresh_follows_pool [OF g1, of "da_net d" now "da_cmd d"] by (simp add: q)
  have pl: "place_pool now (da_cmd d) (evict_graphs now (da_graphs d, u1)) = (g, u2)"
    using refresh_pool_drawn_fst [of "da_net d" now "da_cmd d" "((da_graphs d, u1), (D, k))"] q by simp
  then have b: "beside_pool u1 u2" using Ui_Refresh.pool_beside [of "(da_graphs d, u1)" now "da_cmd d"] by simp
  have b3: "beside_pool u2 ?u3" by (rule overlays_beside)
  have c3: "drawn_inv (?u3, C1)" by (rule drawn_inv_beside [OF c1 beside_pool_trans [OF b b3]])
  have g3: "graphs_follow ((g, ?u3), (D1, k1))"
    by (rule graphs_follow_beside [OF g2]) (use b3 in \<open>simp_all add: beside_pool_def overlays_graphs\<close>)
  have "panel_ok (da_services d) (da_apttemps d) (da_stale d) f" using inv by simp
  note strip = strip_is_drawn [OF assms(1) this conjunct2 [OF conjunct2 [OF dr]] s]
  show "drawn_ok (d', u', f') X'" using c3 g3 strip(1) by (simp add: drawn_ok_def e)
  assume room: "length (ui_cards u) + length (filter (\<lambda>h. h \<notin> fst ` set (ui_cards u)) (card_hosts (da_reg d))) \<le> MAX_CLIENTS"
  have r: "ui_refresh K L now (d, u, f) = (d', u', f')"
    using ui_refresh_drawn_fst [of K L now "((d, u, f), X)"] assms(4) by simp
  have "map (ui_painted u') (ui_grid u') = map Some (sorted_clients (da_reg d'))"
    by (rule refresh_panel(1) [OF assms(1,2) r room])
  note cards = board_drawn [OF c3 [folded e(2)] this]
  have net: "length (wanted (da_cmd d) g) < 6 \<longrightarrow> card_redrawn (da_net d) now k1" and
    marks: "\<forall>h w s. widget_of g h = Some w \<longrightarrow> sample_of g h = Some s \<longrightarrow> h \<in> set (take 6 (wanted (da_cmd d) g)) \<longrightarrow>
       ui_stale_mark u2 w = graph_host_is_stale s now \<and>
       (dt_valid (gh_telemetry s) \<longrightarrow> (\<exists>fed. ui_fed u2 w = gh_telemetry s # fed))"
  proof -
    have p: "graphs_follow (evict_graphs_drawn now ((da_graphs d, u1), (D, k)))" by (rule evict_graphs_follow [OF g1])
    define p1 where "p1 = evict_graphs_drawn now ((da_graphs d, u1), (D, k))"
    have p1: "fst p1 = evict_graphs now (da_graphs d, u1)" by (simp add: p1_def evict_graphs_drawn_fst)
    have pi: "pool_inv (fst p1)" "pool_inv (g, u2)" using p g2 by (auto simp: p1_def graphs_follow_def split: prod.splits)
    have hosts: "map gh_host g = map gh_host (fst (fst p1))"
      using pool_placed_all [OF pi(1), of now "da_cmd d"] pl unfolding p1 by simp
    then have w: "wanted (da_cmd d) (fst (fst p1)) = wanted (da_cmd d) g"
      using pi by (intro wanted_hosts) (simp_all add: pool_inv_def)
    have i1: "pool_inv (da_graphs d, u1)" using g1 by (simp add: graphs_follow_def)
    have live: "fst (fst p1) = filter (\<lambda>s. \<not> silent now s) (da_graphs d)" using graphs_evicted [OF i1, of now] by (simp add: p1)
    have "ui_stale_mark u2 x = graph_host_is_stale s now \<and> (dt_valid (gh_telemetry s) \<longrightarrow> (\<exists>fed. ui_fed u2 x = gh_telemetry s # fed))"
      if x: "widget_of g h = Some x" "sample_of g h = Some s" "h \<in> set (take 6 (wanted (da_cmd d) g))" for h x s
    proof -
      have "h \<in> gh_host ` set g" using x(2) by (force simp: sample_of_def look_def dest: map_of_SomeD)
      then obtain s' where s': "sample_of (fst (fst p1)) h = Some s'" using hosts sample_exists by (metis list.set_map)
      note fd = refresh_feeds [OF i1 pl x(1), unfolded fst_conv, OF s' [unfolded live]]
      have "s' = s" using fd(3) x(2) by simp
      then show ?thesis using fd(1,2) x(3) unfolding live [symmetric] w by simp
    qed
    then show "\<forall>h w s. widget_of g h = Some w \<longrightarrow> sample_of g h = Some s \<longrightarrow> h \<in> set (take 6 (wanted (da_cmd d) g)) \<longrightarrow>
       ui_stale_mark u2 w = graph_host_is_stale s now \<and>
       (dt_valid (gh_telemetry s) \<longrightarrow> (\<exists>fed. ui_fed u2 w = gh_telemetry s # fed))" by blast
    show "length (wanted (da_cmd d) g) < 6 \<longrightarrow> card_redrawn (da_net d) now k1"
      using place_follows(2) [OF p, of "da_cmd d" "da_net d" now] w q by (simp add: refresh_pool_drawn_def p1_def)
  qed
  have sel: "da_graphs d' = g" "da_cmd d' = da_cmd d" "da_net d' = da_net d" "da_reg d' = da_reg d"
      "da_services d' = svcs" "da_apttemps d' = ats" "da_stale d' = st" by (simp_all add: e(1))
  have "D1 w = Some (graph_after h (ui_fed u2 w) (ui_stale_mark u2 w)) \<and> graph_ok (the (D1 w))" if "widget_of g h = Some w" for h w
    using g2 that by (simp add: graphs_follow_def graph_after_ok)
  moreover have "dom D1 = {w. \<exists>h. widget_of g h = Some w}" using g2 by (simp add: graphs_follow_def)
  ultimately show "panel_drawn K now (d', u', f') X'"
    using cards net marks strip(2) unfolding panel_drawn_def e(4) prod.case sel
    by (simp only: e(2,3) overlays_graphs) blast
qed

section \<open>A tick\<close>

lemma tick_draws:
  assumes "lv_moves L" "process_ok env ok ((d, u, f), m, fs, w)" "drawn_ok (d, u, f) X"
    and "names_fit H (snd (snd (redis_reconnect_if_needed E H (d, w))))"
    and "timer_poll_drawn E H J P K L fuel os path (((d, u, f), m, fs, w), X) = Some ((((d', u', f'), m', fs', w'), X'), saved)"
  shows "drawn_ok (d', u', f') X'"
    "fst (redis_reconnect_if_needed E H (d, w)) \<Longrightarrow>
       length (ui_cards u) + length (filter (\<lambda>h. h \<notin> fst ` set (ui_cards u)) (card_hosts (da_reg d'))) \<le> MAX_CLIENTS \<Longrightarrow>
       panel_drawn K (ev_time E w') (d', u', f') X'"
proof -
  obtain up d1 w1 where rc: "redis_reconnect_if_needed E H (d, w) = (up, d1, w1)"
    by (cases "redis_reconnect_if_needed E H (d, w)")
  have sc: "screen_ok (d, u, f)" using assms(2) by (simp add: process_ok_def)
  have "drawn_ok (d', u', f') X' \<and> (up \<longrightarrow>
      length (ui_cards u) + length (filter (\<lambda>h. h \<notin> fst ` set (ui_cards u)) (card_hosts (da_reg d'))) \<le> MAX_CLIENTS \<longrightarrow>
      panel_drawn K (ev_time E w') (d', u', f') X')"
  proof (cases up)
    case False
    then have "d' = d1" "u' = u" "f' = f" "X' = X" using assms(5) by (auto simp: timer_poll_drawn_def rc)
    then show ?thesis using drawn_ok_poll [OF assms(3) reconnect_tables(2) [OF rc] sc reconnect_tables(1) [OF rc sc]] False by simp
  next
    case True
    obtain d2 w2 where p: "redis_poll E H J P fuel (d1, w1) = Some (d2, w2)"
      using assms(5) True by (auto simp: timer_poll_drawn_def rc split: option.splits)
    obtain d3 fs3 saved3 where s: "save_admitted_if_changed os path (d2, fs) = ((d3, fs3), saved3)"
      by (cases "save_admitted_if_changed os path (d2, fs)") auto
    have r: "ui_refresh_drawn K L (ev_time E w') ((d3, u, f), X) = ((d', u', f'), X')"
      using assms(5) True by (auto simp: timer_poll_drawn_def rc p s split: prod.splits)
    have "redis_reconnect_if_needed E H (d, w) = (True, d1, w1)" using rc True by simp
    note t = tick_tables [OF assms(2) this _ p s]
    have nf: "names_fit H w1" using assms(4) by (simp add: rc)
    note out = refresh_draws [OF assms(1) t(1) [OF nf] drawn_ok_poll [OF assms(3) t(2) [OF nf] sc t(1) [OF nf]] r]
    have "ui_refresh K L (ev_time E w') (d3, u, f) = (d', u', f')"
      using ui_refresh_drawn_fst [of K L "ev_time E w'" "((d3, u, f), X)"] r by simp
    from refresh_rest(1) [OF this] have "da_reg d' = da_reg d3" by simp
    then show ?thesis using out by simp
  qed
  then show "drawn_ok (d', u', f') X'"
    "fst (redis_reconnect_if_needed E H (d, w)) \<Longrightarrow>
       length (ui_cards u) + length (filter (\<lambda>h. h \<notin> fst ` set (ui_cards u)) (card_hosts (da_reg d'))) \<le> MAX_CLIENTS \<Longrightarrow>
       panel_drawn K (ev_time E w') (d', u', f') X'"
    by (simp_all add: rc)
qed

text \<open>The registry that a tick leaves is the poll's.\<close>

lemma tick_registry:
  assumes "process_ok env ok ((d, u, f), m, fs, w)" "redis_reconnect_if_needed E H (d, w) = (True, d1, w1)" "names_fit H w1"
    and "timer_poll_drawn E H J P K L fuel os path (((d, u, f), m, fs, w), X) = Some ((((d', u', f'), m', fs', w'), X'), saved)"
  shows "\<exists>d2 w2. redis_poll E H J P fuel (d1, w1) = Some (d2, w2) \<and> card_hosts (da_reg d') = card_hosts (da_reg d2) \<and>
    registry_inv (da_reg d')"
proof -
  obtain d2 w2 where p: "redis_poll E H J P fuel (d1, w1) = Some (d2, w2)"
    using assms(4) by (auto simp: timer_poll_drawn_def assms(2) split: option.splits)
  obtain d3 fs3 saved3 where s: "save_admitted_if_changed os path (d2, fs) = ((d3, fs3), saved3)"
    by (cases "save_admitted_if_changed os path (d2, fs)") auto
  have r: "ui_refresh_drawn K L (ev_time E w') ((d3, u, f), X) = ((d', u', f'), X')"
    using assms(4) by (auto simp: timer_poll_drawn_def assms(2) p s split: prod.splits)
  have "ui_refresh K L (ev_time E w') (d3, u, f) = (d', u', f')"
    using ui_refresh_drawn_fst [of K L "ev_time E w'" "((d3, u, f), X)"] r by simp
  from refresh_rest(1) [OF this] have "da_reg d' = da_reg d3" by simp
  moreover have "card_hosts (da_reg d3) = card_hosts (da_reg d2)"
    using s by (auto simp: save_admitted_if_changed_def registry_admitted_take_dirty_def Let_def split: if_splits prod.splits)
  moreover have "registry_inv (da_reg d3)"
    using tick_tables(1) [OF assms(1,2,3) p s] by (simp add: screen_ok_def dash_inv_def)
  ultimately show ?thesis using p by auto
qed

section \<open>Runs\<close>

text \<open>The runs of the process (\<open>kpidash_run\<close>) with all that they draw.\<close>

inductive drawn_run ::
  "'w net_env \<Rightarrow> 'w hiredis \<Rightarrow> ('w \<Rightarrow> string) \<Rightarrow> 'j cjson \<Rightarrow> printers \<Rightarrow> kdash \<Rightarrow> lv_move \<Rightarrow> environment \<Rightarrow>
   bool \<Rightarrow> bool \<Rightarrow> 'w process \<times> drawn_panel \<Rightarrow> bool"
  for E H errstr J P K L env where
  drawn_begin: "drawn_run E H errstr J P K L env True True (snd (main_start E H errstr P env version rs new_id fs w), drawn_start)"
| drawn_poll: "drawn_run E H errstr J P K L env ok fit (((d, u, f), m, fs, w), X) \<Longrightarrow>
    timer_poll_drawn E H J P K L fuel os (cf_state_file (config_load env)) (((d, u, f), m, fs, w), X) = Some (px', saved) \<Longrightarrow>
    drawn_run E H errstr J P K L env (set_if saved ok)
      (fit \<and> names_fit H (snd (snd (redis_reconnect_if_needed E H (d, w))))) px'"
| drawn_memory: "drawn_run E H errstr J P K L env ok fit (pr, X) \<Longrightarrow>
    drawn_run E H errstr J P K L env ok fit (snd (memstat_timer_cb H P r new_id pr), X)"
| drawn_world: "drawn_run E H errstr J P K L env ok fit ((p, m, fs, w), X) \<Longrightarrow>
    drawn_run E H errstr J P K L env ok fit ((p, m, fs, w'), X)"

lemma drawn_run_process: "drawn_run E H errstr J P K L env ok fit px \<Longrightarrow> kpidash_run E H errstr J P K L env ok fit (fst px)"
proof (induction rule: drawn_run.induct)
  case (drawn_poll ok fit d u f m fs w X fuel os px' saved)
  have "timer_poll_cb E H J P K L fuel os (cf_state_file (config_load env)) ((d, u, f), m, fs, w) = Some (fst px', saved)"
    using timer_poll_drawn_fst [of E H J P K L fuel os "cf_state_file (config_load env)" "(((d, u, f), m, fs, w), X)"] drawn_poll.hyps(2)
    by simp
  then show ?case using run_poll drawn_poll.IH by (metis fst_conv)
qed (auto intro: run_start run_memory run_world)

lemma main_start_panel:
  "\<exists>d m fs' w'. snd (main_start E H errstr P env version rs new_id fs w) = ((d, ui_start, blank_footer), m, fs', w')"
  by (auto simp: main_start_def memstat_timer_cb_def Let_def split: prod.split)

lemma drawn_run_ok:
  assumes "lv_moves L"
  shows "drawn_run E H errstr J P K L env ok fit px \<Longrightarrow> fit \<Longrightarrow> drawn_ok (fst (fst px)) (snd px)"
proof (induction rule: drawn_run.induct)
  case (drawn_begin version rs new_id fs w)
  obtain d m fs' w' where e: "snd (main_start E H errstr P env version rs new_id fs w) = ((d, ui_start, blank_footer), m, fs', w')"
    using main_start_panel [of E H errstr P env version rs new_id fs w] by blast
  then have "screen_ok (d, ui_start, blank_footer)"
    using start_ok [of env E H errstr P version rs new_id fs w] by (simp add: process_ok_def)
  then show ?case using drawn_ok_start by (simp add: e)
next
  case (drawn_poll ok fit d u f m fs w X fuel os px' saved)
  obtain d' u' f' m' fs' w' X' where px': "px' = (((d', u', f'), m', fs', w'), X')" by (metis prod.exhaust)
  have fit: "fit" "names_fit H (snd (snd (redis_reconnect_if_needed E H (d, w))))" using drawn_poll.prems by simp_all
  then have "process_ok env ok ((d, u, f), m, fs, w)"
    using run_ok [OF assms drawn_run_process [OF drawn_poll.hyps(1)]] by simp
  then show ?case
    using tick_draws(1) [OF assms _ _ fit(2) drawn_poll.hyps(2) [unfolded px']] drawn_poll.IH fit(1) by (simp add: px')
next
  case (drawn_memory ok fit pr X r new_id)
  obtain d u f m fs w where pr: "pr = ((d, u, f), m, fs, w)" by (metis prod.exhaust)
  show ?case using drawn_memory.IH drawn_memory.prems
    by (simp add: pr memstat_timer_cb_def drawn_ok_def split: prod.split)
qed simp

section \<open>A first tick\<close>

text \<open>The first poll of \<open>Main_Loop\<close>: two members, one of which has published.\<close>

definition first_poll_drawn where
  "first_poll_drawn =
     (case first_start of (p, m, fs, w) \<Rightarrow>
        timer_poll_drawn quiet_env scripted no_json no_docs plain_kdash plain_move 3 lucky
          (cf_state_file (config_load (\<lambda>v. None))) ((p, m, fs, two_members), drawn_start))"

lemma first_state:
  "\<exists>d u f m fs. drawn_run quiet_env scripted (\<lambda>w. []) no_json no_docs plain_kdash plain_move (\<lambda>v. None) True True
       (((d, u, f), m, fs, two_members), drawn_start) \<and>
     redis_reconnect_if_needed quiet_env scripted (d, two_members) = (True, d, two_members) \<and> names_fit scripted two_members \<and>
     redis_is_connected scripted (da_conn d, two_members) \<and> ui_cards u = [] \<and> card_hosts (da_reg d) = [] \<and> reg_admitted (da_reg d) = [] \<and>
     first_poll_drawn = timer_poll_drawn quiet_env scripted no_json no_docs plain_kdash plain_move 3 lucky
       (cf_state_file (config_load (\<lambda>v. None))) (((d, u, f), m, fs, two_members), drawn_start)"
proof -
  let ?run = "drawn_run quiet_env scripted (\<lambda>w. []) no_json no_docs plain_kdash plain_move (\<lambda>v. None)"
  obtain d u f m fs w where s: "first_start = ((d, u, f), m, fs, w)" by (cases first_start) auto
  have "(case first_start of ((d, u, f), m, fs, w) \<Rightarrow>
      cn_ctx (da_conn d) \<and> ui_cards u = [] \<and> card_hosts (da_reg d) = [] \<and> reg_admitted (da_reg d) = [])"
    by code_simp
  then have c: "cn_ctx (da_conn d)" "ui_cards u = []" "card_hosts (da_reg d) = []" "reg_admitted (da_reg d) = []"
    by (simp_all add: s)
  have "?run True True (first_start, drawn_start)" unfolding first_start_def by (rule drawn_begin)
  then have r: "?run True True (((d, u, f), m, fs, two_members), drawn_start)" unfolding s by (rule drawn_world)
  have up: "redis_is_connected scripted (da_conn d, two_members)"
    using c(1) by (simp add: redis_is_connected_def scripted_def)
  then have "redis_reconnect_if_needed quiet_env scripted (d, two_members) = (True, d, two_members)"
    by (simp add: redis_reconnect_if_needed_def)
  moreover have "names_fit scripted two_members"
    by (simp add: names_fit_def two_members_def scripted_def member_names_def element_name_def fits_def)
  ultimately show ?thesis using r up c by (force simp: first_poll_drawn_def s)
qed

lemma first_result:
  "\<exists>d u f m fs w X. first_poll_drawn = Some ((((d, u, f), m, fs, w), X), Some True) \<and> card_hosts (da_reg d) = [''kai''] \<and>
     length (ui_grid u) = 1"
proof -
  have "map_option (\<lambda>(((d, u, f), m, fs, w), saved). (card_hosts (da_reg d), saved, length (ui_grid u))) first_poll =
      Some ([''kai''], Some True, 1)"
    by code_simp
  then obtain d u f m fs w where p: "first_poll = Some (((d, u, f), m, fs, w), Some True)"
      "card_hosts (da_reg d) = [''kai'']" "length (ui_grid u) = 1"
    by (cases first_poll) auto
  obtain d0 u0 f0 m0 fs0 w0 where s: "first_start = ((d0, u0, f0), m0, fs0, w0)" by (cases first_start) auto
  have "map_option (\<lambda>(px, saved). (fst px, saved)) first_poll_drawn = first_poll"
    by (simp add: first_poll_drawn_def first_poll_def s timer_poll_drawn_fst)
  with p(1) have "map_option (\<lambda>(px, saved). (fst px, saved)) first_poll_drawn = Some (((d, u, f), m, fs, w), Some True)"
    by simp
  then obtain px where px: "first_poll_drawn = Some (px, Some True)" "fst px = ((d, u, f), m, fs, w)"
    unfolding map_option_eq_Some by auto
  have t: "first_poll_drawn = Some ((((d, u, f), m, fs, w), snd px), Some True)"
    unfolding px(1) px(2) [symmetric] prod.collapse ..
  show ?thesis by (intro exI conjI, rule t, rule p(2), rule p(3))
qed

section \<open>Properties\<close>





end
